(* ===== verification/Prelude.thy ===== *)
theory Prelude
  imports Main "HOL-Library.Word"
begin

text \<open>
  Shared vocabulary of the development: the machine integers of the code, the results of
  fallible operations, the constants of \<^verbatim>\<open>include/Common.h\<close>, and the generic
  lemmas on counting loops and array updates that the component theories use.

  An operation that can fail returns a value of the sum type \<open>err + 'a\<close>. \<open>Inl\<close> stands for
  the ways in which the C++ code does not come back with a result: a violated
  \<^verbatim>\<open>assert\<close> (the build never defines \<^verbatim>\<open>NDEBUG\<close>), an access outside an
  array or to memory that holds no page, a lock that nobody will release, and a loop that
  was not given enough fuel.
\<close>

section \<open>Machine integers\<close>

type_synonym u8 = "8 word"
type_synonym u16 = "16 word"
type_synonym u32 = "32 word"
type_synonym u64 = "64 word"

text \<open>\<^verbatim>\<open>using Key = uint64_t; using Value = uint64_t;\<close>\<close>

type_synonym key = u64
type_synonym val = u64

definition kKeyMin :: key where "kKeyMin = 0"
definition kKeyMax :: key where "kKeyMax = - 1"
definition kValueNull :: val where "kValueNull = 0"

lemma kKeyMin_le [simp]: "kKeyMin \<le> k"
  by (simp add: kKeyMin_def)

lemma le_kKeyMax [simp]: "k \<le> kKeyMax"
  by (simp add: kKeyMax_def)

lemma not_kKeyMax_less [simp]: "\<not> kKeyMax < k"
  by (simp add: linorder_not_less)

lemma kKeyMin_less_Max [simp]: "kKeyMin < kKeyMax"
  unfolding kKeyMin_def kKeyMax_def by (subst word_gt_0) simp

lemma le_minus_one_word:
  fixes hi :: "'a::len word"
  assumes "lo < hi"
  shows "k \<le> hi - 1 \<longleftrightarrow> k < hi"
proof -
  have "hi \<noteq> 0" using assms by auto
  then have "unat (hi - 1) = unat hi - 1" and "0 < unat hi"
    by (simp_all add: unat_minus_one unat_gt_0)
  then show ?thesis by (auto simp: word_le_nat_alt word_less_nat_alt)
qed

text \<open>
  The wrap-around of an \<^verbatim>\<open>int16_t\<close> field: the value an \<^verbatim>\<open>int\<close> result has after
  it was stored in 16 bits of two's complement.
\<close>

definition wrap16 :: "int \<Rightarrow> int" where
  "wrap16 x = (x + 2 ^ 15) mod 2 ^ 16 - 2 ^ 15"

lemma wrap16_id [simp]: "- 32768 \<le> x \<Longrightarrow> x \<le> 32767 \<Longrightarrow> wrap16 x = x"
  by (simp add: wrap16_def)

section \<open>Constants of Common.h\<close>

definition MB :: nat where "MB = 1024 * 1024"
definition GB :: nat where "GB = 1024 * MB"
definition kChunkSize :: nat where "kChunkSize = 32 * MB"
definition kRootPointerStoreOffest :: nat where
  "kRootPointerStoreOffest = kChunkSize div 2"
definition kLockChipMemSize :: nat where "kLockChipMemSize = 256 * 1024"
definition kNumOfLock :: nat where "kNumOfLock = kLockChipMemSize div 8"
definition kMaxLevelOfTree :: nat where "kMaxLevelOfTree = 7"
definition kMaxCoro :: nat where "kMaxCoro = 8"
definition kPerCoroRdmaBuf :: nat where "kPerCoroRdmaBuf = 128 * 1024"
definition kMaxHandOverTime :: u8 where "kMaxHandOverTime = 8"
definition kIndexCacheSize :: nat where "kIndexCacheSize = 1000"
definition MAX_APP_THREAD :: nat where "MAX_APP_THREAD = 26"
definition NR_DIRECTORY :: nat where "NR_DIRECTORY = 1"
definition kInternalPageSize :: nat where "kInternalPageSize = 1024"
definition kLeafPageSize :: nat where "kLeafPageSize = 1024"

lemmas common_defs = MB_def GB_def kChunkSize_def kRootPointerStoreOffest_def
  kLockChipMemSize_def kNumOfLock_def kMaxLevelOfTree_def kMaxCoro_def
  kPerCoroRdmaBuf_def kMaxHandOverTime_def kIndexCacheSize_def MAX_APP_THREAD_def
  NR_DIRECTORY_def kInternalPageSize_def kLeafPageSize_def

section \<open>Results of fallible operations\<close>

datatype err =
    AssertFail string   \<comment> \<open>an \<^verbatim>\<open>assert\<close> of the code is violated\<close>
  | OutOfBounds         \<comment> \<open>an index outside an array\<close>
  | WildAccess          \<comment> \<open>a remote access to memory that holds no such page\<close>
  | Blocked             \<comment> \<open>a spin loop whose condition nobody will make true\<close>
  | OutOfFuel           \<comment> \<open>the bound on the number of loop iterations is used up\<close>

definition rbind :: "'e + 'a \<Rightarrow> ('a \<Rightarrow> 'e + 'b) \<Rightarrow> 'e + 'b" where
  "rbind m f = (case m of Inl e \<Rightarrow> Inl e | Inr x \<Rightarrow> f x)"

definition require :: "bool \<Rightarrow> err \<Rightarrow> err + unit" where
  "require b e = (if b then Inr () else Inl e)"

abbreviation assert_that :: "bool \<Rightarrow> string \<Rightarrow> err + unit" where
  "assert_that b msg \<equiv> require b (AssertFail msg)"

lemma rbind_simps [simp]:
  "rbind (Inl e) f = Inl e"
  "rbind (Inr x) f = f x"
  by (simp_all add: rbind_def)

lemma rbind_Inr_iff: "rbind m f = Inr y \<longleftrightarrow> (\<exists>x. m = Inr x \<and> f x = Inr y)"
  by (cases m) auto

lemma rbind_cong [fundef_cong]:
  "m = m' \<Longrightarrow> (\<And>x. m' = Inr x \<Longrightarrow> f x = f' x) \<Longrightarrow> rbind m f = rbind m' f'"
  by (cases m') auto

lemma rbind_assoc: "rbind (rbind m f) g = rbind m (\<lambda>x. rbind (f x) g)"
  by (cases m) simp_all

lemma rbind_case_prod:
  "rbind (case x of (a, b) \<Rightarrow> f a b) g = (case x of (a, b) \<Rightarrow> rbind (f a b) g)"
  by (cases x) simp

lemma rbind_if: "rbind (if c then x else y) g = (if c then rbind x g else rbind y g)"
  by simp

lemmas rbind_norm = rbind_assoc rbind_case_prod rbind_if

text \<open>Loops over a list whose body can fail.\<close>

fun for_each :: "('i \<Rightarrow> 's \<Rightarrow> 'e + 's) \<Rightarrow> 'i list \<Rightarrow> 's \<Rightarrow> 'e + 's" where
  "for_each f [] s = Inr s"
| "for_each f (i # is) s = rbind (f i s) (for_each f is)"

lemma for_each_append: "for_each f (is @ js) s = rbind (for_each f is s) (for_each f js)"
proof (induction "is" arbitrary: s)
  case (Cons i "is")
  have "for_each f (is @ js) = (\<lambda>s. rbind (for_each f is s) (for_each f js))"
    by (rule ext) (rule Cons.IH)
  then show ?case by (simp add: rbind_assoc)
qed simp

lemma for_each_map: "for_each f (map g xs) s = for_each (\<lambda>x. f (g x)) xs s"
  by (induction xs arbitrary: s) (simp_all add: rbind_def split: sum.split)

lemma for_each_nested: "for_each (\<lambda>i. for_each (f i) js) is s = for_each (\<lambda>(i, j). f i j) (List.product is js) s"
  by (induction "is" arbitrary: s) (simp_all add: for_each_append for_each_map rbind_def split: sum.split)

lemma require_simps [simp]:
  "b \<Longrightarrow> require b e = Inr ()"
  "\<not> b \<Longrightarrow> require b e = Inl e"
  by (simp_all add: require_def)

lemma require_Inr_iff [simp]: "require b e = Inr u \<longleftrightarrow> b"
  by (simp add: require_def)

section \<open>Counting loops over arrays\<close>

text \<open>
  A loop \<^verbatim>\<open>for (i = a; i < b; ++i) body\<close> whose body updates an array is
  \<open>fold body [a..<b]\<close>; a loop that counts down runs over \<open>rev [a..<b]\<close>. The lemmas
  give the array after the two loops of the tree code: shifting a range up by one, and
  storing a value into each place of a range.
\<close>

lemma map_upt_shift: "map (\<lambda>i. f (a + i)) [0..<s] = map f [a..<a + s]"
  by (rule nth_equalityI) simp_all

lemma length_fold_update:
  "(\<And>i xs. length (f i xs) = length xs) \<Longrightarrow> length (fold f is xs) = length xs"
  by (induction "is" arbitrary: xs) simp_all

lemma nth_fold_shift_up:
  "c < length xs \<Longrightarrow> a \<le> c \<Longrightarrow>
   fold (\<lambda>i xs. xs[i := xs ! (i - 1)]) (rev [Suc a..<Suc c]) xs ! j =
     (if a < j \<and> j \<le> c then xs ! (j - 1) else xs ! j)"
proof (induction c arbitrary: xs)
  case 0
  then show ?case by simp
next
  case (Suc c)
  show ?case
  proof (cases "a \<le> c")
    case True
    define ys where "ys = xs[Suc c := xs ! c]"
    have "fold (\<lambda>i xs. xs[i := xs ! (i - 1)]) (rev [Suc a..<Suc (Suc c)]) xs
        = fold (\<lambda>i xs. xs[i := xs ! (i - 1)]) (rev [Suc a..<Suc c]) ys"
      using True by (simp add: ys_def)
    moreover have "c < length ys" using Suc.prems by (simp add: ys_def)
    ultimately show ?thesis
      using Suc.IH [of ys] True Suc.prems by (auto simp: ys_def nth_list_update)
  next
    case False
    with Suc.prems show ?thesis by auto
  qed
qed

lemma nth_fold_modify:
  "a \<le> b \<Longrightarrow> j < length ys \<Longrightarrow>
   fold (\<lambda>i ys. ys[i - a := h i (ys ! (i - a))]) [b..<c] ys ! j =
     (if b \<le> j + a \<and> j + a < c then h (j + a) (ys ! j) else ys ! j)"
proof (induction c arbitrary: j)
  case 0
  then show ?case by simp
next
  case (Suc c)
  have len: "length (fold (\<lambda>i ys. ys[i - a := h i (ys ! (i - a))]) [b..<c] ys) = length ys"
    by (rule length_fold_update) simp
  show ?case
  proof (cases "b \<le> c")
    case True
    moreover have "c - a = j \<longleftrightarrow> c = j + a" using True Suc.prems by auto
    ultimately show ?thesis
      using Suc.IH [of j] Suc.prems len by (auto simp: nth_list_update)
  next
    case False
    then show ?thesis using Suc by auto
  qed
qed

lemma nth_fold_store:
  "a \<le> b \<Longrightarrow> j < length ys \<Longrightarrow>
   fold (\<lambda>i ys. ys[i - a := g i]) [b..<c] ys ! j =
     (if b \<le> j + a \<and> j + a < c then g (j + a) else ys ! j)"
  by (rule nth_fold_modify [where h = "\<lambda>i _. g i"])

end
