(* ===== verification/GlobalAddr.thy ===== *)
theory GlobalAddr
  imports Prelude
begin

text \<open>
  Addresses in disaggregated memory, \<^verbatim>\<open>include/GlobalAddress.h\<close>: a node number in
  16 bits and an offset in 48 bits, packed in one 64-bit word that remote
  compare-and-swap and messages carry (\<open>addr_val\<close>, the member \<^verbatim>\<open>val\<close> of the
  union; the bit-fields are allocated from the least significant bit, as GCC does).
\<close>

unbundle bit_operations_syntax

record GlobalAddress =
  nodeID :: "16 word"
  offset :: "48 word"

definition gaddr_null :: GlobalAddress where
  "gaddr_null = \<lparr>nodeID = 0, offset = 0\<rparr>"

definition addr_val :: "GlobalAddress \<Rightarrow> u64" where
  "addr_val a = ucast (nodeID a) OR push_bit 16 (ucast (offset a))"

definition addr_of_val :: "u64 \<Rightarrow> GlobalAddress" where
  "addr_of_val v = \<lparr>nodeID = ucast v, offset = ucast (drop_bit 16 v)\<rparr>"

definition GADD :: "GlobalAddress \<Rightarrow> int \<Rightarrow> GlobalAddress" where
  "GADD a off = a\<lparr>offset := offset a + of_int off\<rparr>"

definition gaddr_eq :: "GlobalAddress \<Rightarrow> GlobalAddress \<Rightarrow> bool" where
  "gaddr_eq lhs rhs \<longleftrightarrow> nodeID lhs = nodeID rhs \<and> offset lhs = offset rhs"

lemma gaddr_eq_iff [simp]: "gaddr_eq a b \<longleftrightarrow> a = b"
  by (auto simp: gaddr_eq_def)

lemma addr_of_val_addr_val [simp]: "addr_of_val (addr_val a) = a"
proof -
  have "nodeID (addr_of_val (addr_val a)) = nodeID a"
    by (rule bit_word_eqI) (simp add: addr_of_val_def addr_val_def bit_simps)
  moreover have "offset (addr_of_val (addr_val a)) = offset a"
    by (rule bit_word_eqI)
      (auto simp: addr_of_val_def addr_val_def bit_simps dest: bit_imp_le_length)
  ultimately show ?thesis by (simp add: GlobalAddress.equality)
qed

lemma addr_val_addr_of_val [simp]: "addr_val (addr_of_val v) = v"
proof (rule bit_word_eqI)
  fix n :: nat
  assume "n < LENGTH(64)"
  then show "bit (addr_val (addr_of_val v)) n \<longleftrightarrow> bit v n"
    by (cases "n < 16") (auto simp: addr_of_val_def addr_val_def bit_simps)
qed

lemma addr_val_inject [simp]: "addr_val a = addr_val b \<longleftrightarrow> a = b"
  by (metis addr_of_val_addr_val)

lemma addr_val_null [simp]: "addr_val gaddr_null = 0"
  by (simp add: addr_val_def gaddr_null_def)

lemma addr_val_eq_0_iff [simp]: "addr_val a = 0 \<longleftrightarrow> a = gaddr_null"
  by (metis addr_val_inject addr_val_null)

text \<open>Packing an address in its 64-bit word loses nothing: unpacking the word
  gives the address back, every word is the packing of the address it unpacks to, and
  two addresses are equal in the sense of \<^verbatim>\<open>operator==\<close> exactly if their words are
  equal, so that comparing words in a remote compare-and-swap compares addresses.\<close>

theorem gaddr_pack_roundtrip:
  "addr_of_val (addr_val a) = a \<and> addr_val (addr_of_val v) = v
   \<and> (gaddr_eq a b \<longleftrightarrow> addr_val a = addr_val b)"
  by simp

lemma GADD_0 [simp]: "GADD a 0 = a"
  by (simp add: GADD_def)

lemma GADD_GADD: "GADD (GADD a x) y = GADD a (x + y)"
  by (simp add: GADD_def add.assoc)

lemma nodeID_GADD [simp]: "nodeID (GADD a x) = nodeID a"
  by (simp add: GADD_def)

end
