(* ===== verification/Alloc.thy ===== *)
theory Alloc
  imports GlobalAddr
begin

text \<open>
  The two allocators. \<^verbatim>\<open>include/GlobalAllocator.h\<close> hands out 32 MB chunks of one
  memory node from a bitmap (the directory thread owns it); \<^verbatim>\<open>include/LocalAllocator.h\<close>
  is the log-structured allocator of one client thread, which cuts pages off its current
  chunk. Sizes and indices (\<^verbatim>\<open>size_t\<close>) are natural numbers; addresses keep their
  48-bit offsets, so that an addition that leaves the address space wraps around.
\<close>

section \<open>Chunks\<close>

record GlobalAllocator =
  ga_start :: GlobalAddress
  ga_size :: nat
  bitmap :: "bool list"
  bitmap_len :: nat
  bitmap_tail :: nat

definition new_GlobalAllocator :: "GlobalAddress \<Rightarrow> nat \<Rightarrow> err + GlobalAllocator" where
  "new_GlobalAllocator start sz =
     (let len = sz div kChunkSize
      in if len = 0 then Inl OutOfBounds
         else Inr \<lparr>ga_start = start, ga_size = sz, bitmap = (replicate len False)[0 := True],
                   bitmap_len = len, bitmap_tail = 1\<rparr>)"

definition alloc_chunck :: "GlobalAllocator \<Rightarrow> err + GlobalAddress \<times> GlobalAllocator" where
  "alloc_chunck ga =
     rbind (assert_that (\<not> bitmap_tail ga \<ge> bitmap_len ga) ''shared memory space run out'') (\<lambda>_.
     if bitmap ga ! bitmap_tail ga = False then
       Inr ((ga_start ga)\<lparr>offset := offset (ga_start ga)
               + of_nat (bitmap_tail ga * kChunkSize)\<rparr>,
            ga\<lparr>bitmap := (bitmap ga)[bitmap_tail ga := True],
               bitmap_tail := bitmap_tail ga + 1\<rparr>)
     else Inl (AssertFail ''TODO''))"

text \<open>The index is computed in 64-bit unsigned arithmetic.\<close>

definition free_chunk :: "GlobalAddress \<Rightarrow> GlobalAllocator \<Rightarrow> err + GlobalAllocator" where
  "free_chunk a ga =
     (let i = unat ((ucast (offset a) :: u64) - ucast (offset (ga_start ga))) div kChunkSize
      in if i < length (bitmap ga) then Inr (ga\<lparr>bitmap := (bitmap ga)[i := False]\<rparr>)
         else Inl OutOfBounds)"

text \<open>
  The invariant: the bitmap has its length, the places from the tail on are free, and the
  region ends inside the 48-bit address space.
\<close>

definition ga_end :: "GlobalAllocator \<Rightarrow> nat" where
  "ga_end ga = unat (offset (ga_start ga)) + bitmap_len ga * kChunkSize"

definition ga_next :: "GlobalAllocator \<Rightarrow> nat" where
  "ga_next ga = unat (offset (ga_start ga)) + bitmap_tail ga * kChunkSize"

definition ga_inv :: "GlobalAllocator \<Rightarrow> bool" where
  "ga_inv ga \<longleftrightarrow> length (bitmap ga) = bitmap_len ga \<and> 1 \<le> bitmap_tail ga
     \<and> bitmap_tail ga \<le> bitmap_len ga
     \<and> (\<forall>i. bitmap_tail ga \<le> i \<and> i < bitmap_len ga \<longrightarrow> \<not> bitmap ga ! i)
     \<and> ga_end ga < 2 ^ 48"

lemma kChunkSize_pos [simp]: "0 < kChunkSize"
  by (simp add: common_defs)

lemma new_GlobalAllocator_inv:
  "new_GlobalAllocator start sz = Inr ga \<Longrightarrow> unat (offset start) + sz < 2 ^ 48 \<Longrightarrow> ga_inv ga"
  by (auto simp: new_GlobalAllocator_def ga_inv_def ga_end_def Let_def nth_list_update
      split: if_splits intro: le_less_trans [rotated])

lemma unat_add_of_nat48:
  "unat (x :: 48 word) + n < 2 ^ 48 \<Longrightarrow> unat (x + of_nat n) = unat x + n"
  by (subst unat_word_ariths) (simp add: unat_of_nat)

lemma alloc_chunck_spec:
  assumes inv: "ga_inv ga" and al: "alloc_chunck ga = Inr (a, ga')"
  shows "ga_inv ga'" and "nodeID a = nodeID (ga_start ga)" and "unat (offset a) = ga_next ga"
    and "ga_next ga' = ga_next ga + kChunkSize" and "ga_next ga' \<le> ga_end ga"
    and "ga_start ga' = ga_start ga" and "ga_end ga' = ga_end ga"
proof -
  have t: "bitmap_tail ga < bitmap_len ga" and a: "a = (ga_start ga)\<lparr>offset :=
      offset (ga_start ga) + of_nat (bitmap_tail ga * kChunkSize)\<rparr>"
    and ga': "ga' = ga\<lparr>bitmap := (bitmap ga)[bitmap_tail ga := True],
      bitmap_tail := bitmap_tail ga + 1\<rparr>"
    using al by (auto simp: alloc_chunck_def rbind_Inr_iff split: if_splits)
  have "Suc (bitmap_tail ga) * kChunkSize \<le> bitmap_len ga * kChunkSize"
    using t by (intro mult_le_mono1) simp
  then have le: "ga_next ga + kChunkSize \<le> ga_end ga"
    by (simp add: ga_next_def ga_end_def)
  show "ga_inv ga'" using inv t by (auto simp: ga' ga_inv_def ga_end_def nth_list_update)
  show "nodeID a = nodeID (ga_start ga)" by (simp add: a)
  have "unat (offset (ga_start ga)) + bitmap_tail ga * kChunkSize < 2 ^ 48"
    using le inv by (simp add: ga_inv_def ga_next_def)
  then show "unat (offset a) = ga_next ga"
    by (simp add: a ga_next_def unat_add_of_nat48 del: of_nat_mult)
  show "ga_next ga' = ga_next ga + kChunkSize" by (simp add: ga' ga_next_def)
  then show "ga_next ga' \<le> ga_end ga" using le by simp
  show "ga_start ga' = ga_start ga" "ga_end ga' = ga_end ga" by (simp_all add: ga' ga_end_def)
qed

lemma alloc_chunck_ok:
  "ga_inv ga \<Longrightarrow> bitmap_tail ga < bitmap_len ga \<Longrightarrow> \<exists>a ga'. alloc_chunck ga = Inr (a, ga')"
  by (auto simp: alloc_chunck_def ga_inv_def)

section \<open>Pages of a chunk\<close>

record LocalAllocator =
  la_head :: GlobalAddress
  la_cur :: GlobalAddress
  log_heads :: "GlobalAddress list"

definition new_LocalAllocator :: LocalAllocator where
  "new_LocalAllocator = \<lparr>la_head = gaddr_null, la_cur = gaddr_null, log_heads = []\<rparr>"

text \<open>The result is the address, \<^verbatim>\<open>need_chunck\<close>, and the allocator after the call.
  The comparison is made in 64 bits.\<close>

definition la_malloc :: "nat \<Rightarrow> LocalAllocator \<Rightarrow> GlobalAddress \<times> bool \<times> LocalAllocator" where
  "la_malloc sz la =
     (let res = la_cur la
      in if log_heads la = []
            \<or> (ucast (offset (la_head la)) :: u64) + of_nat kChunkSize
                < (ucast (offset (la_cur la)) :: u64) + of_nat sz
         then (res, True, la)
         else (res, False, la\<lparr>la_cur := (la_cur la)
                 \<lparr>offset := offset (la_cur la) + of_nat sz\<rparr>\<rparr>))"

definition la_set_chunck :: "GlobalAddress \<Rightarrow> LocalAllocator \<Rightarrow> LocalAllocator" where
  "la_set_chunck a la = la\<lparr>log_heads := log_heads la @ [a], la_head := a, la_cur := a\<rparr>"

definition la_free :: "GlobalAddress \<Rightarrow> LocalAllocator \<Rightarrow> LocalAllocator" where
  "la_free a la = la"

definition la_inv :: "LocalAllocator \<Rightarrow> bool" where
  "la_inv la \<longleftrightarrow> log_heads la \<noteq> [] \<longrightarrow>
     nodeID (la_cur la) = nodeID (la_head la)
     \<and> unat (offset (la_head la)) \<le> unat (offset (la_cur la))
     \<and> unat (offset (la_cur la)) \<le> unat (offset (la_head la)) + kChunkSize
     \<and> unat (offset (la_head la)) + kChunkSize < 2 ^ 48"

lemma unat_ucast_48_64 [simp]: "unat (ucast (x :: 48 word) :: u64) = unat x"
  proof -
  have "unat x < 2 ^ 48" using unsigned_less [of x] by simp
  then show ?thesis by (simp add: unsigned_ucast_eq take_bit_nat_eq_self)
qed

lemma la_malloc_cmp:
  assumes "sz \<le> kChunkSize"
  shows "(ucast (offset (la_head la)) :: u64) + of_nat kChunkSize
           < (ucast (offset (la_cur la)) :: u64) + of_nat sz \<longleftrightarrow>
         unat (offset (la_head la)) + kChunkSize < unat (offset (la_cur la)) + sz"
proof -
  have lt: "unat (x :: 48 word) < 2 ^ 48" for x using unsigned_less [of x] by simp
  have "unat ((ucast (x :: 48 word) :: u64) + of_nat n) = unat x + n" if "n \<le> kChunkSize" for x n
    using lt [of x] that by (subst unat_word_ariths) (simp add: unat_of_nat common_defs)
  with assms show ?thesis by (simp add: word_less_nat_alt)
qed

text \<open>A successful cut: the page starts at the old cursor and ends at the new one, inside
  the chunk.\<close>

lemma la_malloc_spec:
  assumes inv: "la_inv la" and m: "la_malloc sz la = (a, False, la')" and szle: "sz \<le> kChunkSize"
  shows "la_inv la'" "a = la_cur la" "log_heads la' = log_heads la" "la_head la' = la_head la"
    "log_heads la \<noteq> []" "nodeID (la_cur la') = nodeID a"
    "unat (offset (la_cur la')) = unat (offset a) + sz"
    "unat (offset a) + sz \<le> unat (offset (la_head la)) + kChunkSize"
proof -
  have ne: "log_heads la \<noteq> []" and a: "a = la_cur la"
    and fits: "unat (offset (la_cur la)) + sz \<le> unat (offset (la_head la)) + kChunkSize"
    and la': "la' = la\<lparr>la_cur := (la_cur la)\<lparr>offset := offset (la_cur la) + of_nat sz\<rparr>\<rparr>"
    using m by (auto simp: la_malloc_def Let_def la_malloc_cmp [OF szle] split: if_splits)
  with inv have un: "unat (offset (la_cur la')) = unat (offset a) + sz"
    by (simp add: la_inv_def unat_add_of_nat48)
  show "la_inv la'" using inv ne fits un unfolding la_inv_def by (simp add: la' a)
  show "a = la_cur la" by (rule a)
  show "log_heads la' = log_heads la" "la_head la' = la_head la" "log_heads la \<noteq> []"
    using ne by (simp_all add: la')
  show "nodeID (la_cur la') = nodeID a" by (simp add: la' a)
  show "unat (offset (la_cur la')) = unat (offset a) + sz" by (rule un)
  show "unat (offset a) + sz \<le> unat (offset (la_head la)) + kChunkSize"
    using fits a by simp
qed

lemma la_malloc_need:
  "la_malloc sz la = (a, True, la') \<Longrightarrow> la' = la \<and> a = la_cur la"
  by (auto simp: la_malloc_def Let_def split: if_splits)

lemma la_malloc_fresh_chunk:
  assumes "sz \<le> kChunkSize"
  shows "\<exists>la'. la_malloc sz (la_set_chunck c la) = (c, False, la')"
  using la_malloc_cmp [OF assms, of "la_set_chunck c la"] assms
  by (auto simp: la_malloc_def la_set_chunck_def Let_def)

text \<open>
  A request larger than a chunk is never satisfied: even right after a new chunk was
  installed the allocator asks for another one, and hands out the start of the chunk
  without reserving it.
\<close>

lemma la_malloc_oversize:
  assumes "kChunkSize < sz" "sz < 2 ^ 32"
  shows "la_malloc sz (la_set_chunck c la) = (c, True, la_set_chunck c la)"
proof -
  have lt: "unat (offset c) < 2 ^ 48" using unsigned_less [of "offset c"] by simp
  have "unat ((ucast (offset c) :: u64) + of_nat n) = unat (offset c) + n" if "n < 2 ^ 32" for n
    using lt that by (subst unat_word_ariths) (simp add: unat_of_nat)
  with assms have "(ucast (offset c) :: u64) + of_nat kChunkSize < ucast (offset c) + of_nat sz"
    by (simp add: word_less_nat_alt)
  then show ?thesis by (simp add: la_malloc_def la_set_chunck_def Let_def)
qed

section \<open>The interface of page allocation\<close>

text \<open>
  What a client of page allocation relies on: a set of bytes (node and offset) not yet
  handed out, from which each allocation takes its page and to which nothing returns. The
  null address is never available.
\<close>

definition bytes_of :: "GlobalAddress \<Rightarrow> nat \<Rightarrow> (16 word \<times> nat) set" where
  "bytes_of a n = {nodeID a} \<times> {unat (offset a)..<unat (offset a) + n}"

definition first_byte :: "GlobalAddress \<Rightarrow> 16 word \<times> nat" where
  "first_byte a = (nodeID a, unat (offset a))"

lemma first_byte_in [simp]: "0 < n \<Longrightarrow> first_byte a \<in> bytes_of a n"
  by (simp add: first_byte_def bytes_of_def)

lemma first_byte_inject [simp]: "first_byte a = first_byte b \<longleftrightarrow> a = b"
  by (auto simp: first_byte_def unsigned_word_eqI intro!: GlobalAddress.equality)

text \<open>\<open>n\<close> allocations in a row, and the addresses they return.\<close>

fun alloc_seq :: "('s \<Rightarrow> err + GlobalAddress \<times> 's) \<Rightarrow> nat \<Rightarrow> 's \<Rightarrow> err + GlobalAddress list \<times> 's" where
  "alloc_seq al 0 s = Inr ([], s)"
| "alloc_seq al (Suc n) s =
     rbind (al s) (\<lambda>(a, s1). rbind (alloc_seq al n s1) (\<lambda>(as, s2). Inr (a # as, s2)))"

locale page_allocator =
  fixes al :: "'s \<Rightarrow> err + GlobalAddress \<times> 's"
    and inv :: "'s \<Rightarrow> bool"
    and avail :: "'s \<Rightarrow> (16 word \<times> nat) set"
    and sz :: nat
  assumes al_inv: "inv s \<Longrightarrow> al s = Inr (a, s') \<Longrightarrow> inv s'"
    and al_takes: "inv s \<Longrightarrow> al s = Inr (a, s') \<Longrightarrow> bytes_of a sz \<subseteq> avail s"
    and al_avail: "inv s \<Longrightarrow> al s = Inr (a, s') \<Longrightarrow> avail s' \<subseteq> avail s - bytes_of a sz"
    and null_unavail: "inv s \<Longrightarrow> first_byte gaddr_null \<notin> avail s"
    and size_pos: "0 < sz"
begin

lemma al_fresh:
  assumes "inv s" "al s = Inr (a, s')"
  shows "first_byte a \<in> avail s" "first_byte a \<notin> avail s'" "a \<noteq> gaddr_null"
    "avail s' \<subseteq> avail s"
  using al_takes [OF assms] al_avail [OF assms] null_unavail [OF assms(1)]
    first_byte_in [OF size_pos] by blast+

lemma alloc_seq_spec:
  "inv s \<Longrightarrow> alloc_seq al n s = Inr (as, s') \<Longrightarrow>
   inv s' \<and> avail s' \<subseteq> avail s \<and> length as = n
   \<and> (\<forall>a \<in> set as. bytes_of a sz \<subseteq> avail s \<and> bytes_of a sz \<inter> avail s' = {})
   \<and> sorted_wrt (\<lambda>a b. bytes_of a sz \<inter> bytes_of b sz = {}) as"
proof (induction n arbitrary: s as)
  case 0
  then show ?case by simp
next
  case (Suc n)
  then obtain a s1 as' where a: "al s = Inr (a, s1)" and r: "alloc_seq al n s1 = Inr (as', s')"
    and as: "as = a # as'" by (auto simp: rbind_Inr_iff split: prod.splits)
  note i1 = al_inv [OF Suc.prems(1) a]
  note IH = Suc.IH [OF i1 r]
  note t = al_takes [OF Suc.prems(1) a] and v = al_avail [OF Suc.prems(1) a]
  have "bytes_of a sz \<inter> bytes_of b sz = {}" if "b \<in> set as'" for b
    using IH v that by blast
  moreover have "bytes_of b sz \<subseteq> avail s" if "b \<in> set as'" for b
    using IH v that by blast
  ultimately show ?case using IH t v as by auto
qed

lemma alloc_seq_no_null:
  "inv s \<Longrightarrow> alloc_seq al n s = Inr (as, s') \<Longrightarrow> gaddr_null \<notin> set as"
  using alloc_seq_spec null_unavail first_byte_in [OF size_pos] by blast

end

end
