(* ===== verification/Directory.thy ===== *)
theory Directory
  imports Alloc
begin

text \<open>
  The memory thread of a node (\<^verbatim>\<open>src/Directory.cpp\<close>) and the two messages it serves:
  \<^verbatim>\<open>MALLOC\<close>, answered with a chunk, and \<^verbatim>\<open>NEW_ROOT\<close>, by which the process of the
  node learns the root of the tree; and the page allocator of a client thread,
  \<^verbatim>\<open>DSM::alloc\<close> of \<^verbatim>\<open>include/DSM.h\<close>, which asks the directories in turn for chunks.
\<close>

section \<open>Messages\<close>

datatype RpcType = MALLOC | FREE | NEW_ROOT | NOP

record RawMessage =
  rm_type :: RpcType
  rm_node_id :: u16
  rm_app_id :: u16
  rm_addr :: GlobalAddress
  rm_level :: int

section \<open>The directory of a node\<close>

text \<open>
  The state of the process on a node that the directory thread changes: its allocator and
  the three globals \<^verbatim>\<open>g_root_ptr\<close>, \<^verbatim>\<open>g_root_level\<close>, \<^verbatim>\<open>enable_cache\<close>, which
  the client threads of the same process read.
\<close>

record node_state =
  chunckAlloc :: GlobalAllocator
  g_root_ptr :: GlobalAddress
  g_root_level :: int
  enable_cache :: bool

definition new_Directory :: "nat \<Rightarrow> u16 \<Rightarrow> u16 \<Rightarrow> err + node_state" where
  "new_Directory dsmSize dirID node =
     (let per_directory_dsm_size = dsmSize div NR_DIRECTORY;
          dsm_start = \<lparr>nodeID = node, offset = of_nat (per_directory_dsm_size * unat dirID)\<rparr>
      in rbind (new_GlobalAllocator dsm_start per_directory_dsm_size) (\<lambda>ga.
           Inr \<lparr>chunckAlloc = ga, g_root_ptr = gaddr_null, g_root_level = - 1,
                enable_cache = False\<rparr>))"

text \<open>The answer, if there is one, goes to the application thread that asked.\<close>

definition process_message ::
  "RawMessage \<Rightarrow> node_state \<Rightarrow> err + (GlobalAddress \<times> u16 \<times> u16) option \<times> node_state" where
  "process_message m s =
     (case rm_type m of
        MALLOC \<Rightarrow>
          rbind (alloc_chunck (chunckAlloc s)) (\<lambda>(a, ga).
            Inr (Some (a, rm_node_id m, rm_app_id m), s\<lparr>chunckAlloc := ga\<rparr>))
      | NEW_ROOT \<Rightarrow>
          (if g_root_level s < rm_level m then
             let s1 = s\<lparr>g_root_ptr := rm_addr m, g_root_level := rm_level m\<rparr>
             in Inr (None, if g_root_level s1 \<ge> 3 then s1\<lparr>enable_cache := True\<rparr> else s1)
           else Inr (None, s))
      | _ \<Rightarrow> Inl (AssertFail ''RpcType''))"

fun process_all :: "RawMessage list \<Rightarrow> node_state \<Rightarrow> err + node_state" where
  "process_all [] s = Inr s"
| "process_all (m # ms) s = rbind (process_message m s) (\<lambda>(r, s'). process_all ms s')"

text \<open>The announcement of a root.\<close>

definition new_root_msg :: "GlobalAddress \<Rightarrow> int \<Rightarrow> u16 \<Rightarrow> u16 \<Rightarrow> RawMessage" where
  "new_root_msg a l node app = \<lparr>rm_type = NEW_ROOT, rm_node_id = node, rm_app_id = app,
     rm_addr = a, rm_level = l\<rparr>"

definition cache_switch_inv :: "node_state \<Rightarrow> bool" where
  "cache_switch_inv s \<longleftrightarrow> (enable_cache s \<longleftrightarrow> g_root_level s \<ge> 3)"

lemma process_message_NEW_ROOT:
  "rm_type m = NEW_ROOT \<Longrightarrow> process_message m s =
     Inr (None, if g_root_level s < rm_level m then
       s\<lparr>g_root_ptr := rm_addr m, g_root_level := rm_level m,
         enable_cache := enable_cache s \<or> rm_level m \<ge> 3\<rparr> else s)"
  by (simp add: process_message_def Let_def)

lemma process_message_MALLOC:
  "rm_type m = MALLOC \<Longrightarrow> process_message m s =
     rbind (alloc_chunck (chunckAlloc s)) (\<lambda>(a, ga).
       Inr (Some (a, rm_node_id m, rm_app_id m), s\<lparr>chunckAlloc := ga\<rparr>))"
  by (simp add: process_message_def)

lemma process_message_level_mono:
  "process_message m s = Inr (r, s') \<Longrightarrow> g_root_level s \<le> g_root_level s'"
  by (cases "rm_type m")
    (auto simp: process_message_def Let_def rbind_Inr_iff split: if_splits)

lemma process_message_cache_switch:
  "process_message m s = Inr (r, s') \<Longrightarrow> cache_switch_inv s \<Longrightarrow> cache_switch_inv s'"
  by (cases "rm_type m")
    (auto simp: cache_switch_inv_def process_message_def Let_def
      rbind_Inr_iff split: if_splits)

text \<open>
  The state after a batch of announcements: the highest level wins, and the first address
  announced for it. The other parts of the node do not change.
\<close>

fun latest_root :: "RawMessage list \<Rightarrow> GlobalAddress \<times> int \<Rightarrow> GlobalAddress \<times> int" where
  "latest_root [] r = r"
| "latest_root (m # ms) (a, l) =
     latest_root ms (if l < rm_level m then (rm_addr m, rm_level m) else (a, l))"

lemma process_all_new_roots:
  assumes "\<forall>m \<in> set ms. rm_type m = NEW_ROOT" and "cache_switch_inv s"
  shows "process_all ms s = Inr (s\<lparr>g_root_ptr := fst (latest_root ms (g_root_ptr s, g_root_level s)),
      g_root_level := snd (latest_root ms (g_root_ptr s, g_root_level s)),
      enable_cache := (snd (latest_root ms (g_root_ptr s, g_root_level s)) \<ge> 3)\<rparr>)"
  using assms
proof (induction ms arbitrary: s)
  case Nil
  then show ?case by (auto simp: cache_switch_inv_def intro!: node_state.equality)
next
  case (Cons m ms)
  obtain s' where p: "process_message m s = Inr (None, s')"
    and s': "s' = (if g_root_level s < rm_level m then
       s\<lparr>g_root_ptr := rm_addr m, g_root_level := rm_level m,
         enable_cache := enable_cache s \<or> rm_level m \<ge> 3\<rparr> else s)"
    using Cons.prems by (simp add: process_message_NEW_ROOT)
  have "cache_switch_inv s'" using process_message_cache_switch [OF p] Cons.prems by simp
  with Cons.IH [of s'] Cons.prems show ?case by (auto simp: p s')
qed

lemma latest_root_mem:
  "latest_root ms (a, l) = (a', l') \<Longrightarrow>
   l \<le> l' \<and> (\<forall>m \<in> set ms. rm_level m \<le> l')
   \<and> (l' = l \<and> a' = a \<or> (\<exists>m \<in> set ms. l < rm_level m \<and> rm_addr m = a' \<and> rm_level m = l'))"
proof (induction ms arbitrary: a l)
  case (Cons m ms)
  show ?case
  proof (cases "l < rm_level m")
    case True
    with Cons.prems have "latest_root ms (rm_addr m, rm_level m) = (a', l')" by simp
    from Cons.IH [OF this] True show ?thesis by (auto dest: less_trans)
  next
    case False
    with Cons.prems have "latest_root ms (a, l) = (a', l')" by simp
    from Cons.IH [OF this] False show ?thesis by auto
  qed
qed simp

lemma latest_root_order:
  assumes "set ms = set ms'"
    and inj: "\<forall>m \<in> set ms. \<forall>m' \<in> set ms. rm_level m = rm_level m' \<longrightarrow> rm_addr m = rm_addr m'"
  shows "latest_root ms r = latest_root ms' r"
proof -
  obtain a l where r: "r = (a, l)" by (cases r)
  obtain a1 l1 where r1: "latest_root ms r = (a1, l1)" by (cases "latest_root ms r")
  obtain a2 l2 where r2: "latest_root ms' r = (a2, l2)" by (cases "latest_root ms' r")
  note m1 = latest_root_mem [OF r1 [unfolded r]] and m2 = latest_root_mem [OF r2 [unfolded r]]
  have "l1 \<le> l2" using m1 m2 assms(1) by (elim conjE disjE) auto
  moreover have "l2 \<le> l1" using m1 m2 assms(1) by (elim conjE disjE) auto
  ultimately have eq: "l1 = l2" by simp
  have "a1 = a2"
  proof (cases "l1 = l")
    case True
    with m1 m2 eq show ?thesis by auto
  next
    case False
    then obtain m m' where "m \<in> set ms" "rm_addr m = a1" "rm_level m = l1"
      "m' \<in> set ms" "rm_addr m' = a2" "rm_level m' = l1"
      using m1 m2 eq assms(1) by auto
    then show ?thesis using inj by metis
  qed
  with eq show ?thesis by (simp add: r1 r2)
qed

section \<open>DSM::alloc\<close>

text \<open>The thread-local part of the allocator of a client thread.\<close>

record dsm_thread =
  local_allocator :: LocalAllocator
  next_target_node :: nat
  next_target_dir_id :: nat

definition new_dsm_thread :: "nat \<Rightarrow> nat \<Rightarrow> nat \<Rightarrow> dsm_thread" where
  "new_dsm_thread machineNR node thread = \<lparr>local_allocator = new_LocalAllocator,
     next_target_node = (thread + node) mod machineNR,
     next_target_dir_id = (thread + node) mod NR_DIRECTORY\<rparr>"

text \<open>\<^verbatim>\<open>rpc_call_dir\<close> followed by \<^verbatim>\<open>rpc_wait\<close>: the caller's identity is written
  into the message, the directory of the node handles it, the answer comes back.\<close>

definition rpc_malloc ::
  "u16 \<Rightarrow> u16 \<Rightarrow> nat \<Rightarrow> nat \<Rightarrow> node_state list \<Rightarrow> err + GlobalAddress \<times> node_state list" where
  "rpc_malloc my_node my_thread node_id dir_id ns =
     (if node_id < length ns \<and> dir_id < NR_DIRECTORY then
        rbind (process_message \<lparr>rm_type = MALLOC, rm_node_id = my_node, rm_app_id = my_thread,
                 rm_addr = gaddr_null, rm_level = 0\<rparr> (ns ! node_id)) (\<lambda>(r, s').
          case r of
            Some (a, n, t) \<Rightarrow> Inr (a, ns[node_id := s'])
          | None \<Rightarrow> Inl Blocked)
      else Inl OutOfBounds)"

definition dsm_alloc ::
  "u16 \<Rightarrow> u16 \<Rightarrow> nat \<Rightarrow> node_state list \<times> dsm_thread
    \<Rightarrow> err + GlobalAddress \<times> node_state list \<times> dsm_thread" where
  "dsm_alloc my_node my_thread sz st =
     (case st of (ns, th) \<Rightarrow>
      case la_malloc sz (local_allocator th) of (addr, need_chunk, la) \<Rightarrow>
        if need_chunk then
          rbind (rpc_malloc my_node my_thread (next_target_node th) (next_target_dir_id th) ns)
            (\<lambda>(chunk, ns').
              let la1 = la_set_chunck chunk la;
                  th1 = (if next_target_dir_id th + 1 = NR_DIRECTORY
                         then th\<lparr>next_target_node := (next_target_node th + 1) mod length ns,
                                 next_target_dir_id := 0\<rparr>
                         else th\<lparr>next_target_dir_id := next_target_dir_id th + 1\<rparr>)
              in (case la_malloc sz la1 of (addr', _, la2) \<Rightarrow>
                    Inr (addr', ns', th1\<lparr>local_allocator := la2\<rparr>)))
        else Inr (addr, ns, th\<lparr>local_allocator := la\<rparr>))"

end
