(* ===== verification/DsmAlloc.thy ===== *)
theory DsmAlloc
  imports Directory
begin

text \<open>
  \<^verbatim>\<open>DSM::alloc\<close> implements the interface \<open>page_allocator\<close>: the set of available
  bytes consists of what is left of the thread's current chunk and of the chunks that the
  directories have not handed out yet. The interpretation discharges the laws for the
  code's model, so that every page handed out is disjoint from every other one and from the
  chunk that holds the root pointer cells.
\<close>

type_synonym alloc_state = "node_state list \<times> dsm_thread"

section \<open>Invariant and available bytes\<close>

definition node_alloc_ok :: "nat \<Rightarrow> GlobalAllocator \<Rightarrow> bool" where
  "node_alloc_ok i ga \<longleftrightarrow> ga_inv ga \<and> nodeID (ga_start ga) = of_nat i"

definition local_chunk_ok :: "node_state list \<Rightarrow> LocalAllocator \<Rightarrow> bool" where
  "local_chunk_ok ns la \<longleftrightarrow> la_inv la \<and> (log_heads la \<noteq> [] \<longrightarrow>
     (\<exists>i < length ns. nodeID (la_head la) = of_nat i \<and> kChunkSize \<le> unat (offset (la_head la))
        \<and> unat (offset (la_head la)) + kChunkSize \<le> ga_next (chunckAlloc (ns ! i))))"

definition dsm_inv :: "alloc_state \<Rightarrow> bool" where
  "dsm_inv st \<longleftrightarrow> (case st of (ns, th) \<Rightarrow>
     length ns < 2 ^ 16 \<and> (\<forall>i < length ns. node_alloc_ok i (chunckAlloc (ns ! i)))
     \<and> local_chunk_ok ns (local_allocator th))"

text \<open>What is left of the thread's chunk, and the chunks never handed out.\<close>

definition local_avail :: "LocalAllocator \<Rightarrow> (16 word \<times> nat) set" where
  "local_avail la = (if log_heads la = [] then {} else
     {nodeID (la_head la)}
       \<times> {unat (offset (la_cur la))..<unat (offset (la_head la)) + kChunkSize})"

definition global_avail :: "node_state list \<Rightarrow> (16 word \<times> nat) set" where
  "global_avail ns = (\<Union>i < length ns. {of_nat i}
     \<times> {ga_next (chunckAlloc (ns ! i))..<ga_end (chunckAlloc (ns ! i))})"

definition dsm_avail :: "alloc_state \<Rightarrow> (16 word \<times> nat) set" where
  "dsm_avail st = (case st of (ns, th) \<Rightarrow> local_avail (local_allocator th) \<union> global_avail ns)"

lemma ga_next_ge_chunk: "ga_inv ga \<Longrightarrow> kChunkSize \<le> ga_next ga"
  by (cases "bitmap_tail ga") (auto simp: ga_inv_def ga_next_def)

lemma of_nat_node_inject: "i < 2 ^ 16 \<Longrightarrow> j < 2 ^ 16 \<Longrightarrow> (of_nat i :: 16 word) = of_nat j \<longleftrightarrow> i = j"
  using word_of_nat_eq_iff [where 'a = 16, of i j] by (simp add: take_bit_nat_eq_self)

section \<open>One allocation\<close>

lemma rpc_malloc_Inr:
  "rpc_malloc n t i d ns = Inr (a, ns') \<longleftrightarrow> i < length ns \<and> d < NR_DIRECTORY
     \<and> (\<exists>ga. alloc_chunck (chunckAlloc (ns ! i)) = Inr (a, ga)
              \<and> ns' = ns[i := (ns ! i)\<lparr>chunckAlloc := ga\<rparr>])"
  by (auto simp: rpc_malloc_def process_message_MALLOC rbind_Inr_iff)

lemma dsm_alloc_cases:
  assumes al: "dsm_alloc n t sz (ns, th) = Inr (a, ns', th')"
  obtains (loc) la where "la_malloc sz (local_allocator th) = (a, False, la)" "ns' = ns"
      "local_allocator th' = la" "th' = th\<lparr>local_allocator := la\<rparr>"
  | (rpc) i chunk ga b la la2 where "la_malloc sz (local_allocator th) = (b, True, la)"
      "i = next_target_node th" "i < length ns"
      "alloc_chunck (chunckAlloc (ns ! i)) = Inr (chunk, ga)"
      "ns' = ns[i := (ns ! i)\<lparr>chunckAlloc := ga\<rparr>]"
      "\<exists>nb. la_malloc sz (la_set_chunck chunk la) = (a, nb, la2)" "local_allocator th' = la2"
proof -
  obtain b need la where m: "la_malloc sz (local_allocator th) = (b, need, la)"
    by (metis prod_cases3)
  show thesis
  proof (cases need)
    case False
    with m al show thesis by (intro loc [of la]) (auto simp: dsm_alloc_def)
  next
    case True
    obtain chunk ns1 where r: "rpc_malloc n t (next_target_node th) (next_target_dir_id th) ns
        = Inr (chunk, ns1)"
      using al m True by (auto simp: dsm_alloc_def rbind_Inr_iff)
    obtain a2 nb la2 where m2: "la_malloc sz (la_set_chunck chunk la) = (a2, nb, la2)"
      by (metis prod_cases3)
    from r obtain ga where ga: "next_target_node th < length ns"
      "alloc_chunck (chunckAlloc (ns ! next_target_node th)) = Inr (chunk, ga)"
      "ns1 = ns[next_target_node th := (ns ! next_target_node th)\<lparr>chunckAlloc := ga\<rparr>]"
      by (auto simp: rpc_malloc_Inr)
    show thesis using al m True r m2 ga
      by (intro rpc [of b la _ chunk ga la2]) (auto simp: dsm_alloc_def Let_def)
  qed
qed

text \<open>Allocation leaves what the nodes know about the root alone.\<close>

definition root_view :: "node_state \<Rightarrow> GlobalAddress \<times> int \<times> bool" where
  "root_view s = (g_root_ptr s, g_root_level s, enable_cache s)"

lemma dsm_alloc_root_view:
  assumes "dsm_alloc n t sz (ns, th) = Inr (a, ns', th')"
  shows "map root_view ns' = map root_view ns"
  using assms
proof (cases rule: dsm_alloc_cases)
  case (rpc i chunk ga b la la2)
  then show ?thesis
    by (auto simp: map_update root_view_def list_update_same_conv intro!: list_update_same_conv [THEN iffD2])
qed simp

lemma local_step:
  assumes "local_chunk_ok ns la" "la_malloc sz la = (a, False, la')" "0 < sz" "sz \<le> kChunkSize"
  shows "local_chunk_ok ns la'" "bytes_of a sz \<subseteq> local_avail la"
    "local_avail la' \<subseteq> local_avail la - bytes_of a sz" "local_avail la' \<subseteq> local_avail la"
proof -
  have inv: "la_inv la" using assms(1) by (simp add: local_chunk_ok_def)
  note sp = la_malloc_spec [OF inv assms(2,4)]
  have node: "nodeID a = nodeID (la_head la)" using inv sp by (simp add: la_inv_def)
  show "local_chunk_ok ns la'" using assms(1) sp by (auto simp: local_chunk_ok_def)
  show "bytes_of a sz \<subseteq> local_avail la"
    using sp node by (auto simp: bytes_of_def local_avail_def)
  show "local_avail la' \<subseteq> local_avail la - bytes_of a sz"
    using sp by (auto simp: bytes_of_def local_avail_def)
  then show "local_avail la' \<subseteq> local_avail la" by blast
qed

text \<open>A chunk fetched from a directory: it was globally available and is not any more.\<close>

lemma chunk_step:
  assumes len: "length ns < 2 ^ 16" and i: "i < length ns"
    and ok: "\<forall>j < length ns. node_alloc_ok j (chunckAlloc (ns ! j))"
    and al: "alloc_chunck (chunckAlloc (ns ! i)) = Inr (c, ga)"
    and ns': "ns' = ns[i := (ns ! i)\<lparr>chunckAlloc := ga\<rparr>]"
  shows "\<forall>j < length ns'. node_alloc_ok j (chunckAlloc (ns' ! j))"
    and "bytes_of c kChunkSize \<subseteq> global_avail ns"
    and "global_avail ns' \<subseteq> global_avail ns - bytes_of c kChunkSize"
    and "local_chunk_ok ns' (la_set_chunck c la)"
    and "local_avail (la_set_chunck c la) = bytes_of c kChunkSize"
proof -
  have inv: "ga_inv (chunckAlloc (ns ! i))" using ok i by (simp add: node_alloc_ok_def)
  note sp = alloc_chunck_spec [OF inv al]
  have node: "nodeID c = of_nat i" using ok i sp by (simp add: node_alloc_ok_def)
  have end48: "ga_end (chunckAlloc (ns ! i)) < 2 ^ 48" using inv by (simp add: ga_inv_def)
  show "\<forall>j < length ns'. node_alloc_ok j (chunckAlloc (ns' ! j))"
    using ok sp i by (simp add: ns' nth_list_update node_alloc_ok_def)
  show "bytes_of c kChunkSize \<subseteq> global_avail ns"
    using sp node i by (auto simp: bytes_of_def global_avail_def)
  have "ga_next (chunckAlloc (ns' ! i)) = ga_next (chunckAlloc (ns ! i)) + kChunkSize"
    using sp i by (simp add: ns')
  moreover have "(of_nat j :: 16 word) \<noteq> of_nat i" if "j < length ns" "j \<noteq> i" for j
    using of_nat_node_inject [of j i] that i len by simp
  ultimately show "global_avail ns' \<subseteq> global_avail ns - bytes_of c kChunkSize"
    using sp node i
    by (auto simp: bytes_of_def global_avail_def ns' nth_list_update split: if_splits)
  show "local_chunk_ok ns' (la_set_chunck c la)"
    using sp node i end48 ga_next_ge_chunk [OF inv]
    by (auto simp: local_chunk_ok_def la_inv_def la_set_chunck_def ns' intro!: exI [of _ i])
  show "local_avail (la_set_chunck c la) = bytes_of c kChunkSize"
    by (simp add: local_avail_def la_set_chunck_def bytes_of_def)
qed

lemma dsm_alloc_spec:
  assumes inv: "dsm_inv st" and al: "dsm_alloc n t sz st = Inr (a, st')"
    and sz: "0 < sz" "sz \<le> kChunkSize"
  shows "dsm_inv st'" and "bytes_of a sz \<subseteq> dsm_avail st"
    and "dsm_avail st' \<subseteq> dsm_avail st - bytes_of a sz"
    and "\<exists>ns th ns' th'. st = (ns, th) \<and> st' = (ns', th') \<and> length ns' = length ns"
proof -
  obtain ns th ns' th' where st: "st = (ns, th)" "st' = (ns', th')"
    by (cases st; cases st')
  have len: "length ns < 2 ^ 16" and ok: "\<forall>i < length ns. node_alloc_ok i (chunckAlloc (ns ! i))"
    and lc: "local_chunk_ok ns (local_allocator th)"
    using inv by (auto simp: dsm_inv_def st)
  have below: "local_avail (local_allocator th) \<inter> global_avail ns = {}"
  proof -
    have "x \<notin> global_avail ns" if "x \<in> local_avail (local_allocator th)" for x
    proof
      assume "x \<in> global_avail ns"
      then obtain j where j: "j < length ns" "fst x = of_nat j"
        "ga_next (chunckAlloc (ns ! j)) \<le> snd x" by (auto simp: global_avail_def)
      have "log_heads (local_allocator th) \<noteq> []" and x: "fst x = nodeID (la_head (local_allocator th))"
        "snd x < unat (offset (la_head (local_allocator th))) + kChunkSize"
        using that by (auto simp: local_avail_def split: if_splits)
      with lc obtain i where i: "i < length ns" "fst x = of_nat i"
        "snd x < ga_next (chunckAlloc (ns ! i))"
        by (auto simp: local_chunk_ok_def)
      with j len have "i = j" using of_nat_node_inject [of i j] by simp
      with i j show False by simp
    qed
    then show ?thesis by blast
  qed
  have "dsm_inv st' \<and> bytes_of a sz \<subseteq> dsm_avail st
    \<and> dsm_avail st' \<subseteq> dsm_avail st - bytes_of a sz \<and> length ns' = length ns"
    using al [unfolded st]
  proof (cases rule: dsm_alloc_cases)
    case (loc la)
    note ls = local_step [OF lc loc(1) sz]
    from ls below loc len ok show ?thesis by (auto simp: st dsm_inv_def dsm_avail_def)
  next
    case (rpc i chunk ga b la la2)
    note cs123 = chunk_step(1-3) [OF len rpc(3) ok rpc(4,5)]
      and cs45 = chunk_step(4,5) [OF len rpc(3) ok rpc(4,5), of la]
    note cs = cs123 cs45
    obtain la2' where "la_malloc sz (la_set_chunck chunk la) = (chunk, False, la2')"
      using la_malloc_fresh_chunk [OF sz(2)] by blast
    with rpc(6) have m: "la_malloc sz (la_set_chunck chunk la) = (a, False, la2)" by auto
    note ls = local_step [OF cs(4) m sz]
    have "bytes_of a sz \<subseteq> bytes_of chunk kChunkSize" using ls cs by simp
    with ls cs len show ?thesis
      by (auto simp: st dsm_inv_def dsm_avail_def rpc(7) rpc(5))
  qed
  then show "dsm_inv st'" "bytes_of a sz \<subseteq> dsm_avail st"
    "dsm_avail st' \<subseteq> dsm_avail st - bytes_of a sz"
    "\<exists>ns th ns' th'. st = (ns, th) \<and> st' = (ns', th') \<and> length ns' = length ns"
    using st by auto
qed

lemma null_not_avail:
  assumes "dsm_inv st"
  shows "first_byte gaddr_null \<notin> dsm_avail st"
proof -
  obtain ns th where st: "st = (ns, th)" by (cases st)
  have "0 < ga_next (chunckAlloc (ns ! i))" if "i < length ns" for i
    using assms that ga_next_ge_chunk [of "chunckAlloc (ns ! i)"] kChunkSize_pos
    by (auto simp: dsm_inv_def st node_alloc_ok_def simp del: kChunkSize_pos)
  moreover have "0 < unat (offset (la_cur (local_allocator th)))"
    if "log_heads (local_allocator th) \<noteq> []"
    using assms that kChunkSize_pos
    by (auto simp: dsm_inv_def st local_chunk_ok_def la_inv_def simp del: kChunkSize_pos)
  ultimately show ?thesis
    by (auto simp: st dsm_avail_def local_avail_def global_avail_def first_byte_def gaddr_null_def)
qed

text \<open>The pages of the tree are 1024 bytes.\<close>

interpretation dsm: page_allocator "dsm_alloc n t kLeafPageSize" dsm_inv dsm_avail kLeafPageSize
  for n t
proof unfold_locales
  have sz: "0 < kLeafPageSize" "kLeafPageSize \<le> kChunkSize" by (simp_all add: common_defs)
  fix s a s'
  assume "dsm_inv s" "dsm_alloc n t kLeafPageSize s = Inr (a, s')"
  note sp = dsm_alloc_spec [OF this sz]
  show "dsm_inv s'" "bytes_of a kLeafPageSize \<subseteq> dsm_avail s"
    "dsm_avail s' \<subseteq> dsm_avail s - bytes_of a kLeafPageSize" by (rule sp)+
next
  fix s assume "dsm_inv s" then show "first_byte gaddr_null \<notin> dsm_avail s" by (rule null_not_avail)
next
  show "0 < kLeafPageSize" by (simp add: kLeafPageSize_def)
qed

end
