(* ===== verification/Locks.thy ===== *)
theory Locks
  imports GlobalAddr
begin

text \<open>
  The two-tier lock of \<^verbatim>\<open>src/Tree.cpp\<close>, one lock at a time: the local ticket lock of a
  compute node with its hand-over flag (\<^verbatim>\<open>LocalLockNode\<close>), and the 64-bit word in the
  on-chip memory of the memory node that compare-and-swap takes for the whole compute node.
  Here are the operations on one lock and what they do when nobody else is about; the theory
  \<open>LockProto\<close> interleaves them.
\<close>

section \<open>The local lock node\<close>

record LocalLockNode =
  ticket_lock :: u64
  hand_over :: bool
  hand_time :: u8

definition new_LocalLockNode :: LocalLockNode where
  "new_LocalLockNode = \<lparr>ticket_lock = 0, hand_over = False, hand_time = 0\<rparr>"

text \<open>The low half counts the tickets drawn, the high half the releases.\<close>

definition lock_ticket :: "u64 \<Rightarrow> u32" where
  "lock_ticket v = ucast (drop_bit 32 (push_bit 32 v))"

definition lock_current :: "u64 \<Rightarrow> u32" where
  "lock_current v = ucast (drop_bit 32 v)"

text \<open>\<^verbatim>\<open>acquire_local_lock\<close> in its three parts: drawing a ticket (the word before
  \<^verbatim>\<open>fetch_add\<close> is returned), the load in the waiting loop, and what is done once the
  loop has ended.\<close>

definition draw_ticket :: "LocalLockNode \<Rightarrow> u64 \<times> LocalLockNode" where
  "draw_ticket node = (ticket_lock node, node\<lparr>ticket_lock := ticket_lock node + 1\<rparr>)"

definition reload_current :: "LocalLockNode \<Rightarrow> u32" where
  "reload_current node = lock_current (ticket_lock node)"

definition enter_local_lock :: "LocalLockNode \<Rightarrow> bool \<times> LocalLockNode" where
  "enter_local_lock node = (hand_over node, node\<lparr>hand_time := hand_time node + 1\<rparr>)"

text \<open>The whole operation for a thread that nobody disturbs: if it is not its turn at once
  it never will be.\<close>

definition acquire_local_lock :: "LocalLockNode \<Rightarrow> err + bool \<times> LocalLockNode" where
  "acquire_local_lock node =
     (case draw_ticket node of (lock_val, node1) \<Rightarrow>
        if lock_ticket lock_val = lock_current lock_val then Inr (enter_local_lock node1)
        else Inl Blocked)"

definition can_hand_over :: "LocalLockNode \<Rightarrow> bool \<times> LocalLockNode" where
  "can_hand_over node =
     (let lock_val = ticket_lock node;
          h = (if lock_ticket lock_val \<le> lock_current lock_val + 1 then False
               else hand_time node < kMaxHandOverTime);
          node1 = node\<lparr>hand_over := h\<rparr>
      in (h, if \<not> h then node1\<lparr>hand_time := 0\<rparr> else node1))"

definition releases_local_lock :: "LocalLockNode \<Rightarrow> LocalLockNode" where
  "releases_local_lock node = node\<lparr>ticket_lock := ticket_lock node + push_bit 32 1\<rparr>"

section \<open>The remote word\<close>

text \<open>Compare-and-swap of one word: the old value and the new one.\<close>

definition cas_word :: "u64 \<Rightarrow> u64 \<Rightarrow> u64 \<Rightarrow> u64 \<times> u64" where
  "cas_word old equal new = (old, if old = equal then new else old)"

text \<open>
  The loop of \<^verbatim>\<open>try_lock_addr\<close> when nobody else writes the word: the first attempt
  takes a free word; the attempts on a taken word see the same tag a million times and end
  in the assertion that reports a deadlock.
\<close>

definition remote_lock :: "u64 \<Rightarrow> u64 \<Rightarrow> err + u64" where
  "remote_lock w tag =
     (case cas_word w 0 tag of (old, w') \<Rightarrow>
        if old = 0 then Inr w' else Inl (AssertFail ''Deadlock''))"

section \<open>The halves of the ticket word\<close>

lemma unat_lock_ticket: "unat (lock_ticket v) = unat v mod 4294967296"
proof -
  have "lock_ticket v = ucast v"
    by (rule bit_word_eqI) (auto simp: lock_ticket_def bit_simps)
  then show ?thesis by (simp add: unsigned_ucast_eq take_bit_eq_mod)
qed

lemma unat_lock_current: "unat (lock_current v) = unat v div 4294967296"
proof -
  have "unat v < 2 ^ 64" using unsigned_less [of v] by simp
  then have "unat v div 4294967296 < 4294967296" by (simp add: less_mult_imp_div_less)
  moreover have "unat (v div 4294967296) = unat v div 4294967296"
    by (simp add: unat_div_distrib)
  ultimately show ?thesis
    by (simp add: lock_current_def unsigned_ucast_eq take_bit_nat_eq_self drop_bit_eq_div)
qed

lemma unat_u64_split:
  "unat (v :: u64) = unat (lock_current v) * 4294967296 + unat (lock_ticket v)"
  by (simp add: unat_lock_ticket unat_lock_current)

lemma lock_word_eqI:
  assumes "unat v' mod 4294967296 = unat t" "unat v' div 4294967296 = unat c"
  shows "lock_ticket v' = t" "lock_current v' = c"
  using assms by (simp_all add: word_unat_eq_iff unat_lock_ticket unat_lock_current)

lemma lock_word_after_draw:
  assumes "unat (lock_ticket v) + 1 < 4294967296"
  shows "unat (lock_ticket (v + 1)) = unat (lock_ticket v) + 1"
    and "lock_current (v + 1) = lock_current v"
proof -
  have c: "unat (lock_current v) < 4294967296" using unsigned_less [of "lock_current v"] by simp
  then have "unat v + 1 < 18446744073709551616"
    using assms unat_u64_split [of v] by linarith
  then have s: "unat (v + 1) = unat (lock_current v) * 4294967296 + (unat (lock_ticket v) + 1)"
    using unat_u64_split [of v] by (simp add: unat_word_ariths)
  show "unat (lock_ticket (v + 1)) = unat (lock_ticket v) + 1"
    using assms unfolding unat_lock_ticket [of "v + 1"] s by simp
  show "lock_current (v + 1) = lock_current v"
    unfolding word_unat_eq_iff unat_lock_current [of "v + 1"] s using assms by simp
qed

lemma lock_word_after_release:
  "lock_ticket (v + 4294967296) = lock_ticket v"
  "lock_current (v + 4294967296) = lock_current v + 1"
proof -
  let ?c = "unat (lock_current v)" and ?t = "unat (lock_ticket v)"
  have lt: "?c < 4294967296" "?t < 4294967296"
    using unsigned_less [of "lock_current v"] unsigned_less [of "lock_ticket v"] by simp_all
  have s: "unat (v + 4294967296) = (unat v + 4294967296) mod 18446744073709551616"
    by (simp add: unat_word_ariths)
  have "unat (v + 4294967296) = ((?c + 1) mod 4294967296) * 4294967296 + ?t"
  proof (cases "?c = 4294967295")
    case True
    then show ?thesis using lt unat_u64_split [of v] by (simp add: s)
  next
    case False
    then show ?thesis using lt unat_u64_split [of v] by (simp add: s)
  qed
  moreover have "unat (lock_current v + 1) = (?c + 1) mod 4294967296"
    by (simp add: unat_word_ariths)
  ultimately have "unat (v + 4294967296) = unat (lock_current v + 1) * 4294967296 + ?t" by simp
  then show "lock_ticket (v + 4294967296) = lock_ticket v"
    "lock_current (v + 4294967296) = lock_current v + 1"
    using lt by (intro lock_word_eqI; simp)+
qed

section \<open>An undisturbed acquire and release\<close>

text \<open>A local lock that nobody holds or waits for, with \<open>r\<close> tickets left before the low
  half of the word is used up.\<close>

definition local_free :: "nat \<Rightarrow> LocalLockNode \<Rightarrow> bool" where
  "local_free r node \<longleftrightarrow> \<not> hand_over node
     \<and> lock_ticket (ticket_lock node) = lock_current (ticket_lock node)
     \<and> unat (lock_ticket (ticket_lock node)) + r < 4294967296"

text \<open>A local lock that one thread holds, with nobody waiting.\<close>

definition local_held :: "nat \<Rightarrow> LocalLockNode \<Rightarrow> bool" where
  "local_held r node \<longleftrightarrow> \<not> hand_over node
     \<and> unat (lock_ticket (ticket_lock node)) = unat (lock_current (ticket_lock node)) + 1
     \<and> unat (lock_ticket (ticket_lock node)) + r < 4294967296"

lemma local_free_mono: "local_free r n \<Longrightarrow> r' \<le> r \<Longrightarrow> local_free r' n"
  by (auto simp: local_free_def)

lemma acquire_local_lock_free:
  assumes "local_free (Suc r) node"
  obtains node' where "acquire_local_lock node = Inr (False, node')" "local_held r node'"
proof
  have t: "unat (lock_ticket (ticket_lock node)) + 1 < 4294967296"
    using assms unfolding local_free_def by linarith
  note d = lock_word_after_draw [OF t]
  let ?n = "node\<lparr>ticket_lock := ticket_lock node + 1, hand_time := hand_time node + 1\<rparr>"
  show "acquire_local_lock node = Inr (False, ?n)"
    using assms by (simp add: acquire_local_lock_def draw_ticket_def enter_local_lock_def
        local_free_def)
  show "local_held r ?n" using assms d unfolding local_held_def local_free_def by auto
qed

lemma can_hand_over_held:
  assumes "local_held r node"
  obtains node' where "can_hand_over node = (False, node')" "local_held r node'"
    "local_free r (releases_local_lock node')"
proof
  let ?v = "ticket_lock node"
  have t: "unat (lock_ticket ?v) = unat (lock_current ?v) + 1" "unat (lock_ticket ?v) + r < 4294967296"
    using assms by (auto simp: local_held_def)
  then have "unat (lock_current ?v + 1) = unat (lock_current ?v) + 1"
    by (subst unat_word_ariths) simp
  with t have eq: "lock_ticket ?v = lock_current ?v + 1" by (simp add: word_unat_eq_iff)
  let ?n = "node\<lparr>hand_over := False, hand_time := 0\<rparr>"
  show "can_hand_over node = (False, ?n)" by (simp add: can_hand_over_def Let_def eq)
  show "local_held r ?n" using assms by (simp add: local_held_def)
  show "local_free r (releases_local_lock ?n)"
    using t eq by (simp add: local_free_def releases_local_lock_def lock_word_after_release)
qed

end
