(* ===== verification/Page.thy ===== *)
theory Page
  imports GlobalAddr
begin

text \<open>
  The pages of the tree, \<^verbatim>\<open>include/Tree.h\<close>, and the work \<^verbatim>\<open>src/Tree.cpp\<close> does
  on a page in its local buffer: searching an internal and a leaf page, storing an entry,
  deleting one, and splitting a full page. Everything here is a function of the page
  alone; remote memory, locks and allocation are added by the theories above. A page in
  memory is read as a leaf or as an internal page by its header, whose offset is the same
  in both layouts.
\<close>

section \<open>Data\<close>

record Header =
  leftmost_ptr :: GlobalAddress
  sibling_ptr :: GlobalAddress
  level :: u8
  last_index :: int   \<comment> \<open>\<^verbatim>\<open>int16_t\<close>; every store goes through \<open>wrap16\<close>\<close>
  lowest :: key
  highest :: key

record InternalEntry =
  ie_key :: key
  ie_ptr :: GlobalAddress

record LeafEntry =
  f_version :: "4 word"
  le_key :: key
  le_value :: val
  r_version :: "4 word"

text \<open>
  \<open>ip_union\<close> and \<open>lp_union\<close> are the anonymous unions at the head of a page (checksum,
  embedded lock, frequency counter of a cached page).
\<close>

record InternalPage =
  ip_union :: u64
  ip_front_version :: u8
  ip_hdr :: Header
  ip_records :: "InternalEntry list"
  ip_rear_version :: u8

record LeafPage =
  lp_union :: u64
  lp_front_version :: u8
  lp_hdr :: Header
  lp_records :: "LeafEntry list"
  lp_rear_version :: u8

datatype page = LeafP LeafPage | InternalP InternalPage

fun page_hdr :: "page \<Rightarrow> Header" where
  "page_hdr (LeafP p) = lp_hdr p"
| "page_hdr (InternalP p) = ip_hdr p"

section \<open>Layout\<close>

text \<open>Sizes in bytes; all these structures are packed.\<close>

definition sizeof_GlobalAddress :: nat where "sizeof_GlobalAddress = 8"
definition sizeof_Header :: nat where
  "sizeof_Header = sizeof_GlobalAddress + sizeof_GlobalAddress + 1 + 2 + 8 + 8"
definition sizeof_InternalEntry :: nat where
  "sizeof_InternalEntry = 8 + sizeof_GlobalAddress"
definition sizeof_LeafEntry :: nat where "sizeof_LeafEntry = 1 + 8 + 8 + 1"

definition kInternalCardinality :: nat where
  "kInternalCardinality =
     (kInternalPageSize - sizeof_Header - 1 * 2 - 8) div sizeof_InternalEntry"

definition kLeafCardinality :: nat where
  "kLeafCardinality = (kLeafPageSize - sizeof_Header - 1 * 2 - 8) div sizeof_LeafEntry"

text \<open>Offsets within a page: the union takes 8 bytes, the front version one.\<close>

definition hdr_offset :: nat where "hdr_offset = 8 + 1"
definition records_offset :: nat where "records_offset = hdr_offset + sizeof_Header"

definition internal_entry_offset :: "nat \<Rightarrow> nat" where
  "internal_entry_offset i = records_offset + i * sizeof_InternalEntry"

definition leaf_entry_offset :: "nat \<Rightarrow> nat" where
  "leaf_entry_offset i = records_offset + i * sizeof_LeafEntry"

definition sizeof_InternalPage :: nat where
  "sizeof_InternalPage = internal_entry_offset kInternalCardinality + 1"

definition sizeof_LeafPage :: nat where
  "sizeof_LeafPage = leaf_entry_offset kLeafCardinality + 1"

lemmas layout_defs = sizeof_GlobalAddress_def sizeof_Header_def sizeof_InternalEntry_def
  sizeof_LeafEntry_def kInternalCardinality_def kLeafCardinality_def hdr_offset_def
  records_offset_def internal_entry_offset_def leaf_entry_offset_def
  sizeof_InternalPage_def sizeof_LeafPage_def kInternalPageSize_def kLeafPageSize_def

lemma kInternalCardinality_eq: "kInternalCardinality = 61"
  by (simp add: layout_defs)

lemma kLeafCardinality_eq: "kLeafCardinality = 54"
  by (simp add: layout_defs)

section \<open>Constructors\<close>

definition new_Header :: "u8 \<Rightarrow> Header" where
  "new_Header l = \<lparr>leftmost_ptr = gaddr_null, sibling_ptr = gaddr_null, level = l,
     last_index = - 1, lowest = kKeyMin, highest = kKeyMax\<rparr>"

lemma new_Header_simps [simp]:
  "leftmost_ptr (new_Header l) = gaddr_null" "sibling_ptr (new_Header l) = gaddr_null"
  "level (new_Header l) = l" "last_index (new_Header l) = - 1"
  "lowest (new_Header l) = kKeyMin" "highest (new_Header l) = kKeyMax"
  by (simp_all add: new_Header_def)

definition new_InternalEntry :: InternalEntry where
  "new_InternalEntry = \<lparr>ie_key = 0, ie_ptr = gaddr_null\<rparr>"

definition new_LeafEntry :: LeafEntry where
  "new_LeafEntry = \<lparr>f_version = 0, le_key = 0, le_value = kValueNull, r_version = 0\<rparr>"

definition new_LeafPage :: "u8 \<Rightarrow> LeafPage" where
  "new_LeafPage l = \<lparr>lp_union = 0, lp_front_version = 0, lp_hdr = new_Header l,
     lp_records = (replicate kLeafCardinality new_LeafEntry)
                    [0 := new_LeafEntry\<lparr>le_value := kValueNull\<rparr>],
     lp_rear_version = 0\<rparr>"

definition new_InternalPage :: "u8 \<Rightarrow> InternalPage" where
  "new_InternalPage l = \<lparr>ip_union = 0, ip_front_version = 0, ip_hdr = new_Header l,
     ip_records = (replicate kInternalCardinality new_InternalEntry)
                    [0 := new_InternalEntry\<lparr>ie_ptr := gaddr_null\<rparr>],
     ip_rear_version = 0\<rparr>"

text \<open>
  The constructor for a new root leaves the union as the buffer had it (\<open>w0\<close>); its
  level arrives as an \<^verbatim>\<open>int\<close> and is cut to 8 bits.
\<close>

definition new_root_InternalPage ::
  "u64 \<Rightarrow> GlobalAddress \<Rightarrow> key \<Rightarrow> GlobalAddress \<Rightarrow> int \<Rightarrow> InternalPage" where
  "new_root_InternalPage w0 left k right l = \<lparr>ip_union = w0, ip_front_version = 0,
     ip_hdr = (new_Header (of_int l))\<lparr>leftmost_ptr := left, last_index := 0\<rparr>,
     ip_records = (replicate kInternalCardinality new_InternalEntry)
                    [0 := \<lparr>ie_key = k, ie_ptr = right\<rparr>,
                     1 := new_InternalEntry\<lparr>ie_ptr := gaddr_null\<rparr>],
     ip_rear_version = 0\<rparr>"

definition leaf_set_consistent :: "LeafPage \<Rightarrow> LeafPage" where
  "leaf_set_consistent p =
     p\<lparr>lp_front_version := lp_front_version p + 1,
       lp_rear_version := lp_front_version p + 1\<rparr>"

definition leaf_check_consistent :: "LeafPage \<Rightarrow> bool" where
  "leaf_check_consistent p \<longleftrightarrow> lp_rear_version p = lp_front_version p"

definition internal_set_consistent :: "InternalPage \<Rightarrow> InternalPage" where
  "internal_set_consistent p =
     p\<lparr>ip_front_version := ip_front_version p + 1,
       ip_rear_version := ip_front_version p + 1\<rparr>"

definition internal_check_consistent :: "InternalPage \<Rightarrow> bool" where
  "internal_check_consistent p \<longleftrightarrow> ip_rear_version p = ip_front_version p"

section \<open>Searching a page\<close>

text \<open>
  The routing loop of \<^verbatim>\<open>internal_page_search\<close> (and of the index cache): the pointer
  before the first separator above the key. \<open>records_scan\<close> is the loop from index 1.
\<close>

fun records_scan :: "InternalEntry list \<Rightarrow> key \<Rightarrow> nat list \<Rightarrow> int \<Rightarrow> err + GlobalAddress" where
  "records_scan rs k [] cnt =
     (if 0 \<le> cnt - 1 \<and> cnt - 1 < int (length rs) then Inr (ie_ptr (rs ! nat (cnt - 1)))
      else Inl OutOfBounds)"
| "records_scan rs k (i # is) cnt =
     (if length rs \<le> i then Inl OutOfBounds
      else if k < ie_key (rs ! i) then Inr (ie_ptr (rs ! (i - 1)))
      else records_scan rs k is cnt)"

definition records_route :: "InternalPage \<Rightarrow> key \<Rightarrow> err + GlobalAddress" where
  "records_route p k =
     (let cnt = last_index (ip_hdr p) + 1
      in if k < ie_key (ip_records p ! 0) then Inr (leftmost_ptr (ip_hdr p))
         else records_scan (ip_records p) k [1..<nat cnt] cnt)"

definition internal_page_search :: "InternalPage \<Rightarrow> key \<Rightarrow> err + GlobalAddress" where
  "internal_page_search p k =
     rbind (assert_that (lowest (ip_hdr p) \<le> k) ''k >= page->hdr.lowest'') (\<lambda>_.
     rbind (assert_that (k < highest (ip_hdr p)) ''k < page->hdr.highest'') (\<lambda>_.
       records_route p k))"

text \<open>The value that the search leaves in its result, \<open>kValueNull\<close> when there is none.\<close>

definition leaf_page_search :: "LeafPage \<Rightarrow> key \<Rightarrow> val" where
  "leaf_page_search p k =
     (case find (\<lambda>r. le_key r = k \<and> le_value r \<noteq> kValueNull \<and> f_version r = r_version r)
             (lp_records p) of
        None \<Rightarrow> kValueNull
      | Some r \<Rightarrow> le_value r)"

section \<open>Storing into a leaf page\<close>

text \<open>
  The loop of \<^verbatim>\<open>leaf_page_store\<close> over the records: it counts the live records up to
  the one that holds the key (included) and remembers the first free place. The result
  is the count, the free place and the place of the key.
\<close>

fun leaf_scan :: "LeafEntry list \<Rightarrow> key \<Rightarrow> nat \<Rightarrow> nat \<Rightarrow> nat option
    \<Rightarrow> nat \<times> nat option \<times> nat option" where
  "leaf_scan [] k i cnt empty_index = (cnt, empty_index, None)"
| "leaf_scan (r # rs) k i cnt empty_index =
     (if le_value r \<noteq> kValueNull then
        if le_key r = k then (Suc cnt, empty_index, Some i)
        else leaf_scan rs k (Suc i) (Suc cnt) empty_index
      else leaf_scan rs k (Suc i) cnt
             (case empty_index of None \<Rightarrow> Some i | Some e \<Rightarrow> Some e))"

definition bump_versions :: "LeafEntry \<Rightarrow> LeafEntry" where
  "bump_versions r = r\<lparr>f_version := f_version r + 1, r_version := f_version r + 1\<rparr>"

text \<open>The records after the store, the place that was written, and the final count.\<close>

definition leaf_put ::
  "LeafEntry list \<Rightarrow> key \<Rightarrow> val \<Rightarrow> err + LeafEntry list \<times> nat \<times> nat" where
  "leaf_put rs k v =
     (case leaf_scan rs k 0 0 None of (cnt, empty_index, update) \<Rightarrow>
        rbind (assert_that (cnt \<noteq> kLeafCardinality) ''cnt != kLeafCardinality'') (\<lambda>_.
          case update of
            Some i \<Rightarrow> Inr (rs[i := bump_versions ((rs ! i)\<lparr>le_value := v\<rparr>)], i, cnt)
          | None \<Rightarrow>
             (case empty_index of
                None \<Rightarrow> Inl (AssertFail ''empty_index == -1'')
              | Some e \<Rightarrow>
                  Inr (rs[e := bump_versions ((rs ! e)\<lparr>le_key := k, le_value := v\<rparr>)],
                       e, Suc cnt))))"

text \<open>
  The split of a full leaf page: \<^verbatim>\<open>std::sort\<close> of the records by key, the upper half
  moved to the fresh sibling and cleared in the page, key ranges and sibling links cut.
  The versions of the records that are moved do not go with them. The result is the page,
  the sibling and the split key; the page's own versions are bumped by the caller.
\<close>

definition leaf_split ::
  "LeafPage \<Rightarrow> nat \<Rightarrow> GlobalAddress \<Rightarrow> err + LeafPage \<times> LeafPage \<times> key" where
  "leaf_split page0 cnt sibling_addr =
     (let page = page0\<lparr>lp_records := sort_key le_key (lp_records page0)\<rparr>;
          sibling = new_LeafPage (level (lp_hdr page));
          m = cnt div 2;
          split_key = le_key (lp_records page ! m)
      in
      rbind (assert_that (lowest (lp_hdr page) < split_key) ''split_key > lowest'') (\<lambda>_.
      rbind (assert_that (split_key < highest (lp_hdr page)) ''split_key < highest'') (\<lambda>_.
        let moved = fold (\<lambda>i ss. ss[i - m := (ss ! (i - m))
                       \<lparr>le_key := le_key (lp_records page ! i),
                        le_value := le_value (lp_records page ! i)\<rparr>])
                      [m..<cnt] (lp_records sibling);
            kept = fold (\<lambda>i rs. rs[i := (rs ! i)\<lparr>le_key := 0, le_value := kValueNull\<rparr>])
                      [m..<cnt] (lp_records page);
            page_hdr' = (lp_hdr page)
              \<lparr>last_index := wrap16 (last_index (lp_hdr page) - (int cnt - int m)),
               highest := split_key, sibling_ptr := sibling_addr\<rparr>;
            sibling_hdr' = (lp_hdr sibling)
              \<lparr>last_index := wrap16 (last_index (lp_hdr sibling) + (int cnt - int m)),
               lowest := split_key, highest := highest (lp_hdr page),
               sibling_ptr := sibling_ptr (lp_hdr page)\<rparr>
        in Inr (page\<lparr>lp_records := kept, lp_hdr := page_hdr'\<rparr>,
                leaf_set_consistent (sibling\<lparr>lp_records := moved, lp_hdr := sibling_hdr'\<rparr>),
                split_key))))"

section \<open>Deleting from a leaf page\<close>

text \<open>The loop of \<^verbatim>\<open>leaf_page_del\<close>; \<open>None\<close> when no record was written.\<close>

fun leaf_del_scan :: "LeafEntry list \<Rightarrow> key \<Rightarrow> nat \<Rightarrow> nat option" where
  "leaf_del_scan [] k i = None"
| "leaf_del_scan (r # rs) k i =
     (if le_key r = k \<and> le_value r \<noteq> kValueNull then Some i
      else leaf_del_scan rs k (Suc i))"

definition leaf_del :: "LeafEntry list \<Rightarrow> key \<Rightarrow> (LeafEntry list \<times> nat) option" where
  "leaf_del rs k =
     (case leaf_del_scan rs k 0 of
        None \<Rightarrow> None
      | Some i \<Rightarrow> Some (rs[i := bump_versions ((rs ! i)\<lparr>le_value := kValueNull\<rparr>)], i))"

section \<open>Storing into an internal page\<close>

datatype slot = UpdateAt nat | InsertAt nat

text \<open>The loop of \<^verbatim>\<open>internal_page_store\<close> from the last record down to the first.\<close>

fun internal_locate :: "InternalEntry list \<Rightarrow> key \<Rightarrow> nat \<Rightarrow> slot" where
  "internal_locate rs k 0 = InsertAt 0"
| "internal_locate rs k (Suc i) =
     (if ie_key (rs ! i) = k then UpdateAt i
      else if ie_key (rs ! i) < k then InsertAt (Suc i)
      else internal_locate rs k i)"

definition internal_put ::
  "InternalPage \<Rightarrow> key \<Rightarrow> GlobalAddress \<Rightarrow> err + InternalPage" where
  "internal_put page k v =
     (let rs = ip_records page; cnt = last_index (ip_hdr page) + 1
      in if int (length rs) < cnt then Inl OutOfBounds
         else
           (case internal_locate rs k (nat cnt) of
              UpdateAt i \<Rightarrow>
                rbind (assert_that (cnt \<noteq> int kInternalCardinality)
                        ''cnt != kInternalCardinality'') (\<lambda>_.
                  Inr (page\<lparr>ip_records := rs[i := (rs ! i)\<lparr>ie_ptr := v\<rparr>]\<rparr>))
            | InsertAt insert_index \<Rightarrow>
                rbind (assert_that (cnt \<noteq> int kInternalCardinality)
                        ''cnt != kInternalCardinality'') (\<lambda>_.
                  let rs' = fold (\<lambda>i rs. rs[i := rs ! (i - 1)])
                              (rev [Suc insert_index..<Suc (nat cnt)]) rs
                  in Inr (page\<lparr>ip_records :=
                             rs'[insert_index := \<lparr>ie_key = k, ie_ptr = v\<rparr>],
                           ip_hdr := (ip_hdr page)
                             \<lparr>last_index := wrap16 (last_index (ip_hdr page) + 1)\<rparr>\<rparr>))))"

text \<open>
  The split of a full internal page: the record in the middle gives the split key and the
  leftmost pointer of the sibling, the records above it are copied to the sibling.
\<close>

definition internal_split ::
  "InternalPage \<Rightarrow> nat \<Rightarrow> GlobalAddress \<Rightarrow> err + InternalPage \<times> InternalPage \<times> key" where
  "internal_split page cnt sibling_addr =
     (let rs = ip_records page;
          sibling = new_InternalPage (level (ip_hdr page));
          m = cnt div 2;
          split_key = ie_key (rs ! m)
      in
      rbind (assert_that (lowest (ip_hdr page) < split_key) ''split_key > lowest'') (\<lambda>_.
      rbind (assert_that (split_key < highest (ip_hdr page)) ''split_key < highest'') (\<lambda>_.
        let moved = fold (\<lambda>i ss. ss[i - Suc m := rs ! i]) [Suc m..<cnt]
                      (ip_records sibling);
            page_hdr' = (ip_hdr page)
              \<lparr>last_index := wrap16 (last_index (ip_hdr page) - (int cnt - int m)),
               highest := ie_key (rs ! m), sibling_ptr := sibling_addr\<rparr>;
            sibling_hdr' = (ip_hdr sibling)
              \<lparr>last_index := wrap16 (last_index (ip_hdr sibling) + (int cnt - int m - 1)),
               leftmost_ptr := ie_ptr (rs ! m), lowest := ie_key (rs ! m),
               highest := highest (ip_hdr page),
               sibling_ptr := sibling_ptr (ip_hdr page)\<rparr>
        in Inr (page\<lparr>ip_hdr := page_hdr'\<rparr>,
                internal_set_consistent
                  (sibling\<lparr>ip_records := moved, ip_hdr := sibling_hdr'\<rparr>),
                split_key))))"

end
