(* ===== verification/CacheEntry.thy ===== *)
theory CacheEntry
  imports Page
begin

text \<open>
  The entries of the index cache and their order (\<^verbatim>\<open>include/CacheEntry.h\<close>), and the
  ordered set that the cache keeps them in. The code uses the lock-free skip list of
  \<^verbatim>\<open>third_party/inlineskiplist.h\<close>; what the cache relies on is stated as the interface
  \<open>ordered_store\<close>, and the set is modelled by the list of its nodes in order, which is
  level 0 of the skip list. Nodes are never removed.
\<close>

section \<open>Entries\<close>

text \<open>
  The key of a node is the closed interval \<^verbatim>\<open>[from, to]\<close>. The comparator orders by
  the upper end; of two intervals with the same upper end the shorter one comes first.
\<close>

datatype cache_key = CKey (ck_from: key) (ck_to: key)

record CacheEntry =
  ce_key :: cache_key
  ce_ptr :: "InternalPage option"   \<comment> \<open>\<^verbatim>\<open>nullptr\<close> once the page was taken away\<close>

definition CacheEntryComparator_cmp :: "cache_key \<Rightarrow> cache_key \<Rightarrow> int" where
  "CacheEntryComparator_cmp a_v b_v =
     (if ck_to a_v < ck_to b_v then - 1
      else if ck_to a_v > ck_to b_v then 1
      else if ck_from a_v < ck_from b_v then 1
      else if ck_from a_v > ck_from b_v then - 1
      else 0)"

instantiation cache_key :: linorder
begin

definition less_eq_cache_key :: "cache_key \<Rightarrow> cache_key \<Rightarrow> bool" where
  "less_eq_cache_key a b \<longleftrightarrow> CacheEntryComparator_cmp a b \<le> 0"

definition less_cache_key :: "cache_key \<Rightarrow> cache_key \<Rightarrow> bool" where
  "less_cache_key a b \<longleftrightarrow> CacheEntryComparator_cmp a b < 0"

instance
proof
  fix a b c :: cache_key
  note d = less_eq_cache_key_def less_cache_key_def CacheEntryComparator_cmp_def
  show "a < b \<longleftrightarrow> a \<le> b \<and> \<not> b \<le> a" by (auto simp: d)
  show "a \<le> a" by (simp add: d)
  show "a \<le> b \<Longrightarrow> b \<le> c \<Longrightarrow> a \<le> c" by (auto simp: d split: if_splits)
  show "a \<le> b \<Longrightarrow> b \<le> a \<Longrightarrow> a = b" by (cases a; cases b) (auto simp: d split: if_splits)
  show "a \<le> b \<or> b \<le> a" by (auto simp: d)
qed

end

lemma cache_key_le_iff:
  "a \<le> b \<longleftrightarrow> ck_to a < ck_to b \<or> ck_to a = ck_to b \<and> ck_from b \<le> ck_from a"
  by (auto simp: less_eq_cache_key_def CacheEntryComparator_cmp_def)

lemma cache_key_less_iff:
  "a < b \<longleftrightarrow> ck_to a < ck_to b \<or> ck_to a = ck_to b \<and> ck_from b < ck_from a"
  by (auto simp: less_cache_key_def CacheEntryComparator_cmp_def)

lemma cmp_eq_0_iff: "CacheEntryComparator_cmp a b = 0 \<longleftrightarrow> a = b"
  by (cases a; cases b) (auto simp: CacheEntryComparator_cmp_def)

section \<open>The ordered set\<close>

type_synonym skiplist = "CacheEntry list"

text \<open>\<^verbatim>\<open>InsertConcurrently\<close>: refused when a node with an equal key is there.\<close>

fun sl_insert :: "CacheEntry \<Rightarrow> skiplist \<Rightarrow> bool \<times> skiplist" where
  "sl_insert e [] = (True, [e])"
| "sl_insert e (x # xs) =
     (if CacheEntryComparator_cmp (ce_key e) (ce_key x) < 0 then (True, e # x # xs)
      else if CacheEntryComparator_cmp (ce_key e) (ce_key x) = 0 then (False, x # xs)
      else (case sl_insert e xs of (b, ys) \<Rightarrow> (b, x # ys)))"

text \<open>\<^verbatim>\<open>Iterator::Seek\<close>: the nodes from the first one that is not below the key; the
  iterator is valid if there is one, and \<^verbatim>\<open>Next\<close> drops it.\<close>

fun sl_seek :: "cache_key \<Rightarrow> skiplist \<Rightarrow> skiplist" where
  "sl_seek k [] = []"
| "sl_seek k (x # xs) =
     (if CacheEntryComparator_cmp (ce_key x) k < 0 then sl_seek k xs else x # xs)"

text \<open>Writing the mutable page pointer of a node.\<close>

definition sl_set_ptr :: "cache_key \<Rightarrow> InternalPage option \<Rightarrow> skiplist \<Rightarrow> skiplist" where
  "sl_set_ptr k p xs = map (\<lambda>e. if ce_key e = k then e\<lparr>ce_ptr := p\<rparr> else e) xs"

definition sl_ok :: "skiplist \<Rightarrow> bool" where
  "sl_ok xs \<longleftrightarrow> sorted_wrt (<) (map ce_key xs)"

section \<open>The interface\<close>

locale ordered_store =
  fixes ins :: "'e \<Rightarrow> 's \<Rightarrow> bool \<times> 's"
    and seek :: "'k::linorder \<Rightarrow> 's \<Rightarrow> 'e option"
    and nodes_of :: "'s \<Rightarrow> 'e set"
    and key_of :: "'e \<Rightarrow> 'k"
    and inv :: "'s \<Rightarrow> bool"
  assumes ins_inv: "inv s \<Longrightarrow> inv (snd (ins e s))"
    and ins_ok: "inv s \<Longrightarrow> fst (ins e s) \<longleftrightarrow> key_of e \<notin> key_of ` nodes_of s"
    and ins_nodes: "inv s \<Longrightarrow>
      nodes_of (snd (ins e s)) = (if fst (ins e s) then insert e (nodes_of s) else nodes_of s)"
    and seek_None: "inv s \<Longrightarrow> seek k s = None \<longleftrightarrow> (\<forall>x \<in> nodes_of s. key_of x < k)"
    and seek_Some: "inv s \<Longrightarrow> seek k s = Some e \<Longrightarrow>
      e \<in> nodes_of s \<and> k \<le> key_of e \<and> (\<forall>x \<in> nodes_of s. k \<le> key_of x \<longrightarrow> key_of e \<le> key_of x)"
    and key_inj: "inv s \<Longrightarrow> x \<in> nodes_of s \<Longrightarrow> y \<in> nodes_of s \<Longrightarrow> key_of x = key_of y \<Longrightarrow> x = y"
begin

lemma seek_exact:
  assumes "inv s" "e \<in> nodes_of s"
  shows "seek (key_of e) s = Some e"
proof (cases "seek (key_of e) s")
  case None
  with assms seek_None show ?thesis by blast
next
  case (Some e')
  have "key_of e' = key_of e" using seek_Some [OF assms(1) Some] assms(2) by (simp add: antisym)
  then have "e' = e" using key_inj seek_Some [OF assms(1) Some] assms by blast
  with Some show ?thesis by simp
qed

lemma seek_least:
  assumes "inv s" "e \<in> nodes_of s" "k \<le> key_of e"
    and "\<And>x. x \<in> nodes_of s \<Longrightarrow> k \<le> key_of x \<Longrightarrow> key_of e \<le> key_of x"
  shows "seek k s = Some e"
proof (cases "seek k s")
  case None
  with assms seek_None show ?thesis by fastforce
next
  case (Some e')
  note sp = seek_Some [OF assms(1) Some]
  then have "key_of e' = key_of e" using assms by (intro antisym) auto
  with key_inj sp assms Some show ?thesis by metis
qed

lemma seek_after_insert:
  assumes "inv s" "fst (ins e s)" "k \<le> key_of e"
  shows "seek k (snd (ins e s)) =
    (case seek k s of None \<Rightarrow> Some e | Some x \<Rightarrow> if key_of e < key_of x then Some e else Some x)"
proof -
  have new: "key_of e \<notin> key_of ` nodes_of s" using assms ins_ok by simp
  have nd: "nodes_of (snd (ins e s)) = insert e (nodes_of s)" using assms ins_nodes by simp
  note i = ins_inv [OF assms(1), of e]
  show ?thesis
  proof (cases "seek k s")
    case None
    then have "seek k (snd (ins e s)) = Some e"
      using seek_None [OF assms(1)] assms nd by (intro seek_least [OF i]) fastforce+
    with None show ?thesis by simp
  next
    case (Some x)
    note sp = seek_Some [OF assms(1) Some]
    show ?thesis
    proof (cases "key_of e < key_of x")
      case True
      then have "seek k (snd (ins e s)) = Some e"
        using sp assms nd by (intro seek_least [OF i]) fastforce+
      with Some True show ?thesis by simp
    next
      case False
      then have "seek k (snd (ins e s)) = Some x"
        using sp assms nd by (intro seek_least [OF i]) auto
      with Some False show ?thesis by simp
    qed
  qed
qed

end

section \<open>The list provides the interface\<close>

definition sl_find :: "cache_key \<Rightarrow> skiplist \<Rightarrow> CacheEntry option" where
  "sl_find k xs = (case sl_seek k xs of [] \<Rightarrow> None | e # _ \<Rightarrow> Some e)"

lemma sl_insert_Cons:
  "sl_insert e (x # xs) =
     (if ce_key e < ce_key x then (True, e # x # xs)
      else if ce_key e = ce_key x then (False, x # xs)
      else (fst (sl_insert e xs), x # snd (sl_insert e xs)))"
  by (simp add: cmp_eq_0_iff less_cache_key_def split: prod.split)

declare sl_insert.simps(2) [simp del]

lemma sl_insert_set:
  "set (snd (sl_insert e xs)) = (if fst (sl_insert e xs) then insert e (set xs) else set xs)"
  by (induction xs) (auto simp: sl_insert_Cons)

lemma sl_ok_Cons: "sl_ok (x # xs) \<longleftrightarrow> (\<forall>y \<in> set xs. ce_key x < ce_key y) \<and> sl_ok xs"
  by (simp add: sl_ok_def)

lemma sl_insert_ok: "sl_ok xs \<Longrightarrow> fst (sl_insert e xs) \<longleftrightarrow> ce_key e \<notin> ce_key ` set xs"
proof (induction xs)
  case (Cons x xs)
  have "ce_key e \<notin> ce_key ` set xs" if "ce_key e \<le> ce_key x"
    using that Cons.prems unfolding sl_ok_Cons by fastforce
  with Cons show ?case by (simp add: sl_insert_Cons sl_ok_Cons)
qed simp

lemma sl_insert_inv: "sl_ok xs \<Longrightarrow> sl_ok (snd (sl_insert e xs))"
proof (induction xs)
  case (Cons x xs)
  have sub: "set (snd (sl_insert e xs)) \<subseteq> insert e (set xs)" by (simp add: sl_insert_set subset_insertI)
  consider "ce_key e < ce_key x" | "ce_key e = ce_key x" | "ce_key x < ce_key e"
    by (rule linorder_cases)
  then show ?case
  proof cases
    case 1
    then have "\<forall>y \<in> set xs. ce_key e < ce_key y"
      using Cons.prems less_trans unfolding sl_ok_Cons by blast
    with 1 Cons.prems show ?thesis by (simp add: sl_insert_Cons sl_ok_Cons)
  next
    case 2
    with Cons.prems show ?thesis by (simp add: sl_insert_Cons)
  next
    case 3
    then have "\<forall>y \<in> set (snd (sl_insert e xs)). ce_key x < ce_key y"
      using sub Cons.prems unfolding sl_ok_Cons by blast
    with 3 Cons show ?thesis by (auto simp: sl_insert_Cons sl_ok_Cons)
  qed
qed (simp add: sl_ok_def)

lemma sl_insert_length:
  "length (snd (sl_insert e xs)) = length xs + (if fst (sl_insert e xs) then 1 else 0)"
  by (induction xs) (auto simp: sl_insert_Cons)

lemma sl_seek_dropWhile: "sl_seek k xs = dropWhile (\<lambda>x. ce_key x < k) xs"
  by (induction xs) (simp_all add: less_cache_key_def)

lemma sl_find_None: "sl_find k xs = None \<longleftrightarrow> (\<forall>x \<in> set xs. ce_key x < k)"
  by (simp add: sl_find_def sl_seek_dropWhile dropWhile_eq_Nil_conv split: list.split)
    (metis dropWhile_eq_Nil_conv list.distinct(1))

lemma sl_find_Some:
  "sl_ok xs \<Longrightarrow> sl_find k xs = Some e \<Longrightarrow>
   e \<in> set xs \<and> k \<le> ce_key e \<and> (\<forall>x \<in> set xs. k \<le> ce_key x \<longrightarrow> ce_key e \<le> ce_key x)"
proof (induction xs)
  case (Cons x xs)
  show ?case
  proof (cases "ce_key x < k")
    case True
    with Cons show ?thesis by (auto simp: sl_ok_Cons sl_find_def sl_seek_dropWhile)
  next
    case False
    with Cons.prems have "e = x" by (simp add: sl_find_def sl_seek_dropWhile)
    with False Cons.prems show ?thesis by (auto simp: sl_ok_Cons)
  qed
qed (simp add: sl_find_def)

lemma sl_key_inj:
  "sl_ok xs \<Longrightarrow> x \<in> set xs \<Longrightarrow> y \<in> set xs \<Longrightarrow> ce_key x = ce_key y \<Longrightarrow> x = y"
  unfolding sl_ok_def strict_sorted_iff distinct_map by (auto dest: inj_onD)

interpretation sl: ordered_store sl_insert sl_find set ce_key sl_ok
  by unfold_locales
    (simp_all add: sl_insert_inv sl_insert_ok sl_insert_set sl_find_None sl_find_Some sl_key_inj)

lemma sl_set_ptr_keys [simp]: "map ce_key (sl_set_ptr k p xs) = map ce_key xs"
  by (simp add: sl_set_ptr_def)

lemma sl_set_ptr_ok [simp]: "sl_ok (sl_set_ptr k p xs) = sl_ok xs"
  by (simp add: sl_ok_def)

lemma sl_set_ptr_set:
  "e \<in> set (sl_set_ptr k p xs) \<Longrightarrow>
   (ce_key e = k \<and> ce_ptr e = p) \<or> (ce_key e \<noteq> k \<and> e \<in> set xs)"
  by (auto simp: sl_set_ptr_def)

end
