(* ===== verification/InternalProps.thy ===== *)
theory InternalProps
  imports Page
begin

text \<open>
  What the internal-page routines of \<open>Page\<close> compute. An internal page stands for the list
  \<open>kids\<close> of its children, each with the lowest key it covers: the leftmost pointer with
  the page's own lowest key, then one child per record. The routing loop is the choice of
  the last child whose key is not above the searched key, the downward store loop is an
  ordered insert, and the split divides the list of children.
\<close>

definition entries :: "InternalPage \<Rightarrow> InternalEntry list" where
  "entries p = take (nat (last_index (ip_hdr p) + 1)) (ip_records p)"

definition entry_pair :: "InternalEntry \<Rightarrow> key \<times> GlobalAddress" where
  "entry_pair e = (ie_key e, ie_ptr e)"

definition kids :: "InternalPage \<Rightarrow> (key \<times> GlobalAddress) list" where
  "kids p = (lowest (ip_hdr p), leftmost_ptr (ip_hdr p)) # map entry_pair (entries p)"

text \<open>\<open>internal_wf p n\<close>: the page holds \<open>n\<close> records, sorted and within its range.\<close>

definition internal_wf :: "InternalPage \<Rightarrow> nat \<Rightarrow> bool" where
  "internal_wf p n \<longleftrightarrow>
     length (ip_records p) = kInternalCardinality \<and> last_index (ip_hdr p) = int n - 1
     \<and> 1 \<le> n \<and> n \<le> kInternalCardinality
     \<and> sorted_wrt (<) (map ie_key (entries p))
     \<and> (\<forall>e \<in> set (entries p). lowest (ip_hdr p) \<le> ie_key e \<and> ie_key e < highest (ip_hdr p))"

definition internal_ok :: "InternalPage \<Rightarrow> bool" where
  "internal_ok p \<longleftrightarrow> (\<exists>n < kInternalCardinality. internal_wf p n)"

lemma internal_okI: "internal_wf p n \<Longrightarrow> n < kInternalCardinality \<Longrightarrow> internal_ok p"
  by (auto simp: internal_ok_def)

lemma internal_wf_entries:
  assumes "internal_wf p n"
  shows "entries p = take n (ip_records p)" "length (entries p) = n"
    "nat (last_index (ip_hdr p) + 1) = n"
    "i < n \<Longrightarrow> entries p ! i = ip_records p ! i"
  using assms by (auto simp: internal_wf_def entries_def)

lemma internal_wf_sorted:
  assumes "internal_wf p n" "i < j" "j < n"
  shows "ie_key (ip_records p ! i) < ie_key (ip_records p ! j)"
proof -
  have "sorted_wrt (<) (map ie_key (entries p))" using assms(1) by (simp add: internal_wf_def)
  then have "map ie_key (entries p) ! i < map ie_key (entries p) ! j"
    by (rule sorted_wrt_nth_less) (use assms internal_wf_entries(2) [OF assms(1)] in simp_all)
  with assms show ?thesis
    using internal_wf_entries(2) [OF assms(1)] internal_wf_entries(4) [OF assms(1)] by simp
qed

section \<open>Routing\<close>

text \<open>The reference: the last child whose lowest key is not above the key.\<close>

definition route_ref :: "InternalPage \<Rightarrow> key \<Rightarrow> GlobalAddress" where
  "route_ref p k = snd (last (filter (\<lambda>(s, a). s \<le> k) (kids p)))"

lemma records_scan_spec:
  assumes "1 \<le> i" "i \<le> n" "n \<le> length rs" "ie_key (rs ! (i - 1)) \<le> k"
  shows "\<exists>j. i - 1 \<le> j \<and> j < n \<and> records_scan rs k [i..<n] (int n) = Inr (ie_ptr (rs ! j))
    \<and> ie_key (rs ! j) \<le> k \<and> (Suc j < n \<longrightarrow> k < ie_key (rs ! Suc j))"
  using assms
proof (induction "n - i" arbitrary: i)
  case 0
  then have "i = n" by simp
  with 0 show ?case
    by (intro exI [of _ "n - 1"]) (auto simp: nat_diff_distrib')
next
  case (Suc d)
  then have lt: "i < n" by simp
  then have un: "[i..<n] = i # [Suc i..<n]" by (simp add: upt_conv_Cons)
  show ?case
  proof (cases "k < ie_key (rs ! i)")
    case True
    with Suc lt un show ?thesis by (intro exI [of _ "i - 1"]) auto
  next
    case False
    have "\<exists>j. Suc i - 1 \<le> j \<and> j < n
      \<and> records_scan rs k [Suc i..<n] (int n) = Inr (ie_ptr (rs ! j))
      \<and> ie_key (rs ! j) \<le> k \<and> (Suc j < n \<longrightarrow> k < ie_key (rs ! Suc j))"
      by (rule Suc.hyps(1)) (use Suc False lt in auto)
    then obtain j where "Suc i - 1 \<le> j" "j < n"
      "records_scan rs k [Suc i..<n] (int n) = Inr (ie_ptr (rs ! j))"
      "ie_key (rs ! j) \<le> k" "Suc j < n \<longrightarrow> k < ie_key (rs ! Suc j)" by blast
    with False lt un Suc.prems show ?thesis by (intro exI [of _ j]) auto
  qed
qed

lemma filter_prefix:
  "n \<le> length xs \<Longrightarrow> (\<forall>i < n. P (xs ! i)) \<Longrightarrow> (\<forall>i < length xs. n \<le> i \<longrightarrow> \<not> P (xs ! i)) \<Longrightarrow>
   filter P xs = take n xs"
proof (induction xs arbitrary: n)
  case Nil
  then show ?case by simp
next
  case (Cons x xs)
  show ?case
  proof (cases n)
    case 0
    with Cons.prems have "\<forall>y \<in> set (x # xs). \<not> P y" by (metis in_set_conv_nth le0)
    with 0 show ?thesis by (simp add: filter_empty_conv)
  next
    case (Suc m)
    have "filter P xs = take m xs"
    proof (rule Cons.IH)
      show "m \<le> length xs" using Cons.prems Suc by simp
      show "\<forall>i < m. P (xs ! i)" using Cons.prems(2) Suc by auto
      show "\<forall>i < length xs. m \<le> i \<longrightarrow> \<not> P (xs ! i)"
        using Cons.prems(3) Suc by fastforce
    qed
    with Suc Cons.prems(2) show ?thesis by auto
  qed
qed

lemma kids_nth:
  assumes "internal_wf p n"
  shows "length (kids p) = Suc n" "kids p ! 0 = (lowest (ip_hdr p), leftmost_ptr (ip_hdr p))"
    "i < n \<Longrightarrow> kids p ! Suc i = (ie_key (ip_records p ! i), ie_ptr (ip_records p ! i))"
  using internal_wf_entries [OF assms] by (auto simp: kids_def entry_pair_def)

lemma last_filter_kids:
  assumes wf: "internal_wf p n" and j: "j \<le> n"
    and le: "\<And>i. i \<le> j \<Longrightarrow> fst (kids p ! i) \<le> k"
    and gt: "\<And>i. j < i \<Longrightarrow> i \<le> n \<Longrightarrow> k < fst (kids p ! i)"
  shows "last (filter (\<lambda>(s, a). s \<le> k) (kids p)) = kids p ! j"
proof -
  have "filter (\<lambda>(s, a). s \<le> k) (kids p) = take (Suc j) (kids p)"
  proof (rule filter_prefix)
    show "Suc j \<le> length (kids p)" using j kids_nth(1) [OF wf] by simp
    show "\<forall>i < Suc j. case kids p ! i of (s, a) \<Rightarrow> s \<le> k"
      using le by (auto simp: case_prod_beta)
    show "\<forall>i < length (kids p). Suc j \<le> i \<longrightarrow> \<not> (case kids p ! i of (s, a) \<Rightarrow> s \<le> k)"
      using gt kids_nth(1) [OF wf] by (auto simp: case_prod_beta not_le)
  qed
  with j kids_nth(1) [OF wf] show ?thesis by (simp add: take_Suc_conv_app_nth)
qed

lemma route_index:
  assumes wf: "internal_wf p n" and k: "lowest (ip_hdr p) \<le> k"
  obtains j where "j \<le> n" "records_route p k = Inr (snd (kids p ! j))"
    "\<And>i. i \<le> j \<Longrightarrow> fst (kids p ! i) \<le> k" "\<And>i. j < i \<Longrightarrow> i \<le> n \<Longrightarrow> k < fst (kids p ! i)"
    "route_ref p k = snd (kids p ! j)"
proof -
  let ?rs = "ip_records p"
  note kn = kids_nth [OF wf]
  have n: "1 \<le> n" "n \<le> length ?rs" and li: "last_index (ip_hdr p) + 1 = int n"
    using wf by (auto simp: internal_wf_def)
  have "\<exists>j \<le> n. records_route p k = Inr (snd (kids p ! j)) \<and>
      (\<forall>i \<le> j. fst (kids p ! i) \<le> k) \<and> (\<forall>i. j < i \<and> i \<le> n \<longrightarrow> k < fst (kids p ! i))"
  proof (cases "k < ie_key (?rs ! 0)")
    case True
    have "k < fst (kids p ! i)" if i: "0 < i" "i \<le> n" for i
    proof -
      obtain i' where i': "i = Suc i'" using i by (cases i) auto
      have "ie_key (?rs ! 0) \<le> ie_key (?rs ! i')"
        using internal_wf_sorted [OF wf, of 0 i'] i i' by (cases "i' = 0") auto
      with True i i' show ?thesis by (simp add: kn)
    qed
    with True k show ?thesis by (intro exI [of _ 0]) (auto simp: records_route_def kn)
  next
    case False
    then have "ie_key (?rs ! (1 - 1)) \<le> k" by simp
    from records_scan_spec [OF _ n this]
    obtain j where j: "j < n" "records_scan ?rs k [1..<n] (int n) = Inr (ie_ptr (?rs ! j))"
      "ie_key (?rs ! j) \<le> k" "Suc j < n \<longrightarrow> k < ie_key (?rs ! Suc j)"
      by blast
    have "fst (kids p ! i) \<le> k" if i: "i \<le> Suc j" for i
    proof (cases i)
      case 0
      with k show ?thesis by (simp add: kn)
    next
      case (Suc i')
      have "ie_key (?rs ! i') \<le> ie_key (?rs ! j)"
        using internal_wf_sorted [OF wf, of i' j] i j Suc by (cases "i' = j") auto
      with Suc j i show ?thesis by (simp add: kn)
    qed
    moreover have "k < fst (kids p ! i)" if i: "Suc j < i" "i \<le> n" for i
    proof -
      obtain i' where i': "i = Suc i'" using i by (cases i) auto
      have "ie_key (?rs ! Suc j) \<le> ie_key (?rs ! i')"
        using internal_wf_sorted [OF wf, of "Suc j" i'] i i' by (cases "i' = Suc j") auto
      with j i i' show ?thesis by (auto simp: kn)
    qed
    ultimately show ?thesis using j False li
      by (intro exI [of _ "Suc j"]) (auto simp: records_route_def kn)
  qed
  then obtain j where j: "j \<le> n" "records_route p k = Inr (snd (kids p ! j))"
    "\<forall>i \<le> j. fst (kids p ! i) \<le> k" "\<forall>i. j < i \<and> i \<le> n \<longrightarrow> k < fst (kids p ! i)" by blast
  then have l: "last (filter (\<lambda>(s, a). s \<le> k) (kids p)) = kids p ! j"
    using last_filter_kids [OF wf] by blast
  with j that [of j] show thesis by (simp add: route_ref_def)
qed

lemma records_route_eq:
  assumes wf: "internal_wf p n" and k: "lowest (ip_hdr p) \<le> k"
  shows "records_route p k = Inr (route_ref p k)"
    and "\<exists>s \<le> k. (s, route_ref p k) \<in> set (kids p)"
proof -
  obtain j where j: "j \<le> n" "records_route p k = Inr (snd (kids p ! j))"
    "fst (kids p ! j) \<le> k" "route_ref p k = snd (kids p ! j)"
    by (rule route_index [OF assms]) auto
  then show "records_route p k = Inr (route_ref p k)" by simp
  have "kids p ! j \<in> set (kids p)" using j kids_nth(1) [OF wf] by simp
  with j show "\<exists>s \<le> k. (s, route_ref p k) \<in> set (kids p)"
    by (intro exI [of _ "fst (kids p ! j)"]) auto
qed

lemma internal_page_search_eq:
  "internal_wf p n \<Longrightarrow> lowest (ip_hdr p) \<le> k \<Longrightarrow> k < highest (ip_hdr p) \<Longrightarrow>
   internal_page_search p k = Inr (route_ref p k)"
  by (simp add: internal_page_search_def records_route_eq)

section \<open>Storing\<close>

text \<open>The reference: update or ordered insert in a list of records.\<close>

fun upd_entries :: "key \<Rightarrow> GlobalAddress \<Rightarrow> InternalEntry list \<Rightarrow> InternalEntry list" where
  "upd_entries k v [] = [\<lparr>ie_key = k, ie_ptr = v\<rparr>]"
| "upd_entries k v (e # es) =
     (if k < ie_key e then \<lparr>ie_key = k, ie_ptr = v\<rparr> # e # es
      else if k = ie_key e then e\<lparr>ie_ptr := v\<rparr> # es
      else e # upd_entries k v es)"

lemma upd_entries_update:
  "i < length es \<Longrightarrow> \<forall>j < i. ie_key (es ! j) < k \<Longrightarrow> ie_key (es ! i) = k \<Longrightarrow>
   upd_entries k v es = es[i := (es ! i)\<lparr>ie_ptr := v\<rparr>]"
proof (induction es arbitrary: i)
  case (Cons e es)
  show ?case
  proof (cases i)
    case (Suc j)
    with Cons.prems(2) have "ie_key e < k" by auto
    moreover have "upd_entries k v es = es[j := (es ! j)\<lparr>ie_ptr := v\<rparr>]"
      using Cons.prems Suc by (intro Cons.IH) auto
    ultimately show ?thesis using Suc by auto
  qed (use Cons.prems in auto)
qed simp

lemma upd_entries_insert:
  "i \<le> length es \<Longrightarrow> \<forall>j < i. ie_key (es ! j) < k \<Longrightarrow>
   (i < length es \<longrightarrow> k < ie_key (es ! i)) \<Longrightarrow>
   upd_entries k v es = take i es @ \<lparr>ie_key = k, ie_ptr = v\<rparr> # drop i es"
proof (induction es arbitrary: i)
  case (Cons e es)
  show ?case
  proof (cases i)
    case (Suc j)
    with Cons.prems(2) have "ie_key e < k" by auto
    moreover have "upd_entries k v es = take j es @ \<lparr>ie_key = k, ie_ptr = v\<rparr> # drop j es"
      using Cons.prems Suc by (intro Cons.IH) auto
    ultimately show ?thesis using Suc by auto
  qed (use Cons.prems in auto)
qed simp

lemma set_upd_entries:
  "e \<in> set (upd_entries k v es) \<Longrightarrow> e = \<lparr>ie_key = k, ie_ptr = v\<rparr> \<or> e \<in> set es"
  by (induction es) (auto split: if_splits)

lemma sorted_upd_entries:
  "sorted_wrt (<) (map ie_key es) \<Longrightarrow> sorted_wrt (<) (map ie_key (upd_entries k v es))"
proof (induction es)
  case (Cons e es)
  then show ?case using set_upd_entries [of _ k v es] by (auto dest: less_trans) fastforce+
qed simp

lemma upd_entries_has:
  "\<lparr>ie_key = k, ie_ptr = v\<rparr> \<in> set (upd_entries k v es)"
  by (induction es) auto

lemma length_upd_entries:
  "length es \<le> length (upd_entries k v es) \<and> length (upd_entries k v es) \<le> Suc (length es)"
  by (induction es) auto

lemma internal_locate_spec:
  assumes "n \<le> length rs" and "\<And>i j. i < j \<Longrightarrow> j < n \<Longrightarrow> ie_key (rs ! i) < ie_key (rs ! j)"
  shows "case internal_locate rs k n of
      UpdateAt i \<Rightarrow> i < n \<and> ie_key (rs ! i) = k
    | InsertAt i \<Rightarrow> i \<le> n \<and> (\<forall>j < i. ie_key (rs ! j) < k) \<and> (\<forall>j. i \<le> j \<and> j < n \<longrightarrow> k < ie_key (rs ! j))"
  using assms
proof (induction n)
  case 0
  then show ?case by simp
next
  case (Suc n)
  consider "ie_key (rs ! n) = k" | "ie_key (rs ! n) < k" | "k < ie_key (rs ! n)"
    by (rule linorder_cases)
  then show ?case
  proof cases
    case 1
    then show ?thesis by simp
  next
    case 2
    have "ie_key (rs ! j) < k" if "j < Suc n" for j
      using Suc.prems(2) [of j n] 2 that by (cases "j = n") auto
    with 2 show ?thesis by auto
  next
    case 3
    have "case internal_locate rs k n of
        UpdateAt i \<Rightarrow> i < n \<and> ie_key (rs ! i) = k
      | InsertAt i \<Rightarrow> i \<le> n \<and> (\<forall>j < i. ie_key (rs ! j) < k)
          \<and> (\<forall>j. i \<le> j \<and> j < n \<longrightarrow> k < ie_key (rs ! j))"
      using Suc by simp
    with 3 show ?thesis
      by (auto simp: less_Suc_eq split: slot.splits)
  qed
qed

lemma take_shifted_insert:
  assumes "i \<le> n" "n < length rs"
    and "rs' = fold (\<lambda>i rs. rs[i := rs ! (i - 1)]) (rev [Suc i..<Suc n]) rs"
  shows "take (Suc n) (rs'[i := x]) = take i rs @ x # drop i (take n rs)"
proof (rule nth_equalityI)
  have len: "length rs' = length rs"
    unfolding assms(3) by (rule length_fold_update) simp
  then show "length (take (Suc n) (rs'[i := x])) = length (take i rs @ x # drop i (take n rs))"
    using assms by simp
  fix j
  assume "j < length (take (Suc n) (rs'[i := x]))"
  then have j: "j < Suc n" by simp
  have "rs' ! j = (if i < j \<and> j \<le> n then rs ! (j - 1) else rs ! j)"
    unfolding assms(3) by (rule nth_fold_shift_up) (use assms in auto)
  with j assms len show "take (Suc n) (rs'[i := x]) ! j = (take i rs @ x # drop i (take n rs)) ! j"
    by (auto simp: nth_append nth_list_update nth_Cons' min_def)
qed

text \<open>
  On a page that is not full the store performs the ordered insert, keeps everything else
  of the header, and leaves at most one record more.
\<close>

lemma internal_put_spec:
  assumes wf: "internal_wf p n" and n: "n < kInternalCardinality"
    and k: "lowest (ip_hdr p) \<le> k" "k < highest (ip_hdr p)"
  obtains p' n' where "internal_put p k v = Inr p'" "internal_wf p' n'" "n' \<le> Suc n"
    "entries p' = upd_entries k v (entries p)"
    "ip_hdr p' = (ip_hdr p)\<lparr>last_index := int n' - 1\<rparr>"
    "ip_front_version p' = ip_front_version p" "ip_rear_version p' = ip_rear_version p"
proof -
  let ?rs = "ip_records p" and ?h = "ip_hdr p"
  have len: "length ?rs = kInternalCardinality" and li: "last_index ?h = int n - 1" and n1: "1 \<le> n"
    using wf by (auto simp: internal_wf_def)
  note we = internal_wf_entries [OF wf]
  have eN: "entries p = take n ?rs" by (rule we)
  have key: "entries p ! j = ?rs ! j" if "j < n" for j using we that by simp
  note loc = internal_locate_spec [of n ?rs k, OF _ internal_wf_sorted [OF wf]]
  have ents_ok: "sorted_wrt (<) (map ie_key (upd_entries k v (entries p)))
    \<and> (\<forall>e \<in> set (upd_entries k v (entries p)). lowest ?h \<le> ie_key e \<and> ie_key e < highest ?h)"
    using wf k sorted_upd_entries [of "entries p" k v] set_upd_entries [of _ k v "entries p"]
    unfolding internal_wf_def by fastforce
  show thesis
  proof (cases "internal_locate ?rs k n")
    case (UpdateAt i)
    then have i: "i < n" "ie_key (?rs ! i) = k" using loc n len by auto
    have "\<forall>j < i. ie_key (entries p ! j) < k"
      using internal_wf_sorted [OF wf _ i(1)] i key by auto
    then have u: "upd_entries k v (entries p) = (entries p)[i := (entries p ! i)\<lparr>ie_ptr := v\<rparr>]"
      using i key we by (intro upd_entries_update) auto
    let ?p' = "p\<lparr>ip_records := ?rs[i := (?rs ! i)\<lparr>ie_ptr := v\<rparr>]\<rparr>"
    have e': "entries ?p' = upd_entries k v (entries p)"
      using i key u eN li by (simp add: entries_def take_update_swap)
    have "internal_put p k v = Inr ?p'"
      using UpdateAt li n len by (simp add: internal_put_def Let_def)
    then show thesis
      by (rule that [of ?p' n])
        (use e' ents_ok len li n1 n in \<open>simp_all add: internal_wf_def\<close>)
  next
    case (InsertAt i)
    then have i: "i \<le> n" "\<forall>j < i. ie_key (?rs ! j) < k" "\<forall>j. i \<le> j \<and> j < n \<longrightarrow> k < ie_key (?rs ! j)"
      using loc n len by auto
    have u: "upd_entries k v (entries p)
        = take i (entries p) @ \<lparr>ie_key = k, ie_ptr = v\<rparr> # drop i (entries p)"
      using i key we by (intro upd_entries_insert) auto
    define rs' where "rs' = fold (\<lambda>i rs. rs[i := rs ! (i - 1)]) (rev [Suc i..<Suc n]) ?rs"
    let ?p' = "p\<lparr>ip_records := rs'[i := \<lparr>ie_key = k, ie_ptr = v\<rparr>],
        ip_hdr := ?h\<lparr>last_index := int n\<rparr>\<rparr>"
    have len': "length rs' = kInternalCardinality"
      unfolding rs'_def len [symmetric] by (rule length_fold_update) simp
    have e': "entries ?p' = upd_entries k v (entries p)"
      using take_shifted_insert [OF i(1) _ rs'_def, of "\<lparr>ie_key = k, ie_ptr = v\<rparr>"] n len u i(1)
      unfolding eN by (simp add: entries_def nat_add_distrib min_def)
    have "wrap16 (int n) = int n" using n by (simp add: kInternalCardinality_eq)
    then have "internal_put p k v = Inr ?p'"
      using InsertAt li n len by (simp add: internal_put_def Let_def rs'_def)
    then show thesis
      by (rule that [of ?p' "Suc n"])
        (use e' ents_ok len' n1 n in \<open>simp_all add: internal_wf_def\<close>)
  qed
qed

text \<open>The children after a store: the old ones and the stored one.\<close>

lemma kids_of_entries:
  "set (kids p) = insert (lowest (ip_hdr p), leftmost_ptr (ip_hdr p)) (entry_pair ` set (entries p))"
  by (simp add: kids_def)

lemma kids_after_put:
  assumes "entries p' = upd_entries k v (entries p)"
    and "ip_hdr p' = (ip_hdr p)\<lparr>last_index := x\<rparr>"
  shows "c \<in> set (kids p') \<Longrightarrow> c = (k, v) \<or> c \<in> set (kids p)"
    and "(k, v) \<in> set (kids p')"
  using assms set_upd_entries [of _ k v "entries p"] upd_entries_has [of k v "entries p"]
  by (auto simp: kids_of_entries entry_pair_def image_iff) force+

section \<open>Splitting\<close>

lemma internal_split_spec:
  assumes wf: "internal_wf p kInternalCardinality"
  obtains p' s sk where
    "internal_split p kInternalCardinality sib = Inr (p', s, sk)"
    "lowest (ip_hdr p) < sk" "sk < highest (ip_hdr p)"
    "internal_ok p'" "internal_ok s"
    "ip_hdr p' = (ip_hdr p)\<lparr>last_index := 29, highest := sk, sibling_ptr := sib\<rparr>"
    "level (ip_hdr s) = level (ip_hdr p)" "lowest (ip_hdr s) = sk"
    "highest (ip_hdr s) = highest (ip_hdr p)" "sibling_ptr (ip_hdr s) = sibling_ptr (ip_hdr p)"
    "ip_front_version s = ip_rear_version s"
    "ip_front_version p' = ip_front_version p" "ip_rear_version p' = ip_rear_version p"
    "kids p = kids p' @ kids s"
proof -
  let ?rs = "ip_records p" and ?h = "ip_hdr p"
  define sk where "sk = ie_key (?rs ! 30)"
  have len: "length ?rs = 61" and li: "last_index ?h = 60"
    using wf by (auto simp: internal_wf_def kInternalCardinality_eq)
  note srt = internal_wf_sorted [OF wf, unfolded kInternalCardinality_eq]
  have eN: "entries p = ?rs"
    using internal_wf_entries(1) [OF wf] len by (simp add: kInternalCardinality_eq)
  have rng: "lowest ?h \<le> ie_key (?rs ! i)" "ie_key (?rs ! i) < highest ?h" if "i < 61" for i
    using wf that len eN by (auto simp: internal_wf_def)
  have sk: "lowest ?h < sk" "sk < highest ?h"
    using rng(1) [of 0] rng(2) [of 30] srt [of 0 30] by (auto simp: sk_def)
  define moved where "moved = fold (\<lambda>i ss. ss[i - Suc 30 := ?rs ! i]) [Suc 30..<61]
      (replicate 61 new_InternalEntry)"
  have ml: "length moved = 61" unfolding moved_def by (simp add: length_fold_update)
  have mn: "moved ! i = ?rs ! (i + 31)" if "i < 30" for i
    unfolding moved_def using nth_fold_store [of "Suc 30" "Suc 30" i "replicate 61 new_InternalEntry"
        "\<lambda>i. ?rs ! i" 61] that by simp
  let ?p' = "p\<lparr>ip_hdr := ?h\<lparr>last_index := 29, highest := sk, sibling_ptr := sib\<rparr>\<rparr>"
  let ?s = "internal_set_consistent ((new_InternalPage (level ?h))\<lparr>ip_records := moved,
      ip_hdr := (new_Header (level ?h))\<lparr>last_index := 29, leftmost_ptr := ie_ptr (?rs ! 30),
        lowest := sk, highest := highest ?h, sibling_ptr := sibling_ptr ?h\<rparr>\<rparr>)"
  have newrec: "ip_records (new_InternalPage l) = replicate 61 new_InternalEntry" for l
    by (simp add: new_InternalPage_def new_InternalEntry_def list_update_same_conv
        kInternalCardinality_eq)
  have split: "internal_split p kInternalCardinality sib = Inr (?p', ?s, sk)"
    using sk unfolding internal_split_def Let_def
    by (simp add: kInternalCardinality_eq sk_def [symmetric] newrec moved_def li)
      (simp add: new_InternalPage_def new_Header_def)
  have ep: "entries ?p' = take 30 ?rs" by (simp add: entries_def)
  have es: "entries ?s = drop 31 ?rs"
    by (rule nth_equalityI)
      (use ml len mn in \<open>auto simp: entries_def internal_set_consistent_def add.commute\<close>)
  have "internal_wf ?p' 30"
    using srt rng len unfolding internal_wf_def ep
    by (auto simp: sorted_wrt_iff_nth_less kInternalCardinality_eq in_set_conv_nth sk_def)
  moreover have "ie_key (?rs ! 30) \<le> ie_key (?rs ! (31 + i))" if "i < 30" for i
    using srt [of 30 "31 + i"] that by simp
  then have "internal_wf ?s 30"
    using srt rng len ml unfolding internal_wf_def es
    by (auto simp: sorted_wrt_iff_nth_less kInternalCardinality_eq in_set_conv_nth sk_def
        internal_set_consistent_def)
  ultimately have ok: "internal_ok ?p'" "internal_ok ?s"
    by (auto intro!: internal_okI [of _ 30] simp: kInternalCardinality_eq)
  have "?rs = take 30 ?rs @ ?rs ! 30 # drop 31 ?rs"
    using id_take_nth_drop [of 30 ?rs] len by simp
  then have "map entry_pair ?rs = map entry_pair (take 30 ?rs @ ?rs ! 30 # drop 31 ?rs)"
    by (rule arg_cong)
  then have k: "kids p = kids ?p' @ kids ?s"
    unfolding kids_def ep es eN
    by (simp add: entry_pair_def sk_def internal_set_consistent_def)
  show thesis
    by (rule that [OF split sk ok]) (simp_all add: k internal_set_consistent_def)
qed

end
