(* ===== verification/IndexCache.thy ===== *)
theory IndexCache
  imports CacheEntry InternalProps
begin

text \<open>
  The cache of level-1 pages in a compute node, \<^verbatim>\<open>include/IndexCache.h\<close>: an ordered
  set of key intervals with a page each, a count of the pages that may still be cached, and
  the queue of pages taken out, which are freed some time later. A page in the cache keeps
  its use count in the union at its head. An entry is handed out as a pointer to its node;
  nodes stay, so the interval names the node.

  The time stamp counter and \<^verbatim>\<open>rand_r\<close> are parameters: \<open>rdtsc n\<close> is the \<open>n\<close>-th
  reading (the state counts the readings), \<open>rand_r seed\<close> the number and the new seed. The
  search for a random entry repeats until it hits one; \<open>cache_fuel\<close> bounds the attempts.
\<close>

section \<open>State\<close>

record cache_env =
  rdtsc :: "nat \<Rightarrow> u64"
  rand_r :: "u32 \<Rightarrow> nat \<times> u32"
  cache_fuel :: nat

record IndexCache =
  skiplist_of :: skiplist
  free_page_cnt :: int
  skiplist_node_cnt :: int
  all_page_cnt :: int
  delay_free_list :: "(InternalPage \<times> u64) list"
  tsc_reads :: nat

definition new_IndexCache :: "nat \<Rightarrow> IndexCache" where
  "new_IndexCache cache_size =
     (let memory_size = MB * cache_size; n = int (memory_size div kInternalPageSize)
      in \<lparr>skiplist_of = [], free_page_cnt = n, skiplist_node_cnt = 0, all_page_cnt = n,
          delay_free_list = [], tsc_reads = 0\<rparr>)"

definition read_tsc :: "cache_env \<Rightarrow> IndexCache \<Rightarrow> u64 \<times> IndexCache" where
  "read_tsc env c = (rdtsc env (tsc_reads c), c\<lparr>tsc_reads := tsc_reads c + 1\<rparr>)"

section \<open>Operations\<close>

definition add_entry ::
  "key \<Rightarrow> key \<Rightarrow> InternalPage \<Rightarrow> IndexCache \<Rightarrow> bool \<times> IndexCache" where
  "add_entry from upper ptr c =
     (case sl_insert \<lparr>ce_key = CKey from (upper - 1), ce_ptr = Some ptr\<rparr> (skiplist_of c) of
        (b, xs) \<Rightarrow> (b, c\<lparr>skiplist_of := xs\<rparr>))"

definition find_entry2 :: "key \<Rightarrow> key \<Rightarrow> IndexCache \<Rightarrow> CacheEntry option" where
  "find_entry2 from upper c = sl_find (CKey from (upper - 1)) (skiplist_of c)"

definition find_entry :: "key \<Rightarrow> IndexCache \<Rightarrow> CacheEntry option" where
  "find_entry k c = find_entry2 k (k + 1) c"

text \<open>The leader thread frees the oldest page that waits, if it waited long enough.\<close>

definition delay_free :: "cache_env \<Rightarrow> bool \<Rightarrow> IndexCache \<Rightarrow> IndexCache" where
  "delay_free env is_leader c =
     (if is_leader then
        (case delay_free_list c of
           [] \<Rightarrow> c
         | p # ps \<Rightarrow>
             (case read_tsc env c of (now, c1) \<Rightarrow>
                if now - snd p > 3000 * 10
                then c1\<lparr>free_page_cnt := free_page_cnt c1 + 1, delay_free_list := ps\<rparr>
                else c1))
      else c)"

definition bump_freq :: "InternalPage \<Rightarrow> InternalPage" where
  "bump_freq p = p\<lparr>ip_union := ip_union p + 1\<rparr>"

text \<open>A hit gives the entry and the address its page routes the key to.\<close>

definition search_from_cache ::
  "cache_env \<Rightarrow> key \<Rightarrow> bool \<Rightarrow> IndexCache
    \<Rightarrow> err + (cache_key \<times> GlobalAddress) option \<times> IndexCache" where
  "search_from_cache env k is_leader c =
     (let c1 = delay_free env is_leader c
      in (case find_entry k c1 of
            None \<Rightarrow> Inr (None, c1)
          | Some e \<Rightarrow>
              (case ce_ptr e of
                 None \<Rightarrow> Inr (None, c1)
               | Some page \<Rightarrow>
                   if ck_from (ce_key e) \<le> k \<and> ck_to (ce_key e) \<ge> k then
                     let page1 = bump_freq page;
                         c2 = c1\<lparr>skiplist_of := sl_set_ptr (ce_key e) (Some page1) (skiplist_of c1)\<rparr>
                     in rbind (records_route page1 k) (\<lambda>addr. Inr (Some (ce_key e, addr), c2))
                   else Inr (None, c1))))"

text \<open>The pages of \<^verbatim>\<open>search_range_from_cache\<close>: the loop over the iterator.\<close>

fun range_loop :: "key \<Rightarrow> skiplist \<Rightarrow> InternalPage list" where
  "range_loop upper [] = []"
| "range_loop upper (e # es) =
     (case ce_ptr e of
        None \<Rightarrow> range_loop upper es
      | Some p \<Rightarrow> if ck_from (ce_key e) > upper then [] else p # range_loop upper es)"

definition search_range_from_cache :: "key \<Rightarrow> key \<Rightarrow> IndexCache \<Rightarrow> InternalPage list" where
  "search_range_from_cache from upper c = range_loop upper (sl_seek (CKey from from) (skiplist_of c))"

definition ptr_of :: "cache_key \<Rightarrow> IndexCache \<Rightarrow> InternalPage option" where
  "ptr_of h c = (case find (\<lambda>e. ce_key e = h) (skiplist_of c) of None \<Rightarrow> None | Some e \<Rightarrow> ce_ptr e)"

definition invalidate :: "cache_env \<Rightarrow> cache_key \<Rightarrow> IndexCache \<Rightarrow> bool \<times> IndexCache" where
  "invalidate env h c =
     (case ptr_of h c of
        None \<Rightarrow> (False, c)
      | Some p \<Rightarrow>
          (case read_tsc env (c\<lparr>skiplist_of := sl_set_ptr h None (skiplist_of c)\<rparr>) of (now, c1) \<Rightarrow>
             (True, c1\<lparr>delay_free_list := delay_free_list c1 @ [(p, now)]\<rparr>)))"

fun random_entry_loop ::
  "cache_env \<Rightarrow> nat \<Rightarrow> u32 \<Rightarrow> IndexCache \<Rightarrow> err + (cache_key \<times> u64) \<times> IndexCache" where
  "random_entry_loop env 0 seed c = Inl OutOfFuel"
| "random_entry_loop env (Suc n) seed c =
     (case rand_r env seed of (r, seed') \<Rightarrow>
        rbind (search_from_cache env (of_nat (r mod (1000 * MB))) False c) (\<lambda>(e, c1).
          case e of
            None \<Rightarrow> random_entry_loop env n seed' c1
          | Some (h, _) \<Rightarrow>
              (case ptr_of h c1 of
                 None \<Rightarrow> random_entry_loop env n seed' c1
               | Some ptr \<Rightarrow> Inr ((h, ip_union ptr), c1))))"

definition get_a_random_entry ::
  "cache_env \<Rightarrow> IndexCache \<Rightarrow> err + (cache_key \<times> u64) \<times> IndexCache" where
  "get_a_random_entry env c =
     (case read_tsc env c of (t, c1) \<Rightarrow> random_entry_loop env (cache_fuel env) (ucast t) c1)"

definition evict_one :: "cache_env \<Rightarrow> IndexCache \<Rightarrow> err + IndexCache" where
  "evict_one env c =
     rbind (get_a_random_entry env c) (\<lambda>((e1, freq1), c1).
     rbind (get_a_random_entry env c1) (\<lambda>((e2, freq2), c2).
       Inr (if freq1 < freq2 then snd (invalidate env e1 c2) else snd (invalidate env e2 c2))))"

text \<open>The bookkeeping after a page was put into the cache.\<close>

definition take_free_page :: "cache_env \<Rightarrow> IndexCache \<Rightarrow> err + IndexCache" where
  "take_free_page env c =
     (let v = free_page_cnt c; c1 = c\<lparr>free_page_cnt := v - 1\<rparr>
      in if v \<le> 0 then evict_one env c1 else Inr c1)"

definition add_to_cache :: "cache_env \<Rightarrow> InternalPage \<Rightarrow> IndexCache \<Rightarrow> err + bool \<times> IndexCache" where
  "add_to_cache env page c =
     (let new_page = page\<lparr>ip_union := 0\<rparr>; lo = lowest (ip_hdr page); hi = highest (ip_hdr page)
      in (case add_entry lo hi new_page c of (added, c1) \<Rightarrow>
            if added then
              rbind (take_free_page env (c1\<lparr>skiplist_node_cnt := skiplist_node_cnt c1 + 1\<rparr>))
                (\<lambda>c2. Inr (True, c2))
            else
              (case find_entry2 lo hi c1 of
                 None \<Rightarrow> Inr (False, c1)
               | Some e \<Rightarrow>
                   if ck_from (ce_key e) = lo \<and> ck_to (ce_key e) = hi - 1 \<and> ce_ptr e = None
                   then rbind (take_free_page env (c1\<lparr>skiplist_of :=
                            sl_set_ptr (ce_key e) (Some new_page) (skiplist_of c1)\<rparr>))
                          (\<lambda>c2. Inr (True, c2))
                   else Inr (False, c1))))"

section \<open>Invariant\<close>

text \<open>
  \<open>cache_inv P c\<close>: the nodes are in order, every cached page satisfies the client's \<open>P\<close> and
  sits under its own interval, and the counters agree with the contents.
\<close>

definition cached :: "IndexCache \<Rightarrow> InternalPage set" where
  "cached c = {p. \<exists>e \<in> set (skiplist_of c). ce_ptr e = Some p}"

definition entry_ok :: "(InternalPage \<Rightarrow> bool) \<Rightarrow> CacheEntry \<Rightarrow> bool" where
  "entry_ok P e \<longleftrightarrow> (\<forall>p. ce_ptr e = Some p \<longrightarrow> P p
     \<and> ce_key e = CKey (lowest (ip_hdr p)) (highest (ip_hdr p) - 1))"

definition pages_in :: "skiplist \<Rightarrow> nat" where
  "pages_in xs = length (filter (\<lambda>e. ce_ptr e \<noteq> None) xs)"

definition cache_inv :: "(InternalPage \<Rightarrow> bool) \<Rightarrow> IndexCache \<Rightarrow> bool" where
  "cache_inv P c \<longleftrightarrow> sl_ok (skiplist_of c) \<and> (\<forall>e \<in> set (skiplist_of c). entry_ok P e)
     \<and> free_page_cnt c =
         all_page_cnt c - int (pages_in (skiplist_of c)) - int (length (delay_free_list c))
     \<and> skiplist_node_cnt c = int (length (skiplist_of c))"

lemma read_tsc_simps [simp]:
  "fst (read_tsc env c) = rdtsc env (tsc_reads c)"
  "skiplist_of (snd (read_tsc env c)) = skiplist_of c"
  "cache_inv P (snd (read_tsc env c)) = cache_inv P c"
  by (simp_all add: read_tsc_def cache_inv_def)

lemma cached_iff: "p \<in> cached c \<longleftrightarrow> (\<exists>e \<in> set (skiplist_of c). ce_ptr e = Some p)"
  by (simp add: cached_def)

lemma cache_inv_cached: "cache_inv P c \<Longrightarrow> p \<in> cached c \<Longrightarrow> P p"
  by (auto simp: cache_inv_def cached_def entry_ok_def)

lemma cache_inv_mono: "cache_inv P c \<Longrightarrow> (\<And>p. P p \<Longrightarrow> Q p) \<Longrightarrow> cache_inv Q c"
  by (auto simp: cache_inv_def entry_ok_def)

lemma new_IndexCache_inv: "cache_inv P (new_IndexCache n)"
  by (simp add: new_IndexCache_def cache_inv_def Let_def sl_ok_def pages_in_def)

lemma find_entry2_eq: "find_entry2 lo hi c = sl_find (CKey lo (hi - 1)) (skiplist_of c)"
  by (simp add: find_entry2_def)

lemma find_entry_eq: "find_entry k c = sl_find (CKey k k) (skiplist_of c)"
  by (simp add: find_entry_def find_entry2_def)

text \<open>Replacing the page of one node.\<close>

lemma pages_in_set_ptr:
  assumes "sl_ok xs" "e \<in> set xs"
  shows "int (pages_in (sl_set_ptr (ce_key e) q xs)) =
    int (pages_in xs) - of_bool (ce_ptr e \<noteq> None) + of_bool (q \<noteq> None)"
  using assms
proof (induction xs)
  case (Cons x xs)
  show ?case
  proof (cases "ce_key x = ce_key e")
    case True
    with Cons.prems have "x = e" by (metis sl.key_inj list.set_intros(1))
    moreover have "sl_set_ptr (ce_key e) q xs = xs"
      using Cons.prems True by (auto simp: sl_set_ptr_def sl_ok_Cons intro!: map_idI)
    ultimately show ?thesis by (simp add: sl_set_ptr_def pages_in_def)
  next
    case False
    then have "e \<in> set xs" using Cons.prems by auto
    with Cons False show ?thesis by (simp add: sl_set_ptr_def pages_in_def sl_ok_Cons)
  qed
qed simp

lemma length_sl_set_ptr [simp]: "length (sl_set_ptr k q xs) = length xs"
  by (simp add: sl_set_ptr_def)

lemma cache_inv_set_ptr:
  assumes inv: "cache_inv P c" and e: "e \<in> set (skiplist_of c)"
    and q: "\<And>p. q = Some p \<Longrightarrow> P p \<and> ce_key e = CKey (lowest (ip_hdr p)) (highest (ip_hdr p) - 1)"
    and c': "skiplist_of c' = sl_set_ptr (ce_key e) q (skiplist_of c)"
    and rest: "skiplist_node_cnt c' = skiplist_node_cnt c" "all_page_cnt c' = all_page_cnt c"
    and cnt: "free_page_cnt c' + int (length (delay_free_list c')) + of_bool (q \<noteq> None) =
      free_page_cnt c + int (length (delay_free_list c)) + of_bool (ce_ptr e \<noteq> None)"
  shows "cache_inv P c'"
proof -
  have ok: "sl_ok (skiplist_of c)" using inv by (simp add: cache_inv_def)
  have "entry_ok P x" if "x \<in> set (skiplist_of c')" for x
    using sl_set_ptr_set [OF that [unfolded c']] inv q
    by (auto simp: entry_ok_def cache_inv_def)
  then show ?thesis
    using inv cnt pages_in_set_ptr [OF ok e, of q] by (auto simp: cache_inv_def c' rest)
qed

lemma cached_set_ptr:
  "skiplist_of c' = sl_set_ptr h q (skiplist_of c) \<Longrightarrow> p \<in> cached c' \<Longrightarrow> q = Some p \<or> p \<in> cached c"
  by (auto simp: cached_def dest: sl_set_ptr_set)

lemma delay_free_inv:
  "cache_inv P c \<Longrightarrow> cache_inv P (delay_free env b c)
     \<and> skiplist_of (delay_free env b c) = skiplist_of c
     \<and> free_page_cnt c \<le> free_page_cnt (delay_free env b c)"
  by (auto simp: delay_free_def cache_inv_def read_tsc_def split: list.splits)

text \<open>
  A search: the invariant stays, and a hit comes from a cached page whose interval has the
  key, with the address that the page routes it to.
\<close>

definition routable :: "InternalPage \<Rightarrow> bool" where
  "routable p \<longleftrightarrow> (\<exists>n. internal_wf p n) \<and> lowest (ip_hdr p) < highest (ip_hdr p)"

lemma bump_freq_simps [simp]:
  "ip_hdr (bump_freq p) = ip_hdr p" "ip_records (bump_freq p) = ip_records p"
  by (simp_all add: bump_freq_def)

lemma records_route_bump [simp]: "records_route (bump_freq p) k = records_route p k"
  by (simp add: records_route_def Let_def)

lemma search_from_cache_spec:
  assumes inv: "cache_inv P c" and bump: "\<And>p. P p \<Longrightarrow> P (bump_freq p)"
    and rt: "\<And>p. P p \<Longrightarrow> routable p"
  obtains c' where "search_from_cache env k b c = Inr (None, c')" "cache_inv P c'"
      "free_page_cnt c \<le> free_page_cnt c'"
  | h a c' p where "search_from_cache env k b c = Inr (Some (h, a), c')" "cache_inv P c'"
      "free_page_cnt c \<le> free_page_cnt c'" "P p" "a = route_ref p k"
      "lowest (ip_hdr p) \<le> k" "k < highest (ip_hdr p)"
proof -
  define c1 where "c1 = delay_free env b c"
  have c1: "cache_inv P c1" "free_page_cnt c \<le> free_page_cnt c1"
    using delay_free_inv [OF inv] by (simp_all add: c1_def)
  note miss = that(1) and hit = that(2)
  show thesis
  proof (cases "\<exists>e page. find_entry k c1 = Some e \<and> ce_ptr e = Some page
      \<and> ck_from (ce_key e) \<le> k \<and> ck_to (ce_key e) \<ge> k")
    case False
    then have "search_from_cache env k b c = Inr (None, c1)"
      by (auto simp: search_from_cache_def Let_def c1_def split: option.split)
    with c1 miss show ?thesis by blast
  next
    case True
    then obtain e page where e: "find_entry k c1 = Some e" "ce_ptr e = Some page"
      "ck_from (ce_key e) \<le> k" "ck_to (ce_key e) \<ge> k" by blast
    have ok: "sl_ok (skiplist_of c1)" using c1 by (simp add: cache_inv_def)
    have mem: "e \<in> set (skiplist_of c1)"
      using e(1) sl.seek_Some [OF ok] by (simp add: find_entry_eq)
    then have P: "P page" and key: "ce_key e = CKey (lowest (ip_hdr page)) (highest (ip_hdr page) - 1)"
      using c1 e(2) by (auto simp: cache_inv_def entry_ok_def)
    obtain n where wf: "internal_wf page n" and lt: "lowest (ip_hdr page) < highest (ip_hdr page)"
      using rt [OF P] by (auto simp: routable_def)
    have range: "lowest (ip_hdr page) \<le> k" "k < highest (ip_hdr page)"
      using e key le_minus_one_word [OF lt] by simp_all
    define c2 where "c2 = c1\<lparr>skiplist_of :=
      sl_set_ptr (ce_key e) (Some (bump_freq page)) (skiplist_of c1)\<rparr>"
    have inv2: "cache_inv P c2"
      by (rule cache_inv_set_ptr [OF c1(1) mem, of "Some (bump_freq page)"])
        (use e P key bump in \<open>simp_all add: c2_def\<close>)
    have "search_from_cache env k b c = Inr (Some (ce_key e, route_ref page k), c2)"
      using e records_route_eq(1) [OF wf range(1)]
      by (simp add: search_from_cache_def Let_def flip: c1_def) (simp add: c2_def)
    from hit [OF this inv2 _ P refl range] c1 show ?thesis by (simp add: c2_def)
  qed
qed

lemma invalidate_inv:
  assumes inv: "cache_inv P c"
  shows "cache_inv P (snd (invalidate env h c))"
    and "free_page_cnt (snd (invalidate env h c)) = free_page_cnt c"
proof -
  show "free_page_cnt (snd (invalidate env h c)) = free_page_cnt c"
    by (auto simp: invalidate_def read_tsc_def split: option.split)
  show "cache_inv P (snd (invalidate env h c))"
  proof (cases "ptr_of h c")
    case None
    with inv show ?thesis by (simp add: invalidate_def)
  next
    case (Some p)
    then obtain e where e: "e \<in> set (skiplist_of c)" "ce_key e = h" "ce_ptr e = Some p"
      by (auto simp: ptr_of_def find_Some_iff split: option.splits intro: nth_mem)
    show ?thesis
      by (rule cache_inv_set_ptr [OF inv e(1), of None])
        (use e Some in \<open>simp_all add: invalidate_def read_tsc_def\<close>)
  qed
qed

text \<open>Adding a page while there is room: no eviction, the new page is a copy whose use
  count is zero.\<close>

lemma add_entry_inv:
  assumes inv: "cache_inv P c" and add: "add_entry lo hi p c = (True, c1)"
    and P: "P p" and h: "lo = lowest (ip_hdr p)" "hi = highest (ip_hdr p)"
    and c2: "c2 = c1\<lparr>skiplist_node_cnt := skiplist_node_cnt c1 + 1,
      free_page_cnt := free_page_cnt c1 - 1\<rparr>"
  shows "cache_inv P c2"
proof -
  let ?e = "\<lparr>ce_key = CKey lo (hi - 1), ce_ptr = Some p\<rparr>"
  have ok: "sl_ok (skiplist_of c)" using inv by (simp add: cache_inv_def)
  have f: "fst (sl_insert ?e (skiplist_of c))" and c1: "c1 = c\<lparr>skiplist_of := snd (sl_insert ?e (skiplist_of c))\<rparr>"
    using add by (auto simp: add_entry_def split: prod.splits)
  have "pages_in (snd (sl_insert ?e xs)) = Suc (pages_in xs)" if "fst (sl_insert ?e xs)" for xs
    using that by (induction xs) (auto simp: pages_in_def sl_insert_Cons split: if_splits)
  with f have "pages_in (skiplist_of c1) = Suc (pages_in (skiplist_of c))" by (simp add: c1)
  moreover have "length (skiplist_of c1) = Suc (length (skiplist_of c))"
    using f by (simp add: c1 sl_insert_length)
  moreover have "set (skiplist_of c1) = insert ?e (set (skiplist_of c))"
    using f by (simp add: c1 sl_insert_set)
  moreover have "sl_ok (skiplist_of c1)" using ok by (simp add: c1 sl_insert_inv)
  ultimately show ?thesis
    using inv P h by (auto simp: cache_inv_def c2 c1 entry_ok_def)
qed

lemma add_entry_False:
  assumes "add_entry lo hi p c = (False, c1)"
  shows "c1 = c"
proof -
  have "snd (sl_insert e xs) = xs" if "\<not> fst (sl_insert e xs)" for e xs
    using that by (induction xs) (auto simp: sl_insert_Cons split: if_splits)
  then have "xs' = xs" if "sl_insert e xs = (False, xs')" for e xs xs'
    using that by (metis fst_conv snd_conv)
  with assms show ?thesis
    by (auto simp: add_entry_def split: prod.splits intro!: IndexCache.equality)
qed

text \<open>The two ways in which \<open>add_to_cache\<close> goes: nothing changes, or one page more is in the
  cache and then, if none was free, one is evicted.\<close>

lemma add_to_cache_cases:
  assumes inv: "cache_inv P c" and P: "P (page\<lparr>ip_union := 0\<rparr>)"
  obtains "add_to_cache env page c = Inr (False, c)"
  | c2 where "cache_inv P c2" "free_page_cnt c2 = free_page_cnt c - 1"
      "all_page_cnt c2 = all_page_cnt c" "delay_free_list c2 = delay_free_list c"
      "add_to_cache env page c = rbind (if free_page_cnt c \<le> 0 then evict_one env c2 else Inr c2)
         (\<lambda>c'. Inr (True, c'))"
proof -
  let ?p = "page\<lparr>ip_union := 0\<rparr>" and ?lo = "lowest (ip_hdr page)" and ?hi = "highest (ip_hdr page)"
  note d = add_to_cache_def Let_def take_free_page_def
  have ok: "sl_ok (skiplist_of c)" using inv by (simp add: cache_inv_def)
  obtain added c1 where a: "add_entry ?lo ?hi ?p c = (added, c1)" by (metis surj_pair)
  have c1: "free_page_cnt c1 = free_page_cnt c" "all_page_cnt c1 = all_page_cnt c"
    "delay_free_list c1 = delay_free_list c"
    using a by (auto simp: add_entry_def split: prod.splits)
  show thesis
  proof (cases added)
    case True
    define c2 where "c2 = c1\<lparr>skiplist_node_cnt := skiplist_node_cnt c1 + 1,
      free_page_cnt := free_page_cnt c1 - 1\<rparr>"
    have "cache_inv P c2"
      by (rule add_entry_inv [OF inv _ P _ _ c2_def]) (use a True in simp_all)
    then show thesis
      by (rule that(2)) (use a True c1 in \<open>auto simp: d c2_def\<close>)
  next
    case False
    then have c1_eq: "c1 = c" using add_entry_False a by simp
    show thesis
    proof (cases "\<exists>e. find_entry2 ?lo ?hi c = Some e \<and> ck_from (ce_key e) = ?lo
        \<and> ck_to (ce_key e) = ?hi - 1 \<and> ce_ptr e = None")
      case True
      then obtain e where e: "find_entry2 ?lo ?hi c = Some e" "ck_from (ce_key e) = ?lo"
        "ck_to (ce_key e) = ?hi - 1" "ce_ptr e = None" by blast
      have mem: "e \<in> set (skiplist_of c)"
        using e(1) sl.seek_Some [OF ok] by (simp add: find_entry2_eq)
      have key: "ce_key e = CKey ?lo (?hi - 1)" using e by (cases "ce_key e") simp
      define c2 where "c2 = c\<lparr>skiplist_of := sl_set_ptr (ce_key e) (Some ?p) (skiplist_of c),
        free_page_cnt := free_page_cnt c - 1\<rparr>"
      have "cache_inv P c2"
        by (rule cache_inv_set_ptr [OF inv mem, of "Some ?p"])
          (use P key e in \<open>simp_all add: c2_def\<close>)
      then show thesis
        by (rule that(2)) (use a False e in \<open>auto simp: d c1_eq c2_def\<close>)
    next
      case no: False
      then have "add_to_cache env page c = Inr (False, c)"
        using a False by (auto simp: d c1_eq split: option.split)
      then show thesis by (rule that(1))
    qed
  qed
qed

lemma add_to_cache_spec:
  assumes inv: "cache_inv P c" and P: "P (page\<lparr>ip_union := 0\<rparr>)" and room: "0 < free_page_cnt c"
  obtains b c' where "add_to_cache env page c = Inr (b, c')" "cache_inv P c'"
    "free_page_cnt c - 1 \<le> free_page_cnt c'"
proof (rule add_to_cache_cases [OF inv P, of env])
  assume "add_to_cache env page c = Inr (False, c)"
  then show thesis using inv by (rule that) simp
next
  fix c2 assume "cache_inv P c2" "free_page_cnt c2 = free_page_cnt c - 1"
    "add_to_cache env page c = rbind (if free_page_cnt c \<le> 0 then evict_one env c2 else Inr c2)
       (\<lambda>c'. Inr (True, c'))"
  then show thesis using room by (intro that [of True c2]) simp_all
qed

end
