(* ===== verification/World.thy ===== *)
theory World
  imports DsmAlloc Locks IndexCache
begin

text \<open>
  The state that a client thread of the tree works on, and the memory, lock and root-pointer
  primitives of \<^verbatim>\<open>src/Tree.cpp\<close> and \<^verbatim>\<open>src/DSM.cpp\<close> on it, for an operation that
  runs while no other thread does (messages to the directories may be under way). Remote
  memory is a map from the start of a page to the page: allocation hands out disjoint pages
  (theory \<open>DsmAlloc\<close>), so that distinct addresses never overlap.
\<close>

section \<open>State\<close>

record World =
  mem :: "GlobalAddress \<Rightarrow> page option"           \<comment> \<open>pages in the memory nodes\<close>
  cells :: "GlobalAddress \<Rightarrow> u64"                 \<comment> \<open>root pointer cells\<close>
  chip :: "GlobalAddress \<Rightarrow> u64"                  \<comment> \<open>lock words in on-chip memory\<close>
  nodes :: "node_state list"                      \<comment> \<open>directories and globals per node\<close>
  network :: "(nat \<times> RawMessage) list"            \<comment> \<open>messages to directories\<close>
  local_locks :: "16 word \<times> nat \<Rightarrow> LocalLockNode" \<comment> \<open>of this compute node\<close>
  index_cache :: IndexCache                       \<comment> \<open>of this compute node\<close>
  dsm_th :: dsm_thread                            \<comment> \<open>of this thread\<close>
  path_stack :: "GlobalAddress list"              \<comment> \<open>of this coroutine\<close>
  cache_hit :: u64
  cache_miss :: u64

text \<open>
  What stays fixed while a thread runs: its identity, the tree's number, CityHash64, the
  parameters of the cache, and the word that a page buffer happens to hold where the
  constructor of a new root does not write.
\<close>

record tree_env =
  my_node :: nat
  my_thread :: nat
  tree_id :: nat
  city_hash64 :: "u64 \<Rightarrow> u64"
  cenv :: cache_env
  stale_word :: u64

definition thread_tag :: "tree_env \<Rightarrow> u64" where
  "thread_tag env = of_nat (my_thread env) + push_bit 32 (of_nat (my_node env)) + 1"

section \<open>Remote memory\<close>

definition read_page :: "GlobalAddress \<Rightarrow> World \<Rightarrow> err + page" where
  "read_page a w = (case mem w a of None \<Rightarrow> Inl WildAccess | Some p \<Rightarrow> Inr p)"

definition write_page :: "GlobalAddress \<Rightarrow> page \<Rightarrow> World \<Rightarrow> World" where
  "write_page a p w = w\<lparr>mem := (mem w)(a \<mapsto> p)\<rparr>"

text \<open>
  The region that is written together with an unlock: the whole page, or one leaf record
  at its place in the page (\<^verbatim>\<open>GADD(page_addr, update_addr - page)\<close>).
\<close>

datatype region = WholePage page | LeafRecord nat LeafEntry

fun write_region :: "GlobalAddress \<Rightarrow> region \<Rightarrow> World \<Rightarrow> err + World" where
  "write_region a (WholePage p) w = Inr (write_page a p w)"
| "write_region a (LeafRecord i r) w =
     (case mem w a of
        Some (LeafP p) \<Rightarrow> Inr (write_page a (LeafP (p\<lparr>lp_records := (lp_records p)[i := r]\<rparr>)) w)
      | _ \<Rightarrow> Inl WildAccess)"

definition cas_sync :: "GlobalAddress \<Rightarrow> u64 \<Rightarrow> u64 \<Rightarrow> World \<Rightarrow> bool \<times> World" where
  "cas_sync a equal new w =
     (case cas_word (cells w a) equal new of (old, x) \<Rightarrow>
        (equal = old, w\<lparr>cells := (cells w)(a := x)\<rparr>))"

definition tree_alloc :: "tree_env \<Rightarrow> nat \<Rightarrow> World \<Rightarrow> err + GlobalAddress \<times> World" where
  "tree_alloc env sz w =
     rbind (dsm_alloc (of_nat (my_node env)) (of_nat (my_thread env)) sz (nodes w, dsm_th w))
       (\<lambda>(a, ns, th). Inr (a, w\<lparr>nodes := ns, dsm_th := th\<rparr>))"

definition rpc_call_dir :: "tree_env \<Rightarrow> RawMessage \<Rightarrow> nat \<Rightarrow> World \<Rightarrow> World" where
  "rpc_call_dir env m node_id w = w\<lparr>network := network w @
     [(node_id, m\<lparr>rm_node_id := of_nat (my_node env), rm_app_id := of_nat (my_thread env)\<rparr>)]\<rparr>"

text \<open>A directory takes the message at place \<open>i\<close> from the network.\<close>

definition deliver :: "nat \<Rightarrow> World \<Rightarrow> err + World" where
  "deliver i w =
     (if i < length (network w) then
        (case network w ! i of (node_id, m) \<Rightarrow>
           if node_id < length (nodes w) then
             rbind (process_message m (nodes w ! node_id)) (\<lambda>(r, s').
               Inr (w\<lparr>nodes := (nodes w)[node_id := s'],
                      network := take i (network w) @ drop (Suc i) (network w)\<rparr>))
           else Inl OutOfBounds)
      else Inl OutOfBounds)"

section \<open>Locks\<close>

definition lock_addr_of :: "tree_env \<Rightarrow> GlobalAddress \<Rightarrow> GlobalAddress" where
  "lock_addr_of env page_addr = \<lparr>nodeID = nodeID page_addr,
     offset = of_nat (unat (city_hash64 env (addr_val page_addr)) mod kNumOfLock * 8)\<rparr>"

definition lock_slot :: "GlobalAddress \<Rightarrow> 16 word \<times> nat" where
  "lock_slot a = (nodeID a, unat (offset a) div 8)"

definition set_local_lock :: "GlobalAddress \<Rightarrow> LocalLockNode \<Rightarrow> World \<Rightarrow> World" where
  "set_local_lock a n w = w\<lparr>local_locks := (local_locks w)(lock_slot a := n)\<rparr>"

definition try_lock_addr :: "GlobalAddress \<Rightarrow> u64 \<Rightarrow> World \<Rightarrow> err + World" where
  "try_lock_addr lock_addr tag w =
     rbind (acquire_local_lock (local_locks w (lock_slot lock_addr))) (\<lambda>(h, n).
       let w1 = set_local_lock lock_addr n w
       in if h then Inr w1
          else rbind (remote_lock (chip w1 lock_addr) tag) (\<lambda>x.
                 Inr (w1\<lparr>chip := (chip w1)(lock_addr := x)\<rparr>)))"

definition unlock_addr :: "GlobalAddress \<Rightarrow> World \<Rightarrow> World" where
  "unlock_addr lock_addr w =
     (case can_hand_over (local_locks w (lock_slot lock_addr)) of (h, n) \<Rightarrow>
        let w1 = set_local_lock lock_addr n w;
            w2 = (if h then w1 else w1\<lparr>chip := (chip w1)(lock_addr := 0)\<rparr>)
        in set_local_lock lock_addr
             (releases_local_lock (local_locks w2 (lock_slot lock_addr))) w2)"

definition write_page_and_unlock ::
  "GlobalAddress \<Rightarrow> region \<Rightarrow> GlobalAddress \<Rightarrow> World \<Rightarrow> err + World" where
  "write_page_and_unlock page_addr rg lock_addr w =
     (case can_hand_over (local_locks w (lock_slot lock_addr)) of (h, n) \<Rightarrow>
        rbind (write_region page_addr rg (set_local_lock lock_addr n w)) (\<lambda>w1.
          let w2 = (if h then w1 else w1\<lparr>chip := (chip w1)(lock_addr := 0)\<rparr>)
          in Inr (set_local_lock lock_addr
               (releases_local_lock (local_locks w2 (lock_slot lock_addr))) w2)))"

definition lock_and_read_page ::
  "GlobalAddress \<Rightarrow> GlobalAddress \<Rightarrow> u64 \<Rightarrow> World \<Rightarrow> err + page \<times> World" where
  "lock_and_read_page page_addr lock_addr tag w =
     rbind (try_lock_addr lock_addr tag w) (\<lambda>w1.
     rbind (read_page page_addr w1) (\<lambda>p. Inr (p, w1)))"

section \<open>The root\<close>

definition get_root_ptr_ptr :: "tree_env \<Rightarrow> GlobalAddress" where
  "get_root_ptr_ptr env = \<lparr>nodeID = 0,
     offset = of_nat (kRootPointerStoreOffest + sizeof_GlobalAddress * tree_id env)\<rparr>"

definition my_state :: "tree_env \<Rightarrow> World \<Rightarrow> node_state" where
  "my_state env w = nodes w ! my_node env"

definition get_root_ptr :: "tree_env \<Rightarrow> World \<Rightarrow> GlobalAddress" where
  "get_root_ptr env w =
     (if g_root_ptr (my_state env w) = gaddr_null
      then addr_of_val (cells w (get_root_ptr_ptr env))
      else g_root_ptr (my_state env w))"

definition broadcast_new_root :: "tree_env \<Rightarrow> GlobalAddress \<Rightarrow> int \<Rightarrow> World \<Rightarrow> World" where
  "broadcast_new_root env new_root_addr root_level w =
     fold (rpc_call_dir env \<lparr>rm_type = NEW_ROOT, rm_node_id = 0, rm_app_id = 0,
              rm_addr = new_root_addr, rm_level = root_level\<rparr>)
       [0..<length (nodes w)] w"

definition update_new_root ::
  "tree_env \<Rightarrow> GlobalAddress \<Rightarrow> key \<Rightarrow> GlobalAddress \<Rightarrow> nat \<Rightarrow> GlobalAddress \<Rightarrow> World
    \<Rightarrow> err + bool \<times> World" where
  "update_new_root env left k right lv old_root w =
     (let new_root = new_root_InternalPage (stale_word env) left k right (int lv)
      in rbind (tree_alloc env kInternalPageSize w) (\<lambda>(new_root_addr, w1).
         let w2 = write_page new_root_addr (InternalP (internal_set_consistent new_root)) w1
         in (case cas_sync (get_root_ptr_ptr env) (addr_val old_root) (addr_val new_root_addr) w2
             of (res, w3) \<Rightarrow>
               if res then Inr (True, broadcast_new_root env new_root_addr (int lv) w3)
               else Inr (False, w3))))"

text \<open>\<^verbatim>\<open>path_stack[coro_id][level]\<close>; the array has \<^verbatim>\<open>kMaxLevelOfTree\<close> places.\<close>

definition set_path :: "nat \<Rightarrow> GlobalAddress \<Rightarrow> World \<Rightarrow> err + World" where
  "set_path lv a w =
     (if lv < kMaxLevelOfTree then Inr (w\<lparr>path_stack := (path_stack w)[lv := a]\<rparr>)
      else Inl OutOfBounds)"

definition get_path :: "nat \<Rightarrow> World \<Rightarrow> err + GlobalAddress" where
  "get_path lv w = (if lv < kMaxLevelOfTree then Inr (path_stack w ! lv) else Inl OutOfBounds)"

definition before_operation :: "World \<Rightarrow> World" where
  "before_operation w = w\<lparr>path_stack := replicate kMaxLevelOfTree gaddr_null\<rparr>"

end
