(* ===== verification/LeafProps.thy ===== *)
theory LeafProps
  imports Page "HOL-Library.Multiset"
begin

text \<open>
  What the leaf-page routines of \<open>Page\<close> compute. A leaf page stands for the finite map of
  its live records (\<open>leaf_lookup\<close>); \<open>leaf_recs_ok\<close> says that the records form such a map
  within a key range and that a free place is left. Storing and deleting update the map at
  one key, and a split divides it at the split key.
\<close>

section \<open>The map of a leaf page\<close>

definition live :: "LeafEntry \<Rightarrow> bool" where
  "live r \<longleftrightarrow> le_value r \<noteq> kValueNull"

definition leaf_lookup :: "LeafEntry list \<Rightarrow> key \<Rightarrow> val option" where
  "leaf_lookup rs k = map_option le_value
     (find (\<lambda>r. le_key r = k \<and> le_value r \<noteq> kValueNull \<and> f_version r = r_version r) rs)"

definition uniq_keys :: "LeafEntry list \<Rightarrow> bool" where
  "uniq_keys rs \<longleftrightarrow> (\<forall>i < length rs. \<forall>j < length rs.
     live (rs ! i) \<longrightarrow> live (rs ! j) \<longrightarrow> le_key (rs ! i) = le_key (rs ! j) \<longrightarrow> i = j)"

definition leaf_recs_ok :: "key \<Rightarrow> key \<Rightarrow> LeafEntry list \<Rightarrow> bool" where
  "leaf_recs_ok lo hi rs \<longleftrightarrow>
     length rs = kLeafCardinality \<and> uniq_keys rs
     \<and> (\<forall>r \<in> set rs. live r \<longrightarrow> lo \<le> le_key r \<and> le_key r < hi)
     \<and> (\<forall>r \<in> set rs. f_version r = r_version r)
     \<and> length (filter live rs) < kLeafCardinality"

lemma leaf_page_search_eq:
  "leaf_page_search p k =
     (case leaf_lookup (lp_records p) k of None \<Rightarrow> kValueNull | Some v \<Rightarrow> v)"
  by (simp add: leaf_page_search_def leaf_lookup_def split: option.split)

lemma option_eqI: "(\<And>v. x = Some v \<longleftrightarrow> y = Some v) \<Longrightarrow> x = y"
  by (cases x; cases y) auto

lemma leaf_lookup_iff:
  assumes "uniq_keys rs" and "\<forall>r \<in> set rs. f_version r = r_version r"
  shows "leaf_lookup rs k = Some v \<longleftrightarrow>
    (\<exists>r \<in> set rs. live r \<and> le_key r = k \<and> le_value r = v)"
proof
  assume "leaf_lookup rs k = Some v"
  then show "\<exists>r \<in> set rs. live r \<and> le_key r = k \<and> le_value r = v"
    by (auto simp: leaf_lookup_def live_def find_Some_iff)
next
  assume "\<exists>r \<in> set rs. live r \<and> le_key r = k \<and> le_value r = v"
  then obtain i where i: "i < length rs" "live (rs ! i)" "le_key (rs ! i) = k"
    "le_value (rs ! i) = v" by (auto simp: in_set_conv_nth)
  have first: "\<forall>j < i. \<not> (le_key (rs ! j) = k \<and> le_value (rs ! j) \<noteq> kValueNull)"
  proof (intro allI impI notI)
    fix j
    assume "j < i" and "le_key (rs ! j) = k \<and> le_value (rs ! j) \<noteq> kValueNull"
    with i assms(1) have "j = i" by (auto simp: uniq_keys_def live_def)
    with \<open>j < i\<close> show False by simp
  qed
  from i assms(2) have "f_version (rs ! i) = r_version (rs ! i)" by simp
  with i first
  have "find (\<lambda>r. le_key r = k \<and> le_value r \<noteq> kValueNull \<and> f_version r = r_version r) rs
      = Some (rs ! i)"
    by (subst find_Some_iff) (auto simp: live_def)
  with i show "leaf_lookup rs k = Some v" by (simp add: leaf_lookup_def)
qed

lemma leaf_lookup_value_live: "leaf_lookup rs k = Some v \<Longrightarrow> v \<noteq> kValueNull"
  by (auto simp: leaf_lookup_def find_Some_iff)

lemma leaf_lookup_empty:
  "\<forall>r \<in> set rs. \<not> live r \<Longrightarrow> leaf_lookup rs k = None"
  by (auto simp: leaf_lookup_def live_def find_None_iff)

section \<open>The scan of leaf\_page\_store\<close>

lemma length_filter_update:
  "j < length xs \<Longrightarrow>
   length (filter P (xs[j := x])) + of_bool (P (xs ! j)) = length (filter P xs) + of_bool (P x)"
proof (induction xs arbitrary: j)
  case Nil
  then show ?case by simp
next
  case (Cons a xs)
  then show ?case by (cases j) (auto split: if_splits)
qed

lemma leaf_scan_hit:
  "leaf_scan rs k i c e = (c', e', Some j) \<Longrightarrow>
   i \<le> j \<and> j < i + length rs \<and> live (rs ! (j - i)) \<and> le_key (rs ! (j - i)) = k
   \<and> c' \<le> c + length (filter live rs)"
proof (induction rs k i c e rule: leaf_scan.induct)
  case (2 r rs k i cnt e)
  show ?case
  proof (cases "le_value r \<noteq> kValueNull \<and> le_key r = k")
    case True
    with 2 show ?thesis by (auto simp: live_def)
  next
    case False
    with 2 have "Suc i \<le> j \<and> j < Suc i + length rs \<and> live (rs ! (j - Suc i))
      \<and> le_key (rs ! (j - Suc i)) = k \<and> c' \<le> cnt + length (filter live (r # rs))"
      by (auto simp: live_def [of r] split: if_splits)
    moreover from this have "(r # rs) ! (j - i) = rs ! (j - Suc i)"
      by (simp add: nth_Cons' Suc_diff_le)
    ultimately show ?thesis by auto
  qed
qed simp

lemma leaf_scan_miss:
  "leaf_scan rs k i c e = (c', e', None) \<Longrightarrow>
   (\<forall>r \<in> set rs. live r \<longrightarrow> le_key r \<noteq> k) \<and> c' = c + length (filter live rs)
   \<and> (case e' of
        None \<Rightarrow> e = None \<and> (\<forall>r \<in> set rs. live r)
      | Some j \<Rightarrow> e = Some j \<or>
          (i \<le> j \<and> j < i + length rs \<and> \<not> live (rs ! (j - i))))"
proof (induction rs k i c e rule: leaf_scan.induct)
  case (1 k i cnt e)
  then show ?case by (cases e) auto
next
  case (2 r rs k i cnt e)
  have shift: "(r # rs) ! (j - i) = rs ! (j - Suc i)" if "Suc i \<le> j" for j
    using that by (simp add: nth_Cons' Suc_diff_le)
  show ?case
  proof (cases "le_value r \<noteq> kValueNull")
    case True
    with 2 show ?thesis
      using shift by (auto simp: live_def split: if_splits option.splits)
  next
    case False
    with 2 show ?thesis
      using shift by (auto simp: live_def split: if_splits option.splits)
  qed
qed

text \<open>
  The two outcomes of \<open>leaf_put\<close> on a well-formed leaf: an update in place of a live
  record, or an insert into a free place.
\<close>

lemma leaf_put_cases:
  assumes ok: "leaf_recs_ok lo hi rs"
  obtains (update) i cnt where "i < length rs" "live (rs ! i)" "le_key (rs ! i) = k"
      "cnt < kLeafCardinality"
      "leaf_put rs k v = Inr (rs[i := bump_versions ((rs ! i)\<lparr>le_value := v\<rparr>)], i, cnt)"
  | (insert) e where "e < length rs" "\<not> live (rs ! e)"
      "\<forall>r \<in> set rs. live r \<longrightarrow> le_key r \<noteq> k"
      "leaf_put rs k v = Inr (rs[e := bump_versions ((rs ! e)\<lparr>le_key := k, le_value := v\<rparr>)],
         e, Suc (length (filter live rs)))"
proof -
  obtain c e u where scan: "leaf_scan rs k 0 0 None = (c, e, u)" by (metis prod_cases3)
  have n: "length (filter live rs) < kLeafCardinality" and len: "length rs = kLeafCardinality"
    using ok by (auto simp: leaf_recs_ok_def)
  show thesis
  proof (cases u)
    case (Some i)
    with leaf_scan_hit [of rs k 0 0 None c e i] scan
    have "i < length rs" "live (rs ! i)" "le_key (rs ! i) = k" "c < kLeafCardinality"
      using n by auto
    with Some scan show thesis by (intro update [of i c]) (auto simp: leaf_put_def)
  next
    case None
    with scan have miss: "leaf_scan rs k 0 0 None = (c, e, None)" by simp
    note m = leaf_scan_miss [OF miss]
    from m have c: "c = length (filter live rs)" by simp
    have "e \<noteq> None"
    proof
      assume "e = None"
      with m have "filter live rs = rs" by simp
      with n len show False by simp
    qed
    then obtain j where j: "e = Some j" by blast
    with m have "j < length rs" "\<not> live (rs ! j)" "\<forall>r \<in> set rs. live r \<longrightarrow> le_key r \<noteq> k"
      by auto
    with j scan None c n show thesis by (intro insert [of j]) (auto simp: leaf_put_def)
  qed
qed

lemma bump_versions_simps [simp]:
  "le_key (bump_versions r) = le_key r" "le_value (bump_versions r) = le_value r"
  "f_version (bump_versions r) = f_version r + 1"
  "r_version (bump_versions r) = f_version r + 1"
  "live (bump_versions r) = live r"
  by (simp_all add: bump_versions_def live_def)

lemma set_update_iff:
  "j < length xs \<Longrightarrow> x \<in> set (xs[j := y]) \<longleftrightarrow> x = y \<or> (\<exists>i < length xs. i \<noteq> j \<and> x = xs ! i)"
  by (auto simp: in_set_conv_nth nth_list_update)

lemma bex_nth: "(\<exists>x \<in> set xs. P x) \<longleftrightarrow> (\<exists>i < length xs. P (xs ! i))"
  by (metis in_set_conv_nth)

lemma bex_update:
  assumes "j < length xs"
  shows "(\<exists>x \<in> set (xs[j := y]). P x) \<longleftrightarrow> P y \<or> (\<exists>i < length xs. i \<noteq> j \<and> P (xs ! i))"
proof -
  have "(\<exists>x \<in> set (xs[j := y]). P x) \<longleftrightarrow> (\<exists>i < length xs. P (if i = j then y else xs ! i))"
    by (subst bex_nth) (auto simp: nth_list_update)
  also have "\<dots> \<longleftrightarrow> P y \<or> (\<exists>i < length xs. i \<noteq> j \<and> P (xs ! i))"
    using assms by (metis (full_types))
  finally show ?thesis .
qed

text \<open>
  Writing one record: the place either held the key or was free, and no other live record
  has the key. This covers both outcomes of a store, and the delete.
\<close>

lemma leaf_write_lookup:
  assumes uk: "uniq_keys rs" and ver: "\<forall>r \<in> set rs. f_version r = r_version r"
    and j: "j < length rs" and ek: "le_key e = k" and ev: "f_version e = r_version e"
    and own: "live (rs ! j) \<longrightarrow> le_key (rs ! j) = k"
    and oth: "\<forall>i < length rs. i \<noteq> j \<longrightarrow> live (rs ! i) \<longrightarrow> le_key (rs ! i) \<noteq> k"
  shows "uniq_keys (rs[j := e])"
    and "\<forall>r \<in> set (rs[j := e]). f_version r = r_version r"
    and "leaf_lookup (rs[j := e]) =
      (leaf_lookup rs)(k := (if le_value e = kValueNull then None else Some (le_value e)))"
proof -
  show u: "uniq_keys (rs[j := e])"
    unfolding uniq_keys_def
  proof (intro allI impI)
    fix a b
    assume "a < length (rs[j := e])" "b < length (rs[j := e])" "live (rs[j := e] ! a)"
      "live (rs[j := e] ! b)" "le_key (rs[j := e] ! a) = le_key (rs[j := e] ! b)"
    with uk oth ek j show "a = b"
      unfolding uniq_keys_def by (cases "a = j"; cases "b = j") auto
  qed
  show v: "\<forall>r \<in> set (rs[j := e]). f_version r = r_version r"
    using ver ev j by (auto simp: set_update_iff)
  show "leaf_lookup (rs[j := e]) =
      (leaf_lookup rs)(k := (if le_value e = kValueNull then None else Some (le_value e)))"
  proof (intro ext option_eqI)
    fix k' w
    show "leaf_lookup (rs[j := e]) k' = Some w \<longleftrightarrow>
      ((leaf_lookup rs)(k := (if le_value e = kValueNull then None else Some (le_value e)))) k'
        = Some w"
    proof (cases "k' = k")
      case True
      have "leaf_lookup (rs[j := e]) k = Some w \<longleftrightarrow> live e \<and> le_value e = w"
        using leaf_lookup_iff [OF u v] j oth ek by (auto simp: bex_update)
      with True show ?thesis by (auto simp: live_def)
    next
      case False
      have "(\<exists>r \<in> set (rs[j := e]). live r \<and> le_key r = k' \<and> le_value r = w) \<longleftrightarrow>
            (\<exists>r \<in> set rs. live r \<and> le_key r = k' \<and> le_value r = w)"
      proof -
        have "i \<noteq> j" if "live (rs ! i) \<and> le_key (rs ! i) = k'" for i
          using that own False by auto
        then show ?thesis unfolding bex_update [OF j] unfolding bex_nth using ek False by blast
      qed
      with False show ?thesis
        using leaf_lookup_iff [OF u v] leaf_lookup_iff [OF uk ver] by auto
    qed
  qed
qed

section \<open>Storing, deleting and splitting\<close>

definition val_opt :: "val \<Rightarrow> val option" where
  "val_opt v = (if v = kValueNull then None else Some v)"

text \<open>
  A leaf in which every place is taken, as it is between the store that fills it and the
  split: all keys differ, the keys of dead records included.
\<close>

definition leaf_full :: "key \<Rightarrow> key \<Rightarrow> LeafEntry list \<Rightarrow> bool" where
  "leaf_full lo hi rs \<longleftrightarrow>
     length rs = kLeafCardinality \<and> distinct (map le_key rs)
     \<and> (\<forall>r \<in> set rs. lo \<le> le_key r \<and> le_key r < hi)
     \<and> (\<forall>r \<in> set rs. f_version r = r_version r)"

lemma filter_all_but_one:
  assumes "j < length xs" and "\<not> P (xs ! j)" and "Suc (length (filter P xs)) = length xs"
    and "i < length xs" and "i \<noteq> j"
  shows "P (xs ! i)"
proof (rule ccontr)
  assume ni: "\<not> P (xs ! i)"
  have "card {a. a < length xs \<and> P (xs ! a)} \<le> card ({..<length xs} - {i, j})"
    by (rule card_mono) (use assms ni in auto)
  also have "\<dots> = length xs - 2" using assms by (simp add: card_Diff_subset)
  finally have "length (filter P xs) \<le> length xs - 2" by (simp add: length_filter_conv_card)
  with assms show False by auto
qed

text \<open>Writing one record of a well-formed leaf, in terms of \<open>leaf_recs_ok\<close>.\<close>

lemma leaf_write_ok:
  assumes ok: "leaf_recs_ok lo hi rs" and j: "j < length rs" and ek: "le_key e = k"
    and kr: "lo \<le> k" "k < hi" and ev: "f_version e = r_version e"
    and own: "live (rs ! j) \<longrightarrow> le_key (rs ! j) = k"
    and oth: "\<forall>i < length rs. i \<noteq> j \<longrightarrow> live (rs ! i) \<longrightarrow> le_key (rs ! i) \<noteq> k"
    and room: "live (rs ! j) \<or> Suc (length (filter live rs)) < kLeafCardinality"
  shows "leaf_recs_ok lo hi (rs[j := e])
    \<and> leaf_lookup (rs[j := e]) = (leaf_lookup rs)(k := val_opt (le_value e))"
proof -
  have u: "uniq_keys rs" and v: "\<forall>r \<in> set rs. f_version r = r_version r"
    using ok by (auto simp: leaf_recs_ok_def)
  note w = leaf_write_lookup [OF u v j ek ev own oth]
  have "length (filter live (rs[j := e])) < kLeafCardinality"
    using length_filter_update [OF j, of live e] room ok
    by (cases "live e"; cases "live (rs ! j)") (auto simp: leaf_recs_ok_def)
  moreover have "\<forall>r \<in> set (rs[j := e]). live r \<longrightarrow> lo \<le> le_key r \<and> le_key r < hi"
    using ok kr ek j by (auto simp: leaf_recs_ok_def set_update_iff)
  ultimately show ?thesis
    using w ok by (simp add: leaf_recs_ok_def val_opt_def)
qed

lemma leaf_put_spec:
  assumes ok: "leaf_recs_ok lo hi rs" and kr: "lo \<le> k" "k < hi"
  obtains rs' j e cnt where "leaf_put rs k v = Inr (rs', j, cnt)" "rs' = rs[j := e]"
    "j < kLeafCardinality" "leaf_lookup rs' = (leaf_lookup rs)(k := val_opt v)"
    "cnt \<le> kLeafCardinality" "f_version e = r_version e"
    "cnt < kLeafCardinality \<Longrightarrow> leaf_recs_ok lo hi rs'"
    "cnt = kLeafCardinality \<Longrightarrow> leaf_full lo hi rs'"
proof (rule leaf_put_cases [OF ok, of k v])
  have len: "length rs = kLeafCardinality" and u: "uniq_keys rs"
    and ver: "\<forall>r \<in> set rs. f_version r = r_version r"
    using ok by (auto simp: leaf_recs_ok_def)
  {
    fix i cnt
    assume i: "i < length rs" "live (rs ! i)" "le_key (rs ! i) = k" "cnt < kLeafCardinality"
      and put: "leaf_put rs k v = Inr (rs[i := bump_versions ((rs ! i)\<lparr>le_value := v\<rparr>)], i, cnt)"
    have "\<forall>a < length rs. a \<noteq> i \<longrightarrow> live (rs ! a) \<longrightarrow> le_key (rs ! a) \<noteq> k"
      using u i by (auto simp: uniq_keys_def)
    then have "leaf_recs_ok lo hi (rs[i := bump_versions ((rs ! i)\<lparr>le_value := v\<rparr>)])
      \<and> leaf_lookup (rs[i := bump_versions ((rs ! i)\<lparr>le_value := v\<rparr>)])
        = (leaf_lookup rs)(k := val_opt v)"
      using leaf_write_ok [OF ok i(1), of "bump_versions ((rs ! i)\<lparr>le_value := v\<rparr>)" k] i kr
      by simp
    then show thesis by (intro that [OF put refl]) (use i len in auto)
  next
    fix e
    assume e: "e < length rs" "\<not> live (rs ! e)" "\<forall>r \<in> set rs. live r \<longrightarrow> le_key r \<noteq> k"
      and put: "leaf_put rs k v = Inr (rs[e := bump_versions ((rs ! e)\<lparr>le_key := k, le_value := v\<rparr>)],
         e, Suc (length (filter live rs)))"
    let ?e = "bump_versions ((rs ! e)\<lparr>le_key := k, le_value := v\<rparr>)"
    have oth: "\<forall>i < length rs. i \<noteq> e \<longrightarrow> live (rs ! i) \<longrightarrow> le_key (rs ! i) \<noteq> k"
      using e by simp
    have lk: "leaf_lookup (rs[e := ?e]) = (leaf_lookup rs)(k := val_opt v)"
      using leaf_write_lookup(3) [OF u ver e(1) _ _ _ oth, of ?e] e(2)
      by (simp add: val_opt_def)
    have le: "Suc (length (filter live rs)) \<le> kLeafCardinality"
      using ok by (simp add: leaf_recs_ok_def)
    show thesis
    proof (rule that [OF put refl])
      show "e < kLeafCardinality" using e len by simp
      show "leaf_lookup (rs[e := ?e]) = (leaf_lookup rs)(k := val_opt v)" by (rule lk)
      show "Suc (length (filter live rs)) \<le> kLeafCardinality" by (rule le)
      show "f_version ?e = r_version ?e" by simp
      show "leaf_recs_ok lo hi (rs[e := ?e])" if "Suc (length (filter live rs)) < kLeafCardinality"
        using leaf_write_ok [OF ok e(1) _ kr _ _ oth, of ?e] e(2) that by simp
      show "leaf_full lo hi (rs[e := ?e])" if full: "Suc (length (filter live rs)) = kLeafCardinality"
      proof -
        have al: "live (rs ! i)" if "i < length rs" "i \<noteq> e" for i
          using filter_all_but_one [where P = live and xs = rs and j = e and i = i]
            e that full len by simp
        have "distinct (map le_key (rs[e := ?e]))"
          unfolding distinct_conv_nth
        proof (intro allI impI)
          fix a b
          assume "a < length (map le_key (rs[e := ?e]))" "b < length (map le_key (rs[e := ?e]))"
            "a \<noteq> b"
          then have ab: "a < length rs" "b < length rs" "a \<noteq> b" by auto
          have "le_key (rs ! x) \<noteq> k" if "x < length rs" "x \<noteq> e" for x
            using oth al that by blast
          moreover have "le_key (rs ! a) \<noteq> le_key (rs ! b)" if "a \<noteq> e" "b \<noteq> e"
            using u al that ab unfolding uniq_keys_def by blast
          ultimately have "(if a = e then k else le_key (rs ! a))
              \<noteq> (if b = e then k else le_key (rs ! b))"
            using ab by metis
          moreover have "map le_key (rs[e := ?e]) ! x = (if x = e then k else le_key (rs ! x))"
            if "x < length rs" for x using that by (simp add: nth_list_update)
          ultimately show "map le_key (rs[e := ?e]) ! a \<noteq> map le_key (rs[e := ?e]) ! b"
            using ab by simp
        qed
        moreover have "\<forall>r \<in> set (rs[e := ?e]). lo \<le> le_key r \<and> le_key r < hi"
          using ok kr al e(1) by (auto simp: leaf_recs_ok_def set_update_iff)
        moreover have "\<forall>r \<in> set (rs[e := ?e]). f_version r = r_version r"
          using ver e(1) by (auto simp: set_update_iff)
        ultimately show ?thesis using len by (simp add: leaf_full_def)
      qed
    qed
  }
qed

lemma leaf_del_scan_Some:
  "leaf_del_scan rs k i = Some j \<Longrightarrow>
   i \<le> j \<and> j < i + length rs \<and> live (rs ! (j - i)) \<and> le_key (rs ! (j - i)) = k"
proof (induction rs k i rule: leaf_del_scan.induct)
  case (2 r rs k i)
  then show ?case
    by (cases "le_key r = k \<and> le_value r \<noteq> kValueNull")
      (auto simp: live_def nth_Cons' Suc_diff_le)
qed simp

lemma leaf_del_scan_None:
  "leaf_del_scan rs k i = None \<Longrightarrow> \<forall>r \<in> set rs. live r \<longrightarrow> le_key r \<noteq> k"
  by (induction rs k i rule: leaf_del_scan.induct) (auto simp: live_def split: if_splits)

lemma leaf_del_spec:
  assumes ok: "leaf_recs_ok lo hi rs"
  shows "case leaf_del rs k of
      None \<Rightarrow> leaf_lookup rs k = None
    | Some (rs', j) \<Rightarrow> j < kLeafCardinality \<and> (\<exists>e. rs' = rs[j := e]) \<and> leaf_recs_ok lo hi rs'
        \<and> leaf_lookup rs' = (leaf_lookup rs)(k := None)"
proof (cases "leaf_del_scan rs k 0")
  case None
  have "leaf_lookup rs k = None"
  proof (rule ccontr)
    assume "leaf_lookup rs k \<noteq> None"
    then show False
      using leaf_del_scan_None [OF None] ok leaf_lookup_iff [of rs k]
      by (auto simp: leaf_recs_ok_def)
  qed
  with None show ?thesis by (simp add: leaf_del_def)
next
  case (Some j)
  let ?e = "bump_versions ((rs ! j)\<lparr>le_value := kValueNull\<rparr>)"
  from leaf_del_scan_Some [OF Some]
  have j: "j < length rs" "live (rs ! j)" "le_key (rs ! j) = k" by auto
  moreover have "\<forall>i < length rs. i \<noteq> j \<longrightarrow> live (rs ! i) \<longrightarrow> le_key (rs ! i) \<noteq> k"
    using ok j by (auto simp: leaf_recs_ok_def uniq_keys_def)
  moreover have "lo \<le> k" "k < hi" using ok j by (auto simp: leaf_recs_ok_def)
  ultimately have "leaf_recs_ok lo hi (rs[j := ?e])
      \<and> leaf_lookup (rs[j := ?e]) = (leaf_lookup rs)(k := None)"
    using leaf_write_ok [OF ok j(1), of ?e k] by (simp add: val_opt_def)
  with j ok Some show ?thesis by (auto simp: leaf_del_def leaf_recs_ok_def)
qed

text \<open>
  The split. Sorting makes the keys strictly increasing, so the records below the middle
  are exactly those with a key below the split key.
\<close>

lemma sorted_full:
  assumes "leaf_full lo hi rs" and "ss = sort_key le_key rs"
  shows "leaf_full lo hi ss" and "set ss = set rs"
    and "i < j \<Longrightarrow> j < kLeafCardinality \<Longrightarrow> le_key (ss ! i) < le_key (ss ! j)"
proof -
  have "distinct (map le_key ss)"
    using assms by (simp add: leaf_full_def distinct_map)
  then show "leaf_full lo hi ss" using assms by (simp add: leaf_full_def)
  show "set ss = set rs" using assms by simp
  have "sorted (map le_key ss)" using assms by simp
  with \<open>distinct (map le_key ss)\<close> have "sorted_wrt (<) (map le_key ss)"
    by (simp add: strict_sorted_iff)
  then show "i < j \<Longrightarrow> j < kLeafCardinality \<Longrightarrow> le_key (ss ! i) < le_key (ss ! j)"
    using assms by (simp add: sorted_wrt_iff_nth_less leaf_full_def)
qed

lemma full_lookup:
  "leaf_full lo hi rs \<Longrightarrow>
   leaf_lookup rs k = Some v \<longleftrightarrow> (\<exists>r \<in> set rs. live r \<and> le_key r = k \<and> le_value r = v)"
  by (rule leaf_lookup_iff)
    (unfold leaf_full_def uniq_keys_def distinct_conv_nth, simp_all, metis)

definition half :: nat where "half = kLeafCardinality div 2"

lemma half_eq: "half = 27" "kLeafCardinality = half + half"
  by (simp_all add: half_def kLeafCardinality_eq)

text \<open>The two halves: the records kept in the page, and those stored in the sibling.\<close>

definition kept_recs :: "LeafEntry list \<Rightarrow> LeafEntry list" where
  "kept_recs ss = fold (\<lambda>i rs. rs[i := (rs ! i)\<lparr>le_key := 0, le_value := kValueNull\<rparr>])
     [half..<kLeafCardinality] ss"

definition moved_recs :: "LeafEntry list \<Rightarrow> LeafEntry list" where
  "moved_recs ss = fold (\<lambda>i rs. rs[i - half := (rs ! (i - half))
        \<lparr>le_key := le_key (ss ! i), le_value := le_value (ss ! i)\<rparr>])
     [half..<kLeafCardinality] (replicate kLeafCardinality new_LeafEntry)"

lemma new_LeafPage_records [simp]:
  "lp_records (new_LeafPage l) = replicate kLeafCardinality new_LeafEntry"
  by (simp add: new_LeafPage_def new_LeafEntry_def list_update_same_conv kLeafCardinality_eq)

lemma kept_recs_nth:
  assumes "length ss = kLeafCardinality"
  shows "length (kept_recs ss) = kLeafCardinality"
    and "i < kLeafCardinality \<Longrightarrow> kept_recs ss ! i =
      (if i < half then ss ! i else (ss ! i)\<lparr>le_key := 0, le_value := kValueNull\<rparr>)"
  using assms nth_fold_modify [of 0 half i ss
      "\<lambda>_ r. r\<lparr>le_key := 0, le_value := kValueNull\<rparr>" kLeafCardinality]
  by (auto simp: kept_recs_def length_fold_update)


lemma moved_recs_nth:
  shows "length (moved_recs ss) = kLeafCardinality"
    and "i < kLeafCardinality \<Longrightarrow> moved_recs ss ! i =
      (if i < half then new_LeafEntry\<lparr>le_key := le_key (ss ! (i + half)),
          le_value := le_value (ss ! (i + half))\<rparr> else new_LeafEntry)"
  using nth_fold_modify [of half half i "replicate kLeafCardinality new_LeafEntry"
      "\<lambda>i r. r\<lparr>le_key := le_key (ss ! i), le_value := le_value (ss ! i)\<rparr>" kLeafCardinality]
  by (auto simp: moved_recs_def length_fold_update half_eq)

lemma bex_half:
  assumes "length xs = kLeafCardinality"
  shows "(\<exists>x \<in> set xs. P x) \<longleftrightarrow> (\<exists>i < half. P (xs ! i)) \<or> (\<exists>i < half. P (xs ! (i + half)))"
proof -
  have "i < kLeafCardinality \<longleftrightarrow> i < half \<or> (\<exists>j < half. i = j + half)" for i
    unfolding half_eq(2) by presburger
  then show ?thesis unfolding bex_nth assms by blast
qed

lemma not_live_new [simp]: "\<not> live new_LeafEntry" "\<not> live (r\<lparr>le_value := kValueNull\<rparr>)"
  by (simp_all add: live_def new_LeafEntry_def)

lemma live_upd [simp]:
  "live (r\<lparr>le_key := a, le_value := b\<rparr>) \<longleftrightarrow> b \<noteq> kValueNull"
  by (simp add: live_def)

lemma kept_recs_spec:
  assumes full: "leaf_full lo hi rs" and ss: "ss = sort_key le_key rs"
    and sk: "sk = le_key (ss ! half)"
  shows "leaf_recs_ok lo sk (kept_recs ss)"
    and "leaf_lookup (kept_recs ss) k = (if k < sk then leaf_lookup rs k else None)"
proof -
  note sf = sorted_full [OF full ss]
  have len: "length ss = kLeafCardinality" using sf(1) by (simp add: leaf_full_def)
  note kr = kept_recs_nth [OF len]
  have lt: "le_key (ss ! i) < sk" if "i < half" for i
    unfolding sk by (rule sf(3)) (use that half_eq in auto)
  have ge: "sk \<le> le_key (ss ! (i + half))" if "i < half" for i
  proof (cases "i = 0")
    case False
    with that have "le_key (ss ! half) < le_key (ss ! (i + half))"
      by (intro sf(3)) (auto simp: half_eq(2))
    then show ?thesis by (simp add: sk)
  qed (simp add: sk)
  have lower: "live (kept_recs ss ! i) \<Longrightarrow> i < kLeafCardinality \<Longrightarrow> i < half" for i
    by (auto simp: kr split: if_splits)
  have u: "uniq_keys (kept_recs ss)"
    unfolding uniq_keys_def kr(1)
  proof (intro allI impI)
    fix i j
    assume a: "i < kLeafCardinality" "j < kLeafCardinality" "live (kept_recs ss ! i)"
      "live (kept_recs ss ! j)" "le_key (kept_recs ss ! i) = le_key (kept_recs ss ! j)"
    with lower have "i < half" "j < half" by auto
    with a have "le_key (ss ! i) = le_key (ss ! j)" by (simp add: kr)
    with a sf(3) show "i = j" by (metis linorder_neq_iff)
  qed
  have v: "\<forall>r \<in> set (kept_recs ss). f_version r = r_version r"
  proof
    fix r
    assume "r \<in> set (kept_recs ss)"
    then obtain i where i: "i < kLeafCardinality" "r = kept_recs ss ! i"
      by (metis in_set_conv_nth kr(1))
    then have "f_version r = f_version (ss ! i)" "r_version r = r_version (ss ! i)"
      by (simp_all add: kr)
    moreover have "ss ! i \<in> set ss" using i len by simp
    ultimately show "f_version r = r_version r" using sf(1) by (simp add: leaf_full_def)
  qed
  have "length (filter live (kept_recs ss)) \<le> card {..<half}"
    unfolding length_filter_conv_card kr(1) by (rule card_mono) (use lower in auto)
  then have n: "length (filter live (kept_recs ss)) < kLeafCardinality"
    by (simp add: half_eq)
  have "\<forall>r \<in> set (kept_recs ss). live r \<longrightarrow> lo \<le> le_key r \<and> le_key r < sk"
  proof (intro ballI impI)
    fix r
    assume "r \<in> set (kept_recs ss)" "live r"
    then obtain i where i: "i < kLeafCardinality" "r = kept_recs ss ! i"
      by (metis in_set_conv_nth kr(1))
    with \<open>live r\<close> lower have "i < half" by blast
    with i have "r = ss ! i" "r \<in> set ss" using len by (simp_all add: kr)
    with \<open>i < half\<close> lt sf(1) show "lo \<le> le_key r \<and> le_key r < sk"
      by (simp add: leaf_full_def)
  qed
  with u v n kr(1) show "leaf_recs_ok lo sk (kept_recs ss)" by (simp add: leaf_recs_ok_def)
  have hlt: "i < kLeafCardinality" "i + half < kLeafCardinality" if "i < half" for i
    using that by (auto simp: half_eq(2))
  show "leaf_lookup (kept_recs ss) k = (if k < sk then leaf_lookup rs k else None)"
  proof (rule option_eqI)
    fix w
    have "leaf_lookup (kept_recs ss) k = Some w \<longleftrightarrow>
        (\<exists>i < half. live (ss ! i) \<and> le_key (ss ! i) = k \<and> le_value (ss ! i) = w)"
      unfolding leaf_lookup_iff [OF u v] bex_half [OF kr(1)] using hlt by (auto simp: kr)
    moreover have "leaf_lookup rs k = Some w \<longleftrightarrow>
        (\<exists>i < half. live (ss ! i) \<and> le_key (ss ! i) = k \<and> le_value (ss ! i) = w)
      \<or> (\<exists>i < half. live (ss ! (i + half)) \<and> le_key (ss ! (i + half)) = k
            \<and> le_value (ss ! (i + half)) = w)"
      unfolding full_lookup [OF full] sf(2) [symmetric] by (rule bex_half [OF len])
    moreover have "k < sk" if "i < half" "le_key (ss ! i) = k" for i
      using lt that by blast
    moreover have "\<not> k < sk" if "i < half" "le_key (ss ! (i + half)) = k" for i
      using ge that by (metis leD)
    ultimately show "leaf_lookup (kept_recs ss) k = Some w \<longleftrightarrow>
        (if k < sk then leaf_lookup rs k else None) = Some w"
      by (cases "k < sk") auto
  qed
qed

lemma moved_recs_spec:
  assumes full: "leaf_full lo hi rs" and ss: "ss = sort_key le_key rs"
    and sk: "sk = le_key (ss ! half)"
  shows "leaf_recs_ok sk hi (moved_recs ss)"
    and "leaf_lookup (moved_recs ss) k = (if k < sk then None else leaf_lookup rs k)"
proof -
  note sf = sorted_full [OF full ss]
  have len: "length ss = kLeafCardinality" using sf(1) by (simp add: leaf_full_def)
  note mr = moved_recs_nth [where ss = ss]
  have lt: "le_key (ss ! i) < sk" if "i < half" for i
    unfolding sk by (rule sf(3)) (use that half_eq in auto)
  have ge: "sk \<le> le_key (ss ! (i + half))" if "i < half" for i
  proof (cases "i = 0")
    case False
    with that have "le_key (ss ! half) < le_key (ss ! (i + half))"
      by (intro sf(3)) (auto simp: half_eq(2))
    then show ?thesis by (simp add: sk)
  qed (simp add: sk)
  have hlt: "i < kLeafCardinality" "i + half < kLeafCardinality" if "i < half" for i
    using that by (auto simp: half_eq(2))
  have lower: "live (moved_recs ss ! i) \<Longrightarrow> i < kLeafCardinality \<Longrightarrow> i < half" for i
    by (auto simp: mr split: if_splits)
  have u: "uniq_keys (moved_recs ss)"
    unfolding uniq_keys_def mr(1)
  proof (intro allI impI)
    fix i j
    assume a: "i < kLeafCardinality" "j < kLeafCardinality" "live (moved_recs ss ! i)"
      "live (moved_recs ss ! j)" "le_key (moved_recs ss ! i) = le_key (moved_recs ss ! j)"
    with lower have h: "i < half" "j < half" by auto
    with a have "le_key (ss ! (i + half)) = le_key (ss ! (j + half))" by (simp add: mr)
    with h hlt sf(3) show "i = j" by (metis add_less_cancel_right linorder_neq_iff)
  qed
  have v: "\<forall>r \<in> set (moved_recs ss). f_version r = r_version r"
    unfolding Ball_def in_set_conv_nth mr(1) using mr(2) by (auto simp: new_LeafEntry_def)
  have "length (filter live (moved_recs ss)) \<le> card {..<half}"
    unfolding length_filter_conv_card mr(1) by (rule card_mono) (use lower in auto)
  then have n: "length (filter live (moved_recs ss)) < kLeafCardinality"
    by (simp add: half_eq)
  have "\<forall>r \<in> set (moved_recs ss). live r \<longrightarrow> sk \<le> le_key r \<and> le_key r < hi"
  proof (intro ballI impI)
    fix r
    assume "r \<in> set (moved_recs ss)" "live r"
    then obtain i where i: "i < kLeafCardinality" "r = moved_recs ss ! i"
      by (metis in_set_conv_nth mr(1))
    with \<open>live r\<close> lower have h: "i < half" by blast
    with i have r: "le_key r = le_key (ss ! (i + half))" by (simp add: mr)
    from h hlt len have "ss ! (i + half) \<in> set ss" by simp
    with r h ge sf(1) show "sk \<le> le_key r \<and> le_key r < hi"
      by (simp add: leaf_full_def)
  qed
  with u v n mr(1) show "leaf_recs_ok sk hi (moved_recs ss)" by (simp add: leaf_recs_ok_def)
  show "leaf_lookup (moved_recs ss) k = (if k < sk then None else leaf_lookup rs k)"
  proof (rule option_eqI)
    fix w
    have "leaf_lookup (moved_recs ss) k = Some w \<longleftrightarrow>
        (\<exists>i < half. live (ss ! (i + half)) \<and> le_key (ss ! (i + half)) = k
            \<and> le_value (ss ! (i + half)) = w)"
      unfolding leaf_lookup_iff [OF u v] bex_half [OF mr(1)]
      using hlt by (auto simp: mr live_def [of "ss ! _"])
    moreover have "leaf_lookup rs k = Some w \<longleftrightarrow>
        (\<exists>i < half. live (ss ! i) \<and> le_key (ss ! i) = k \<and> le_value (ss ! i) = w)
      \<or> (\<exists>i < half. live (ss ! (i + half)) \<and> le_key (ss ! (i + half)) = k
            \<and> le_value (ss ! (i + half)) = w)"
      unfolding full_lookup [OF full] sf(2) [symmetric] by (rule bex_half [OF len])
    moreover have "k < sk" if "i < half" "le_key (ss ! i) = k" for i
      using lt that by blast
    moreover have "\<not> k < sk" if "i < half" "le_key (ss ! (i + half)) = k" for i
      using ge that by (metis leD)
    ultimately show "leaf_lookup (moved_recs ss) k = Some w \<longleftrightarrow>
        (if k < sk then None else leaf_lookup rs k) = Some w"
      by (cases "k < sk") auto
  qed
qed

text \<open>The whole split, as its caller uses it.\<close>

lemma leaf_split_spec:
  assumes full: "leaf_full (lowest h) (highest h) (lp_records p)" and h: "h = lp_hdr p"
  obtains p' s sk li li' where
    "leaf_split p kLeafCardinality sib = Inr (p', s, sk)"
    "lowest h < sk" "sk < highest h"
    "lp_hdr p' = h\<lparr>last_index := li, highest := sk, sibling_ptr := sib\<rparr>"
    "lp_hdr s = (new_Header (level h))\<lparr>last_index := li', lowest := sk,
        highest := highest h, sibling_ptr := sibling_ptr h\<rparr>"
    "lp_front_version s = lp_rear_version s"
    "leaf_recs_ok (lowest h) sk (lp_records p')" "leaf_recs_ok sk (highest h) (lp_records s)"
    "\<And>k. leaf_lookup (lp_records p') k = (if k < sk then leaf_lookup (lp_records p) k else None)"
    "\<And>k. leaf_lookup (lp_records s) k = (if k < sk then None else leaf_lookup (lp_records p) k)"
proof -
  define ss where "ss = sort_key le_key (lp_records p)"
  define sk where "sk = le_key (ss ! half)"
  note sf = sorted_full [OF full ss_def]
  have len: "length ss = kLeafCardinality" using sf(1) by (simp add: leaf_full_def)
  have m: "kLeafCardinality div 2 = half" by (simp add: half_def)
  have "le_key (ss ! 0) < sk" unfolding sk_def by (rule sf(3)) (auto simp: half_eq)
  moreover have "ss ! 0 \<in> set ss" "ss ! half \<in> set ss" using len by (auto simp: half_eq)
  ultimately have rng: "lowest h < sk" "sk < highest h"
    using sf(1) unfolding sk_def leaf_full_def by (auto intro: le_less_trans)
  have "leaf_split p kLeafCardinality sib =
     Inr (p\<lparr>lp_records := kept_recs ss,
        lp_hdr := h\<lparr>last_index := wrap16 (last_index h - (int kLeafCardinality - int half)),
                    highest := sk, sibling_ptr := sib\<rparr>\<rparr>,
      leaf_set_consistent ((new_LeafPage (level h))\<lparr>lp_records := moved_recs ss,
        lp_hdr := (new_Header (level h))
          \<lparr>last_index := wrap16 (- 1 + (int kLeafCardinality - int half)), lowest := sk,
           highest := highest h, sibling_ptr := sibling_ptr h\<rparr>\<rparr>), sk)"
    unfolding leaf_split_def Let_def kept_recs_def moved_recs_def
    using rng by (simp add: m ss_def [symmetric] sk_def [symmetric] h [symmetric])
      (simp add: new_LeafPage_def new_Header_def)
  then show thesis
    by (rule that)
      (use rng kept_recs_spec [OF full ss_def sk_def] moved_recs_spec [OF full ss_def sk_def] in
        \<open>simp_all add: leaf_set_consistent_def\<close>)
qed

end
