(* ===== verification/Blink.thy ===== *)
theory Blink
  imports LeafProps InternalProps
begin

text \<open>
  The shape of the tree in remote memory. On every level the pages form a chain by their
  sibling pointers whose key ranges partition the key space; every child pointer of an
  internal page leads to a page of the level below that starts at the separator. A page
  may be missing from the level above (its separator is inserted after it was linked in),
  so the shape holds between the steps of an insert as well. The three steps that change
  it are rewriting a page within its range, splitting a page, and adding a root.
\<close>

type_synonym memory = "GlobalAddress \<Rightarrow> page option"

section \<open>Shape\<close>

fun page_ok :: "nat \<Rightarrow> page \<Rightarrow> bool" where
  "page_ok l (LeafP p) \<longleftrightarrow> l = 0 \<and> level (lp_hdr p) = 0 \<and> leftmost_ptr (lp_hdr p) = gaddr_null
     \<and> leaf_check_consistent p \<and> lowest (lp_hdr p) < highest (lp_hdr p)
     \<and> leaf_recs_ok (lowest (lp_hdr p)) (highest (lp_hdr p)) (lp_records p)"
| "page_ok l (InternalP p) \<longleftrightarrow> 0 < l \<and> unat (level (ip_hdr p)) = l
     \<and> leftmost_ptr (ip_hdr p) \<noteq> gaddr_null
     \<and> internal_check_consistent p \<and> lowest (ip_hdr p) < highest (ip_hdr p) \<and> internal_ok p"

definition hdr_at :: "memory \<Rightarrow> GlobalAddress \<Rightarrow> Header" where
  "hdr_at m a = page_hdr (the (m a))"

definition low :: "memory \<Rightarrow> GlobalAddress \<Rightarrow> key" where "low m a = lowest (hdr_at m a)"

text \<open>\<open>seg m l lo p as hi q\<close>: from \<open>p\<close> the siblings \<open>as\<close> lead to \<open>q\<close>, with ranges from \<open>lo\<close>
  to \<open>hi\<close>.\<close>

fun seg :: "memory \<Rightarrow> nat \<Rightarrow> key \<Rightarrow> GlobalAddress \<Rightarrow> GlobalAddress list \<Rightarrow> key \<Rightarrow> GlobalAddress \<Rightarrow> bool"
  where
  "seg m l lo p [] hi q \<longleftrightarrow> lo = hi \<and> p = q"
| "seg m l lo p (a # as) hi q \<longleftrightarrow> p = a \<and> (\<exists>pg. m a = Some pg \<and> page_ok l pg
     \<and> lowest (page_hdr pg) = lo
     \<and> seg m l (highest (page_hdr pg)) (sibling_ptr (page_hdr pg)) as hi q)"

definition level_chain :: "memory \<Rightarrow> nat \<Rightarrow> GlobalAddress list \<Rightarrow> bool" where
  "level_chain m l as \<longleftrightarrow> as \<noteq> [] \<and> seg m l kKeyMin (hd as) as kKeyMax gaddr_null"

definition kids_ok :: "memory \<Rightarrow> GlobalAddress list \<Rightarrow> InternalPage \<Rightarrow> bool" where
  "kids_ok m below p \<longleftrightarrow> (\<forall>(s, c) \<in> set (kids p). c \<in> set below \<and> low m c = s)"

definition links :: "memory \<Rightarrow> GlobalAddress list \<Rightarrow> GlobalAddress list \<Rightarrow> bool" where
  "links m below as \<longleftrightarrow> (\<forall>a \<in> set as. \<forall>p. m a = Some (InternalP p) \<longrightarrow> kids_ok m below p)"

text \<open>\<open>ts ! l\<close> are the pages of level \<open>l\<close> from left to right.\<close>

definition blink :: "memory \<Rightarrow> GlobalAddress list list \<Rightarrow> bool" where
  "blink m ts \<longleftrightarrow> ts \<noteq> [] \<and> m gaddr_null = None
     \<and> (\<forall>l < length ts. level_chain m l (ts ! l))
     \<and> (\<forall>l. Suc l < length ts \<longrightarrow> links m (ts ! l) (ts ! Suc l))"

text \<open>The map that the leaves hold.\<close>

definition leaf_map :: "page option \<Rightarrow> key \<Rightarrow> val option" where
  "leaf_map pg = (case pg of Some (LeafP p) \<Rightarrow> leaf_lookup (lp_records p) | _ \<Rightarrow> Map.empty)"

fun chain_map :: "memory \<Rightarrow> GlobalAddress list \<Rightarrow> key \<Rightarrow> val option" where
  "chain_map m [] = Map.empty"
| "chain_map m (a # as) = leaf_map (m a) ++ chain_map m as"

section \<open>Segments\<close>

lemma page_ok_range: "page_ok l pg \<Longrightarrow> lowest (page_hdr pg) < highest (page_hdr pg)"
  by (cases pg) auto

lemma seg_append:
  "seg m l lo p (xs @ ys) hi q \<longleftrightarrow> (\<exists>mid r. seg m l lo p xs mid r \<and> seg m l mid r ys hi q)"
  by (induction xs arbitrary: lo p) auto

lemma seg_cong:
  "(\<And>a. a \<in> set as \<Longrightarrow> m' a = m a) \<Longrightarrow> seg m' l lo p as hi q = seg m l lo p as hi q"
  by (induction as arbitrary: lo p) auto

lemma seg_le: "seg m l lo p as hi q \<Longrightarrow> lo \<le> hi"
  by (induction as arbitrary: lo p) (auto dest!: page_ok_range intro: order.trans less_imp_le)

lemma seg_split:
  "seg m l lo p (xs @ a # ys) hi q \<longleftrightarrow> (\<exists>pg. m a = Some pg \<and> page_ok l pg
     \<and> seg m l lo p xs (lowest (page_hdr pg)) a
     \<and> seg m l (highest (page_hdr pg)) (sibling_ptr (page_hdr pg)) ys hi q)"
  by (auto simp: seg_append)

lemma seg_bounds:
  assumes "seg m l lo p as hi q" "a \<in> set as"
  obtains pg where "m a = Some pg" "page_ok l pg" "lo \<le> lowest (page_hdr pg)"
    "highest (page_hdr pg) \<le> hi"
proof -
  obtain xs ys where "as = xs @ a # ys" using assms(2) by (meson split_list)
  with assms(1) obtain pg where pg: "m a = Some pg" "page_ok l pg"
    "seg m l lo p xs (lowest (page_hdr pg)) a"
    "seg m l (highest (page_hdr pg)) (sibling_ptr (page_hdr pg)) ys hi q"
    by (auto simp: seg_split)
  from that [OF pg(1,2) seg_le [OF pg(3)] seg_le [OF pg(4)]] show thesis .
qed

lemma seg_distinct: "seg m l lo p as hi q \<Longrightarrow> distinct as"
proof (induction as arbitrary: lo p)
  case (Cons a as)
  then obtain pg where pg: "m a = Some pg" "page_ok l pg"
    and s: "seg m l (highest (page_hdr pg)) (sibling_ptr (page_hdr pg)) as hi q" by auto
  have "a \<notin> set as"
  proof
    assume "a \<in> set as"
    from seg_bounds [OF s this] obtain pg' where "m a = Some pg'"
      "highest (page_hdr pg) \<le> lowest (page_hdr pg')" by metis
    with pg page_ok_range [OF pg(2)] show False by simp
  qed
  with Cons.IH [OF s] show ?case by simp
qed simp

text \<open>A page of a chain starts at most at \<open>k\<close>: it covers \<open>k\<close>, or its sibling is the next page
  and starts at most at \<open>k\<close> too.\<close>

lemma seg_step:
  assumes "seg m l lo p (xs @ a # ys) hi q" "m a = Some pg" "highest (page_hdr pg) \<le> k" "k < hi"
  obtains b ys' pg' where "ys = b # ys'" "sibling_ptr (page_hdr pg) = b" "m b = Some pg'"
    "lowest (page_hdr pg') = highest (page_hdr pg)"
proof (cases ys)
  case Nil
  with assms show thesis by (auto simp: seg_split)
next
  case (Cons b ys')
  from assms(1,2) have "seg m l (highest (page_hdr pg)) (sibling_ptr (page_hdr pg)) ys hi q"
    by (simp add: seg_split)
  then show thesis using that [OF Cons] by (auto simp: Cons)
qed

lemma level_chain_split:
  assumes "level_chain m l (xs @ a # ys)"
  obtains pg where "m a = Some pg" "page_ok l pg"
    "seg m l kKeyMin (hd (xs @ [a])) xs (lowest (page_hdr pg)) a"
    "seg m l (highest (page_hdr pg)) (sibling_ptr (page_hdr pg)) ys kKeyMax gaddr_null"
proof -
  have "hd (xs @ a # ys) = hd (xs @ [a])" by (cases xs) simp_all
  then have "seg m l kKeyMin (hd (xs @ [a])) (xs @ a # ys) kKeyMax gaddr_null"
    using assms by (simp add: level_chain_def)
  with that show thesis unfolding seg_split by blast
qed

lemma level_chain_cong:
  assumes "\<And>a. a \<in> set as \<Longrightarrow> m' a = m a"
  shows "level_chain m' l as = level_chain m l as"
  unfolding level_chain_def by (simp only: seg_cong [OF assms])

lemma level_chain_page:
  assumes "level_chain m l as" "a \<in> set as"
  obtains pg where "m a = Some pg" "page_ok l pg"
proof -
  have "seg m l kKeyMin (hd as) as kKeyMax gaddr_null" using assms(1) by (simp add: level_chain_def)
  from seg_bounds [OF this assms(2)] that show thesis by blast
qed

lemma page_ok_level: "page_ok l pg \<Longrightarrow> page_ok l' pg \<Longrightarrow> l = l'"
  by (cases pg) auto

section \<open>Pages of the tree\<close>

lemma blink_page:
  assumes "blink m ts" "l < length ts" "a \<in> set (ts ! l)"
  obtains pg where "m a = Some pg" "page_ok l pg"
  using assms level_chain_page unfolding blink_def by metis

lemma blink_in_mem: "blink m ts \<Longrightarrow> l < length ts \<Longrightarrow> a \<in> set (ts ! l) \<Longrightarrow> m a \<noteq> None"
  by (metis blink_page option.distinct(1))

lemma blink_level_unique:
  assumes "blink m ts" "l < length ts" "a \<in> set (ts ! l)" "l' < length ts" "a \<in> set (ts ! l')"
  shows "l = l'"
  using assms blink_page page_ok_level by (metis option.inject)

lemma blink_not_null: "blink m ts \<Longrightarrow> l < length ts \<Longrightarrow> gaddr_null \<notin> set (ts ! l)"
  using blink_page by (metis blink_def option.distinct(1))

lemma blink_fresh: "blink m ts \<Longrightarrow> m b = None \<Longrightarrow> l < length ts \<Longrightarrow> b \<notin> set (ts ! l)"
  using blink_page by (metis option.distinct(1))

lemma blink_kids:
  assumes "blink m ts" "Suc l < length ts" "a \<in> set (ts ! Suc l)"
  obtains p where "m a = Some (InternalP p)" "page_ok (Suc l) (InternalP p)" "kids_ok m (ts ! l) p"
proof -
  obtain pg where pg: "m a = Some pg" "page_ok (Suc l) pg" using blink_page assms by metis
  then obtain p where p: "pg = InternalP p" by (cases pg) auto
  have "links m (ts ! l) (ts ! Suc l)" using assms unfolding blink_def by blast
  then have "kids_ok m (ts ! l) p" using assms(3) pg p unfolding links_def by blast
  with pg p that show thesis by blast
qed

lemma blink_leaf:
  assumes "blink m ts" "a \<in> set (ts ! 0)"
  obtains p where "m a = Some (LeafP p)" "page_ok 0 (LeafP p)"
proof -
  have "0 < length ts" using assms(1) by (simp add: blink_def)
  then obtain pg where pg: "m a = Some pg" "page_ok 0 pg" using blink_page assms by metis
  then show thesis using that by (cases pg) auto
qed

text \<open>The page a separator leads to.\<close>

lemma routed_kid:
  assumes "page_ok (Suc l) (InternalP p)" "kids_ok m below p"
    and "lowest (ip_hdr p) \<le> k" "k < highest (ip_hdr p)"
  shows "internal_page_search p k = Inr (route_ref p k)"
    and "route_ref p k \<in> set below" and "low m (route_ref p k) \<le> k"
proof -
  obtain n where wf: "internal_wf p n" using assms(1) by (auto simp: internal_ok_def)
  show "internal_page_search p k = Inr (route_ref p k)"
    using internal_page_search_eq [OF wf] assms by simp
  obtain s where "s \<le> k" "(s, route_ref p k) \<in> set (kids p)"
    using records_route_eq(2) [OF wf] assms by blast
  then show "route_ref p k \<in> set below" "low m (route_ref p k) \<le> k"
    using assms(2) by (auto simp: kids_ok_def)
qed

text \<open>The lowest key of a routed page is not below that of the page that routes to it.\<close>

lemma routed_kid_low:
  assumes "page_ok (Suc l) (InternalP p)" "kids_ok m below p"
    and "lowest (ip_hdr p) \<le> k" "k < highest (ip_hdr p)"
  shows "lowest (ip_hdr p) \<le> low m (route_ref p k)"
proof -
  obtain n where wf: "internal_wf p n" using assms(1) by (auto simp: internal_ok_def)
  obtain s where s: "(s, route_ref p k) \<in> set (kids p)"
    using records_route_eq(2) [OF wf] assms by blast
  then have "low m (route_ref p k) = s" using assms(2) by (auto simp: kids_ok_def)
  moreover have "lowest (ip_hdr p) \<le> s"
    using s wf by (auto simp: kids_of_entries entry_pair_def internal_wf_def)
  ultimately show ?thesis by simp
qed

end
