(* ===== verification/BlinkSteps.thy ===== *)
theory BlinkSteps
  imports Blink
begin

text \<open>
  The three steps that change the shape of the tree keep it: rewriting a page within its
  range, splitting a page into itself and a fresh sibling, and putting a root above a level.
  For the leaf level, the map after each step.
\<close>

section \<open>Rewriting a page within its range\<close>

lemma low_rewrite:
  assumes "m a = Some pg" "lowest (page_hdr pg') = lowest (page_hdr pg)"
  shows "low (m(a \<mapsto> pg')) c = low m c"
  using assms by (simp add: low_def hdr_at_def)

lemma kids_ok_cong:
  assumes "\<And>c. c \<in> set below \<Longrightarrow> low m' c = low m c"
  shows "kids_ok m' below p = kids_ok m below p"
  using assms by (auto simp: kids_ok_def)

lemma kids_ok_mono:
  "kids_ok m below p \<Longrightarrow> set below \<subseteq> set below' \<Longrightarrow> kids_ok m below' p"
  by (auto simp: kids_ok_def)

lemma seg_rewrite:
  assumes "m a = Some pg" "page_ok l pg'" "lowest (page_hdr pg') = lowest (page_hdr pg)"
    "highest (page_hdr pg') = highest (page_hdr pg)"
    "sibling_ptr (page_hdr pg') = sibling_ptr (page_hdr pg)"
  shows "seg m l lo p as hi q \<Longrightarrow> seg (m(a \<mapsto> pg')) l lo p as hi q"
proof (induction as arbitrary: lo p)
  case (Cons c as)
  then show ?case using assms by (cases "c = a") auto
qed simp

lemma blink_rewrite:
  assumes bl: "blink m ts" and l: "l < length ts" and a: "a \<in> set (ts ! l)"
    and pg: "m a = Some pg" and ok: "page_ok l pg'"
    and same: "lowest (page_hdr pg') = lowest (page_hdr pg)"
      "highest (page_hdr pg') = highest (page_hdr pg)"
      "sibling_ptr (page_hdr pg') = sibling_ptr (page_hdr pg)"
    and kids: "\<And>p i. pg' = InternalP p \<Longrightarrow> l = Suc i \<Longrightarrow> kids_ok m (ts ! i) p"
  shows "blink (m(a \<mapsto> pg')) ts"
proof -
  let ?m = "m(a \<mapsto> pg')"
  have low: "low ?m c = low m c" for c by (rule low_rewrite [where m = m, OF pg same(1)])
  have ko: "kids_ok ?m below p = kids_ok m below p" for below p
    by (rule kids_ok_cong) (rule low)
  have other: "c \<noteq> a" if "l' < length ts" "l' \<noteq> l" "c \<in> set (ts ! l')" for c l'
    using blink_level_unique [OF bl l a that(1)] that by blast
  have "level_chain ?m l' (ts ! l')" if l': "l' < length ts" for l'
  proof (cases "l' = l")
    case True
    have "level_chain m l (ts ! l)" using bl l by (simp add: blink_def)
    then have "seg m l kKeyMin (hd (ts ! l)) (ts ! l) kKeyMax gaddr_null" "ts ! l \<noteq> []"
      by (auto simp: level_chain_def)
    with seg_rewrite [where m = m, OF pg ok same] True show ?thesis by (simp add: level_chain_def)
  next
    case False
    then have "level_chain ?m l' (ts ! l') = level_chain m l' (ts ! l')"
      using other [OF l'] by (intro level_chain_cong) auto
    with bl l' show ?thesis by (simp add: blink_def)
  qed
  moreover have "links ?m (ts ! i) (ts ! Suc i)" if i: "Suc i < length ts" for i
  proof -
    have li: "links m (ts ! i) (ts ! Suc i)" using bl i by (simp add: blink_def)
    show ?thesis unfolding links_def ko
    proof (intro ballI allI impI)
      fix c p
      assume c: "c \<in> set (ts ! Suc i)" "?m c = Some (InternalP p)"
      show "kids_ok m (ts ! i) p"
      proof (cases "c = a")
        case True
        then have "l = Suc i" using blink_level_unique [OF bl l a i] c by simp
        with kids c True show ?thesis by simp
      next
        case False
        with c li show ?thesis by (auto simp: links_def)
      qed
    qed
  qed
  moreover have "?m gaddr_null = None" using bl pg by (auto simp: blink_def)
  ultimately show ?thesis using bl by (simp add: blink_def)
qed

section \<open>Splitting a page\<close>

lemma blink_split:
  assumes bl: "blink m ts" and l: "l < length ts" and tsl: "ts ! l = xs @ a # ys"
    and pg: "m a = Some pg" and fresh: "m b = None" "b \<noteq> gaddr_null"
    and ok: "page_ok l p'" "page_ok l s"
    and p': "lowest (page_hdr p') = lowest (page_hdr pg)"
      "highest (page_hdr p') = lowest (page_hdr s)" "sibling_ptr (page_hdr p') = b"
    and s: "highest (page_hdr s) = highest (page_hdr pg)"
      "sibling_ptr (page_hdr s) = sibling_ptr (page_hdr pg)"
    and kids: "\<And>q i. p' = InternalP q \<Longrightarrow> l = Suc i \<Longrightarrow> kids_ok m (ts ! i) q"
      "\<And>q i. s = InternalP q \<Longrightarrow> l = Suc i \<Longrightarrow> kids_ok m (ts ! i) q"
    and m': "m' = m(b \<mapsto> s, a \<mapsto> p')" and ts': "ts' = ts[l := xs @ a # b # ys]"
  shows "blink m' ts'"
proof -
  have ab: "a \<noteq> b" using pg fresh by auto
  have a: "a \<in> set (ts ! l)" by (simp add: tsl)
  have bn: "b \<notin> set (ts ! l')" if "l' < length ts" for l' by (rule blink_fresh [OF bl fresh(1) that])
  have low: "low m' c = low m c" if "c \<noteq> b" for c
    using that pg p'(1) by (auto simp: low_def hdr_at_def m')
  have other: "m' c = m c" if "l' < length ts" "l' \<noteq> l" "c \<in> set (ts ! l')" for c l'
  proof -
    have "c \<noteq> a" using blink_level_unique [OF bl l a that(1)] that by blast
    moreover have "c \<noteq> b" using bn [OF that(1)] that(3) by blast
    ultimately show ?thesis by (simp add: m')
  qed
  have lev: "level_chain m' l' (ts' ! l')" if l': "l' < length ts'" for l'
  proof (cases "l' = l")
    case False
    with l' have "level_chain m' l' (ts ! l') = level_chain m l' (ts ! l')"
      by (intro level_chain_cong other) (auto simp: ts')
    with bl l' False show ?thesis by (simp add: blink_def ts')
  next
    case True
    have lc: "level_chain m l (xs @ a # ys)" using bl l tsl by (simp add: blink_def flip: tsl)
    have "distinct (xs @ a # ys)" using lc unfolding level_chain_def by (blast intro: seg_distinct)
    then have nin: "a \<notin> set xs" "a \<notin> set ys" by auto
    have bnin: "b \<notin> set xs" "b \<notin> set ys" using bn [OF l] by (auto simp: tsl)
    from lc obtain sx: "seg m l kKeyMin (hd (xs @ [a])) xs (lowest (page_hdr pg)) a"
      and sy: "seg m l (highest (page_hdr pg)) (sibling_ptr (page_hdr pg)) ys kKeyMax gaddr_null"
      using pg by (auto elim: level_chain_split)
    have "seg m' l kKeyMin (hd (xs @ [a])) xs (lowest (page_hdr pg)) a"
      by (subst seg_cong [of xs m' m]) (use sx nin bnin in \<open>auto simp: m'\<close>)
    moreover have "seg m' l (highest (page_hdr pg)) (sibling_ptr (page_hdr pg)) ys kKeyMax gaddr_null"
      by (subst seg_cong [of ys m' m]) (use sy nin bnin in \<open>auto simp: m'\<close>)
    moreover have "hd (xs @ a # b # ys) = hd (xs @ [a])" by (cases xs) simp_all
    ultimately show ?thesis using True l ab ok p' s
      by (auto simp: level_chain_def ts' seg_append m')
  qed
  have lnk: "links m' (ts' ! i) (ts' ! Suc i)" if i: "Suc i < length ts'" for i
  proof -
    have i': "Suc i < length ts" "i < length ts" using i by (simp_all add: ts')
    have li: "links m (ts ! i) (ts ! Suc i)" using bl i' by (simp add: blink_def)
    have sub: "set (ts ! i) \<subseteq> set (ts' ! i)" using l tsl by (cases "i = l") (auto simp: ts')
    have ko: "kids_ok m' (ts' ! i) p" if "kids_ok m (ts ! i) p" for p
    proof -
      have "kids_ok m' (ts ! i) p"
      proof (subst kids_ok_cong [of _ m' m])
        show "kids_ok m (ts ! i) p" by (rule that)
        show "low m' c = low m c" if "c \<in> set (ts ! i)" for c
          using bn [OF i'(2)] that by (intro low) blast
      qed
      from kids_ok_mono [OF this sub] show ?thesis .
    qed
    show ?thesis unfolding links_def
    proof (intro ballI allI impI)
      fix c p
      assume c: "c \<in> set (ts' ! Suc i)" "m' c = Some (InternalP p)"
      show "kids_ok m' (ts' ! i) p"
      proof (cases "Suc i = l")
        case False
        with c have "c \<in> set (ts ! Suc i)" by (simp add: ts')
        with False other [OF i'(1)] c(2) li have "kids_ok m (ts ! i) p" by (auto simp: links_def)
        then show ?thesis by (rule ko)
      next
        case True
        with c(1) l have "c = a \<or> c = b \<or> c \<in> set (ts ! Suc i) \<and> c \<noteq> a \<and> c \<noteq> b"
          by (auto simp: ts' tsl)
        then show ?thesis
        proof (elim disjE conjE)
          assume "c = a"
          then have "p' = InternalP p" using c(2) by (simp add: m')
          from ko [OF kids(1) [OF this True [symmetric]]] show ?thesis .
        next
          assume "c = b"
          then have "s = InternalP p" using c(2) ab by (simp add: m')
          from ko [OF kids(2) [OF this True [symmetric]]] show ?thesis .
        next
          assume "c \<in> set (ts ! Suc i)" "c \<noteq> a" "c \<noteq> b"
          with c(2) li have "kids_ok m (ts ! i) p" by (auto simp: m' links_def)
          then show ?thesis by (rule ko)
        qed
      qed
    qed
  qed
  have "m' gaddr_null = None" using bl pg fresh by (auto simp: blink_def m')
  with lev lnk bl show ?thesis by (auto simp: blink_def ts')
qed

section \<open>A new root\<close>

lemma blink_new_root:
  assumes bl: "blink m ts" and fresh: "m r = None" "r \<noteq> gaddr_null"
    and ok: "page_ok (length ts) (InternalP p)"
    and p: "lowest (ip_hdr p) = kKeyMin" "highest (ip_hdr p) = kKeyMax"
      "sibling_ptr (ip_hdr p) = gaddr_null"
    and kids: "kids_ok m (last ts) p"
  shows "blink (m(r \<mapsto> InternalP p)) (ts @ [[r]])"
proof -
  let ?m = "m(r \<mapsto> InternalP p)"
  have rn: "r \<notin> set (ts ! l)" if "l < length ts" for l by (rule blink_fresh [OF bl fresh(1) that])
  have lev: "level_chain ?m l ((ts @ [[r]]) ! l)" if "l < length (ts @ [[r]])" for l
  proof (cases "l < length ts")
    case True
    then have "level_chain ?m l (ts ! l) = level_chain m l (ts ! l)"
      using rn [OF True] by (intro level_chain_cong) auto
    with True bl show ?thesis by (simp add: blink_def nth_append)
  next
    case False
    with that have "l = length ts" by simp
    with ok p show ?thesis by (simp add: level_chain_def)
  qed
  have ko: "kids_ok ?m below q = kids_ok m below q" if "r \<notin> set below" for below q
    by (rule kids_ok_cong) (use that in \<open>auto simp: low_def hdr_at_def\<close>)
  have ne: "ts \<noteq> []" using bl by (simp add: blink_def)
  have "links ?m ((ts @ [[r]]) ! i) ((ts @ [[r]]) ! Suc i)" if i: "Suc i < length (ts @ [[r]])" for i
  proof (cases "Suc i < length ts")
    case True
    then have "links m (ts ! i) (ts ! Suc i)" using bl by (simp add: blink_def)
    moreover have "c \<noteq> r" if "c \<in> set (ts ! Suc i)" for c using rn [OF True] that by blast
    ultimately show ?thesis using True rn [of i] by (auto simp: links_def ko nth_append)
  next
    case False
    with i have "length ts = Suc i" by simp
    moreover have "ts ! i = last ts" using ne calculation by (simp add: last_conv_nth)
    ultimately show ?thesis using kids rn [of i] by (simp add: links_def ko nth_append)
  qed
  with lev show ?thesis using bl fresh by (simp add: blink_def)
qed

section \<open>The map of the leaves\<close>

lemma leaf_map_range:
  assumes "page_ok 0 pg" "leaf_map (Some pg) k = Some v"
  shows "lowest (page_hdr pg) \<le> k" "k < highest (page_hdr pg)"
proof -
  obtain p where p: "pg = LeafP p" using assms(1) by (cases pg) auto
  have ok: "leaf_recs_ok (lowest (lp_hdr p)) (highest (lp_hdr p)) (lp_records p)"
    using assms(1) p by simp
  have "leaf_lookup (lp_records p) k = Some v" using assms(2) p by (simp add: leaf_map_def)
  then obtain r where "r \<in> set (lp_records p)" "live r" "le_key r = k"
    using leaf_lookup_iff [of "lp_records p"] ok by (auto simp: leaf_recs_ok_def)
  with ok p show "lowest (page_hdr pg) \<le> k" "k < highest (page_hdr pg)"
    by (auto simp: leaf_recs_ok_def)
qed

lemma chain_map_range:
  "seg m 0 lo p as hi q \<Longrightarrow> chain_map m as k = Some v \<Longrightarrow> lo \<le> k \<and> k < hi"
proof (induction as arbitrary: lo p)
  case (Cons a as)
  then obtain pg where pg: "m a = Some pg" "page_ok 0 pg" "lowest (page_hdr pg) = lo"
    and s: "seg m 0 (highest (page_hdr pg)) (sibling_ptr (page_hdr pg)) as hi q" by auto
  from Cons.prems(2) consider "chain_map m as k = Some v" | "leaf_map (Some pg) k = Some v"
    by (auto simp: pg map_add_Some_iff)
  then show ?case
  proof cases
    case 1
    with Cons.IH [OF s] page_ok_range [OF pg(2)] pg(3) show ?thesis by fastforce
  next
    case 2
    with leaf_map_range [OF pg(2)] seg_le [OF s] pg(3) show ?thesis by fastforce
  qed
qed simp

lemma chain_map_cong: "(\<And>a. a \<in> set as \<Longrightarrow> m' a = m a) \<Longrightarrow> chain_map m' as = chain_map m as"
  by (induction as) auto

lemma chain_map_append: "chain_map m (xs @ ys) = chain_map m xs ++ chain_map m ys"
  by (induction xs) simp_all

text \<open>What a chain holds at a key that one of its pages covers.\<close>

lemma chain_map_at:
  assumes sg: "seg m 0 lo p (xs @ a # ys) hi q" and pg: "m a = Some pg"
    and k: "lowest (page_hdr pg) \<le> k" "k < highest (page_hdr pg)"
  shows "chain_map m (xs @ a # ys) k = leaf_map (Some pg) k"
proof -
  have sx: "seg m 0 lo p xs (lowest (page_hdr pg)) a"
    and sy: "seg m 0 (highest (page_hdr pg)) (sibling_ptr (page_hdr pg)) ys hi q"
    using sg pg by (auto simp: seg_split)
  have "chain_map m xs k = None"
    using chain_map_range [OF sx] k by (metis leD not_None_eq)
  moreover have "chain_map m ys k = None"
    using chain_map_range [OF sy] k by (metis leD not_None_eq)
  ultimately show ?thesis
    by (auto simp: chain_map_append pg map_add_def split: option.split)
qed

lemma chain_map_outside:
  assumes sg: "seg m 0 lo p (xs @ a # ys) hi q" and pg: "m a = Some pg"
    and k: "\<not> (lowest (page_hdr pg) \<le> k \<and> k < highest (page_hdr pg))"
  shows "chain_map m (xs @ a # ys) k = (chain_map m xs ++ chain_map m ys) k"
proof -
  have ok: "page_ok 0 pg" using sg pg by (auto simp: seg_split)
  have "leaf_map (Some pg) k = None"
    using leaf_map_range [OF ok] k by (metis not_None_eq)
  then show ?thesis by (auto simp: chain_map_append pg map_add_def split: option.split)
qed

lemma map_add_upd_mid:
  "f k = None \<Longrightarrow> h k = None \<Longrightarrow> f ++ g(k := x) ++ h = (f ++ g ++ h)(k := x)"
  by (auto simp: map_add_def fun_eq_iff split: option.split)

text \<open>Rewriting a leaf: the map changes as the leaf's map does.\<close>

lemma chain_map_rewrite:
  assumes sg: "seg m 0 lo p (xs @ a # ys) hi q" and pg: "m a = Some pg"
    and k: "lowest (page_hdr pg) \<le> k" "k < highest (page_hdr pg)"
    and upd: "leaf_map (Some pg') = (leaf_map (Some pg))(k := x)"
  shows "chain_map (m(a \<mapsto> pg')) (xs @ a # ys) = (chain_map m (xs @ a # ys))(k := x)"
proof -
  have sx: "seg m 0 lo p xs (lowest (page_hdr pg)) a"
    and sy: "seg m 0 (highest (page_hdr pg)) (sibling_ptr (page_hdr pg)) ys hi q"
    using sg pg by (auto simp: seg_split)
  have d: "distinct (xs @ a # ys)" by (rule seg_distinct [OF sg])
  have "chain_map m xs k = None" "chain_map m ys k = None"
    using chain_map_range [OF sx] chain_map_range [OF sy] k by (metis leD not_None_eq)+
  moreover have "chain_map (m(a \<mapsto> pg')) xs = chain_map m xs"
    "chain_map (m(a \<mapsto> pg')) ys = chain_map m ys"
    using d by (auto intro!: chain_map_cong)
  ultimately show ?thesis using map_add_upd_mid [of "chain_map m xs" k "chain_map m ys"]
    by (simp add: chain_map_append pg upd)
qed

text \<open>Splitting a leaf: the two halves together hold what one page would hold.\<close>

lemma chain_map_split:
  assumes sg: "seg m 0 lo p (xs @ a # ys) hi q" and pg: "m a = Some pg"
    and k: "lowest (page_hdr pg) \<le> k" "k < highest (page_hdr pg)"
    and fresh: "m b = None"
    and upd: "leaf_map (Some p') ++ leaf_map (Some s) = (leaf_map (Some pg))(k := x)"
  shows "chain_map (m(b \<mapsto> s, a \<mapsto> p')) (xs @ a # b # ys) = (chain_map m (xs @ a # ys))(k := x)"
proof -
  let ?m = "m(b \<mapsto> s, a \<mapsto> p')"
  have sx: "seg m 0 lo p xs (lowest (page_hdr pg)) a"
    and sy: "seg m 0 (highest (page_hdr pg)) (sibling_ptr (page_hdr pg)) ys hi q"
    using sg pg by (auto simp: seg_split)
  have d: "distinct (xs @ a # ys)" by (rule seg_distinct [OF sg])
  have b: "b \<notin> set (xs @ a # ys)"
  proof
    assume "b \<in> set (xs @ a # ys)"
    from seg_bounds [OF sg this] fresh show False by auto
  qed
  have "chain_map m xs k = None" "chain_map m ys k = None"
    using chain_map_range [OF sx] chain_map_range [OF sy] k by (metis leD not_None_eq)+
  moreover have "chain_map ?m xs = chain_map m xs" "chain_map ?m ys = chain_map m ys"
    using d b by (auto intro!: chain_map_cong)
  moreover have "chain_map ?m (xs @ a # b # ys) =
      chain_map ?m xs ++ (leaf_map (Some p') ++ leaf_map (Some s)) ++ chain_map ?m ys"
    using b by (auto simp: chain_map_append)
  ultimately show ?thesis using map_add_upd_mid [of "chain_map m xs" k "chain_map m ys"]
    by (simp add: chain_map_append pg upd)
qed

end
