(* ===== verification/StoreSteps.thy ===== *)
theory StoreSteps
  imports BlinkSteps
begin

text \<open>
  What a store does to the one page it changes, in the terms in which the steps of
  \<open>BlinkSteps\<close> ask for it: the page stays well-formed and keeps its range, or it splits in
  two well-formed pages that share its range.
\<close>

section \<open>Leaves\<close>

lemma set_consistent_simps [simp]:
  "lp_hdr (leaf_set_consistent p) = lp_hdr p" "lp_records (leaf_set_consistent p) = lp_records p"
  "leaf_check_consistent (leaf_set_consistent p)"
  "ip_hdr (internal_set_consistent q) = ip_hdr q"
  "ip_records (internal_set_consistent q) = ip_records q"
  "internal_check_consistent (internal_set_consistent q)"
  by (simp_all add: leaf_set_consistent_def leaf_check_consistent_def
      internal_set_consistent_def internal_check_consistent_def)

lemma leaf_map_LeafP [simp]: "leaf_map (Some (LeafP p)) = leaf_lookup (lp_records p)"
  by (simp add: leaf_map_def fun_eq_iff)

lemma leaf_store_page:
  assumes ok: "page_ok 0 (LeafP p)" and k: "lowest (lp_hdr p) \<le> k" "k < highest (lp_hdr p)"
  obtains (put) rs i cnt where "leaf_put (lp_records p) k v = Inr (rs, i, cnt)"
      "cnt \<noteq> kLeafCardinality" "(lp_records p)[i := rs ! i] = rs"
      "page_ok 0 (LeafP (p\<lparr>lp_records := rs\<rparr>))"
      "leaf_lookup rs = (leaf_lookup (lp_records p))(k := val_opt v)"
  | (split) rs i where "leaf_put (lp_records p) k v = Inr (rs, i, kLeafCardinality)"
      "\<And>sib. \<exists>p' s sk. leaf_split (p\<lparr>lp_records := rs\<rparr>) kLeafCardinality sib = Inr (p', s, sk)
         \<and> lowest (lp_hdr p) < sk \<and> sk < highest (lp_hdr p)
         \<and> page_ok 0 (LeafP (leaf_set_consistent p')) \<and> page_ok 0 (LeafP s)
         \<and> lowest (lp_hdr p') = lowest (lp_hdr p) \<and> highest (lp_hdr p') = sk
         \<and> sibling_ptr (lp_hdr p') = sib
         \<and> lowest (lp_hdr s) = sk \<and> highest (lp_hdr s) = highest (lp_hdr p)
         \<and> sibling_ptr (lp_hdr s) = sibling_ptr (lp_hdr p)
         \<and> leaf_lookup (lp_records p') ++ leaf_lookup (lp_records s)
             = (leaf_lookup (lp_records p))(k := val_opt v)"
proof -
  have rok: "leaf_recs_ok (lowest (lp_hdr p)) (highest (lp_hdr p)) (lp_records p)"
    using ok by simp
  obtain rs j e cnt where put: "leaf_put (lp_records p) k v = Inr (rs, j, cnt)"
    and rs: "rs = (lp_records p)[j := e]" and j: "j < kLeafCardinality"
    and lk: "leaf_lookup rs = (leaf_lookup (lp_records p))(k := val_opt v)"
    and cnt: "cnt \<le> kLeafCardinality" and "f_version e = r_version e"
    and lt: "cnt < kLeafCardinality \<Longrightarrow> leaf_recs_ok (lowest (lp_hdr p)) (highest (lp_hdr p)) rs"
    and full: "cnt = kLeafCardinality \<Longrightarrow> leaf_full (lowest (lp_hdr p)) (highest (lp_hdr p)) rs"
    by (rule leaf_put_spec [OF rok k, of v], rule that) (assumption | simp)+
  have len: "length (lp_records p) = kLeafCardinality" using rok by (simp add: leaf_recs_ok_def)
  show thesis
  proof (cases "cnt = kLeafCardinality")
    case False
    have "page_ok 0 (LeafP (p\<lparr>lp_records := rs\<rparr>))"
      using ok lt cnt False by (simp add: leaf_check_consistent_def)
    moreover have "(lp_records p)[j := rs ! j] = rs" using j len by (simp add: rs)
    ultimately show thesis using put put lk False by (intro that(1)) auto
  next
    case True
    let ?q = "p\<lparr>lp_records := rs\<rparr>"
    have full': "leaf_full (lowest (lp_hdr p)) (highest (lp_hdr p)) (lp_records ?q)"
      using full True by simp
    have "\<exists>p' s sk. leaf_split ?q kLeafCardinality sib = Inr (p', s, sk)
         \<and> lowest (lp_hdr p) < sk \<and> sk < highest (lp_hdr p)
         \<and> page_ok 0 (LeafP (leaf_set_consistent p')) \<and> page_ok 0 (LeafP s)
         \<and> lowest (lp_hdr p') = lowest (lp_hdr p) \<and> highest (lp_hdr p') = sk
         \<and> sibling_ptr (lp_hdr p') = sib
         \<and> lowest (lp_hdr s) = sk \<and> highest (lp_hdr s) = highest (lp_hdr p)
         \<and> sibling_ptr (lp_hdr s) = sibling_ptr (lp_hdr p)
         \<and> leaf_lookup (lp_records p') ++ leaf_lookup (lp_records s)
             = (leaf_lookup (lp_records p))(k := val_opt v)" for sib
    proof (rule leaf_split_spec [OF full', of sib])
      show "lp_hdr p = lp_hdr ?q" by simp
      fix p' s sk li li'
      assume sp: "leaf_split ?q kLeafCardinality sib = Inr (p', s, sk)"
        and sk: "lowest (lp_hdr p) < sk" "sk < highest (lp_hdr p)"
        and h: "lp_hdr p' = (lp_hdr p)\<lparr>last_index := li, highest := sk, sibling_ptr := sib\<rparr>"
        and h': "lp_hdr s = (new_Header (level (lp_hdr p)))\<lparr>last_index := li', lowest := sk,
          highest := highest (lp_hdr p), sibling_ptr := sibling_ptr (lp_hdr p)\<rparr>"
        and vs: "lp_front_version s = lp_rear_version s"
        and r: "leaf_recs_ok (lowest (lp_hdr p)) sk (lp_records p')"
          "leaf_recs_ok sk (highest (lp_hdr p)) (lp_records s)"
        and m: "\<And>k. leaf_lookup (lp_records p') k =
            (if k < sk then leaf_lookup (lp_records ?q) k else None)"
          "\<And>k. leaf_lookup (lp_records s) k =
            (if k < sk then None else leaf_lookup (lp_records ?q) k)"
      have "leaf_lookup (lp_records p') ++ leaf_lookup (lp_records s) = leaf_lookup rs"
        by (rule ext) (simp add: map_add_def m split: option.split)
      moreover have "leaf_check_consistent s" using vs by (simp add: leaf_check_consistent_def)
      ultimately show ?thesis using sp sk h h' r ok lk
        by (rule_tac exI [of _ p'], rule_tac exI [of _ s], rule_tac exI [of _ sk]) simp
    qed
    with put True show thesis by (intro that(2)) auto
  qed
qed

lemma leaf_del_page:
  assumes ok: "page_ok 0 (LeafP p)"
  obtains (none) "leaf_del (lp_records p) k = None"
      "(leaf_lookup (lp_records p))(k := None) = leaf_lookup (lp_records p)"
  | (del) rs i where "leaf_del (lp_records p) k = Some (rs, i)" "(lp_records p)[i := rs ! i] = rs"
      "page_ok 0 (LeafP (p\<lparr>lp_records := rs\<rparr>))"
      "leaf_lookup rs = (leaf_lookup (lp_records p))(k := None)"
proof -
  have rok: "leaf_recs_ok (lowest (lp_hdr p)) (highest (lp_hdr p)) (lp_records p)"
    using ok by simp
  note sp = leaf_del_spec [OF rok, of k]
  have len: "length (lp_records p) = kLeafCardinality" using rok by (simp add: leaf_recs_ok_def)
  show thesis
  proof (cases "leaf_del (lp_records p) k")
    case None
    with sp that(1) show thesis by (simp add: fun_upd_idem)
  next
    case (Some r)
    obtain rs i where r: "r = (rs, i)" by (cases r)
    with sp Some obtain e where e: "i < kLeafCardinality" "rs = (lp_records p)[i := e]"
      "leaf_recs_ok (lowest (lp_hdr p)) (highest (lp_hdr p)) rs"
      "leaf_lookup rs = (leaf_lookup (lp_records p))(k := None)" by auto
    moreover have "page_ok 0 (LeafP (p\<lparr>lp_records := rs\<rparr>))"
      using ok e(3) by (simp add: leaf_check_consistent_def)
    ultimately show thesis using Some r len by (intro that(2) [of rs i]) auto
  qed
qed

section \<open>Internal pages\<close>

lemma kids_set_consistent [simp]:
  "kids (internal_set_consistent p) = kids p" "entries (internal_set_consistent p) = entries p"
  "internal_wf (internal_set_consistent p) n = internal_wf p n"
  "internal_ok (internal_set_consistent p) = internal_ok p"
  by (simp_all add: kids_def entries_def internal_wf_def internal_ok_def)

lemma internal_store_page:
  assumes ok: "page_ok l (InternalP p)" and kd: "kids_ok m below p"
    and k: "lowest (ip_hdr p) \<le> k" "k < highest (ip_hdr p)"
    and v: "v \<in> set below" "low m v = k" and nn: "gaddr_null \<notin> set below"
  obtains (put) p1 where "internal_put p k v = Inr p1"
      "last_index (ip_hdr p1) + 1 \<noteq> int kInternalCardinality"
      "page_ok l (InternalP (internal_set_consistent p1))"
      "lowest (ip_hdr p1) = lowest (ip_hdr p)" "highest (ip_hdr p1) = highest (ip_hdr p)"
      "sibling_ptr (ip_hdr p1) = sibling_ptr (ip_hdr p)"
      "kids_ok m below (internal_set_consistent p1)"
  | (split) p1 where "internal_put p k v = Inr p1"
      "last_index (ip_hdr p1) + 1 = int kInternalCardinality"
      "\<And>sib. \<exists>p' s sk. internal_split p1 kInternalCardinality sib = Inr (p', s, sk)
         \<and> lowest (ip_hdr p) < sk \<and> sk < highest (ip_hdr p)
         \<and> page_ok l (InternalP (internal_set_consistent p')) \<and> page_ok l (InternalP s)
         \<and> lowest (ip_hdr p') = lowest (ip_hdr p) \<and> highest (ip_hdr p') = sk
         \<and> sibling_ptr (ip_hdr p') = sib
         \<and> lowest (ip_hdr s) = sk \<and> highest (ip_hdr s) = highest (ip_hdr p)
         \<and> sibling_ptr (ip_hdr s) = sibling_ptr (ip_hdr p)
         \<and> kids_ok m below (internal_set_consistent p') \<and> kids_ok m below s"
proof -
  obtain n where wf: "internal_wf p n" and n: "n < kInternalCardinality"
    using ok by (auto simp: internal_ok_def)
  obtain p1 n1 where put: "internal_put p k v = Inr p1" and wf1: "internal_wf p1 n1"
    and n1: "n1 \<le> Suc n" and en: "entries p1 = upd_entries k v (entries p)"
    and h1: "ip_hdr p1 = (ip_hdr p)\<lparr>last_index := int n1 - 1\<rparr>"
    and vs: "ip_front_version p1 = ip_front_version p" "ip_rear_version p1 = ip_rear_version p"
    by (rule internal_put_spec [OF wf n k])
  have kd1: "kids_ok m below p1"
    using kids_after_put(1) [OF en h1] kd v by (fastforce simp: kids_ok_def)
  show thesis
  proof (cases "n1 = kInternalCardinality")
    case False
    then have "n1 < kInternalCardinality" using n n1 by simp
    with wf1 have "internal_ok p1" by (rule internal_okI)
    moreover have "kids_ok m below (internal_set_consistent p1)" using kd1 by (simp add: kids_ok_def)
    ultimately show thesis using put h1 ok False by (intro that(1) [of p1]) auto
  next
    case True
    have "\<exists>p' s sk. internal_split p1 kInternalCardinality sib = Inr (p', s, sk)
         \<and> lowest (ip_hdr p) < sk \<and> sk < highest (ip_hdr p)
         \<and> page_ok l (InternalP (internal_set_consistent p')) \<and> page_ok l (InternalP s)
         \<and> lowest (ip_hdr p') = lowest (ip_hdr p) \<and> highest (ip_hdr p') = sk
         \<and> sibling_ptr (ip_hdr p') = sib
         \<and> lowest (ip_hdr s) = sk \<and> highest (ip_hdr s) = highest (ip_hdr p)
         \<and> sibling_ptr (ip_hdr s) = sibling_ptr (ip_hdr p)
         \<and> kids_ok m below (internal_set_consistent p') \<and> kids_ok m below s" for sib
    proof (rule internal_split_spec [OF wf1 [unfolded True], of sib])
      fix p' s sk
      assume sp: "internal_split p1 kInternalCardinality sib = Inr (p', s, sk)"
        and sk: "lowest (ip_hdr p1) < sk" "sk < highest (ip_hdr p1)"
        and io: "internal_ok p'" "internal_ok s"
        and h: "ip_hdr p' = (ip_hdr p1)\<lparr>last_index := 29, highest := sk, sibling_ptr := sib\<rparr>"
        and hs: "level (ip_hdr s) = level (ip_hdr p1)" "lowest (ip_hdr s) = sk"
          "highest (ip_hdr s) = highest (ip_hdr p1)" "sibling_ptr (ip_hdr s) = sibling_ptr (ip_hdr p1)"
        and ver: "ip_front_version s = ip_rear_version s"
        and kk: "kids p1 = kids p' @ kids s"
      have kds: "kids_ok m below s" and kd': "kids_ok m below (internal_set_consistent p')"
        using kd1 kk by (auto simp: kids_ok_def)
      have "leftmost_ptr (ip_hdr s) \<in> set below"
        using kds by (auto simp: kids_ok_def kids_of_entries)
      then have "leftmost_ptr (ip_hdr s) \<noteq> gaddr_null" using nn by auto
      moreover have "internal_check_consistent s" using ver by (simp add: internal_check_consistent_def)
      ultimately show ?thesis using sp sk io h hs kds kd' ok h1
        by (rule_tac exI [of _ p'], rule_tac exI [of _ s], rule_tac exI [of _ sk]) simp
    qed
    with put h1 True show thesis by (intro that(2) [of p1]) auto
  qed
qed

text \<open>A new root over two pages.\<close>

lemma new_root_page:
  assumes l: "0 < l" "l < 256" and nn: "left \<noteq> gaddr_null" and k: "kKeyMin < k" "k < kKeyMax"
    and lo: "low m left = kKeyMin" "low m right = k"
  shows "page_ok l (InternalP (internal_set_consistent (new_root_InternalPage sw left k right (int l))))"
    and "kids_ok m [left, right] (internal_set_consistent (new_root_InternalPage sw left k right (int l)))"
    and "lowest (ip_hdr (new_root_InternalPage sw left k right (int l))) = kKeyMin"
    and "highest (ip_hdr (new_root_InternalPage sw left k right (int l))) = kKeyMax"
    and "sibling_ptr (ip_hdr (new_root_InternalPage sw left k right (int l))) = gaddr_null"
proof -
  let ?p = "new_root_InternalPage sw left k right (int l)"
  have en: "entries ?p = [\<lparr>ie_key = k, ie_ptr = right\<rparr>]"
    by (simp add: entries_def new_root_InternalPage_def kInternalCardinality_eq
        take_Suc numeral_eq_Suc)
  show h: "lowest (ip_hdr ?p) = kKeyMin" "highest (ip_hdr ?p) = kKeyMax"
    "sibling_ptr (ip_hdr ?p) = gaddr_null"
    by (simp_all add: new_root_InternalPage_def)
  have "internal_wf ?p 1"
    using en h k by (simp add: internal_wf_def new_root_InternalPage_def kInternalCardinality_eq)
  then have "internal_ok ?p" by (rule internal_okI) (simp add: kInternalCardinality_eq)
  moreover have "unat (of_int (int l) :: u8) = l"
    using l by (simp add: unat_of_nat)
  ultimately show "page_ok l (InternalP (internal_set_consistent ?p))"
    using l nn h by (simp add: new_root_InternalPage_def)
  have "leftmost_ptr (ip_hdr ?p) = left" by (simp add: new_root_InternalPage_def)
  then show "kids_ok m [left, right] (internal_set_consistent ?p)"
    using lo h by (simp add: kids_ok_def kids_of_entries en entry_pair_def)
qed

end
