(* ===== verification/WorldProps.thy ===== *)
theory WorldProps
  imports World StoreSteps
begin

text \<open>
  What the primitives of \<open>World\<close> do when no other thread runs: locking, reading and
  unlocking; writing a page together with the unlock; allocating a fresh page; installing
  and announcing a root. The resources an operation draws on (tickets of the local locks,
  pages of the allocator) are counted, so that a proof about an operation says how much it
  needs.
\<close>

section \<open>Locks\<close>

definition locks_free :: "nat \<Rightarrow> World \<Rightarrow> bool" where
  "locks_free r w \<longleftrightarrow> (\<forall>a. chip w a = 0) \<and> (\<forall>s. local_free r (local_locks w s))"

definition lock_held :: "nat \<Rightarrow> GlobalAddress \<Rightarrow> World \<Rightarrow> bool" where
  "lock_held r la w \<longleftrightarrow> (\<forall>a. a \<noteq> la \<longrightarrow> chip w a = 0)
     \<and> (\<forall>s. s \<noteq> lock_slot la \<longrightarrow> local_free r (local_locks w s))
     \<and> local_held r (local_locks w (lock_slot la))"

lemma locks_free_mono: "locks_free r w \<Longrightarrow> r' \<le> r \<Longrightarrow> locks_free r' w"
  by (auto simp: locks_free_def intro: local_free_mono)

lemma lock_held_mono: "lock_held r la w \<Longrightarrow> r' \<le> r \<Longrightarrow> lock_held r' la w"
  by (auto simp: lock_held_def local_held_def intro: local_free_mono)

lemma locks_free_cong:
  "local_locks w' = local_locks w \<Longrightarrow> chip w' = chip w \<Longrightarrow> locks_free r w' = locks_free r w"
  by (simp add: locks_free_def)

lemma lock_held_cong:
  "local_locks w' = local_locks w \<Longrightarrow> chip w' = chip w \<Longrightarrow> lock_held r la w' = lock_held r la w"
  by (simp add: lock_held_def)

lemma lock_and_read_page_ok:
  assumes free: "locks_free (Suc r) w" and pg: "mem w a = Some pg"
  obtains lk ch where
    "lock_and_read_page a la tag w = Inr (pg, w\<lparr>local_locks := lk, chip := ch\<rparr>)"
    "lock_held r la (w\<lparr>local_locks := lk, chip := ch\<rparr>)"
proof -
  have "local_free (Suc r) (local_locks w (lock_slot la))"
    using free unfolding locks_free_def by blast
  then obtain n where n: "acquire_local_lock (local_locks w (lock_slot la)) = Inr (False, n)"
    and h: "local_held r n" by (rule acquire_local_lock_free)
  have "chip w la = 0" using free by (simp add: locks_free_def)
  then have "lock_and_read_page a la tag w =
    Inr (pg, w\<lparr>local_locks := (local_locks w)(lock_slot la := n), chip := (chip w)(la := tag)\<rparr>)"
    by (simp add: lock_and_read_page_def try_lock_addr_def n remote_lock_def cas_word_def
        set_local_lock_def read_page_def pg)
  moreover have "local_free r (local_locks w s)" for s
    using free local_free_mono [of "Suc r" "local_locks w s" r]
    unfolding locks_free_def by (meson le_SucI order_refl)
  ultimately show thesis using h free
    by (intro that) (auto simp: lock_held_def locks_free_def)
qed

lemma unlock_addr_ok:
  assumes held: "lock_held r la w"
  obtains lk ch where "unlock_addr la w = w\<lparr>local_locks := lk, chip := ch\<rparr>"
    "locks_free r (w\<lparr>local_locks := lk, chip := ch\<rparr>)"
proof -
  have "local_held r (local_locks w (lock_slot la))" using held by (simp add: lock_held_def)
  then obtain n where n: "can_hand_over (local_locks w (lock_slot la)) = (False, n)"
    and f: "local_free r (releases_local_lock n)" by (rule can_hand_over_held)
  have "unlock_addr la w = w\<lparr>local_locks := (local_locks w)(lock_slot la := releases_local_lock n),
      chip := (chip w)(la := 0)\<rparr>"
    by (simp add: unlock_addr_def n set_local_lock_def Let_def)
  with held f that show thesis by (auto simp: lock_held_def locks_free_def)
qed

lemma write_page_and_unlock_ok:
  assumes held: "lock_held r la w"
    and rg: "\<And>lk ch. write_region a rg (w\<lparr>local_locks := lk, chip := ch\<rparr>) =
      Inr (w\<lparr>local_locks := lk, chip := ch, mem := m'\<rparr>)"
  obtains lk ch where
    "write_page_and_unlock a rg la w = Inr (w\<lparr>mem := m', local_locks := lk, chip := ch\<rparr>)"
    "locks_free r (w\<lparr>mem := m', local_locks := lk, chip := ch\<rparr>)"
proof -
  have "local_held r (local_locks w (lock_slot la))" using held by (simp add: lock_held_def)
  then obtain n where n: "can_hand_over (local_locks w (lock_slot la)) = (False, n)"
    and f: "local_free r (releases_local_lock n)" by (rule can_hand_over_held)
  have "write_region a rg (w\<lparr>local_locks := lk\<rparr>) = Inr (w\<lparr>local_locks := lk, mem := m'\<rparr>)" for lk
    using rg [where lk = lk and ch = "chip w"] by simp
  then have "write_page_and_unlock a rg la w = Inr (w\<lparr>mem := m',
      local_locks := (local_locks w)(lock_slot la := releases_local_lock n),
      chip := (chip w)(la := 0)\<rparr>)"
    by (simp add: write_page_and_unlock_def n set_local_lock_def Let_def)
  with held f that show thesis by (auto simp: lock_held_def locks_free_def)
qed

lemma write_whole_and_unlock_ok:
  assumes "lock_held r la w"
  obtains lk ch where
    "write_page_and_unlock a (WholePage p) la w =
       Inr (w\<lparr>mem := (mem w)(a \<mapsto> p), local_locks := lk, chip := ch\<rparr>)"
    "locks_free r (w\<lparr>mem := (mem w)(a \<mapsto> p), local_locks := lk, chip := ch\<rparr>)"
  using write_page_and_unlock_ok [OF assms, of a "WholePage p" "(mem w)(a \<mapsto> p)"] that
  by (auto simp: write_page_def)

lemma write_record_and_unlock_ok:
  assumes "lock_held r la w" and pg: "mem w a = Some (LeafP p)"
    and rs: "(lp_records p)[i := r1] = rs"
  obtains lk ch where
    "write_page_and_unlock a (LeafRecord i r1) la w =
       Inr (w\<lparr>mem := (mem w)(a \<mapsto> LeafP (p\<lparr>lp_records := rs\<rparr>)), local_locks := lk, chip := ch\<rparr>)"
    "locks_free r (w\<lparr>mem := (mem w)(a \<mapsto> LeafP (p\<lparr>lp_records := rs\<rparr>)), local_locks := lk, chip := ch\<rparr>)"
  using write_page_and_unlock_ok [OF assms(1), of a "LeafRecord i r1"
      "(mem w)(a \<mapsto> LeafP (p\<lparr>lp_records := rs\<rparr>))"] that pg rs
  by (auto simp: write_page_def)

section \<open>Allocation\<close>

abbreviation alloc_of :: "World \<Rightarrow> alloc_state" where
  "alloc_of w \<equiv> (nodes w, dsm_th w)"

definition page_alloc :: "tree_env \<Rightarrow> alloc_state \<Rightarrow> err + GlobalAddress \<times> alloc_state" where
  "page_alloc env = dsm_alloc (of_nat (my_node env)) (of_nat (my_thread env)) kLeafPageSize"

text \<open>The pages in memory lie outside the bytes still available.\<close>

definition alloc_inv :: "World \<Rightarrow> bool" where
  "alloc_inv w \<longleftrightarrow> dsm_inv (alloc_of w)
     \<and> (\<forall>a. first_byte a \<in> dsm_avail (alloc_of w) \<longrightarrow> mem w a = None)"

text \<open>There is room for \<open>n\<close> more pages.\<close>

definition alloc_room :: "tree_env \<Rightarrow> nat \<Rightarrow> World \<Rightarrow> bool" where
  "alloc_room env n w \<longleftrightarrow>
     (case alloc_seq (page_alloc env) n (alloc_of w) of Inl _ \<Rightarrow> False | Inr _ \<Rightarrow> True)"

lemma alloc_room_cong: "alloc_of w' = alloc_of w \<Longrightarrow> alloc_room env n w' = alloc_room env n w"
  by (simp add: alloc_room_def)

lemma alloc_seq_prefix:
  "alloc_seq al (n + d) s = Inr r \<Longrightarrow> \<exists>r'. alloc_seq al n s = Inr r'"
  by (induction n arbitrary: s r) (fastforce simp: rbind_Inr_iff)+

lemma alloc_room_iff:
  "alloc_room env n w \<longleftrightarrow> (\<exists>r. alloc_seq (page_alloc env) n (alloc_of w) = Inr r)"
  by (simp add: alloc_room_def split: sum.split)

lemma alloc_room_mono: "alloc_room env n w \<Longrightarrow> n' \<le> n \<Longrightarrow> alloc_room env n' w"
  unfolding alloc_room_iff
  using alloc_seq_prefix [of "page_alloc env" n' "n - n'"] by fastforce

definition node_roots :: "World \<Rightarrow> (GlobalAddress \<times> int \<times> bool) list" where
  "node_roots w = map root_view (nodes w)"

lemma node_roots_eqD:
  assumes "node_roots w' = node_roots w" "i < length (nodes w)"
  shows "length (nodes w') = length (nodes w)"
    "g_root_ptr (nodes w' ! i) = g_root_ptr (nodes w ! i)"
    "g_root_level (nodes w' ! i) = g_root_level (nodes w ! i)"
    "enable_cache (nodes w' ! i) = enable_cache (nodes w ! i)"
proof -
  show l: "length (nodes w') = length (nodes w)"
    using arg_cong [OF assms(1), of length] by (simp add: node_roots_def)
  have "node_roots w' ! i = node_roots w ! i" using assms(1) by simp
  then show "g_root_ptr (nodes w' ! i) = g_root_ptr (nodes w ! i)"
    "g_root_level (nodes w' ! i) = g_root_level (nodes w ! i)"
    "enable_cache (nodes w' ! i) = enable_cache (nodes w ! i)"
    using assms(2) l by (simp_all add: node_roots_def root_view_def)
qed

lemma node_roots_member:
  assumes "node_roots w' = node_roots w" "s \<in> set (nodes w')"
  obtains s0 where "s0 \<in> set (nodes w)" "root_view s0 = root_view s"
proof -
  have "root_view s \<in> set (node_roots w')" using assms(2) by (simp add: node_roots_def)
  then show thesis using that unfolding assms(1) by (auto simp: node_roots_def)
qed

lemma page_sizes: "kInternalPageSize = kLeafPageSize"
  by (simp add: common_defs)

lemma tree_alloc_ok:
  assumes inv: "alloc_inv w" and room: "alloc_room env (Suc n) w"
  obtains a ns th where "tree_alloc env kLeafPageSize w = Inr (a, w\<lparr>nodes := ns, dsm_th := th\<rparr>)"
    "alloc_inv (w\<lparr>nodes := ns, dsm_th := th\<rparr>)"
    "alloc_room env n (w\<lparr>nodes := ns, dsm_th := th\<rparr>)"
    "mem w a = None" "a \<noteq> gaddr_null" "first_byte a \<notin> dsm_avail (ns, th)"
    "node_roots (w\<lparr>nodes := ns, dsm_th := th\<rparr>) = node_roots w" "length ns = length (nodes w)"
proof -
  obtain r where "alloc_seq (page_alloc env) (Suc n) (alloc_of w) = Inr r"
    using room by (auto simp: alloc_room_def split: sum.splits)
  then obtain a st1 r1 where al: "page_alloc env (alloc_of w) = Inr (a, st1)"
    and rest: "alloc_seq (page_alloc env) n st1 = Inr r1"
    by (auto simp: rbind_Inr_iff)
  obtain ns th where st1: "st1 = (ns, th)" by (cases st1)
  have di: "dsm_inv (alloc_of w)" using inv by (simp add: alloc_inv_def)
  note fr = dsm.al_fresh [OF di al [unfolded page_alloc_def]]
  have i1: "dsm_inv (ns, th)" using dsm.al_inv [OF di al [unfolded page_alloc_def]] by (simp add: st1)
  have "tree_alloc env kLeafPageSize w = Inr (a, w\<lparr>nodes := ns, dsm_th := th\<rparr>)"
    using al by (simp add: tree_alloc_def page_alloc_def st1)
  moreover have "alloc_inv (w\<lparr>nodes := ns, dsm_th := th\<rparr>)"
    using inv i1 fr(4) by (auto simp: alloc_inv_def st1)
  moreover have "alloc_room env n (w\<lparr>nodes := ns, dsm_th := th\<rparr>)"
    using rest by (simp add: alloc_room_def st1)
  moreover have "mem w a = None" using inv fr(1) by (simp add: alloc_inv_def)
  moreover have "map root_view ns = map root_view (nodes w)"
    using dsm_alloc_root_view al by (simp add: page_alloc_def st1)
  moreover from this have "length ns = length (nodes w)" by (metis length_map)
  moreover have "first_byte a \<notin> dsm_avail (ns, th)" using fr(2) by (simp add: st1)
  ultimately show thesis using fr(3)
    by (intro that [of a th ns]) (simp_all add: node_roots_def)
qed

lemma alloc_inv_write:
  assumes "alloc_inv w" "alloc_of w' = alloc_of w"
    and "mem w' = (mem w)(a \<mapsto> p)" "first_byte a \<notin> dsm_avail (alloc_of w)"
  shows "alloc_inv w'"
  using assms unfolding alloc_inv_def by auto

lemma alloc_inv_rewrite:
  assumes "alloc_inv w" "alloc_of w' = alloc_of w"
    and "mem w' = (mem w)(a \<mapsto> p)" "mem w a \<noteq> None"
  shows "alloc_inv w'"
  using assms unfolding alloc_inv_def by auto

lemma alloc_inv_cong:
  "alloc_of w' = alloc_of w \<Longrightarrow> mem w' = mem w \<Longrightarrow> alloc_inv w' = alloc_inv w"
  by (simp add: alloc_inv_def)

section \<open>The root\<close>

definition root_msgs :: "tree_env \<Rightarrow> GlobalAddress \<Rightarrow> nat \<Rightarrow> nat \<Rightarrow> (nat \<times> RawMessage) list" where
  "root_msgs env a lv n =
     map (\<lambda>i. (i, new_root_msg a (int lv) (of_nat (my_node env)) (of_nat (my_thread env)))) [0..<n]"

lemma broadcast_new_root_eq:
  "broadcast_new_root env a (int lv) w =
     w\<lparr>network := network w @ root_msgs env a lv (length (nodes w))\<rparr>"
proof -
  define f where "f = rpc_call_dir env \<lparr>rm_type = NEW_ROOT, rm_node_id = 0, rm_app_id = 0,
    rm_addr = a, rm_level = int lv\<rparr>"
  have "fold f [0..<n] w = w\<lparr>network := network w @ root_msgs env a lv n\<rparr>" for n
    by (induction n) (simp_all add: root_msgs_def f_def rpc_call_dir_def new_root_msg_def)
  then show ?thesis by (simp add: broadcast_new_root_def f_def)
qed

lemma update_new_root_ok:
  assumes inv: "alloc_inv w" and room: "alloc_room env (Suc n) w"
    and cell: "cells w (get_root_ptr_ptr env) = addr_val root"
  obtains nr ns th where
    "update_new_root env left k right lv root w =
       Inr (True, w\<lparr>nodes := ns, dsm_th := th,
         mem := (mem w)(nr \<mapsto> InternalP (internal_set_consistent
           (new_root_InternalPage (stale_word env) left k right (int lv)))),
         cells := (cells w)(get_root_ptr_ptr env := addr_val nr),
         network := network w @ root_msgs env nr lv (length (nodes w))\<rparr>)"
    "mem w nr = None" "nr \<noteq> gaddr_null" "length ns = length (nodes w)"
    "map root_view ns = map root_view (nodes w)"
    "\<And>w'. nodes w' = ns \<Longrightarrow> dsm_th w' = th \<Longrightarrow> (\<exists>p. mem w' = (mem w)(nr \<mapsto> p)) \<Longrightarrow> alloc_inv w'"
proof -
  obtain nr ns th where al: "tree_alloc env kLeafPageSize w = Inr (nr, w\<lparr>nodes := ns, dsm_th := th\<rparr>)"
    and i1: "alloc_inv (w\<lparr>nodes := ns, dsm_th := th\<rparr>)" and f: "mem w nr = None" "nr \<noteq> gaddr_null"
    and na: "first_byte nr \<notin> dsm_avail (ns, th)"
    and nr: "node_roots (w\<lparr>nodes := ns, dsm_th := th\<rparr>) = node_roots w"
    and len: "length ns = length (nodes w)"
    by (rule tree_alloc_ok [OF inv room])
  have "alloc_inv w'" if "nodes w' = ns" "dsm_th w' = th" "\<exists>p. mem w' = (mem w)(nr \<mapsto> p)" for w'
    using that i1 na by (auto simp: alloc_inv_def)
  moreover have "map root_view ns = map root_view (nodes w)" using nr by (simp add: node_roots_def)
  ultimately show thesis using al cell f len
    by (intro that [where nr = nr and ns = ns and th = th])
      (simp_all add: update_new_root_def page_sizes cas_sync_def cas_word_def write_page_def
        broadcast_new_root_eq)
qed

end
