(* ===== verification/TreeOps.thy ===== *)
theory TreeOps
  imports World
begin

text \<open>
  The operations of \<^verbatim>\<open>src/Tree.cpp\<close>: \<^verbatim>\<open>page_search\<close>, the three stores into
  pages, and the client interface \<^verbatim>\<open>insert\<close>, \<^verbatim>\<open>search\<close>, \<^verbatim>\<open>del\<close>. Every
  \<^verbatim>\<open>goto next\<close> and every call of a store on another page takes one unit of fuel.
\<close>

section \<open>Searching a page\<close>

record SearchResult =
  sr_is_leaf :: bool
  sr_level :: u8
  sr_slibing :: GlobalAddress
  sr_next_level :: GlobalAddress
  sr_val :: val

definition my_enable_cache :: "tree_env \<Rightarrow> World \<Rightarrow> bool" where
  "my_enable_cache env w = enable_cache (my_state env w)"

definition cache_page :: "tree_env \<Rightarrow> u8 \<Rightarrow> InternalPage \<Rightarrow> World \<Rightarrow> err + World" where
  "cache_page env lv page w =
     (if lv = 1 \<and> my_enable_cache env w then
        rbind (add_to_cache (cenv env) page (index_cache w)) (\<lambda>(b, c). Inr (w\<lparr>index_cache := c\<rparr>))
      else Inr w)"

text \<open>A page whose versions differ is read again, for ever if nobody writes it.\<close>

definition page_search_leaf ::
  "LeafPage \<Rightarrow> key \<Rightarrow> bool \<Rightarrow> SearchResult \<Rightarrow> err + bool \<times> SearchResult" where
  "page_search_leaf page k from_cache result =
     rbind (require (leaf_check_consistent page) Blocked) (\<lambda>_.
     if from_cache \<and> (k < lowest (lp_hdr page) \<or> k \<ge> highest (lp_hdr page))
     then Inr (False, result)
     else
       rbind (assert_that (sr_level result = 0) ''result.level == 0'') (\<lambda>_.
       if k \<ge> highest (lp_hdr page)
       then Inr (True, result\<lparr>sr_slibing := sibling_ptr (lp_hdr page)\<rparr>)
       else
         rbind (assert_that (\<not> k < lowest (lp_hdr page)) ''k < page->hdr.lowest'') (\<lambda>_.
         Inr (True, result\<lparr>sr_val := leaf_page_search page k\<rparr>))))"

definition page_search_internal ::
  "tree_env \<Rightarrow> InternalPage \<Rightarrow> key \<Rightarrow> bool \<Rightarrow> SearchResult \<Rightarrow> World
    \<Rightarrow> err + (bool \<times> SearchResult) \<times> World" where
  "page_search_internal env page k from_cache result w =
     rbind (assert_that (sr_level result \<noteq> 0) ''result.level != 0'') (\<lambda>_.
     rbind (assert_that (\<not> from_cache) ''!from_cache'') (\<lambda>_.
     rbind (require (internal_check_consistent page) Blocked) (\<lambda>_.
     rbind (cache_page env (sr_level result) page w) (\<lambda>w1.
     if k \<ge> highest (ip_hdr page)
     then Inr ((True, result\<lparr>sr_slibing := sibling_ptr (ip_hdr page)\<rparr>), w1)
     else
       rbind (assert_that (\<not> k < lowest (ip_hdr page)) ''k < page->hdr.lowest'') (\<lambda>_.
       rbind (internal_page_search page k) (\<lambda>a.
       Inr ((True, result\<lparr>sr_next_level := a\<rparr>), w1)))))))"

definition page_search ::
  "tree_env \<Rightarrow> GlobalAddress \<Rightarrow> key \<Rightarrow> bool \<Rightarrow> World
    \<Rightarrow> err + (bool \<times> SearchResult) \<times> World" where
  "page_search env page_addr k from_cache w =
     rbind (read_page page_addr w) (\<lambda>pg.
     let hdr = page_hdr pg;
         result = \<lparr>sr_is_leaf = (leftmost_ptr hdr = gaddr_null), sr_level = level hdr,
                   sr_slibing = gaddr_null, sr_next_level = gaddr_null, sr_val = 0\<rparr>
     in rbind (set_path (unat (sr_level result)) page_addr w) (\<lambda>w1.
        case (sr_is_leaf result, pg) of
          (True, LeafP page) \<Rightarrow>
            rbind (page_search_leaf page k from_cache result) (\<lambda>r. Inr (r, w1))
        | (False, InternalP page) \<Rightarrow> page_search_internal env page k from_cache result w1
        | _ \<Rightarrow> Inl WildAccess))"

section \<open>Storing a separator\<close>

text \<open>The page as it is when it is locked, typed as the code casts it.\<close>

definition as_internal :: "page \<Rightarrow> err + InternalPage" where
  "as_internal pg = (case pg of InternalP p \<Rightarrow> Inr p | LeafP _ \<Rightarrow> Inl WildAccess)"

definition as_leaf :: "page \<Rightarrow> err + LeafPage" where
  "as_leaf pg = (case pg of LeafP p \<Rightarrow> Inr p | InternalP _ \<Rightarrow> Inl WildAccess)"

fun internal_page_store ::
  "tree_env \<Rightarrow> nat \<Rightarrow> GlobalAddress \<Rightarrow> key \<Rightarrow> GlobalAddress \<Rightarrow> GlobalAddress \<Rightarrow> nat \<Rightarrow> World
    \<Rightarrow> err + World" where
  "internal_page_store env 0 page_addr k v root lv w = Inl OutOfFuel"
| "internal_page_store env (Suc n) page_addr k v root lv w =
     (let lock_addr = lock_addr_of env page_addr; tag = thread_tag env in
      rbind (assert_that (tag \<noteq> 0) ''tag != 0'') (\<lambda>_.
      rbind (lock_and_read_page page_addr lock_addr tag w) (\<lambda>(pg, w1).
      rbind (as_internal pg) (\<lambda>page.
      rbind (assert_that (unat (level (ip_hdr page)) = lv) ''page->hdr.level == level'') (\<lambda>_.
      rbind (assert_that (internal_check_consistent page) ''page->check_consistent()'') (\<lambda>_.
      if k \<ge> highest (ip_hdr page) then
        let w2 = unlock_addr lock_addr w1 in
        rbind (assert_that (sibling_ptr (ip_hdr page) \<noteq> gaddr_null) ''sibling_ptr != Null'') (\<lambda>_.
        internal_page_store env n (sibling_ptr (ip_hdr page)) k v root lv w2)
      else
        rbind (assert_that (k \<ge> lowest (ip_hdr page)) ''k >= page->hdr.lowest'') (\<lambda>_.
        rbind (internal_put page k v) (\<lambda>page1.
        let cnt = last_index (ip_hdr page1) + 1; need_split = (cnt = int kInternalCardinality) in
        if \<not> need_split then
          write_page_and_unlock page_addr
            (WholePage (InternalP (internal_set_consistent page1))) lock_addr w1
        else
          rbind (tree_alloc env kInternalPageSize w1) (\<lambda>(sibling_addr, w2).
          rbind (internal_split page1 (nat cnt) sibling_addr) (\<lambda>(page2, sibling, split_key).
          let w3 = write_page sibling_addr (InternalP sibling) w2 in
          rbind (write_page_and_unlock page_addr
            (WholePage (InternalP (internal_set_consistent page2))) lock_addr w3) (\<lambda>w4.
          rbind (if root = page_addr
                 then update_new_root env page_addr split_key sibling_addr (lv + 1) root w4
                 else Inr (False, w4)) (\<lambda>(done, w5).
          if done then Inr w5
          else
            rbind (get_path (lv + 1) w5) (\<lambda>up_level.
            if up_level \<noteq> gaddr_null
            then internal_page_store env n up_level split_key sibling_addr root (lv + 1) w5
            else Inl (AssertFail ''up_level''))))))))))))))"

text \<open>The walk of \<^verbatim>\<open>insert_internal\<close> from the root to the page that is to hold the
  separator.\<close>

fun insert_internal_loop ::
  "tree_env \<Rightarrow> nat \<Rightarrow> nat \<Rightarrow> GlobalAddress \<Rightarrow> key \<Rightarrow> GlobalAddress \<Rightarrow> GlobalAddress \<Rightarrow> nat
    \<Rightarrow> World \<Rightarrow> err + World" where
  "insert_internal_loop env fuel 0 p k v root lv w = Inl OutOfFuel"
| "insert_internal_loop env fuel (Suc n) p k v root lv w =
     rbind (page_search env p k False w) (\<lambda>((ok, result), w1).
     if \<not> ok then insert_internal_loop env fuel n (get_root_ptr env w1) k v root lv w1
     else
       rbind (assert_that (sr_level result \<noteq> 0) ''result.level != 0'') (\<lambda>_.
       if sr_slibing result \<noteq> gaddr_null
       then insert_internal_loop env fuel n (sr_slibing result) k v root lv w1
       else if unat (sr_level result) \<noteq> lv + 1
       then insert_internal_loop env fuel n (sr_next_level result) k v root lv w1
       else internal_page_store env fuel (sr_next_level result) k v root lv w1))"

definition insert_internal ::
  "tree_env \<Rightarrow> nat \<Rightarrow> key \<Rightarrow> GlobalAddress \<Rightarrow> nat \<Rightarrow> World \<Rightarrow> err + World" where
  "insert_internal env fuel k v lv w =
     (let root = get_root_ptr env w
      in insert_internal_loop env fuel fuel root k v root lv w)"

section \<open>Storing into and deleting from a leaf\<close>

fun leaf_page_store ::
  "tree_env \<Rightarrow> nat \<Rightarrow> nat \<Rightarrow> GlobalAddress \<Rightarrow> key \<Rightarrow> val \<Rightarrow> GlobalAddress \<Rightarrow> nat \<Rightarrow> bool
    \<Rightarrow> World \<Rightarrow> err + bool \<times> World" where
  "leaf_page_store env fuel 0 page_addr k v root lv from_cache w = Inl OutOfFuel"
| "leaf_page_store env fuel (Suc n) page_addr k v root lv from_cache w =
     (let lock_addr = lock_addr_of env page_addr; tag = thread_tag env in
      rbind (assert_that (tag \<noteq> 0) ''tag != 0'') (\<lambda>_.
      rbind (lock_and_read_page page_addr lock_addr tag w) (\<lambda>(pg, w1).
      rbind (as_leaf pg) (\<lambda>page.
      rbind (assert_that (unat (level (lp_hdr page)) = lv) ''page->hdr.level == level'') (\<lambda>_.
      rbind (assert_that (leaf_check_consistent page) ''page->check_consistent()'') (\<lambda>_.
      if from_cache \<and> (k < lowest (lp_hdr page) \<or> k \<ge> highest (lp_hdr page))
      then Inr (False, unlock_addr lock_addr w1)
      else if k \<ge> highest (lp_hdr page) then
        let w2 = unlock_addr lock_addr w1 in
        rbind (assert_that (sibling_ptr (lp_hdr page) \<noteq> gaddr_null) ''sibling_ptr != Null'') (\<lambda>_.
        rbind (leaf_page_store env fuel n (sibling_ptr (lp_hdr page)) k v root lv False w2)
          (\<lambda>(r, w3). Inr (True, w3)))
      else
        rbind (assert_that (k \<ge> lowest (lp_hdr page)) ''k >= page->hdr.lowest'') (\<lambda>_.
        rbind (leaf_put (lp_records page) k v) (\<lambda>(rs, i, cnt).
        let need_split = (cnt = kLeafCardinality) in
        if \<not> need_split then
          rbind (write_page_and_unlock page_addr (LeafRecord i (rs ! i)) lock_addr w1)
            (\<lambda>w2. Inr (True, w2))
        else
          rbind (tree_alloc env kLeafPageSize w1) (\<lambda>(sibling_addr, w2).
          rbind (leaf_split (page\<lparr>lp_records := rs\<rparr>) cnt sibling_addr)
            (\<lambda>(page2, sibling, split_key).
          let w3 = write_page sibling_addr (LeafP sibling) w2 in
          rbind (write_page_and_unlock page_addr
            (WholePage (LeafP (leaf_set_consistent page2))) lock_addr w3) (\<lambda>w4.
          rbind (if root = page_addr
                 then update_new_root env page_addr split_key sibling_addr (lv + 1) root w4
                 else Inr (False, w4)) (\<lambda>(done, w5).
          if done then Inr (True, w5)
          else
            rbind (get_path (lv + 1) w5) (\<lambda>up_level.
            if up_level \<noteq> gaddr_null
            then rbind (internal_page_store env fuel up_level split_key sibling_addr root (lv + 1) w5)
                   (\<lambda>w6. Inr (True, w6))
            else
              rbind (assert_that from_cache ''from_cache'') (\<lambda>_.
              rbind (insert_internal env fuel split_key sibling_addr (lv + 1) w5)
                (\<lambda>w6. Inr (True, w6))))))))))))))))"

fun leaf_page_del ::
  "tree_env \<Rightarrow> nat \<Rightarrow> GlobalAddress \<Rightarrow> key \<Rightarrow> nat \<Rightarrow> bool \<Rightarrow> World \<Rightarrow> err + bool \<times> World" where
  "leaf_page_del env 0 page_addr k lv from_cache w = Inl OutOfFuel"
| "leaf_page_del env (Suc n) page_addr k lv from_cache w =
     (let lock_addr = lock_addr_of env page_addr; tag = thread_tag env in
      rbind (assert_that (tag \<noteq> 0) ''tag != 0'') (\<lambda>_.
      rbind (lock_and_read_page page_addr lock_addr tag w) (\<lambda>(pg, w1).
      rbind (as_leaf pg) (\<lambda>page.
      rbind (assert_that (unat (level (lp_hdr page)) = lv) ''page->hdr.level == level'') (\<lambda>_.
      rbind (assert_that (leaf_check_consistent page) ''page->check_consistent()'') (\<lambda>_.
      if from_cache \<and> (k < lowest (lp_hdr page) \<or> k \<ge> highest (lp_hdr page))
      then Inr (False, unlock_addr lock_addr w1)
      else if k \<ge> highest (lp_hdr page) then
        let w2 = unlock_addr lock_addr w1 in
        rbind (assert_that (sibling_ptr (lp_hdr page) \<noteq> gaddr_null) ''sibling_ptr != Null'') (\<lambda>_.
        rbind (leaf_page_del env n (sibling_ptr (lp_hdr page)) k lv False w2)
          (\<lambda>(r, w3). Inr (True, w3)))
      else
        rbind (assert_that (k \<ge> lowest (lp_hdr page)) ''k >= page->hdr.lowest'') (\<lambda>_.
        case leaf_del (lp_records page) k of
          Some (rs, i) \<Rightarrow>
            rbind (write_page_and_unlock page_addr (LeafRecord i (rs ! i)) lock_addr w1)
              (\<lambda>w2. Inr (True, w2))
        | None \<Rightarrow> Inr (True, unlock_addr lock_addr w1))))))))"

section \<open>The client interface\<close>

text \<open>The loop that \<^verbatim>\<open>insert\<close> and \<^verbatim>\<open>del\<close> share: from the root to the leaf.\<close>

fun descend_to_leaf ::
  "tree_env \<Rightarrow> nat \<Rightarrow> GlobalAddress \<Rightarrow> key \<Rightarrow> World \<Rightarrow> err + GlobalAddress \<times> World" where
  "descend_to_leaf env 0 p k w = Inl OutOfFuel"
| "descend_to_leaf env (Suc n) p k w =
     rbind (page_search env p k False w) (\<lambda>((ok, result), w1).
     if \<not> ok then descend_to_leaf env n (get_root_ptr env w1) k w1
     else if \<not> sr_is_leaf result then
       rbind (assert_that (sr_level result \<noteq> 0) ''result.level != 0'') (\<lambda>_.
       if sr_slibing result \<noteq> gaddr_null then descend_to_leaf env n (sr_slibing result) k w1
       else if sr_level result \<noteq> 1 then descend_to_leaf env n (sr_next_level result) k w1
       else Inr (sr_next_level result, w1))
     else Inr (p, w1))"

definition is_leader :: "tree_env \<Rightarrow> bool" where
  "is_leader env \<longleftrightarrow> my_thread env = 0"

definition search_cache ::
  "tree_env \<Rightarrow> key \<Rightarrow> World \<Rightarrow> err + (cache_key \<times> GlobalAddress) option \<times> World" where
  "search_cache env k w =
     rbind (search_from_cache (cenv env) k (is_leader env) (index_cache w)) (\<lambda>(e, c).
       Inr (e, w\<lparr>index_cache := c\<rparr>))"

definition invalidate_entry :: "tree_env \<Rightarrow> cache_key \<Rightarrow> World \<Rightarrow> World" where
  "invalidate_entry env h w = w\<lparr>index_cache := snd (invalidate (cenv env) h (index_cache w))\<rparr>"

definition insert_from_root ::
  "tree_env \<Rightarrow> nat \<Rightarrow> key \<Rightarrow> val \<Rightarrow> World \<Rightarrow> err + World" where
  "insert_from_root env fuel k v w =
     (let root = get_root_ptr env w in
      rbind (descend_to_leaf env fuel root k w) (\<lambda>(p, w1).
      rbind (leaf_page_store env fuel fuel p k v root 0 False w1) (\<lambda>(r, w2). Inr w2)))"

definition insert_op :: "tree_env \<Rightarrow> nat \<Rightarrow> key \<Rightarrow> val \<Rightarrow> World \<Rightarrow> err + World" where
  "insert_op env fuel k v w0 =
     (let w = before_operation w0 in
      if my_enable_cache env w then
        rbind (search_cache env k w) (\<lambda>(e, w1).
        case e of
          None \<Rightarrow> insert_from_root env fuel k v (w1\<lparr>cache_miss := cache_miss w1 + 1\<rparr>)
        | Some (h, cache_addr) \<Rightarrow>
            rbind (leaf_page_store env fuel fuel cache_addr k v (get_root_ptr env w1) 0 True w1)
              (\<lambda>(r, w2).
              if r then Inr (w2\<lparr>cache_hit := cache_hit w2 + 1\<rparr>)
              else
                let w3 = invalidate_entry env h w2 in
                insert_from_root env fuel k v (w3\<lparr>cache_miss := cache_miss w3 + 1\<rparr>)))
      else insert_from_root env fuel k v w)"

definition del_from_root :: "tree_env \<Rightarrow> nat \<Rightarrow> key \<Rightarrow> World \<Rightarrow> err + World" where
  "del_from_root env fuel k w =
     rbind (descend_to_leaf env fuel (get_root_ptr env w) k w) (\<lambda>(p, w1).
     rbind (leaf_page_del env fuel p k 0 False w1) (\<lambda>(r, w2). Inr w2))"

definition del_op :: "tree_env \<Rightarrow> nat \<Rightarrow> key \<Rightarrow> World \<Rightarrow> err + World" where
  "del_op env fuel k w0 =
     (let w = before_operation w0 in
      if my_enable_cache env w then
        rbind (search_cache env k w) (\<lambda>(e, w1).
        case e of
          None \<Rightarrow> del_from_root env fuel k (w1\<lparr>cache_miss := cache_miss w1 + 1\<rparr>)
        | Some (h, cache_addr) \<Rightarrow>
            rbind (leaf_page_del env fuel cache_addr k 0 True w1) (\<lambda>(r, w2).
              if r then Inr (w2\<lparr>cache_hit := cache_hit w2 + 1\<rparr>)
              else
                let w3 = invalidate_entry env h w2 in
                del_from_root env fuel k (w3\<lparr>cache_miss := cache_miss w3 + 1\<rparr>)))
      else del_from_root env fuel k w)"

text \<open>The loop of \<^verbatim>\<open>search\<close>; \<open>entry\<close> is the cache entry it started from, while it
  runs on a cached address.\<close>

fun search_loop ::
  "tree_env \<Rightarrow> nat \<Rightarrow> GlobalAddress \<Rightarrow> GlobalAddress \<Rightarrow> cache_key option \<Rightarrow> key \<Rightarrow> World
    \<Rightarrow> err + val option \<times> World" where
  "search_loop env 0 p root entry k w = Inl OutOfFuel"
| "search_loop env (Suc n) p root entry k w =
     rbind (page_search env p k (entry \<noteq> None) w) (\<lambda>((ok, result), w1).
     if \<not> ok then
       (case entry of
          Some h \<Rightarrow>
            let w2 = invalidate_entry env h w1 in
            search_loop env n root root None k
              (w2\<lparr>cache_hit := cache_hit w2 - 1, cache_miss := cache_miss w2 + 1\<rparr>)
        | None \<Rightarrow> search_loop env n p root None k w1)
     else if sr_is_leaf result then
       if sr_val result \<noteq> kValueNull then Inr (Some (sr_val result), w1)
       else if sr_slibing result \<noteq> gaddr_null
       then search_loop env n (sr_slibing result) root entry k w1
       else Inr (None, w1)
     else
       search_loop env n
         (if sr_slibing result \<noteq> gaddr_null then sr_slibing result else sr_next_level result)
         root entry k w1)"

definition search_op :: "tree_env \<Rightarrow> nat \<Rightarrow> key \<Rightarrow> World \<Rightarrow> err + val option \<times> World" where
  "search_op env fuel k w =
     (let root = get_root_ptr env w in
      if my_enable_cache env w then
        rbind (search_cache env k w) (\<lambda>(e, w1).
        case e of
          None \<Rightarrow> search_loop env fuel root root None k (w1\<lparr>cache_miss := cache_miss w1 + 1\<rparr>)
        | Some (h, cache_addr) \<Rightarrow>
            search_loop env fuel cache_addr root (Some h) k (w1\<lparr>cache_hit := cache_hit w1 + 1\<rparr>))
      else search_loop env fuel root root None k w)"

text \<open>The constructor of the tree: an empty leaf, installed as root if there is none yet.\<close>

definition new_tree :: "tree_env \<Rightarrow> World \<Rightarrow> err + World" where
  "new_tree env w =
     rbind (tree_alloc env kLeafPageSize w) (\<lambda>(root_addr, w1).
     let w2 = write_page root_addr (LeafP (leaf_set_consistent (new_LeafPage 0))) w1
     in Inr (snd (cas_sync (get_root_ptr_ptr env) 0 (addr_val root_addr) w2)))"

end
