(* ===== verification/TreeInv.thy ===== *)
theory TreeInv
  imports WorldProps TreeOps
begin

text \<open>
  The invariant of the world between the steps of an operation, the measures of the walks,
  and the store of a separator: \<^verbatim>\<open>internal_page_store\<close> returns, keeps the shape of the
  tree whatever it splits on the way up, leaves the leaves alone and releases every lock.
\<close>

section \<open>Invariant and measures\<close>

definition winv :: "tree_env \<Rightarrow> GlobalAddress list list \<Rightarrow> World \<Rightarrow> bool" where
  "winv env ts w \<longleftrightarrow> blink (mem w) ts \<and> length ts \<le> kMaxLevelOfTree
     \<and> my_node env < length (nodes w) \<and> thread_tag env \<noteq> 0 \<and> alloc_inv w
     \<and> length (path_stack w) = kMaxLevelOfTree"

text \<open>The top level is one page, and the root cell points to it.\<close>

definition rooted :: "tree_env \<Rightarrow> GlobalAddress list list \<Rightarrow> GlobalAddress \<Rightarrow> World \<Rightarrow> bool" where
  "rooted env ts root w \<longleftrightarrow> last ts = [root] \<and> cells w (get_root_ptr_ptr env) = addr_val root"

text \<open>The pages remembered on the way down, from level \<open>l\<close> up; \<open>b\<close> bounds the first one.\<close>

definition path_ok :: "memory \<Rightarrow> GlobalAddress list list \<Rightarrow> GlobalAddress list \<Rightarrow> nat \<Rightarrow> key \<Rightarrow> bool"
  where
  "path_ok m ts path l b \<longleftrightarrow> (\<forall>j. l \<le> j \<longrightarrow> j < length ts \<longrightarrow> path ! j \<in> set (ts ! j))
     \<and> (l < length ts \<longrightarrow> low m (path ! l) \<le> b)
     \<and> (\<forall>j. l \<le> j \<longrightarrow> Suc j < length ts \<longrightarrow> low m (path ! Suc j) \<le> low m (path ! j))"

text \<open>How many pages a store can still visit: those to the right on its level, and all
  levels above.\<close>

definition calls :: "GlobalAddress list list \<Rightarrow> nat \<Rightarrow> GlobalAddress list \<Rightarrow> nat" where
  "calls ts l ys = Suc (length ys) + sum_list (map length (drop (Suc l) ts))"

text \<open>The parts of the world that a store leaves alone.\<close>

definition frame :: "World \<Rightarrow> World \<Rightarrow> bool" where
  "frame w w' \<longleftrightarrow> node_roots w' = node_roots w \<and> index_cache w' = index_cache w
     \<and> path_stack w' = path_stack w \<and> cache_hit w' = cache_hit w \<and> cache_miss w' = cache_miss w"

text \<open>The leftmost page of a level never changes.\<close>

definition heads :: "GlobalAddress list list \<Rightarrow> GlobalAddress list list \<Rightarrow> bool" where
  "heads ts ts' \<longleftrightarrow> (\<forall>l < length ts. hd (ts' ! l) = hd (ts ! l))"

text \<open>The root stayed, or a new one was put on top and announced to every node.\<close>

definition grown :: "tree_env \<Rightarrow> GlobalAddress list list \<Rightarrow> GlobalAddress \<Rightarrow> World
    \<Rightarrow> GlobalAddress list list \<Rightarrow> GlobalAddress \<Rightarrow> World \<Rightarrow> bool" where
  "grown env ts root w ts' root' w' \<longleftrightarrow> heads ts ts' \<and>
     (root' = root \<and> length ts' = length ts \<and> network w' = network w
     \<or> length ts' = Suc (length ts)
       \<and> network w' = network w @ root_msgs env root' (length ts) (length (nodes w)))"

definition stored :: "tree_env \<Rightarrow> GlobalAddress list list \<Rightarrow> GlobalAddress \<Rightarrow> nat \<Rightarrow> World
    \<Rightarrow> err + World \<Rightarrow> bool" where
  "stored env ts root r w res \<longleftrightarrow> (\<exists>w' ts' root'. res = Inr w' \<and> winv env ts' w'
     \<and> rooted env ts' root' w' \<and> grown env ts root w ts' root' w' \<and> locks_free r w' \<and> frame w w'
     \<and> ts' ! 0 = ts ! 0 \<and> (\<forall>a \<in> set (ts ! 0). mem w' a = mem w a))"

section \<open>Lemmas on the notions\<close>

lemma calls_Cons: "calls ts l (b # ys) = Suc (calls ts l ys)"
  by (simp add: calls_def)

lemma calls_pos: "0 < calls ts l ys"
  by (simp add: calls_def)

lemma calls_up:
  assumes "Suc l < length ts" "ts ! Suc l = xs @ q # ys'"
  shows "calls ts (Suc l) ys' < calls ts l ys"
proof -
  have "drop (Suc l) ts = ts ! Suc l # drop (Suc (Suc l)) ts"
    using assms(1) by (simp add: Cons_nth_drop_Suc)
  then show ?thesis using assms(2) by (simp add: calls_def)
qed

lemma calls_update: "l < length ts \<Longrightarrow> calls (ts[l := x]) (Suc l) ys = calls ts (Suc l) ys"
  by (simp add: calls_def)

lemma path_ok_top: "length ts \<le> l \<Longrightarrow> path_ok m ts path l b"
  by (simp add: path_ok_def)

lemma path_ok_weaken: "path_ok m ts path l b \<Longrightarrow> b \<le> b' \<Longrightarrow> path_ok m ts path l b'"
  by (auto simp: path_ok_def)

lemma path_ok_Suc: "path_ok m ts path l b \<Longrightarrow> path_ok m ts path (Suc l) (low m (path ! l))"
  by (auto simp: path_ok_def)

lemma path_ok_cong:
  assumes "\<And>j. l \<le> j \<Longrightarrow> j < length ts \<Longrightarrow> ts' ! j = ts ! j" "length ts' = length ts"
    and "\<And>a j. j < length ts \<Longrightarrow> a \<in> set (ts ! j) \<Longrightarrow> low m' a = low m a"
    and p: "path_ok m ts path l b"
  shows "path_ok m' ts' path l b"
proof -
  have mem: "path ! j \<in> set (ts ! j)" if "l \<le> j" "j < length ts" for j
    using p that by (simp add: path_ok_def)
  have low: "low m' (path ! j) = low m (path ! j)" if "l \<le> j" "j < length ts" for j
    by (rule assms(3) [OF that(2) mem [OF that]])
  have "low m' (path ! Suc j) \<le> low m' (path ! j)" if "l \<le> j" "Suc j < length ts" for j
    using p that low [of j] low [of "Suc j"] by (simp add: path_ok_def)
  moreover have "low m' (path ! l) \<le> b" if "l < length ts"
    using p that low [of l] by (simp add: path_ok_def)
  ultimately show ?thesis using mem assms(1,2) by (simp add: path_ok_def)
qed

lemma frame_refl [simp]: "frame w w"
  by (simp add: frame_def)

lemma frame_trans: "frame w w' \<Longrightarrow> frame w' w'' \<Longrightarrow> frame w w''"
  by (simp add: frame_def)

lemma frame_length: "frame w w' \<Longrightarrow> length (nodes w') = length (nodes w)"
  unfolding frame_def node_roots_def by (metis length_map)

lemma heads_refl [simp]: "heads ts ts"
  by (simp add: heads_def)

lemma heads_trans_le: "heads ts ts1 \<Longrightarrow> heads ts1 ts2 \<Longrightarrow> length ts \<le> length ts1 \<Longrightarrow> heads ts ts2"
  by (simp add: heads_def)

lemma heads_trans: "heads ts ts1 \<Longrightarrow> heads ts1 ts2 \<Longrightarrow> length ts1 = length ts \<Longrightarrow> heads ts ts2"
  by (simp add: heads_def)

lemma heads_split: "ts ! l = xs @ a # ys \<Longrightarrow> heads ts (ts[l := xs @ a # b # ys])"
  unfolding heads_def
proof (intro allI impI)
  fix i
  assume "ts ! l = xs @ a # ys" "i < length ts"
  then show "hd (ts[l := xs @ a # b # ys] ! i) = hd (ts ! i)"
    by (cases "i = l"; cases xs) auto
qed

lemma heads_append [simp]: "heads ts (ts @ us)"
  by (simp add: heads_def nth_append)

lemma stored_via:
  assumes "stored env ts2 root r w2 res" "frame w w2" "length ts2 = length ts" "heads ts ts2"
    "network w2 = network w" "ts2 ! 0 = ts ! 0" "\<forall>a \<in> set (ts ! 0). mem w2 a = mem w a"
  shows "stored env ts root r w res"
proof -
  from assms(1) obtain w' ts' root' where r: "res = Inr w'" "winv env ts' w'" "rooted env ts' root' w'"
    "grown env ts2 root w2 ts' root' w'" "locks_free r w'" "frame w2 w'" "ts' ! 0 = ts2 ! 0"
    "\<forall>a \<in> set (ts2 ! 0). mem w' a = mem w2 a" by (auto simp: stored_def)
  have "grown env ts root w ts' root' w'"
    using r(4) assms(3,4,5) frame_length [OF assms(2)] heads_trans [OF assms(4)] by (auto simp: grown_def)
  moreover have "frame w w'" by (rule frame_trans [OF assms(2) r(6)])
  ultimately show ?thesis using r assms(6,7) by (auto simp: stored_def)
qed

lemma winv_page:
  assumes "winv env ts w" "Suc i < length ts" "ts ! Suc i = xs @ p # ys"
  obtains page where "mem w p = Some (InternalP page)" "page_ok (Suc i) (InternalP page)"
    "kids_ok (mem w) (ts ! i) page" "low (mem w) p = lowest (ip_hdr page)"
proof -
  have "blink (mem w) ts" using assms(1) by (simp add: winv_def)
  from blink_kids [OF this assms(2), of p] assms(3) that show thesis
    by (auto simp: low_def hdr_at_def)
qed

lemma winv_seg:
  assumes "winv env ts w" "l < length ts" "ts ! l = as"
  shows "seg (mem w) l kKeyMin (hd as) as kKeyMax gaddr_null"
  using assms by (auto simp: winv_def blink_def level_chain_def)

end
