(* ===== verification/WorldSteps.thy ===== *)
theory WorldSteps
  imports TreeInv
begin

text \<open>
  The three steps of \<open>BlinkSteps\<close> taken on the whole world, as the leaf store, the internal
  store and the delete take them: the invariant afterwards, and what did not change.
\<close>

section \<open>Locks do not matter to the rest\<close>

lemma winv_upd_locks [simp]:
  "winv env ts (w\<lparr>local_locks := lk, chip := ch\<rparr>) = winv env ts w"
  by (simp add: winv_def alloc_inv_def)

lemma rooted_upd_locks [simp]:
  "rooted env ts root (w\<lparr>local_locks := lk, chip := ch\<rparr>) = rooted env ts root w"
  by (simp add: rooted_def)

lemma frame_upd_locks [simp]: "frame w (w\<lparr>local_locks := lk, chip := ch\<rparr>)"
  by (simp add: frame_def node_roots_def)

lemma alloc_room_upd_locks [simp]:
  "alloc_room env n (w\<lparr>local_locks := lk, chip := ch\<rparr>) = alloc_room env n w"
  by (simp add: alloc_room_def)

section \<open>Rewriting a page\<close>

lemma rewrite_step:
  assumes wi: "winv env ts w" and l: "l < length ts" and a: "a \<in> set (ts ! l)"
    and pg: "mem w a = Some pg" and ok: "page_ok l pg'"
    and same: "lowest (page_hdr pg') = lowest (page_hdr pg)"
      "highest (page_hdr pg') = highest (page_hdr pg)"
      "sibling_ptr (page_hdr pg') = sibling_ptr (page_hdr pg)"
    and kids: "\<And>p i. pg' = InternalP p \<Longrightarrow> l = Suc i \<Longrightarrow> kids_ok (mem w) (ts ! i) p"
    and w': "w' = w\<lparr>mem := (mem w)(a \<mapsto> pg'), local_locks := lk, chip := ch\<rparr>"
  shows "winv env ts w'" "frame w w'" "cells w' = cells w" "network w' = network w"
    and "\<And>b l'. l' < length ts \<Longrightarrow> l' \<noteq> l \<Longrightarrow> b \<in> set (ts ! l') \<Longrightarrow> mem w' b = mem w b"
proof -
  have bl: "blink (mem w) ts" using wi by (simp add: winv_def)
  have "blink (mem w') ts"
    using blink_rewrite [OF bl l a pg ok same kids] by (simp add: w')
  moreover have "alloc_inv w'"
  proof (rule alloc_inv_rewrite)
    show "alloc_inv w" using wi by (simp add: winv_def)
    show "mem w' = (mem w)(a \<mapsto> pg')" by (simp add: w')
  qed (simp_all add: w' pg)
  ultimately show "winv env ts w'" using wi by (simp add: winv_def w')
  show "frame w w'" "cells w' = cells w" "network w' = network w"
    by (simp_all add: w' frame_def node_roots_def)
  show "mem w' b = mem w b" if "l' < length ts" "l' \<noteq> l" "b \<in> set (ts ! l')" for b l'
    using blink_level_unique [OF bl l a that(1)] that by (auto simp: w')
qed

section \<open>Splitting a page\<close>

lemma split_step:
  assumes wi: "winv env ts w" and l: "l < length ts" and tsl: "ts ! l = xs @ a # ys"
    and pg: "mem w a = Some pg" and fresh: "mem w b = None" "b \<noteq> gaddr_null"
    and ok: "page_ok l p'" "page_ok l s"
    and p': "lowest (page_hdr p') = lowest (page_hdr pg)"
      "highest (page_hdr p') = lowest (page_hdr s)" "sibling_ptr (page_hdr p') = b"
    and s: "highest (page_hdr s) = highest (page_hdr pg)"
      "sibling_ptr (page_hdr s) = sibling_ptr (page_hdr pg)"
    and kids: "\<And>q i. p' = InternalP q \<Longrightarrow> l = Suc i \<Longrightarrow> kids_ok (mem w) (ts ! i) q"
      "\<And>q i. s = InternalP q \<Longrightarrow> l = Suc i \<Longrightarrow> kids_ok (mem w) (ts ! i) q"
    and al: "alloc_inv (w\<lparr>nodes := ns, dsm_th := th\<rparr>)" "first_byte b \<notin> dsm_avail (ns, th)"
      "node_roots (w\<lparr>nodes := ns, dsm_th := th\<rparr>) = node_roots w" "length ns = length (nodes w)"
    and w': "w' = w\<lparr>nodes := ns, dsm_th := th, mem := (mem w)(b \<mapsto> s, a \<mapsto> p'),
      local_locks := lk, chip := ch\<rparr>"
  shows "winv env (ts[l := xs @ a # b # ys]) w'" "frame w w'" "cells w' = cells w"
    "network w' = network w"
    and "\<And>c. mem w c \<noteq> None \<Longrightarrow> low (mem w') c = low (mem w) c"
    and "low (mem w') b = lowest (page_hdr s)"
    and "\<And>c l'. l' < length ts \<Longrightarrow> l' \<noteq> l \<Longrightarrow> c \<in> set (ts ! l') \<Longrightarrow> mem w' c = mem w c"
proof -
  have bl: "blink (mem w) ts" using wi by (simp add: winv_def)
  have m': "mem w' = (mem w)(b \<mapsto> s, a \<mapsto> p')" by (simp add: w')
  have "blink (mem w') (ts[l := xs @ a # b # ys])"
    by (rule blink_split [OF bl l tsl pg fresh ok p' s kids m' refl])
  moreover have "alloc_inv w'"
    using al(1,2) pg unfolding alloc_inv_def by (auto simp: w')
  ultimately show "winv env (ts[l := xs @ a # b # ys]) w'"
    using wi al(4) by (simp add: winv_def w')
  show "frame w w'" "cells w' = cells w" "network w' = network w"
    using al(3) by (simp_all add: w' frame_def node_roots_def)
  show "low (mem w') c = low (mem w) c" if "mem w c \<noteq> None" for c
    using that fresh p'(1) pg by (auto simp: low_def hdr_at_def m')
  show "low (mem w') b = lowest (page_hdr s)"
    using pg fresh by (auto simp: low_def hdr_at_def m')
  show "mem w' c = mem w c" if "l' < length ts" "l' \<noteq> l" "c \<in> set (ts ! l')" for c l'
    using blink_level_unique [OF bl l _ that(1), of c] blink_fresh [OF bl fresh(1) that(1)] that tsl
    by (auto simp: m')
qed

section \<open>Putting a root on top\<close>

text \<open>After the old root was split: the new root over the two halves.\<close>

lemma new_root_step:
  assumes wi: "winv env ts w" and top: "last ts = [root, b]" and len: "length ts < kMaxLevelOfTree"
    and cell: "cells w (get_root_ptr_ptr env) = addr_val root"
    and sk: "kKeyMin < low (mem w) b" "low (mem w) b < kKeyMax"
    and room: "alloc_room env (Suc n) w" and locks: "locks_free r w"
  obtains w' nr where
    "update_new_root env root (low (mem w) b) b (length ts) root w = Inr (True, w')"
    "winv env (ts @ [[nr]]) w'" "rooted env (ts @ [[nr]]) nr w'" "frame w w'" "locks_free r w'"
    "network w' = network w @ root_msgs env nr (length ts) (length (nodes w))"
    "\<forall>c. mem w c \<noteq> None \<longrightarrow> mem w' c = mem w c"
proof -
  let ?sk = "low (mem w) b"
  have bl: "blink (mem w) ts" and inv: "alloc_inv w" using wi by (simp_all add: winv_def)
  have ne: "ts \<noteq> []" using bl by (simp add: blink_def)
  let ?l = "length ts - 1"
  have l: "?l < length ts" and tl: "ts ! ?l = [root, b]" using ne top by (simp_all add: last_conv_nth)
  obtain nr ns th where
    un: "update_new_root env root ?sk b (length ts) root w =
       Inr (True, w\<lparr>nodes := ns, dsm_th := th,
         mem := (mem w)(nr \<mapsto> InternalP (internal_set_consistent
           (new_root_InternalPage (stale_word env) root ?sk b (int (length ts))))),
         cells := (cells w)(get_root_ptr_ptr env := addr_val nr),
         network := network w @ root_msgs env nr (length ts) (length (nodes w))\<rparr>)"
    and nr: "mem w nr = None" "nr \<noteq> gaddr_null" "length ns = length (nodes w)"
      "map root_view ns = map root_view (nodes w)"
    and ai: "\<And>w'. nodes w' = ns \<Longrightarrow> dsm_th w' = th \<Longrightarrow> (\<exists>p. mem w' = (mem w)(nr \<mapsto> p))
      \<Longrightarrow> alloc_inv w'"
    by (rule update_new_root_ok [OF inv room cell, of root ?sk b "length ts"], rule that)
      (assumption | simp)+
  let ?p = "internal_set_consistent
    (new_root_InternalPage (stale_word env) root ?sk b (int (length ts)))"
  let ?w = "w\<lparr>nodes := ns, dsm_th := th, mem := (mem w)(nr \<mapsto> InternalP ?p),
    cells := (cells w)(get_root_ptr_ptr env := addr_val nr),
    network := network w @ root_msgs env nr (length ts) (length (nodes w))\<rparr>"
  have sg: "seg (mem w) ?l kKeyMin root [root, b] kKeyMax gaddr_null"
    using winv_seg [OF wi l tl] by simp
  then have lowr: "low (mem w) root = kKeyMin" by (auto simp: low_def hdr_at_def)
  have l256: "0 < length ts" "length ts < 256" using ne len by (simp_all add: kMaxLevelOfTree_def)
  have rn: "root \<noteq> gaddr_null" using blink_not_null [OF bl l] tl by auto
  note np = new_root_page [where m = "mem w" and right = b and left = root and k = ?sk
      and sw = "stale_word env", OF l256 rn sk lowr refl]
  have "blink (mem ?w) (ts @ [[nr]])"
    using blink_new_root [OF bl nr(1,2) np(1)] np top by simp
  moreover have "alloc_inv ?w" by (rule ai) auto
  ultimately have "winv env (ts @ [[nr]]) ?w" using wi len nr(3) by (simp add: winv_def)
  moreover have "rooted env (ts @ [[nr]]) nr ?w" by (simp add: rooted_def)
  moreover have "frame w ?w" using nr(4) by (simp add: frame_def node_roots_def)
  moreover have "locks_free r ?w" using locks by (simp add: locks_free_def)
  moreover have "\<forall>c. mem w c \<noteq> None \<longrightarrow> mem ?w c = mem w c" using nr(1) by auto
  moreover have "network ?w = network w @ root_msgs env nr (length ts) (length (nodes w))" by simp
  ultimately show thesis using un by (intro that [where w' = ?w and nr = nr])
qed

end
