(* ===== verification/InternalStore.thy ===== *)
theory InternalStore
  imports WorldSteps
begin

text \<open>\<^verbatim>\<open>internal_page_store\<close>: one call at a time, then the whole of it by induction on
  the fuel.\<close>

section \<open>One call\<close>

text \<open>The page after locking, as the code reads it.\<close>

lemma internal_store_lock:
  assumes "winv env ts w" "Suc i < length ts" "ts ! Suc i = xs @ p # ys"
    and "mem w p = Some (InternalP page)" "page_ok (Suc i) (InternalP page)"
    and "lock_and_read_page p (lock_addr_of env p) (thread_tag env) w = Inr (InternalP page, w1)"
  shows "highest (ip_hdr page) \<le> k \<Longrightarrow> internal_page_store env (Suc n) p k v root (Suc i) w =
      rbind (assert_that (sibling_ptr (ip_hdr page) \<noteq> gaddr_null) ''sibling_ptr != Null'') (\<lambda>_.
        internal_page_store env n (sibling_ptr (ip_hdr page)) k v root (Suc i)
          (unlock_addr (lock_addr_of env p) w1))"
    and "lowest (ip_hdr page) \<le> k \<Longrightarrow> k < highest (ip_hdr page) \<Longrightarrow>
      internal_put page k v = Inr page1 \<Longrightarrow>
      last_index (ip_hdr page1) + 1 \<noteq> int kInternalCardinality \<Longrightarrow>
      internal_page_store env (Suc n) p k v root (Suc i) w =
        write_page_and_unlock p (WholePage (InternalP (internal_set_consistent page1)))
          (lock_addr_of env p) w1"
    and "lowest (ip_hdr page) \<le> k \<Longrightarrow> k < highest (ip_hdr page) \<Longrightarrow>
      internal_put page k v = Inr page1 \<Longrightarrow>
      last_index (ip_hdr page1) + 1 = int kInternalCardinality \<Longrightarrow>
      tree_alloc env kLeafPageSize w1 = Inr (b, w2) \<Longrightarrow>
      internal_split page1 kInternalCardinality b = Inr (page2, sib, sk) \<Longrightarrow>
      write_page_and_unlock p (WholePage (InternalP (internal_set_consistent page2)))
        (lock_addr_of env p) (write_page b (InternalP sib) w2) = Inr w4 \<Longrightarrow>
      internal_page_store env (Suc n) p k v root (Suc i) w =
        rbind (if root = p then update_new_root env p sk b (Suc (Suc i)) root w4
               else Inr (False, w4)) (\<lambda>(done, w5).
          if done then Inr w5
          else rbind (get_path (Suc (Suc i)) w5) (\<lambda>up_level.
            if up_level \<noteq> gaddr_null
            then internal_page_store env n up_level sk b root (Suc (Suc i)) w5
            else Inl (AssertFail ''up_level'')))"
proof -
  have tag: "thread_tag env \<noteq> 0" using assms(1) by (simp add: winv_def)
  have l: "unat (level (ip_hdr page)) = Suc i" "internal_check_consistent page"
    using assms(5) by simp_all
  note u = internal_page_store.simps(2) Let_def assms(6) as_internal_def
  show "highest (ip_hdr page) \<le> k \<Longrightarrow> internal_page_store env (Suc n) p k v root (Suc i) w =
      rbind (assert_that (sibling_ptr (ip_hdr page) \<noteq> gaddr_null) ''sibling_ptr != Null'') (\<lambda>_.
        internal_page_store env n (sibling_ptr (ip_hdr page)) k v root (Suc i)
          (unlock_addr (lock_addr_of env p) w1))"
    using tag l by (simp add: u)
  show "lowest (ip_hdr page) \<le> k \<Longrightarrow> k < highest (ip_hdr page) \<Longrightarrow>
      internal_put page k v = Inr page1 \<Longrightarrow>
      last_index (ip_hdr page1) + 1 \<noteq> int kInternalCardinality \<Longrightarrow>
      internal_page_store env (Suc n) p k v root (Suc i) w =
        write_page_and_unlock p (WholePage (InternalP (internal_set_consistent page1)))
          (lock_addr_of env p) w1"
    using tag l by (auto simp: u)
  show "lowest (ip_hdr page) \<le> k \<Longrightarrow> k < highest (ip_hdr page) \<Longrightarrow>
      internal_put page k v = Inr page1 \<Longrightarrow>
      last_index (ip_hdr page1) + 1 = int kInternalCardinality \<Longrightarrow>
      tree_alloc env kLeafPageSize w1 = Inr (b, w2) \<Longrightarrow>
      internal_split page1 kInternalCardinality b = Inr (page2, sib, sk) \<Longrightarrow>
      write_page_and_unlock p (WholePage (InternalP (internal_set_consistent page2)))
        (lock_addr_of env p) (write_page b (InternalP sib) w2) = Inr w4 \<Longrightarrow>
      internal_page_store env (Suc n) p k v root (Suc i) w =
        rbind (if root = p then update_new_root env p sk b (Suc (Suc i)) root w4
               else Inr (False, w4)) (\<lambda>(done, w5).
          if done then Inr w5
          else rbind (get_path (Suc (Suc i)) w5) (\<lambda>up_level.
            if up_level \<noteq> gaddr_null
            then internal_page_store env n up_level sk b root (Suc (Suc i)) w5
            else Inl (AssertFail ''up_level'')))"
    using tag l by (auto simp: u page_sizes cong: if_cong)
qed

section \<open>All of it\<close>

text \<open>The call that splits: what holds just before the separator of the new sibling goes
  up.\<close>

lemma internal_store_split:
  assumes wi: "winv env ts w" and i: "Suc i < length ts" and tsi: "ts ! Suc i = xs @ p # ys"
    and pg: "mem w p = Some (InternalP page)" "page_ok (Suc i) (InternalP page)"
    and held: "lock_held r (lock_addr_of env p) w" and room: "alloc_room env (Suc n) w"
    and p1: "\<And>sib. \<exists>p' s sk. internal_split page1 kInternalCardinality sib = Inr (p', s, sk)
         \<and> lowest (ip_hdr page) < sk \<and> sk < highest (ip_hdr page)
         \<and> page_ok (Suc i) (InternalP (internal_set_consistent p')) \<and> page_ok (Suc i) (InternalP s)
         \<and> lowest (ip_hdr p') = lowest (ip_hdr page) \<and> highest (ip_hdr p') = sk
         \<and> sibling_ptr (ip_hdr p') = sib
         \<and> lowest (ip_hdr s) = sk \<and> highest (ip_hdr s) = highest (ip_hdr page)
         \<and> sibling_ptr (ip_hdr s) = sibling_ptr (ip_hdr page)
         \<and> kids_ok (mem w) (ts ! i) (internal_set_consistent p') \<and> kids_ok (mem w) (ts ! i) s"
  obtains b w2 page2 sib w4 where
    "tree_alloc env kLeafPageSize w = Inr (b, w2)"
    "internal_split page1 kInternalCardinality b = Inr (page2, sib, low (mem w4) b)"
    "write_page_and_unlock p (WholePage (InternalP (internal_set_consistent page2)))
       (lock_addr_of env p) (write_page b (InternalP sib) w2) = Inr w4"
    "winv env (ts[Suc i := xs @ p # b # ys]) w4" "frame w w4" "cells w4 = cells w"
    "network w4 = network w" "locks_free r w4" "alloc_room env n w4"
    "low (mem w) p < low (mem w4) b" "low (mem w4) b < kKeyMax"
    "\<forall>c. mem w c \<noteq> None \<longrightarrow> low (mem w4) c = low (mem w) c"
    "\<forall>l' < length ts. l' \<noteq> Suc i \<longrightarrow> (\<forall>c \<in> set (ts ! l'). mem w4 c = mem w c)"
proof -
  have inv: "alloc_inv w" using wi by (simp add: winv_def)
  obtain b ns th where al: "tree_alloc env kLeafPageSize w = Inr (b, w\<lparr>nodes := ns, dsm_th := th\<rparr>)"
    and ai: "alloc_inv (w\<lparr>nodes := ns, dsm_th := th\<rparr>)"
    and ar: "alloc_room env n (w\<lparr>nodes := ns, dsm_th := th\<rparr>)"
    and fr: "mem w b = None" "b \<noteq> gaddr_null" and na: "first_byte b \<notin> dsm_avail (ns, th)"
    and nr: "node_roots (w\<lparr>nodes := ns, dsm_th := th\<rparr>) = node_roots w" "length ns = length (nodes w)"
    by (rule tree_alloc_ok [OF inv room])
  obtain p2 s sk where sp: "internal_split page1 kInternalCardinality b = Inr (p2, s, sk)"
    and sk: "lowest (ip_hdr page) < sk" "sk < highest (ip_hdr page)"
    and ok: "page_ok (Suc i) (InternalP (internal_set_consistent p2))" "page_ok (Suc i) (InternalP s)"
    and h: "lowest (ip_hdr p2) = lowest (ip_hdr page)" "highest (ip_hdr p2) = sk"
      "sibling_ptr (ip_hdr p2) = b" "lowest (ip_hdr s) = sk"
      "highest (ip_hdr s) = highest (ip_hdr page)"
      "sibling_ptr (ip_hdr s) = sibling_ptr (ip_hdr page)"
    and kd: "kids_ok (mem w) (ts ! i) (internal_set_consistent p2)" "kids_ok (mem w) (ts ! i) s"
    using p1 [of b] by blast
  let ?w3 = "write_page b (InternalP s) (w\<lparr>nodes := ns, dsm_th := th\<rparr>)"
  let ?P = "InternalP (internal_set_consistent p2)"
  have "lock_held r (lock_addr_of env p) ?w3"
    using held by (simp add: lock_held_def write_page_def)
  then obtain lk ch where
    wr: "write_page_and_unlock p (WholePage ?P) (lock_addr_of env p) ?w3
      = Inr (?w3\<lparr>mem := (mem ?w3)(p \<mapsto> ?P), local_locks := lk, chip := ch\<rparr>)"
    and fre: "locks_free r (?w3\<lparr>mem := (mem ?w3)(p \<mapsto> ?P), local_locks := lk, chip := ch\<rparr>)"
    by (rule write_whole_and_unlock_ok [of _ _ _ p ?P])
  define w4 where "w4 = ?w3\<lparr>mem := (mem ?w3)(p \<mapsto> ?P), local_locks := lk, chip := ch\<rparr>"
  have w4: "w4 = w\<lparr>nodes := ns, dsm_th := th, mem := (mem w)(b \<mapsto> InternalP s, p \<mapsto> ?P),
      local_locks := lk, chip := ch\<rparr>"
    by (simp add: w4_def write_page_def)
  have hh: "lowest (page_hdr ?P) = lowest (page_hdr (InternalP page))"
    "highest (page_hdr ?P) = lowest (page_hdr (InternalP s))" "sibling_ptr (page_hdr ?P) = b"
    "highest (page_hdr (InternalP s)) = highest (page_hdr (InternalP page))"
    "sibling_ptr (page_hdr (InternalP s)) = sibling_ptr (page_hdr (InternalP page))"
    using h by simp_all
  note st = split_step [OF wi i tsi pg(1) fr ok hh _ _ ai na nr w4]
  have kid: "?P = InternalP q \<Longrightarrow> Suc i = Suc j \<Longrightarrow> kids_ok (mem w) (ts ! j) q"
    "InternalP s = InternalP q \<Longrightarrow> Suc i = Suc j \<Longrightarrow> kids_ok (mem w) (ts ! j) q" for q j
    using kd by auto
  have lowb: "low (mem w4) b = sk" using st(6) [OF kid] h by simp
  have lowp: "low (mem w) p = lowest (ip_hdr page)" using pg(1) by (simp add: low_def hdr_at_def)
  have skM: "sk < kKeyMax" using sk(2) le_kKeyMax less_le_trans by blast
  show thesis
  proof (rule that [of b "w\<lparr>nodes := ns, dsm_th := th\<rparr>" p2 s w4])
    show "alloc_room env n w4" using ar by (simp add: alloc_room_def w4)
    show "write_page_and_unlock p (WholePage ?P) (lock_addr_of env p) ?w3 = Inr w4"
      using wr by (simp add: w4_def)
    show "locks_free r w4" using fre by (simp add: w4_def)
  qed (use al sp sk lowb lowp skM st [OF kid] in simp_all)
qed

text \<open>What happens with the separator of the new sibling: a new root, or a store one level
  up, whose success is assumed.\<close>

lemma internal_store_up:
  assumes wi: "winv env ts1 w4" and ro: "rooted env ts root w"
    and len: "length ts < kMaxLevelOfTree" and l: "l < length ts"
    and tsl: "ts ! l = xs @ p # ys" and ts1: "ts1 = ts[l := xs @ p # b # ys]"
    and cells: "cells w4 = cells w" and net: "network w4 = network w" and fr: "frame w w4"
    and locks: "locks_free r w4" and room: "alloc_room env (length ts - l) w4"
    and bl: "blink (mem w) ts"
    and sk: "kKeyMin < low (mem w4) b" "low (mem w4) b < kKeyMax"
    and leaves: "\<forall>a \<in> set (ts1 ! 0). mem w4 a \<noteq> None"
    and up: "root \<noteq> p \<Longrightarrow> Suc l < length ts \<Longrightarrow>
      stored env ts1 root r w4 (up_store (path_stack w4 ! Suc l) w4)"
    and path: "root \<noteq> p \<Longrightarrow> Suc l < length ts \<Longrightarrow> path_stack w4 ! Suc l \<in> set (ts ! Suc l)"
  shows "stored env ts1 root r w4
    (rbind (if root = p then update_new_root env p (low (mem w4) b) b (Suc l) root w4
            else Inr (False, w4)) (\<lambda>(done, w5).
       if done then Inr w5
       else rbind (get_path (Suc l) w5) (\<lambda>up_level.
         if up_level \<noteq> gaddr_null then up_store up_level w5
         else no_path w5)))"
proof (cases "root = p")
  case True
  have ne: "ts \<noteq> []" using l by auto
  have "root \<in> set (ts ! (length ts - 1))" using ro ne by (simp add: rooted_def last_conv_nth)
  then have ll: "l = length ts - 1"
    using blink_level_unique [OF bl l, of p "length ts - 1"] tsl True ne by simp
  then have "ts ! l = [root]" using ro ne by (simp add: rooted_def last_conv_nth)
  with tsl True have "xs = []" "ys = []" by (cases xs; simp)+
  then have top: "last ts1 = [root, b]" using ll ne True by (simp add: ts1 last_list_update)
  have len1: "length ts1 = Suc l" using ll ne by (simp add: ts1)
  have room1: "alloc_room env (Suc 0) w4" by (rule alloc_room_mono [OF room]) (use l in simp)
  have cell4: "cells w4 (get_root_ptr_ptr env) = addr_val root" using ro cells by (simp add: rooted_def)
  have len1k: "length ts1 < kMaxLevelOfTree" using len by (simp add: ts1)
  obtain w' nr where
    un: "update_new_root env root (low (mem w4) b) b (length ts1) root w4 = Inr (True, w')"
    and w': "winv env (ts1 @ [[nr]]) w'" "rooted env (ts1 @ [[nr]]) nr w'" "frame w4 w'"
      "locks_free r w'"
      "network w' = network w4 @ root_msgs env nr (length ts1) (length (nodes w4))"
    and mem: "\<forall>c. mem w4 c \<noteq> None \<longrightarrow> mem w' c = mem w4 c"
    by (rule new_root_step [OF wi top len1k cell4 sk room1 locks])
  have "stored env ts1 root r w4 (Inr w')"
    unfolding stored_def grown_def using w' mem leaves len1
    by (intro exI [of _ w'] exI [of _ "ts1 @ [[nr]]"] exI [of _ nr]) (simp add: nth_append)
  with un True len1 show ?thesis by simp
next
  case False
  have ne: "ts \<noteq> []" using l by auto
  have "l \<noteq> length ts - 1"
  proof
    assume "l = length ts - 1"
    then have "ts ! l = [root]" using ro ne by (simp add: rooted_def last_conv_nth)
    with tsl False show False by (cases xs) auto
  qed
  with l have l': "Suc l < length ts" by simp
  have "path_stack w4 ! Suc l \<noteq> gaddr_null"
    using path [OF False l'] blink_not_null [OF bl l'] by auto
  moreover have "Suc l < kMaxLevelOfTree" using l' len by simp
  ultimately show ?thesis using up [OF False l'] False by (simp add: get_path_def)
qed

text \<open>What a call needs.\<close>

definition store_pre :: "tree_env \<Rightarrow> GlobalAddress \<Rightarrow> nat \<Rightarrow> nat \<Rightarrow> GlobalAddress list list \<Rightarrow> World
    \<Rightarrow> nat \<Rightarrow> GlobalAddress list \<Rightarrow> GlobalAddress \<Rightarrow> GlobalAddress list \<Rightarrow> key \<Rightarrow> GlobalAddress \<Rightarrow> bool"
  where
  "store_pre env root r n ts w i xs p ys k v \<longleftrightarrow>
     winv env ts w \<and> rooted env ts root w \<and> length ts < kMaxLevelOfTree
     \<and> Suc i < length ts \<and> ts ! Suc i = xs @ p # ys
     \<and> low (mem w) p \<le> k \<and> k < kKeyMax \<and> v \<in> set (ts ! i) \<and> low (mem w) v = k
     \<and> path_ok (mem w) ts (path_stack w) (Suc (Suc i)) (low (mem w) p)
     \<and> calls ts (Suc i) ys \<le> n \<and> locks_free (calls ts (Suc i) ys + r) w
     \<and> alloc_room env (length ts - i) w"

lemma store_preD:
  assumes "store_pre env root r n ts w i xs p ys k v"
  shows "winv env ts w" "rooted env ts root w" "length ts < kMaxLevelOfTree" "Suc i < length ts"
    "ts ! Suc i = xs @ p # ys" "low (mem w) p \<le> k" "k < kKeyMax" "v \<in> set (ts ! i)"
    "low (mem w) v = k" "path_ok (mem w) ts (path_stack w) (Suc (Suc i)) (low (mem w) p)"
    "calls ts (Suc i) ys \<le> n" "locks_free (calls ts (Suc i) ys + r) w"
    "alloc_room env (length ts - i) w"
  using assms by (simp_all add: store_pre_def)

text \<open>Locking and reading the page, as the beginning of each of the three cases.\<close>

lemma store_begin:
  assumes pre: "store_pre env root r n ts w i xs p ys k v"
  obtains page c lk ch where "mem w p = Some (InternalP page)" "page_ok (Suc i) (InternalP page)"
    "kids_ok (mem w) (ts ! i) page" "low (mem w) p = lowest (ip_hdr page)"
    "Suc c = calls ts (Suc i) ys"
    "lock_and_read_page p (lock_addr_of env p) (thread_tag env) w
       = Inr (InternalP page, w\<lparr>local_locks := lk, chip := ch\<rparr>)"
    "lock_held (c + r) (lock_addr_of env p) (w\<lparr>local_locks := lk, chip := ch\<rparr>)"
proof -
  note d = store_preD [OF pre]
  obtain page where pg: "mem w p = Some (InternalP page)" "page_ok (Suc i) (InternalP page)"
    "kids_ok (mem w) (ts ! i) page" "low (mem w) p = lowest (ip_hdr page)"
    by (rule winv_page [OF d(1,4,5)])
  obtain c where c: "Suc c = calls ts (Suc i) ys" using calls_pos [of ts "Suc i" ys] by (metis Suc_pred)
  have "locks_free (Suc (c + r)) w" using d(12) by (simp flip: c)
  from lock_and_read_page_ok [OF this pg(1)] that [OF pg c] show thesis by blast
qed

lemma store_right:
  assumes pre: "store_pre env root r (Suc n) ts w i xs p ys k v"
    and pg: "mem w p = Some (InternalP page)" "page_ok (Suc i) (InternalP page)"
    and lowp: "low (mem w) p = lowest (ip_hdr page)" and c: "Suc c = calls ts (Suc i) ys"
    and lr: "lock_and_read_page p (lock_addr_of env p) (thread_tag env) w
       = Inr (InternalP page, w\<lparr>local_locks := lk, chip := ch\<rparr>)"
    and held: "lock_held (c + r) (lock_addr_of env p) (w\<lparr>local_locks := lk, chip := ch\<rparr>)"
    and k: "highest (ip_hdr page) \<le> k"
    and IH: "\<And>ts w i xs p ys k v. store_pre env root r n ts w i xs p ys k v \<Longrightarrow>
       stored env ts root r w (internal_page_store env n p k v root (Suc i) w)"
  shows "stored env ts root r w (internal_page_store env (Suc n) p k v root (Suc i) w)"
proof -
  note d = store_preD [OF pre]
  have bl: "blink (mem w) ts" using d(1) by (simp add: winv_def)
  note sg = winv_seg [OF d(1,4,5)]
  have hk: "highest (page_hdr (InternalP page)) \<le> k" using k by simp
  obtain b ys' pg' where b: "ys = b # ys'" "sibling_ptr (page_hdr (InternalP page)) = b"
    "mem w b = Some pg'" "lowest (page_hdr pg') = highest (page_hdr (InternalP page))"
    by (rule seg_step [OF sg pg(1) hk d(7)])
  have lowb: "low (mem w) b = highest (ip_hdr page)" using b by (simp add: low_def hdr_at_def)
  have tsb: "ts ! Suc i = (xs @ [p]) @ b # ys'" using d(5) b by simp
  have bn: "b \<noteq> gaddr_null" using blink_not_null [OF bl d(4)] tsb by auto
  obtain lk2 ch2 where un: "unlock_addr (lock_addr_of env p) (w\<lparr>local_locks := lk, chip := ch\<rparr>)
      = w\<lparr>local_locks := lk, chip := ch\<rparr>\<lparr>local_locks := lk2, chip := ch2\<rparr>"
    and fr2: "locks_free (c + r) (w\<lparr>local_locks := lk, chip := ch\<rparr>\<lparr>local_locks := lk2, chip := ch2\<rparr>)"
    by (rule unlock_addr_ok [OF held])
  let ?w2 = "w\<lparr>local_locks := lk2, chip := ch2\<rparr>"
  have cb: "calls ts (Suc i) ys' = c" using c b by (simp add: calls_Cons)
  have pb: "path_ok (mem w) ts (path_stack w) (Suc (Suc i)) (low (mem w) b)"
    using path_ok_weaken [OF d(10)] page_ok_range [OF pg(2)] lowp lowb by simp
  have "store_pre env root r n ts ?w2 i (xs @ [p]) b ys' k v"
    unfolding store_pre_def using d fr2 tsb lowb k pb cb c by simp
  from IH [OF this] have "stored env ts root r w (internal_page_store env n b k v root (Suc i) ?w2)"
    by (rule stored_via) simp_all
  then show ?thesis using internal_store_lock(1) [OF d(1,4,5) pg lr k] un b(2) bn by simp
qed

lemma store_put:
  assumes pre: "store_pre env root r (Suc n) ts w i xs p ys k v"
    and pg: "mem w p = Some (InternalP page)" "page_ok (Suc i) (InternalP page)"
    and lr: "lock_and_read_page p (lock_addr_of env p) (thread_tag env) w
       = Inr (InternalP page, w\<lparr>local_locks := lk, chip := ch\<rparr>)"
    and held: "lock_held (c + r) (lock_addr_of env p) (w\<lparr>local_locks := lk, chip := ch\<rparr>)"
    and k: "lowest (ip_hdr page) \<le> k" "k < highest (ip_hdr page)"
    and put: "internal_put page k v = Inr p1"
      "last_index (ip_hdr p1) + 1 \<noteq> int kInternalCardinality"
      "page_ok (Suc i) (InternalP (internal_set_consistent p1))"
      "lowest (ip_hdr p1) = lowest (ip_hdr page)" "highest (ip_hdr p1) = highest (ip_hdr page)"
      "sibling_ptr (ip_hdr p1) = sibling_ptr (ip_hdr page)"
      "kids_ok (mem w) (ts ! i) (internal_set_consistent p1)"
  shows "stored env ts root r w (internal_page_store env (Suc n) p k v root (Suc i) w)"
proof -
  note d = store_preD [OF pre]
  let ?w1 = "w\<lparr>local_locks := lk, chip := ch\<rparr>" and ?P = "InternalP (internal_set_consistent p1)"
  obtain lk2 ch2 where
    wr: "write_page_and_unlock p (WholePage ?P) (lock_addr_of env p) ?w1
      = Inr (?w1\<lparr>mem := (mem ?w1)(p \<mapsto> ?P), local_locks := lk2, chip := ch2\<rparr>)"
    and fr: "locks_free (c + r) (?w1\<lparr>mem := (mem ?w1)(p \<mapsto> ?P), local_locks := lk2, chip := ch2\<rparr>)"
    by (rule write_whole_and_unlock_ok [OF held])
  define w' where "w' = w\<lparr>mem := (mem w)(p \<mapsto> ?P), local_locks := lk2, chip := ch2\<rparr>"
  have p: "p \<in> set (ts ! Suc i)" by (simp add: d(5))
  have same: "lowest (page_hdr ?P) = lowest (page_hdr (InternalP page))"
    "highest (page_hdr ?P) = highest (page_hdr (InternalP page))"
    "sibling_ptr (page_hdr ?P) = sibling_ptr (page_hdr (InternalP page))"
    using put by simp_all
  have kid: "?P = InternalP q \<Longrightarrow> Suc i = Suc j \<Longrightarrow> kids_ok (mem w) (ts ! j) q" for q j
    using put(7) by auto
  note st = rewrite_step [OF d(1,4) p pg(1) put(3) same kid w'_def]
  have "locks_free r w'" using locks_free_mono [OF fr] by (simp add: w'_def)
  moreover have "rooted env ts root w'" using d(2) st(3) by (simp add: rooted_def)
  moreover have "\<forall>a \<in> set (ts ! 0). mem w' a = mem w a" using st(5) [of 0] d(4) by fastforce
  ultimately have "stored env ts root r w (Inr w')"
    unfolding stored_def grown_def using st(1,2,4)
    by (intro exI [of _ w'] exI [of _ ts] exI [of _ root]) simp
  then show ?thesis using internal_store_lock(2) [OF d(1,4,5) pg lr k put(1,2)] wr
    by (simp add: w'_def)
qed

lemma store_split:
  assumes pre: "store_pre env root r (Suc n) ts w i xs p ys k v"
    and pg: "mem w p = Some (InternalP page)" "page_ok (Suc i) (InternalP page)"
    and lowp: "low (mem w) p = lowest (ip_hdr page)" and c: "Suc c = calls ts (Suc i) ys"
    and lr: "lock_and_read_page p (lock_addr_of env p) (thread_tag env) w
       = Inr (InternalP page, w\<lparr>local_locks := lk, chip := ch\<rparr>)"
    and held: "lock_held (c + r) (lock_addr_of env p) (w\<lparr>local_locks := lk, chip := ch\<rparr>)"
    and k: "lowest (ip_hdr page) \<le> k" "k < highest (ip_hdr page)"
    and put: "internal_put page k v = Inr p1"
      "last_index (ip_hdr p1) + 1 = int kInternalCardinality"
    and split: "\<And>sib. \<exists>p' s sk. internal_split p1 kInternalCardinality sib = Inr (p', s, sk)
         \<and> lowest (ip_hdr page) < sk \<and> sk < highest (ip_hdr page)
         \<and> page_ok (Suc i) (InternalP (internal_set_consistent p')) \<and> page_ok (Suc i) (InternalP s)
         \<and> lowest (ip_hdr p') = lowest (ip_hdr page) \<and> highest (ip_hdr p') = sk
         \<and> sibling_ptr (ip_hdr p') = sib
         \<and> lowest (ip_hdr s) = sk \<and> highest (ip_hdr s) = highest (ip_hdr page)
         \<and> sibling_ptr (ip_hdr s) = sibling_ptr (ip_hdr page)
         \<and> kids_ok (mem w) (ts ! i) (internal_set_consistent p') \<and> kids_ok (mem w) (ts ! i) s"
    and IH: "\<And>ts w i xs p ys k v. store_pre env root r n ts w i xs p ys k v \<Longrightarrow>
       stored env ts root r w (internal_page_store env n p k v root (Suc i) w)"
  shows "stored env ts root r w (internal_page_store env (Suc n) p k v root (Suc i) w)"
proof -
  note d = store_preD [OF pre]
  have bl: "blink (mem w) ts" using d(1) by (simp add: winv_def)
  let ?w1 = "w\<lparr>local_locks := lk, chip := ch\<rparr>"
  have room: "alloc_room env (Suc (length ts - Suc i)) ?w1" using d(4,13) by (simp add: Suc_diff_Suc)
  have wi1: "winv env ts ?w1" and pg1: "mem ?w1 p = Some (InternalP page)" using d(1) pg by simp_all
  have split1: "\<exists>p' s sk. internal_split p1 kInternalCardinality sib = Inr (p', s, sk)
         \<and> lowest (ip_hdr page) < sk \<and> sk < highest (ip_hdr page)
         \<and> page_ok (Suc i) (InternalP (internal_set_consistent p')) \<and> page_ok (Suc i) (InternalP s)
         \<and> lowest (ip_hdr p') = lowest (ip_hdr page) \<and> highest (ip_hdr p') = sk
         \<and> sibling_ptr (ip_hdr p') = sib
         \<and> lowest (ip_hdr s) = sk \<and> highest (ip_hdr s) = highest (ip_hdr page)
         \<and> sibling_ptr (ip_hdr s) = sibling_ptr (ip_hdr page)
         \<and> kids_ok (mem ?w1) (ts ! i) (internal_set_consistent p') \<and> kids_ok (mem ?w1) (ts ! i) s" for sib
    using split by simp
  obtain b w2 page2 sib w4 where
    al: "tree_alloc env kLeafPageSize ?w1 = Inr (b, w2)"
    and sp: "internal_split p1 kInternalCardinality b = Inr (page2, sib, low (mem w4) b)"
    and wr: "write_page_and_unlock p (WholePage (InternalP (internal_set_consistent page2)))
       (lock_addr_of env p) (write_page b (InternalP sib) w2) = Inr w4"
    and w4: "winv env (ts[Suc i := xs @ p # b # ys]) w4" "frame ?w1 w4" "cells w4 = cells ?w1"
      "network w4 = network ?w1" "locks_free (c + r) w4" "alloc_room env (length ts - Suc i) w4"
    and sk: "low (mem ?w1) p < low (mem w4) b" "low (mem w4) b < kKeyMax"
    and low4: "\<forall>a. mem ?w1 a \<noteq> None \<longrightarrow> low (mem w4) a = low (mem ?w1) a"
    and other: "\<forall>l' < length ts. l' \<noteq> Suc i \<longrightarrow> (\<forall>a \<in> set (ts ! l'). mem w4 a = mem ?w1 a)"
    by (rule internal_store_split [OF wi1 d(4,5) pg1 pg(2) held room split1])
  let ?ts = "ts[Suc i := xs @ p # b # ys]" and ?q = "path_stack w4 ! Suc (Suc i)"
  have fr: "frame w w4" using w4(2) by (simp add: frame_def node_roots_def)
  have path: "path_stack w4 = path_stack w" using fr by (simp add: frame_def)
  note in_mem = blink_in_mem [OF bl]
  have pm: "low (mem w4) a = low (mem w) a" if "j < length ts" "a \<in> set (ts ! j)" for a j
    using low4 in_mem [OF that] by auto
  have lock_r: "locks_free r w4" by (rule locks_free_mono [OF w4(5)]) simp
  have skm: "kKeyMin < low (mem w4) b" using sk(1) kKeyMin_le le_less_trans by blast
  have pos: "0 < length ts" using d(4) by linarith
  then have o0: "mem w4 a = mem w a" if "a \<in> set (ts ! 0)" for a
    using other [rule_format, OF pos, of a] that by simp
  have leaves: "\<forall>a \<in> set (?ts ! 0). mem w4 a \<noteq> None" using o0 in_mem [OF pos] by simp
  have cellsw: "cells w4 = cells w" and netw: "network w4 = network w" using w4 by simp_all
  have up: "stored env ?ts root r w4
      (internal_page_store env n ?q (low (mem w4) b) b root (Suc (Suc i)) w4)"
    if np: "root \<noteq> p" and l': "Suc (Suc i) < length ts"
  proof -
    have q: "?q \<in> set (ts ! Suc (Suc i))" "low (mem w) ?q \<le> low (mem w) p"
      using d(10) l' by (auto simp: path_ok_def path)
    then obtain xs' ys' where q': "ts ! Suc (Suc i) = xs' @ ?q # ys'" by (meson split_list)
    have cq: "calls ?ts (Suc (Suc i)) ys' \<le> c"
      using calls_up [OF l' q', of ys] d(4) c by (simp add: calls_update)
    have pq: "path_ok (mem w4) ?ts (path_stack w4) (Suc (Suc (Suc i))) (low (mem w4) ?q)"
      using path_ok_cong [OF _ _ pm path_ok_Suc [OF d(10)], of ?ts] pm [OF l' q(1)] path by simp
    have "last ?ts = last ts" using l' pos by (subst last_list_update) auto
    then have ro4: "rooted env ?ts root w4" using d(2) cellsw by (simp add: rooted_def)
    have "store_pre env root r n ?ts w4 (Suc i) xs' ?q ys' (low (mem w4) b) b"
      unfolding store_pre_def using w4 d q q' cq pq sk pm [OF l' q(1)] l' c
        locks_free_mono [OF w4(5), of "calls ?ts (Suc (Suc i)) ys' + r"]
        ro4 by auto
    from IH [OF this] show ?thesis .
  qed
  have pathq: "?q \<in> set (ts ! Suc (Suc i))" if "root \<noteq> p" "Suc (Suc i) < length ts"
    using d(10) that by (auto simp: path_ok_def path)
  have "stored env ?ts root r w4 (internal_page_store env (Suc n) p k v root (Suc i) w)"
    unfolding internal_store_lock(3) [OF d(1,4,5) pg lr k put al sp wr]
    by (rule internal_store_up [where up_store = "\<lambda>u w. internal_page_store env n u
          (low (mem w4) b) b root (Suc (Suc i)) w"
          and no_path = "\<lambda>_. Inl (AssertFail ''up_level'')" and w = w and b = b and ?ts1.0 = ?ts
          and ?w4.0 = w4, OF w4(1) d(2,3,4,5) refl cellsw netw fr lock_r w4(6) bl skm sk(2)
        leaves up pathq])
  then show ?thesis
    by (rule stored_via) (use fr w4 o0 heads_split [OF d(5)] in auto)
qed

text \<open>The store of a separator succeeds.\<close>

lemma internal_page_store_stored:
  "store_pre env root r n ts w i xs p ys k v \<Longrightarrow>
   stored env ts root r w (internal_page_store env n p k v root (Suc i) w)"
proof (induction n arbitrary: ts w i xs p ys k v)
  case 0
  then show ?case by (simp add: store_pre_def calls_def)
next
  case (Suc n)
  note pre = Suc.prems and d = store_preD [OF Suc.prems]
  obtain page c lk ch where pg: "mem w p = Some (InternalP page)" "page_ok (Suc i) (InternalP page)"
    and kd: "kids_ok (mem w) (ts ! i) page" and lowp: "low (mem w) p = lowest (ip_hdr page)"
    and c: "Suc c = calls ts (Suc i) ys"
    and lr: "lock_and_read_page p (lock_addr_of env p) (thread_tag env) w
       = Inr (InternalP page, w\<lparr>local_locks := lk, chip := ch\<rparr>)"
    and held: "lock_held (c + r) (lock_addr_of env p) (w\<lparr>local_locks := lk, chip := ch\<rparr>)"
    by (rule store_begin [OF pre])
  have bl: "blink (mem w) ts" using d(1) by (simp add: winv_def)
  have nn: "gaddr_null \<notin> set (ts ! i)" using blink_not_null [OF bl] d(4) by simp
  show ?case
  proof (cases "highest (ip_hdr page) \<le> k")
    case True
    from store_right [OF pre pg lowp c lr held True Suc.IH] show ?thesis .
  next
    case False
    then have k: "lowest (ip_hdr page) \<le> k" "k < highest (ip_hdr page)" using d(6) lowp by simp_all
    show ?thesis using pg(2) kd k d(8,9) nn
    proof (cases rule: internal_store_page)
      case (put p1)
      from store_put [OF pre pg lr held k put] show ?thesis .
    next
      case (split p1)
      from store_split [OF pre pg lowp c lr held k split Suc.IH] show ?thesis .
    qed
  qed
qed

end
