(* ===== verification/TreeWalk.thy ===== *)
theory TreeWalk
  imports InternalStore
begin

text \<open>
  \<^verbatim>\<open>page_search\<close> in a well-formed tree never fails, and says which way to go; the loops
  that call it (from the root to a leaf, to the level of a separator, and the search itself)
  reach their goal in at most as many steps as there are pages in front of them.
\<close>

section \<open>What a walk needs\<close>

definition page_cached :: "GlobalAddress list \<Rightarrow> InternalPage \<Rightarrow> bool" where
  "page_cached leaves p \<longleftrightarrow> routable p \<and> snd ` set (kids p) \<subseteq> set leaves"

definition cache_ok :: "GlobalAddress list list \<Rightarrow> World \<Rightarrow> bool" where
  "cache_ok ts w \<longleftrightarrow> cache_inv (page_cached (ts ! 0)) (index_cache w)"

text \<open>Room in the cache for \<open>c\<close> more pages, if it is in use.\<close>

definition cache_room :: "tree_env \<Rightarrow> nat \<Rightarrow> World \<Rightarrow> bool" where
  "cache_room env c w \<longleftrightarrow> (my_enable_cache env w \<longrightarrow> int c \<le> free_page_cnt (index_cache w))"

text \<open>The pages in front of a walk: to the right on its level, and all levels below.\<close>

definition steps :: "GlobalAddress list list \<Rightarrow> nat \<Rightarrow> GlobalAddress list \<Rightarrow> nat" where
  "steps ts l ys = Suc (length ys) + sum_list (map length (take l ts))"

definition walk_pre :: "tree_env \<Rightarrow> nat \<Rightarrow> GlobalAddress list list \<Rightarrow> World \<Rightarrow> nat
    \<Rightarrow> GlobalAddress list \<Rightarrow> GlobalAddress \<Rightarrow> GlobalAddress list \<Rightarrow> key \<Rightarrow> bool" where
  "walk_pre env c ts w l xs p ys k \<longleftrightarrow> winv env ts w \<and> l < length ts \<and> ts ! l = xs @ p # ys
     \<and> low (mem w) p \<le> k \<and> k < kKeyMax \<and> cache_ok ts w \<and> cache_room env (steps ts l ys + c) w
     \<and> path_ok (mem w) ts (path_stack w) (Suc l) (low (mem w) p)"

lemma walk_preD:
  assumes "walk_pre env c ts w l xs p ys k"
  shows "winv env ts w" "l < length ts" "ts ! l = xs @ p # ys" "low (mem w) p \<le> k" "k < kKeyMax"
    "cache_ok ts w" "cache_room env (steps ts l ys + c) w"
    "path_ok (mem w) ts (path_stack w) (Suc l) (low (mem w) p)"
  using assms by (simp_all add: walk_pre_def)

lemma steps_Cons: "steps ts l (b # ys) = Suc (steps ts l ys)"
  by (simp add: steps_def)

lemma steps_pos: "0 < steps ts l ys"
  by (simp add: steps_def)

lemma steps_down:
  assumes "Suc i < length ts" "ts ! i = xs @ q # ys'"
  shows "steps ts i ys' < steps ts (Suc i) ys"
  using assms by (simp add: steps_def take_Suc_conv_app_nth)

lemma cache_room_mono: "cache_room env c w \<Longrightarrow> c' \<le> c \<Longrightarrow> cache_room env c' w"
  by (auto simp: cache_room_def)

text \<open>The world after a page search.\<close>

definition visited :: "nat \<Rightarrow> GlobalAddress \<Rightarrow> IndexCache \<Rightarrow> World \<Rightarrow> World" where
  "visited l p ic w = w\<lparr>path_stack := (path_stack w)[l := p], index_cache := ic\<rparr>"

lemma visited_simps [simp]:
  "mem (visited l p ic w) = mem w" "cells (visited l p ic w) = cells w"
  "chip (visited l p ic w) = chip w" "nodes (visited l p ic w) = nodes w"
  "network (visited l p ic w) = network w" "local_locks (visited l p ic w) = local_locks w"
  "index_cache (visited l p ic w) = ic" "dsm_th (visited l p ic w) = dsm_th w"
  "path_stack (visited l p ic w) = (path_stack w)[l := p]"
  "cache_hit (visited l p ic w) = cache_hit w" "cache_miss (visited l p ic w) = cache_miss w"
  "my_state env (visited l p ic w) = my_state env w"
  "my_enable_cache env (visited l p ic w) = my_enable_cache env w"
  "winv env ts (visited l p ic w) = winv env ts w"
  "get_root_ptr env (visited l p ic w) = get_root_ptr env w"
  by (simp_all add: visited_def my_state_def my_enable_cache_def winv_def alloc_inv_def
      get_root_ptr_def)

lemma path_ok_visit:
  "path_ok m ts path (Suc l) b \<Longrightarrow> path_ok m ts (path[l := p]) (Suc l) b"
  by (auto simp: path_ok_def)

lemma path_ok_down:
  assumes "path_ok m ts path (Suc l) (low m p)" "p \<in> set (ts ! l)" "l < length path"
    and "low m p \<le> b"
  shows "path_ok m ts (path[l := p]) l b"
  unfolding path_ok_def
proof (intro conjI allI impI)
  fix j
  assume j: "l \<le> j" "j < length ts"
  show "path[l := p] ! j \<in> set (ts ! j)"
    using assms j by (cases "j = l") (auto simp: path_ok_def)
next
  assume "l < length ts"
  show "low m (path[l := p] ! l) \<le> b" using assms by simp
next
  fix j
  assume j: "l \<le> j" "Suc j < length ts"
  show "low m (path[l := p] ! Suc j) \<le> low m (path[l := p] ! j)"
    using assms j by (cases "j = l") (auto simp: path_ok_def)
qed

section \<open>page\_search\<close>

lemma add_cached_page:
  assumes pc: "cache_inv (page_cached leaves) (index_cache w)" and page: "page_cached leaves page"
    and room: "cache_room env (Suc c) w"
  obtains ic where "cache_page env lv page w = Inr (w\<lparr>index_cache := ic\<rparr>)"
    "cache_inv (page_cached leaves) ic" "my_enable_cache env w \<longrightarrow> int c \<le> free_page_cnt ic"
proof (cases "lv = 1 \<and> my_enable_cache env w")
  case False
  have "cache_page env lv page w = Inr (w\<lparr>index_cache := index_cache w\<rparr>)"
    using False by (auto simp: cache_page_def)
  moreover have "my_enable_cache env w \<longrightarrow> int c \<le> free_page_cnt (index_cache w)"
    using room by (auto simp: cache_room_def)
  ultimately show thesis using that pc by blast
next
  case True
  have "page_cached leaves (page\<lparr>ip_union := 0\<rparr>)"
    using page by (simp add: page_cached_def routable_def kids_def entries_def internal_wf_def)
  moreover have "0 < free_page_cnt (index_cache w)" using room True by (simp add: cache_room_def)
  ultimately obtain b ic where "add_to_cache (cenv env) page (index_cache w) = Inr (b, ic)"
    "cache_inv (page_cached leaves) ic" "free_page_cnt (index_cache w) - 1 \<le> free_page_cnt ic"
    using add_to_cache_spec [OF pc] by metis
  with True room that show thesis by (simp add: cache_page_def cache_room_def)
qed

lemma page_search_leaf_ok:
  assumes pg: "mem w p = Some (LeafP page)" "page_ok 0 (LeafP page)"
    and k: "lowest (lp_hdr page) \<le> k"
  obtains res where "page_search env p k False w = Inr ((True, res), visited 0 p (index_cache w) w)"
    "sr_is_leaf res" "sr_level res = 0"
    "highest (lp_hdr page) \<le> k \<longrightarrow> sr_slibing res = sibling_ptr (lp_hdr page) \<and> sr_val res = kValueNull"
    "k < highest (lp_hdr page) \<longrightarrow> sr_slibing res = gaddr_null \<and>
       sr_val res = (case leaf_lookup (lp_records page) k of None \<Rightarrow> kValueNull | Some v \<Rightarrow> v)"
proof -
  have h: "leftmost_ptr (lp_hdr page) = gaddr_null" "level (lp_hdr page) = 0"
    "leaf_check_consistent page" using pg(2) by simp_all
  let ?r0 = "\<lparr>sr_is_leaf = True, sr_level = 0, sr_slibing = gaddr_null, sr_next_level = gaddr_null, sr_val = 0\<rparr>"
  have eq: "page_search env p k False w =
    rbind (page_search_leaf page k False ?r0) (\<lambda>r. Inr (r, visited 0 p (index_cache w) w))"
    using h pg(1) by (simp add: page_search_def read_page_def set_path_def kMaxLevelOfTree_def
        visited_def Let_def)
  show thesis
  proof (cases "highest (lp_hdr page) \<le> k")
    case True
    then have "page_search_leaf page k False ?r0 = Inr (True, ?r0\<lparr>sr_slibing := sibling_ptr (lp_hdr page)\<rparr>)"
      using h by (simp add: page_search_leaf_def)
    with eq True show thesis by (intro that) (auto simp: kValueNull_def)
  next
    case False
    then have "page_search_leaf page k False ?r0 = Inr (True, ?r0\<lparr>sr_val := leaf_page_search page k\<rparr>)"
      using h k by (simp add: page_search_leaf_def)
    with eq False show thesis by (intro that) (auto simp: leaf_page_search_eq)
  qed
qed

lemma page_search_internal_ok:
  assumes l: "Suc i < kMaxLevelOfTree" and pg: "mem w p = Some (InternalP page)"
    "page_ok (Suc i) (InternalP page)" and kd: "kids_ok (mem w) below page"
    and k: "lowest (ip_hdr page) \<le> k"
    and pc: "cache_inv (page_cached leaves) (index_cache w)"
    and page: "i = 0 \<longrightarrow> page_cached leaves page" and room: "cache_room env (Suc c) w"
  obtains res ic where "page_search env p k False w = Inr ((True, res), visited (Suc i) p ic w)"
    "cache_inv (page_cached leaves) ic" "my_enable_cache env w \<longrightarrow> int c \<le> free_page_cnt ic"
    "\<not> sr_is_leaf res" "unat (sr_level res) = Suc i"
    "highest (ip_hdr page) \<le> k \<longrightarrow> sr_slibing res = sibling_ptr (ip_hdr page)"
    "k < highest (ip_hdr page) \<longrightarrow> sr_slibing res = gaddr_null \<and> sr_next_level res = route_ref page k"
proof -
  have h: "leftmost_ptr (ip_hdr page) \<noteq> gaddr_null" "unat (level (ip_hdr page)) = Suc i"
    "internal_check_consistent page" using pg(2) by simp_all
  then have lv: "level (ip_hdr page) \<noteq> 0" by (metis nat.distinct(1) unat_0)
  let ?w1 = "w\<lparr>path_stack := (path_stack w)[Suc i := p]\<rparr>"
  let ?r0 = "\<lparr>sr_is_leaf = False, sr_level = level (ip_hdr page), sr_slibing = gaddr_null,
    sr_next_level = gaddr_null, sr_val = 0\<rparr>"
  have "\<exists>ic. cache_page env (level (ip_hdr page)) page ?w1 = Inr (?w1\<lparr>index_cache := ic\<rparr>)
    \<and> cache_inv (page_cached leaves) ic \<and> (my_enable_cache env w \<longrightarrow> int c \<le> free_page_cnt ic)"
  proof (cases "i = 0")
    case True
    have "cache_room env (Suc c) ?w1" "cache_inv (page_cached leaves) (index_cache ?w1)"
      using room pc by (simp_all add: cache_room_def my_enable_cache_def my_state_def)
    from add_cached_page [OF this(2) _ this(1), of page "level (ip_hdr page)"] page True
    show ?thesis by (auto simp: my_enable_cache_def my_state_def)
  next
    case False
    then have "level (ip_hdr page) \<noteq> 1" using h(2) by auto
    then have "cache_page env (level (ip_hdr page)) page ?w1 = Inr (?w1\<lparr>index_cache := index_cache w\<rparr>)"
      by (simp add: cache_page_def)
    with pc room show ?thesis
      by (intro exI [of _ "index_cache w"]) (auto simp: cache_room_def)
  qed
  then obtain ic where cp: "cache_page env (level (ip_hdr page)) page ?w1 = Inr (?w1\<lparr>index_cache := ic\<rparr>)"
    and ic: "cache_inv (page_cached leaves) ic" "my_enable_cache env w \<longrightarrow> int c \<le> free_page_cnt ic"
    by blast
  have eq: "page_search env p k False w = page_search_internal env page k False ?r0 ?w1"
    using h l pg(1) by (simp add: page_search_def read_page_def set_path_def Let_def)
  show thesis
  proof (cases "highest (ip_hdr page) \<le> k")
    case True
    then have "page_search_internal env page k False ?r0 ?w1 =
      Inr ((True, ?r0\<lparr>sr_slibing := sibling_ptr (ip_hdr page)\<rparr>), visited (Suc i) p ic w)"
      using h lv cp by (simp add: page_search_internal_def visited_def)
    with eq True ic h show thesis by (intro that) auto
  next
    case False
    then have "internal_page_search page k = Inr (route_ref page k)"
      using routed_kid(1) [OF pg(2) kd k] by simp
    then have "page_search_internal env page k False ?r0 ?w1 =
      Inr ((True, ?r0\<lparr>sr_next_level := route_ref page k\<rparr>), visited (Suc i) p ic w)"
      using h lv cp k False by (simp add: page_search_internal_def visited_def)
    with eq False ic h show thesis by (intro that) auto
  qed
qed

section \<open>One step of a walk\<close>

lemma page_in_cache:
  assumes "page_ok (Suc 0) (InternalP page)" "kids_ok m leaves page"
  shows "page_cached leaves page"
  using assms by (auto simp: page_cached_def routable_def internal_ok_def kids_ok_def)

text \<open>
  A walk at a page that starts at most at the key: the key lies further right, or below, or
  the page is the leaf of the key.
\<close>

lemma walk_step:
  assumes pre: "walk_pre env c ts w l xs p ys k"
  obtains (right) res ic b ys' where "page_search env p k False w = Inr ((True, res), visited l p ic w)"
      "sr_is_leaf res \<longleftrightarrow> l = 0" "unat (sr_level res) = l" "sr_slibing res = b" "b \<noteq> gaddr_null"
      "sr_val res = kValueNull \<or> 0 < l" "ys = b # ys'"
      "walk_pre env c ts (visited l p ic w) l (xs @ [p]) b ys' k"
  | (down) res ic i q xs' ys' where "page_search env p k False w = Inr ((True, res), visited l p ic w)"
      "\<not> sr_is_leaf res" "unat (sr_level res) = l" "sr_slibing res = gaddr_null" "l = Suc i"
      "sr_next_level res = q" "ts ! i = xs' @ q # ys'"
      "walk_pre env c ts (visited l p ic w) i xs' q ys' k"
  | (leaf) res where "page_search env p k False w = Inr ((True, res), visited 0 p (index_cache w) w)"
      "sr_is_leaf res" "l = 0" "sr_slibing res = gaddr_null"
      "sr_val res = (case chain_map (mem w) (ts ! 0) k of None \<Rightarrow> kValueNull | Some v \<Rightarrow> v)"
proof -
  note d = walk_preD [OF pre]
  have bl: "blink (mem w) ts" and len: "length ts \<le> kMaxLevelOfTree"
    and plen: "length (path_stack w) = kMaxLevelOfTree" using d(1) by (simp_all add: winv_def)
  have p: "p \<in> set (ts ! l)" using d(3) by simp
  obtain pg where pg: "mem w p = Some pg" "page_ok l pg" by (rule blink_page [OF bl d(2) p])
  have lowp: "low (mem w) p = lowest (page_hdr pg)" using pg(1) by (simp add: low_def hdr_at_def)
  note sg = winv_seg [OF d(1-3)]
  define c' where "c' = steps ts l ys + c - 1"
  have room: "cache_room env (Suc c') w" using d(7) steps_pos [of ts l ys] by (simp add: c'_def)
  have ci: "cache_inv (page_cached (ts ! 0)) (index_cache w)" using d(6) by (simp add: cache_ok_def)
  text \<open>What every outcome shares: the search, and how the step to the right is justified.\<close>
  have to_right: "\<exists>b ys'. ys = b # ys' \<and> b = sibling_ptr (page_hdr pg) \<and> b \<noteq> gaddr_null
      \<and> walk_pre env c ts (visited l p ic w) l (xs @ [p]) b ys' k"
    if k: "highest (page_hdr pg) \<le> k" and ic: "cache_inv (page_cached (ts ! 0)) ic"
      "my_enable_cache env w \<longrightarrow> int c' \<le> free_page_cnt ic" for ic
  proof -
    obtain b ys' pg' where b: "ys = b # ys'" "sibling_ptr (page_hdr pg) = b" "mem w b = Some pg'"
      "lowest (page_hdr pg') = highest (page_hdr pg)"
      by (rule seg_step [OF sg pg(1) k d(5)])
    have lowb: "low (mem w) b = highest (page_hdr pg)" using b by (simp add: low_def hdr_at_def)
    have "b \<in> set (ts ! l)" using d(3) b by simp
    then have bn: "b \<noteq> gaddr_null" using blink_not_null [OF bl d(2)] by blast
    have "path_ok (mem w) ts ((path_stack w)[l := p]) (Suc l) (low (mem w) b)"
      using path_ok_visit [OF path_ok_weaken [OF d(8)]] page_ok_range [OF pg(2)] lowp lowb by simp
    then have "walk_pre env c ts (visited l p ic w) l (xs @ [p]) b ys' k"
      using d b lowb k ic by (simp add: walk_pre_def cache_ok_def cache_room_def c'_def steps_Cons)
    with b bn show ?thesis by auto
  qed
  show thesis
  proof (cases l)
    case 0
    then obtain page where page: "pg = LeafP page" using pg(2) by (cases pg) auto
    have kl: "lowest (lp_hdr page) \<le> k" using d(4) lowp page by simp
    obtain res where ps: "page_search env p k False w = Inr ((True, res), visited 0 p (index_cache w) w)"
      and res: "sr_is_leaf res" "sr_level res = 0"
      and R: "highest (lp_hdr page) \<le> k \<longrightarrow>
        sr_slibing res = sibling_ptr (lp_hdr page) \<and> sr_val res = kValueNull"
      and H: "k < highest (lp_hdr page) \<longrightarrow> sr_slibing res = gaddr_null \<and>
       sr_val res = (case leaf_lookup (lp_records page) k of None \<Rightarrow> kValueNull | Some v \<Rightarrow> v)"
      using page_search_leaf_ok [of w p page k env] pg page 0 kl by metis
    show thesis
    proof (cases "highest (lp_hdr page) \<le> k")
      case True
      have ic: "my_enable_cache env w \<longrightarrow> int c' \<le> free_page_cnt (index_cache w)"
        using room by (auto simp: cache_room_def)
      have "highest (page_hdr pg) \<le> k" using True page by simp
      from to_right [OF this ci ic] obtain b ys' where
        "ys = b # ys'" "b = sibling_ptr (page_hdr pg)" "b \<noteq> gaddr_null"
        "walk_pre env c ts (visited l p (index_cache w) w) l (xs @ [p]) b ys' k" by blast
      with right [of res "index_cache w" b ys'] ps res R True page 0 show thesis by simp
    next
      case False
      have "chain_map (mem w) (xs @ p # ys) k = leaf_map (Some pg) k"
        by (rule chain_map_at [where m = "mem w" and pg = pg, OF sg [unfolded 0]])
          (use pg kl False page in simp_all)
      then have "chain_map (mem w) (ts ! 0) k = leaf_map (Some pg) k" using d(3) 0 by simp
      with leaf [of res] ps res H False page 0 show thesis by simp
    qed
  next
    case (Suc i)
    then obtain page where page: "pg = InternalP page" using pg(2) by (cases pg) auto
    have i: "Suc i < length ts" "i < length ts" using d(2) Suc by simp_all
    obtain page0 where "mem w p = Some (InternalP page0)" and kd0: "kids_ok (mem w) (ts ! i) page0"
      using blink_kids [OF bl i(1), of p] p Suc by auto
    then have kd: "kids_ok (mem w) (ts ! i) page" using pg page by simp
    have pg': "mem w p = Some (InternalP page)" "page_ok (Suc i) (InternalP page)"
      using pg page Suc by simp_all
    have kl: "lowest (ip_hdr page) \<le> k" using d(4) lowp page by simp
    have pc: "i = 0 \<longrightarrow> page_cached (ts ! 0) page" using page_in_cache pg'(2) kd by auto
    have i7: "Suc i < kMaxLevelOfTree" using i(1) len by simp
    obtain res ic where ps: "page_search env p k False w = Inr ((True, res), visited (Suc i) p ic w)"
      and ic: "cache_inv (page_cached (ts ! 0)) ic" "my_enable_cache env w \<longrightarrow> int c' \<le> free_page_cnt ic"
      and res: "\<not> sr_is_leaf res" "unat (sr_level res) = Suc i"
      and R: "highest (ip_hdr page) \<le> k \<longrightarrow> sr_slibing res = sibling_ptr (ip_hdr page)"
      and H: "k < highest (ip_hdr page) \<longrightarrow>
        sr_slibing res = gaddr_null \<and> sr_next_level res = route_ref page k"
      by (rule page_search_internal_ok [OF i7 pg' kd kl ci pc room])
    show thesis
    proof (cases "highest (ip_hdr page) \<le> k")
      case True
      then have "highest (page_hdr pg) \<le> k" using page by simp
      from to_right [OF this ic] obtain b ys' where
        "ys = b # ys'" "b = sibling_ptr (page_hdr pg)" "b \<noteq> gaddr_null"
        "walk_pre env c ts (visited l p ic w) l (xs @ [p]) b ys' k" by blast
      with right [of res ic b ys'] ps res R True page Suc show thesis by simp
    next
      case False
      then have kh: "k < highest (ip_hdr page)" by simp
      note rk = routed_kid [OF pg'(2) kd kl kh] routed_kid_low [OF pg'(2) kd kl kh]
      obtain xs' ys' where q: "ts ! i = xs' @ route_ref page k # ys'"
        using rk(2) by (meson split_list)
      have "path_ok (mem w) ts ((path_stack w)[l := p]) l (low (mem w) (route_ref page k))"
        by (rule path_ok_down) (use d p plen i rk lowp page Suc len in auto)
      moreover have "steps ts i ys' + c \<le> c'"
        using steps_down [OF i(1) q, of ys] Suc by (simp add: c'_def)
      ultimately have "walk_pre env c ts (visited l p ic w) i xs' (route_ref page k) ys' k"
        using d ic rk i q Suc by (auto simp: walk_pre_def cache_ok_def cache_room_def)
      with down [of res ic i "route_ref page k" xs' ys'] ps res H kh q Suc show thesis by simp
    qed
  qed
qed

end
