(* ===== verification/TreeDescend.thy ===== *)
theory TreeDescend
  imports TreeWalk
begin

text \<open>The walks, by induction on their fuel over the step of \<open>TreeWalk\<close>.\<close>

text \<open>What a walk changes.\<close>

definition walked :: "World \<Rightarrow> World \<Rightarrow> bool" where
  "walked w w' \<longleftrightarrow> (\<exists>ps ic. w' = w\<lparr>path_stack := ps, index_cache := ic\<rparr>)"

lemma walked_refl [simp]: "walked w w"
  unfolding walked_def by (intro exI [of _ "path_stack w"] exI [of _ "index_cache w"]) simp

lemma walked_visited [simp]: "walked w (visited l p ic w)"
  by (auto simp: walked_def visited_def)

lemma walked_trans:
  assumes "walked w w'" "walked w' w''"
  shows "walked w w''"
proof -
  from assms obtain ps ic ps' ic' where "w' = w\<lparr>path_stack := ps, index_cache := ic\<rparr>"
    "w'' = w'\<lparr>path_stack := ps', index_cache := ic'\<rparr>" by (auto simp: walked_def)
  then have "w'' = w\<lparr>path_stack := ps', index_cache := ic'\<rparr>" by simp
  then show ?thesis unfolding walked_def by blast
qed

lemma walked_visit_trans: "walked (visited l p ic w) w' \<Longrightarrow> walked w w'"
  by (rule walked_trans) simp_all

lemma walked_same:
  assumes "walked w w'"
  shows "mem w' = mem w" "cells w' = cells w" "chip w' = chip w" "nodes w' = nodes w"
    "network w' = network w" "local_locks w' = local_locks w" "dsm_th w' = dsm_th w"
    "cache_hit w' = cache_hit w" "cache_miss w' = cache_miss w"
    "get_root_ptr env w' = get_root_ptr env w" "my_enable_cache env w' = my_enable_cache env w"
  using assms by (auto simp: walked_def get_root_ptr_def my_state_def my_enable_cache_def)

text \<open>The loop of \<^verbatim>\<open>insert\<close> and \<^verbatim>\<open>del\<close>.\<close>

lemma descend_to_leaf_ok:
  "walk_pre env c ts w l xs p ys k \<Longrightarrow> steps ts l ys \<le> n \<Longrightarrow>
   \<exists>a w' xs' ys'. descend_to_leaf env n p k w = Inr (a, w') \<and> walked w w' \<and> ts ! 0 = xs' @ a # ys'
     \<and> low (mem w) a \<le> k \<and> winv env ts w' \<and> cache_ok ts w' \<and> cache_room env c w'
     \<and> path_ok (mem w) ts (path_stack w') (Suc 0) (low (mem w) a)"
proof (induction n arbitrary: w l xs p ys)
  case 0
  then show ?case using steps_pos [of ts l ys] by simp
next
  case (Suc n)
  note pre = Suc.prems(1) and d = walk_preD [OF Suc.prems(1)]
  have plen: "length (path_stack w) = kMaxLevelOfTree" using d(1) by (simp add: winv_def)
  have stop: "\<exists>a w' xs' ys'. Inr (p, visited l p ic w) = Inr (a, w') \<and> walked w w' \<and> ts ! 0 = xs' @ a # ys'
     \<and> low (mem w) a \<le> k \<and> winv env ts w' \<and> cache_ok ts w' \<and> cache_room env c w'
     \<and> path_ok (mem w) ts (path_stack w') (Suc 0) (low (mem w) a)"
    if "l = 0" "cache_ok ts (visited l p ic w)" "cache_room env c (visited l p ic w)" for ic
    using d that path_ok_visit [of "mem w" ts "path_stack w" 0 "low (mem w) p" p]
    by (intro exI [of _ p] exI [of _ "visited l p ic w"] exI [of _ xs] exI [of _ ys]) simp
  show ?case using pre
  proof (cases rule: walk_step)
    case (right res ic b ys')
    note dr = walk_preD [OF right(8)]
    show ?thesis
    proof (cases "l = 0")
      case True
      have "cache_room env c (visited l p ic w)" by (rule cache_room_mono [OF dr(7)]) simp
      from stop [OF True dr(6) this] show ?thesis using right True by simp
    next
      case False
      have st: "steps ts l ys' \<le> n" using Suc.prems(2) right(7) by (simp add: steps_Cons)
      have lv: "sr_level res \<noteq> 0" using right(3) False by (metis unat_0)
      show ?thesis using Suc.IH [OF right(8) st] right False lv
        by (auto intro: walked_visit_trans)
    qed
  next
    case (down res ic i q xs' ys')
    note dd = walk_preD [OF down(8)]
    have lv: "sr_level res \<noteq> 0" using down(3,5) by (metis nat.distinct(1) unat_0)
    show ?thesis
    proof (cases "i = 0")
      case True
      then have "sr_level res = 1" using down(3,5) by (metis One_nat_def unat_1 word_unat_eq_iff)
      then have eq: "descend_to_leaf env (Suc n) p k w = Inr (q, visited l p ic w)"
        using down lv by simp
      have "cache_room env c (visited l p ic w)" by (rule cache_room_mono [OF dd(7)]) simp
      then show ?thesis unfolding eq using dd down True
        by (intro exI [of _ q] exI [of _ "visited l p ic w"] exI [of _ xs'] exI [of _ ys']) simp
    next
      case False
      then have "sr_level res \<noteq> 1" using down(3,5) by (metis One_nat_def Suc_inject unat_1)
      moreover have st: "steps ts i ys' \<le> n"
        using Suc.prems(2) steps_down [of i ts xs' q ys' ys] down(5,7) d(2) by simp
      ultimately show ?thesis using Suc.IH [OF down(8) st] down lv
        by (auto intro: walked_visit_trans)
    qed
  next
    case (leaf res)
    have "cache_ok ts (visited l p (index_cache w) w)" using d(6) by (simp add: cache_ok_def)
    moreover have "cache_room env c w" by (rule cache_room_mono [OF d(7)]) simp
    then have "cache_room env c (visited l p (index_cache w) w)" by (simp add: cache_room_def)
    ultimately show ?thesis using stop [of "index_cache w"] leaf by simp
  qed
qed

text \<open>The loop of \<^verbatim>\<open>insert_internal\<close>.\<close>

lemma insert_internal_loop_ok:
  "walk_pre env c ts w l xs p ys k \<Longrightarrow> Suc (Suc i) \<le> l \<Longrightarrow> steps ts l ys \<le> n \<Longrightarrow>
   \<exists>q w' xs' ys'. insert_internal_loop env fuel n p k v root (Suc i) w
       = internal_page_store env fuel q k v root (Suc i) w'
     \<and> walked w w' \<and> walk_pre env c ts w' (Suc i) xs' q ys' k"
proof (induction n arbitrary: w l xs p ys)
  case 0
  then show ?case using steps_pos [of ts l ys] by simp
next
  case (Suc n)
  note d = walk_preD [OF Suc.prems(1)] and l = Suc.prems(2)
  show ?case using Suc.prems(1)
  proof (cases rule: walk_step)
    case (right res ic b ys')
    have st: "steps ts l ys' \<le> n" using Suc.prems(3) right(7) by (simp add: steps_Cons)
    have lv: "sr_level res \<noteq> 0" using right(3) l by (metis Suc_n_not_le_n le0 le_trans unat_0)
    show ?thesis using Suc.IH [OF right(8) l st] right lv by (auto intro: walked_visit_trans)
  next
    case (down res ic j q xs' ys')
    have lv: "sr_level res \<noteq> 0" using down(3,5) by (metis nat.distinct(1) unat_0)
    show ?thesis
    proof (cases "l = Suc (Suc i)")
      case True
      then have eq: "insert_internal_loop env fuel (Suc n) p k v root (Suc i) w
          = internal_page_store env fuel q k v root (Suc i) (visited l p ic w)"
        using down lv by simp
      show ?thesis unfolding eq using down True by (metis Suc_inject walked_visited)
    next
      case False
      then have j: "Suc (Suc i) \<le> j" using l down(5) by simp
      have st: "steps ts j ys' \<le> n"
        using Suc.prems(3) steps_down [of j ts xs' q ys' ys] down(5,7) d(2) by simp
      show ?thesis using Suc.IH [OF down(8) j st] down lv False by (auto intro: walked_visit_trans)
    qed
  next
    case (leaf res)
    with l show ?thesis by simp
  qed
qed

text \<open>The loop of \<^verbatim>\<open>search\<close>, from a page that is not taken from the cache.\<close>

lemma chain_map_live: "chain_map m as k = Some v \<Longrightarrow> v \<noteq> kValueNull"
  by (induction as) (auto simp: leaf_map_def map_add_Some_iff 
      dest: leaf_lookup_value_live split: option.splits page.splits)

lemma search_loop_ok:
  "walk_pre env c ts w l xs p ys k \<Longrightarrow> steps ts l ys \<le> n \<Longrightarrow>
   \<exists>w'. search_loop env n p root None k w = Inr (chain_map (mem w) (ts ! 0) k, w') \<and> walked w w'
     \<and> winv env ts w' \<and> cache_ok ts w'"
proof (induction n arbitrary: w l xs p ys)
  case 0
  then show ?case using steps_pos [of ts l ys] by simp
next
  case (Suc n)
  note d = walk_preD [OF Suc.prems(1)]
  show ?case using Suc.prems(1)
  proof (cases rule: walk_step)
    case (right res ic b ys')
    have st: "steps ts l ys' \<le> n" using Suc.prems(2) right(7) by (simp add: steps_Cons)
    show ?thesis using Suc.IH [OF right(8) st] right by (auto intro: walked_visit_trans)
  next
    case (down res ic j q xs' ys')
    have st: "steps ts j ys' \<le> n"
      using Suc.prems(2) steps_down [of j ts xs' q ys' ys] down(5,7) d(2) by simp
    show ?thesis using Suc.IH [OF down(8) st] down by (auto intro: walked_visit_trans)
  next
    case (leaf res)
    have "search_loop env (Suc n) p root None k w =
      Inr (chain_map (mem w) (ts ! 0) k, visited 0 p (index_cache w) w)"
      using leaf chain_map_live [of "mem w" "ts ! 0" k]
      by (simp add: kValueNull_def split: option.splits)
    then show ?thesis using d by (auto simp: cache_ok_def)
  qed
qed

end
