(* ===== verification/LeafStore.thy ===== *)
theory LeafStore
  imports TreeDescend
begin

text \<open>
  \<^verbatim>\<open>leaf_page_store\<close> and \<^verbatim>\<open>leaf_page_del\<close>: from any leaf that starts at most at the
  key, or from any leaf at all when its address came from the cache. The map of the leaves
  changes at the key only; a stale address is reported and changes nothing.
\<close>

section \<open>What a store on a leaf needs and gives\<close>

text \<open>The number of pages of the tree.\<close>

definition tree_pages :: "GlobalAddress list list \<Rightarrow> nat" where
  "tree_pages ts = sum_list (map length ts)"

definition leaf_pre :: "tree_env \<Rightarrow> GlobalAddress \<Rightarrow> nat \<Rightarrow> nat \<Rightarrow> nat \<Rightarrow> GlobalAddress list list \<Rightarrow> World
    \<Rightarrow> GlobalAddress list \<Rightarrow> GlobalAddress \<Rightarrow> GlobalAddress list \<Rightarrow> key \<Rightarrow> bool \<Rightarrow> bool" where
  "leaf_pre env root r fuel n ts w xs p ys k fc \<longleftrightarrow>
     winv env ts w \<and> rooted env ts root w \<and> length ts < kMaxLevelOfTree \<and> ts ! 0 = xs @ p # ys
     \<and> k < kKeyMax \<and> cache_ok ts w \<and> get_root_ptr env w = root
     \<and> calls ts 0 ys \<le> n \<and> n \<le> fuel \<and> locks_free (calls ts 0 ys + r) w
     \<and> alloc_room env (length ts + 1) w
     \<and> (if fc then path_stack w = replicate kMaxLevelOfTree gaddr_null \<and> 3 \<le> length ts
          \<and> cache_room env (Suc (tree_pages ts)) w \<and> Suc (tree_pages ts) \<le> fuel
        else low (mem w) p \<le> k \<and> path_ok (mem w) ts (path_stack w) (Suc 0) (low (mem w) p))"

lemma leaf_preD:
  assumes "leaf_pre env root r fuel n ts w xs p ys k fc"
  shows "winv env ts w" "rooted env ts root w" "length ts < kMaxLevelOfTree" "ts ! 0 = xs @ p # ys"
    "k < kKeyMax" "cache_ok ts w" "get_root_ptr env w = root" "calls ts 0 ys \<le> n" "n \<le> fuel"
    "locks_free (calls ts 0 ys + r) w" "alloc_room env (length ts + 1) w"
    "\<not> fc \<Longrightarrow> low (mem w) p \<le> k"
    "\<not> fc \<Longrightarrow> path_ok (mem w) ts (path_stack w) (Suc 0) (low (mem w) p)"
    "fc \<Longrightarrow> path_stack w = replicate kMaxLevelOfTree gaddr_null" "fc \<Longrightarrow> 3 \<le> length ts"
    "fc \<Longrightarrow> cache_room env (Suc (tree_pages ts)) w" "fc \<Longrightarrow> Suc (tree_pages ts) \<le> fuel"
  using assms by (simp_all add: leaf_pre_def)

text \<open>What the nodes know about the root stays; here the cache may learn pages.\<close>

definition lframe :: "World \<Rightarrow> World \<Rightarrow> bool" where
  "lframe w w' \<longleftrightarrow> node_roots w' = node_roots w"

definition lstored :: "tree_env \<Rightarrow> GlobalAddress list list \<Rightarrow> GlobalAddress \<Rightarrow> nat \<Rightarrow> World
    \<Rightarrow> key \<Rightarrow> val option \<Rightarrow> err + World \<Rightarrow> bool" where
  "lstored env ts root r w k x res \<longleftrightarrow> (\<exists>w' ts' root'. res = Inr w' \<and> winv env ts' w'
     \<and> rooted env ts' root' w' \<and> grown env ts root w ts' root' w' \<and> locks_free r w' \<and> lframe w w'
     \<and> cache_ok ts' w' \<and> chain_map (mem w') (ts' ! 0) = (chain_map (mem w) (ts ! 0))(k := x))"

lemma frame_lframe: "frame w w' \<Longrightarrow> lframe w w'"
  by (simp add: frame_def lframe_def)

lemma lframe_length: "lframe w w' \<Longrightarrow> length (nodes w') = length (nodes w)"
  unfolding lframe_def node_roots_def by (metis length_map)

lemma cache_ok_mono:
  "cache_ok ts w \<Longrightarrow> index_cache w' = index_cache w \<Longrightarrow> set (ts ! 0) \<subseteq> set (ts' ! 0) \<Longrightarrow> cache_ok ts' w'"
  unfolding cache_ok_def
  by (simp, erule cache_inv_mono) (auto simp: page_cached_def)

lemma chain_map_same: "\<forall>a \<in> set as. m' a = m a \<Longrightarrow> chain_map m' as = chain_map m as"
  by (rule chain_map_cong) simp

text \<open>The leaf step followed by the store of the separator.\<close>

lemma lstored_via:
  assumes "stored env ts1 root r w1 res" "lframe w w1" "length ts1 = length ts" "heads ts ts1"
    "network w1 = network w" "cache_ok ts1 w1"
    "chain_map (mem w1) (ts1 ! 0) = (chain_map (mem w) (ts ! 0))(k := x)"
  shows "lstored env ts root r w k x res"
proof -
  from assms(1) obtain w' ts' root' where r: "res = Inr w'" "winv env ts' w'" "rooted env ts' root' w'"
    "grown env ts1 root w1 ts' root' w'" "locks_free r w'" "frame w1 w'" "ts' ! 0 = ts1 ! 0"
    "\<forall>a \<in> set (ts1 ! 0). mem w' a = mem w1 a" by (auto simp: stored_def)
  have "grown env ts root w ts' root' w'"
    using r(4) assms(3,4,5) lframe_length [OF assms(2)] heads_trans [OF assms(4)] by (auto simp: grown_def)
  moreover have "lframe w w'" using assms(2) r(6) by (simp add: lframe_def frame_def)
  moreover have "cache_ok ts' w'"
    by (rule cache_ok_mono [OF assms(6)]) (use r in \<open>simp_all add: frame_def\<close>)
  moreover have "chain_map (mem w') (ts' ! 0) = (chain_map (mem w) (ts ! 0))(k := x)"
    using r(7,8) assms(7) chain_map_same by metis
  ultimately show ?thesis using r unfolding lstored_def by blast
qed

section \<open>One call\<close>

lemma leaf_of:
  assumes "winv env ts w" "ts ! 0 = xs @ p # ys"
  obtains page where "mem w p = Some (LeafP page)" "page_ok 0 (LeafP page)"
    "low (mem w) p = lowest (lp_hdr page)"
proof -
  have "blink (mem w) ts" using assms(1) by (simp add: winv_def)
  from blink_leaf [OF this, of p] assms(2) that show thesis by (auto simp: low_def hdr_at_def)
qed

text \<open>The outcome of a store that split, without the boolean that the code returns.\<close>

definition after_split where
  "after_split env fuel p sk b root fc w4 =
     rbind (if root = p then update_new_root env p sk b (Suc 0) root w4 else Inr (False, w4))
       (\<lambda>(done, w5).
       if done then Inr w5
       else rbind (get_path (Suc 0) w5) (\<lambda>up_level.
         if up_level \<noteq> gaddr_null then internal_page_store env fuel up_level sk b root (Suc 0) w5
         else rbind (assert_that fc ''from_cache'') (\<lambda>_. insert_internal env fuel sk b (Suc 0) w5)))"

lemma leaf_store_lock:
  assumes "winv env ts w" "page_ok 0 (LeafP page)"
    and "lock_and_read_page p (lock_addr_of env p) (thread_tag env) w = Inr (LeafP page, w1)"
  shows "fc \<Longrightarrow> k < lowest (lp_hdr page) \<or> highest (lp_hdr page) \<le> k \<Longrightarrow>
      leaf_page_store env fuel (Suc n) p k v root 0 fc w = Inr (False, unlock_addr (lock_addr_of env p) w1)"
    and "\<not> fc \<Longrightarrow> highest (lp_hdr page) \<le> k \<Longrightarrow> sibling_ptr (lp_hdr page) \<noteq> gaddr_null \<Longrightarrow>
      leaf_page_store env fuel (Suc n) p k v root 0 fc w =
      rbind (leaf_page_store env fuel n (sibling_ptr (lp_hdr page)) k v root 0 False
          (unlock_addr (lock_addr_of env p) w1)) (\<lambda>(r, w3). Inr (True, w3))"
    and "lowest (lp_hdr page) \<le> k \<Longrightarrow> k < highest (lp_hdr page) \<Longrightarrow>
      leaf_put (lp_records page) k v = Inr (rs, i, cnt) \<Longrightarrow> cnt \<noteq> kLeafCardinality \<Longrightarrow>
      leaf_page_store env fuel (Suc n) p k v root 0 fc w =
        rbind (write_page_and_unlock p (LeafRecord i (rs ! i)) (lock_addr_of env p) w1)
          (\<lambda>w2. Inr (True, w2))"
    and "lowest (lp_hdr page) \<le> k \<Longrightarrow> k < highest (lp_hdr page) \<Longrightarrow>
      leaf_put (lp_records page) k v = Inr (rs, i, kLeafCardinality) \<Longrightarrow>
      tree_alloc env kLeafPageSize w1 = Inr (b, w2) \<Longrightarrow>
      leaf_split (page\<lparr>lp_records := rs\<rparr>) kLeafCardinality b = Inr (page2, sib, sk) \<Longrightarrow>
      write_page_and_unlock p (WholePage (LeafP (leaf_set_consistent page2)))
        (lock_addr_of env p) (write_page b (LeafP sib) w2) = Inr w4 \<Longrightarrow>
      leaf_page_store env fuel (Suc n) p k v root 0 fc w =
        rbind (after_split env fuel p sk b root fc w4) (\<lambda>w6. Inr (True, w6))"
proof -
  have tag: "thread_tag env \<noteq> 0" using assms(1) by (simp add: winv_def)
  have l: "level (lp_hdr page) = 0" "leaf_check_consistent page" using assms(2) by simp_all
  note u = leaf_page_store.simps(2) Let_def assms(3) as_leaf_def
  show "fc \<Longrightarrow> k < lowest (lp_hdr page) \<or> highest (lp_hdr page) \<le> k \<Longrightarrow>
      leaf_page_store env fuel (Suc n) p k v root 0 fc w = Inr (False, unlock_addr (lock_addr_of env p) w1)"
    using tag l by (auto simp: u)
  show "\<not> fc \<Longrightarrow> highest (lp_hdr page) \<le> k \<Longrightarrow> sibling_ptr (lp_hdr page) \<noteq> gaddr_null \<Longrightarrow>
      leaf_page_store env fuel (Suc n) p k v root 0 fc w =
      rbind (leaf_page_store env fuel n (sibling_ptr (lp_hdr page)) k v root 0 False
          (unlock_addr (lock_addr_of env p) w1)) (\<lambda>(r, w3). Inr (True, w3))"
    using tag l by (simp add: u)
  show "lowest (lp_hdr page) \<le> k \<Longrightarrow> k < highest (lp_hdr page) \<Longrightarrow>
      leaf_put (lp_records page) k v = Inr (rs, i, cnt) \<Longrightarrow> cnt \<noteq> kLeafCardinality \<Longrightarrow>
      leaf_page_store env fuel (Suc n) p k v root 0 fc w =
        rbind (write_page_and_unlock p (LeafRecord i (rs ! i)) (lock_addr_of env p) w1)
          (\<lambda>w2. Inr (True, w2))"
    using tag l by (auto simp: u)
  show "lowest (lp_hdr page) \<le> k \<Longrightarrow> k < highest (lp_hdr page) \<Longrightarrow>
      leaf_put (lp_records page) k v = Inr (rs, i, kLeafCardinality) \<Longrightarrow>
      tree_alloc env kLeafPageSize w1 = Inr (b, w2) \<Longrightarrow>
      leaf_split (page\<lparr>lp_records := rs\<rparr>) kLeafCardinality b = Inr (page2, sib, sk) \<Longrightarrow>
      write_page_and_unlock p (WholePage (LeafP (leaf_set_consistent page2)))
        (lock_addr_of env p) (write_page b (LeafP sib) w2) = Inr w4 \<Longrightarrow>
      leaf_page_store env fuel (Suc n) p k v root 0 fc w =
        rbind (after_split env fuel p sk b root fc w4) (\<lambda>w6. Inr (True, w6))"
    using tag l by (auto simp: u after_split_def rbind_norm cong: if_cong)
qed

text \<open>The leaf that splits.\<close>

lemma leaf_store_split:
  assumes wi: "winv env ts w" and ts0: "ts ! 0 = xs @ p # ys"
    and pg: "mem w p = Some (LeafP page)" "page_ok 0 (LeafP page)"
    and k: "lowest (lp_hdr page) \<le> k" "k < highest (lp_hdr page)"
    and held: "lock_held r (lock_addr_of env p) w" and room: "alloc_room env (Suc n) w"
    and split: "\<And>sib. \<exists>p' s sk. leaf_split page1 kLeafCardinality sib = Inr (p', s, sk)
         \<and> lowest (lp_hdr page) < sk \<and> sk < highest (lp_hdr page)
         \<and> page_ok 0 (LeafP (leaf_set_consistent p')) \<and> page_ok 0 (LeafP s)
         \<and> lowest (lp_hdr p') = lowest (lp_hdr page) \<and> highest (lp_hdr p') = sk
         \<and> sibling_ptr (lp_hdr p') = sib
         \<and> lowest (lp_hdr s) = sk \<and> highest (lp_hdr s) = highest (lp_hdr page)
         \<and> sibling_ptr (lp_hdr s) = sibling_ptr (lp_hdr page)
         \<and> leaf_lookup (lp_records p') ++ leaf_lookup (lp_records s)
             = (leaf_lookup (lp_records page))(k := x)"
  obtains b w2 page2 sib w4 where
    "tree_alloc env kLeafPageSize w = Inr (b, w2)"
    "leaf_split page1 kLeafCardinality b = Inr (page2, sib, low (mem w4) b)"
    "write_page_and_unlock p (WholePage (LeafP (leaf_set_consistent page2)))
       (lock_addr_of env p) (write_page b (LeafP sib) w2) = Inr w4"
    "winv env (ts[0 := xs @ p # b # ys]) w4" "frame w w4" "cells w4 = cells w"
    "network w4 = network w" "locks_free r w4" "alloc_room env n w4"
    "low (mem w) p < low (mem w4) b" "low (mem w4) b < kKeyMax"
    "\<forall>c. mem w c \<noteq> None \<longrightarrow> low (mem w4) c = low (mem w) c"
    "chain_map (mem w4) (xs @ p # b # ys) = (chain_map (mem w) (ts ! 0))(k := x)"
proof -
  have inv: "alloc_inv w" and bl: "blink (mem w) ts" using wi by (simp_all add: winv_def)
  have pos: "0 < length ts" using bl by (simp add: blink_def)
  obtain b ns th where al: "tree_alloc env kLeafPageSize w = Inr (b, w\<lparr>nodes := ns, dsm_th := th\<rparr>)"
    and ai: "alloc_inv (w\<lparr>nodes := ns, dsm_th := th\<rparr>)"
    and ar: "alloc_room env n (w\<lparr>nodes := ns, dsm_th := th\<rparr>)"
    and fr: "mem w b = None" "b \<noteq> gaddr_null" and na: "first_byte b \<notin> dsm_avail (ns, th)"
    and nr: "node_roots (w\<lparr>nodes := ns, dsm_th := th\<rparr>) = node_roots w" "length ns = length (nodes w)"
    by (rule tree_alloc_ok [OF inv room])
  obtain p2 s sk where sp: "leaf_split page1 kLeafCardinality b = Inr (p2, s, sk)"
    and sk: "lowest (lp_hdr page) < sk" "sk < highest (lp_hdr page)"
    and ok: "page_ok 0 (LeafP (leaf_set_consistent p2))" "page_ok 0 (LeafP s)"
    and h: "lowest (lp_hdr p2) = lowest (lp_hdr page)" "highest (lp_hdr p2) = sk"
      "sibling_ptr (lp_hdr p2) = b" "lowest (lp_hdr s) = sk"
      "highest (lp_hdr s) = highest (lp_hdr page)"
      "sibling_ptr (lp_hdr s) = sibling_ptr (lp_hdr page)"
    and lm: "leaf_lookup (lp_records p2) ++ leaf_lookup (lp_records s)
      = (leaf_lookup (lp_records page))(k := x)"
    using split [of b] by blast
  let ?w3 = "write_page b (LeafP s) (w\<lparr>nodes := ns, dsm_th := th\<rparr>)"
  let ?P = "LeafP (leaf_set_consistent p2)"
  have "lock_held r (lock_addr_of env p) ?w3"
    using held by (simp add: lock_held_def write_page_def)
  then obtain lk ch where
    wr: "write_page_and_unlock p (WholePage ?P) (lock_addr_of env p) ?w3
      = Inr (?w3\<lparr>mem := (mem ?w3)(p \<mapsto> ?P), local_locks := lk, chip := ch\<rparr>)"
    and fre: "locks_free r (?w3\<lparr>mem := (mem ?w3)(p \<mapsto> ?P), local_locks := lk, chip := ch\<rparr>)"
    by (rule write_whole_and_unlock_ok [of _ _ _ p ?P])
  define w4 where "w4 = ?w3\<lparr>mem := (mem ?w3)(p \<mapsto> ?P), local_locks := lk, chip := ch\<rparr>"
  have w4: "w4 = w\<lparr>nodes := ns, dsm_th := th, mem := (mem w)(b \<mapsto> LeafP s, p \<mapsto> ?P),
      local_locks := lk, chip := ch\<rparr>"
    by (simp add: w4_def write_page_def)
  have hh: "lowest (page_hdr ?P) = lowest (page_hdr (LeafP page))"
    "highest (page_hdr ?P) = lowest (page_hdr (LeafP s))" "sibling_ptr (page_hdr ?P) = b"
    "highest (page_hdr (LeafP s)) = highest (page_hdr (LeafP page))"
    "sibling_ptr (page_hdr (LeafP s)) = sibling_ptr (page_hdr (LeafP page))"
    using h by simp_all
  note st = split_step [OF wi pos ts0 pg(1) fr ok hh _ _ ai na nr w4, simplified]
  have lowb: "low (mem w4) b = sk" using st(6) h by simp
  have lowp: "low (mem w) p = lowest (lp_hdr page)" using pg(1) by (simp add: low_def hdr_at_def)
  have skM: "sk < kKeyMax" using sk(2) le_kKeyMax less_le_trans by blast
  have upd: "leaf_map (Some ?P) ++ leaf_map (Some (LeafP s)) = (leaf_map (Some (LeafP page)))(k := x)"
    using lm by simp
  have cm: "chain_map ((mem w)(b \<mapsto> LeafP s, p \<mapsto> ?P)) (xs @ p # b # ys)
      = (chain_map (mem w) (xs @ p # ys))(k := x)"
    by (rule chain_map_split [where m = "mem w", OF winv_seg [OF wi pos ts0] pg(1) _ _ fr(1) upd])
      (use k in simp_all)
  show thesis
  proof (rule that [of b "w\<lparr>nodes := ns, dsm_th := th\<rparr>" p2 s w4])
    show "alloc_room env n w4" using ar by (simp add: alloc_room_def w4)
    show "write_page_and_unlock p (WholePage ?P) (lock_addr_of env p) ?w3 = Inr w4"
      using wr by (simp add: w4_def)
    show "locks_free r w4" using fre by (simp add: w4_def)
    show "chain_map (mem w4) (xs @ p # b # ys) = (chain_map (mem w) (ts ! 0))(k := x)"
      using cm ts0 by (simp add: w4)
  qed (use al sp sk lowb lowp skM st in simp_all)
qed

section \<open>The separator of the new leaf\<close>

lemma get_root_ptr_frame:
  assumes "node_roots w' = node_roots w" "cells w' = cells w" "my_node env < length (nodes w)"
  shows "get_root_ptr env w' = get_root_ptr env w"
    "my_enable_cache env w' = my_enable_cache env w"
  using node_roots_eqD [OF assms(1,3)] assms(2)
  by (simp_all add: get_root_ptr_def my_state_def my_enable_cache_def)

lemma get_root_ptr_upd_locks [simp]:
  "get_root_ptr env (w\<lparr>local_locks := lk, chip := ch\<rparr>) = get_root_ptr env w"
  unfolding get_root_ptr_def my_state_def by simp

lemma last_update_0: "1 < length ts \<Longrightarrow> last (ts[0 := x]) = last ts"
  by (subst last_list_update) auto

lemma tree_pages_steps:
  assumes "length (ts ! (length ts - 1)) = 1" "ts \<noteq> []"
  shows "steps ts (length ts - 1) [] = tree_pages ts"
proof -
  have "take (length ts - 1) ts @ [ts ! (length ts - 1)] = ts"
    using assms(2) take_Suc_conv_app_nth [of "length ts - 1" ts] by simp
  then have "tree_pages ts = sum_list (map length (take (length ts - 1) ts @ [ts ! (length ts - 1)]))"
    by (simp add: tree_pages_def)
  then show ?thesis using assms(1) by (simp add: steps_def)
qed

lemma tree_pages_split:
  "0 < length ts \<Longrightarrow> ts ! 0 = xs @ p # ys \<Longrightarrow> tree_pages (ts[0 := xs @ p # b # ys]) = Suc (tree_pages ts)"
  by (cases ts) (auto simp: tree_pages_def)

text \<open>On the way down a path was remembered, or the leaf is the root.\<close>

lemma after_split_path:
  assumes pre: "leaf_pre env root r fuel n ts w xs p ys k False" and c: "Suc c = calls ts 0 ys"
    and ts1: "ts1 = ts[0 := xs @ p # b # ys]"
    and w4: "winv env ts1 w4" "frame w w4" "cells w4 = cells w" "network w4 = network w"
      "locks_free (c + r) w4" "alloc_room env (length ts) w4"
    and sk: "low (mem w) p < low (mem w4) b" "low (mem w4) b < kKeyMax"
    and low4: "\<forall>a. mem w a \<noteq> None \<longrightarrow> low (mem w4) a = low (mem w) a"
  shows "stored env ts1 root r w4 (after_split env fuel p (low (mem w4) b) b root False w4)"
proof -
  note d = leaf_preD [OF pre]
  have bl: "blink (mem w) ts" and bl4: "blink (mem w4) ts1" using d(1) w4(1) by (simp_all add: winv_def)
  have pos: "0 < length ts" using bl by (simp add: blink_def)
  have path: "path_stack w4 = path_stack w" using w4(2) by (simp add: frame_def)
  have pm: "low (mem w4) a = low (mem w) a" if "j < length ts" "a \<in> set (ts ! j)" for a j
    using low4 blink_in_mem [OF bl that] by blast
  have in4: "\<forall>a \<in> set (ts1 ! 0). mem w4 a \<noteq> None"
    using blink_in_mem [OF bl4, of 0] pos by (simp add: ts1)
  have lock_r: "locks_free r w4" by (rule locks_free_mono [OF w4(5)]) simp
  have skm: "kKeyMin < low (mem w4) b" using sk(1) kKeyMin_le le_less_trans by blast
  let ?q = "path_stack w4 ! Suc 0"
  have up: "stored env ts1 root r w4
      (internal_page_store env fuel ?q (low (mem w4) b) b root (Suc 0) w4)"
    if l': "Suc 0 < length ts"
  proof -
    have q: "?q \<in> set (ts ! Suc 0)" "low (mem w) ?q \<le> low (mem w) p"
      using d(13) l' by (auto simp: path_ok_def path)
    then obtain xs' ys' where q': "ts ! Suc 0 = xs' @ ?q # ys'" by (meson split_list)
    have cq: "calls ts1 (Suc 0) ys' \<le> c"
      using calls_up [OF l' q', of ys] pos c by (simp add: calls_update ts1)
    have b0: "b \<in> set (ts1 ! 0)" using pos by (simp add: ts1)
    have pq: "path_ok (mem w4) ts1 (path_stack w4) (Suc (Suc 0)) (low (mem w4) ?q)"
      using path_ok_cong [OF _ _ pm path_ok_Suc [OF d(13)], of ts1] pm [OF l' q(1)] path
      by (simp add: ts1)
    have ro4: "rooted env ts1 root w4"
      using d(2) w4(3) l' by (simp add: rooted_def ts1 last_update_0)
    have lk: "locks_free (calls ts1 (Suc 0) ys' + r) w4"
      by (rule locks_free_mono [OF w4(5)]) (use cq in simp)
    have q1: "ts1 ! Suc 0 = xs' @ ?q # ys'" "length ts1 = length ts" using q' by (simp_all add: ts1)
    have qs: "low (mem w4) ?q < low (mem w4) b" using q(2) sk(1) pm [OF l' q(1)] by simp
    have "store_pre env root r fuel ts1 w4 0 xs' ?q ys' (low (mem w4) b) b"
      unfolding store_pre_def using w4(1,6) d(3,8,9) q1 cq pq sk(2) qs l' c ro4 lk b0 by simp
    from internal_page_store_stored [OF this] show ?thesis .
  qed
  have pathq: "?q \<in> set (ts ! Suc 0)" if "Suc 0 < length ts"
    using d(13) that by (auto simp: path_ok_def path)
  show ?thesis unfolding after_split_def
    by (rule internal_store_up [where up_store = "\<lambda>u w. internal_page_store env fuel u
          (low (mem w4) b) b root (Suc 0) w" and no_path = "\<lambda>w. rbind (assert_that False ''from_cache'')
          (\<lambda>_. insert_internal env fuel (low (mem w4) b) b (Suc 0) w)" and w = w and b = b
          and ?ts1.0 = ts1 and ?w4.0 = w4, OF w4(1) d(2,3) pos d(4) ts1 w4(3,4,2) lock_r _ bl skm sk(2)
        in4 up pathq]) (use w4(6) in simp_all)
qed

text \<open>From the cache: no path, so the level above is looked up from the root.\<close>

lemma after_split_cached:
  assumes pre: "leaf_pre env root r fuel n ts w xs p ys k True" and c: "Suc c = calls ts 0 ys"
    and ts1: "ts1 = ts[0 := xs @ p # b # ys]"
    and w4: "winv env ts1 w4" "frame w w4" "cells w4 = cells w" "network w4 = network w"
      "locks_free (c + r) w4" "alloc_room env (length ts) w4"
    and sk: "low (mem w) p < low (mem w4) b" "low (mem w4) b < kKeyMax"
  shows "\<exists>w5. walked w4 w5 \<and> cache_ok ts1 w5
    \<and> stored env ts1 root r w5 (after_split env fuel p (low (mem w4) b) b root True w4)"
proof -
  let ?sk = "low (mem w4) b"
  note d = leaf_preD [OF pre]
  have bl: "blink (mem w) ts" and bl4: "blink (mem w4) ts1" and my: "my_node env < length (nodes w)"
    using d(1) w4(1) by (simp_all add: winv_def)
  have len: "3 \<le> length ts" "length ts < kMaxLevelOfTree" using d(3,15) by simp_all
  have ne: "ts \<noteq> []" using len by auto
  have tl: "ts ! (length ts - 1) = [root]" using last_conv_nth [OF ne] d(2) by (simp add: rooted_def)
  then have top: "ts1 ! (length ts - 1) = [root]" "length ts1 = length ts" "last ts1 = [root]"
    using d(2) len last_update_0 [of ts] by (simp_all add: rooted_def ts1)
  have "p \<in> set (ts ! 0)" "root \<in> set (ts ! (length ts - 1))"
    using d(4) tl by simp_all
  then have np: "root \<noteq> p" using blink_level_unique [OF bl, of 0 p "length ts - 1"] len ne by auto
  have path: "path_stack w4 = replicate kMaxLevelOfTree gaddr_null"
    using w4(2) d(14) by (simp add: frame_def)
  have rv: "get_root_ptr env w4 = root" "my_enable_cache env w4 = my_enable_cache env w"
    using get_root_ptr_frame [OF _ w4(3) my] w4(2) d(7) by (simp_all add: frame_def)
  have tot: "steps ts1 (length ts - 1) [] = Suc (tree_pages ts)"
    using tree_pages_steps [of ts1] tree_pages_split [of ts xs p ys b] top d(4) len ne by (auto simp: ts1)
  have co: "cache_ok ts1 w4"
    by (rule cache_ok_mono [OF d(6)]) (use w4(2) d(4) len ne in \<open>auto simp: frame_def ts1\<close>)
  have "root \<in> set (ts1 ! (length ts - 1))" using top by simp
  moreover have "length ts - 1 < length ts1" using len top by simp
  then have "level_chain (mem w4) (length ts - 1) (ts1 ! (length ts - 1))"
    using bl4 unfolding blink_def by blast
  then have "level_chain (mem w4) (length ts - 1) [root]" using top by simp
  ultimately have lowr: "low (mem w4) root = kKeyMin"
    by (auto simp: level_chain_def low_def hdr_at_def)
  have room: "cache_room env (steps ts1 (length ts - 1) [] + 0) w4"
    using d(16) rv(2) w4(2) tot by (simp add: cache_room_def frame_def)
  have "path_ok (mem w4) ts1 (path_stack w4) (Suc (length ts - 1)) (low (mem w4) root)"
    by (rule path_ok_top) (use top len in simp)
  moreover have "length ts - 1 < length ts1" using len top by simp
  ultimately have wp: "walk_pre env 0 ts1 w4 (length ts - 1) [] root [] ?sk"
    unfolding walk_pre_def using w4(1) top co room lowr sk by simp
  have two: "Suc (Suc 0) \<le> length ts - 1" using len by simp
  obtain q w5 xs' ys' where loop: "insert_internal_loop env fuel fuel root ?sk b root (Suc 0) w4
       = internal_page_store env fuel q ?sk b root (Suc 0) w5"
    and wk: "walked w4 w5" and wp5: "walk_pre env 0 ts1 w5 (Suc 0) xs' q ys' ?sk"
    using insert_internal_loop_ok [OF wp two] tot d(17) by metis
  note d5 = walk_preD [OF wp5] and same = walked_same [OF wk]
  have b0: "b \<in> set (ts1 ! 0)" using ne by (simp add: ts1)
  have cq: "calls ts1 (Suc 0) ys' \<le> c"
    using calls_up [of 0 ts1 xs' q ys' ys] d5(2,3) c by (simp add: calls_def ts1)
  have lk: "locks_free (calls ts1 (Suc 0) ys' + r) w5"
    using locks_free_mono [OF w4(5), of "calls ts1 (Suc 0) ys' + r"] cq same
    by (simp add: locks_free_def)
  have ar: "alloc_room env (length ts1 - 0) w5" using w4(6) same top by (simp add: alloc_room_def)
  have ro5: "rooted env ts1 root w5" using d(2) w4(3) same top by (simp add: rooted_def)
  have "store_pre env root r fuel ts1 w5 0 xs' q ys' ?sk b"
    unfolding store_pre_def using d5 same b0 cq lk ar ro5 d(8,9) c sk top len by simp
  from internal_page_store_stored [OF this]
  have "stored env ts1 root r w5 (after_split env fuel p ?sk b root True w4)"
    using np path rv loop by (simp add: after_split_def insert_internal_def get_path_def
        kMaxLevelOfTree_def Let_def)
  with wk d5(6) show ?thesis by blast
qed

section \<open>The store\<close>

definition lres :: "tree_env \<Rightarrow> GlobalAddress list list \<Rightarrow> GlobalAddress \<Rightarrow> nat \<Rightarrow> nat \<Rightarrow> World
    \<Rightarrow> key \<Rightarrow> val option \<Rightarrow> bool \<Rightarrow> err + bool \<times> World \<Rightarrow> bool" where
  "lres env ts root r c w k x fc res \<longleftrightarrow>
     (\<exists>w'. res = Inr (True, w') \<and> lstored env ts root r w k x (Inr w'))
     \<or> fc \<and> (\<exists>lk ch. res = Inr (False, w\<lparr>local_locks := lk, chip := ch\<rparr>)
             \<and> locks_free (c + r) (w\<lparr>local_locks := lk, chip := ch\<rparr>))"


lemma lresI: "lstored env ts root r w k x (Inr w') \<Longrightarrow> lres env ts root r c w k x fc (Inr (True, w'))"
  by (auto simp: lres_def)

lemma lres_staleI:
  "fc \<Longrightarrow> locks_free (c + r) (w\<lparr>local_locks := lk, chip := ch\<rparr>) \<Longrightarrow>
   lres env ts root r c w k x fc (Inr (False, w\<lparr>local_locks := lk, chip := ch\<rparr>))"
  by (auto simp: lres_def)

lemma lres_False: "lres env ts root r c w k x False res \<longleftrightarrow>
  (\<exists>w'. res = Inr (True, w') \<and> lstored env ts root r w k x (Inr w'))"
  by (simp add: lres_def)

text \<open>Locking and reading the leaf.\<close>

lemma leaf_begin:
  assumes wi: "winv env ts w" and ts0: "ts ! 0 = xs @ p # ys" and free: "locks_free (Suc (c + r)) w"
  obtains page lk ch where "mem w p = Some (LeafP page)" "page_ok 0 (LeafP page)"
    "low (mem w) p = lowest (lp_hdr page)"
    "lock_and_read_page p (lock_addr_of env p) (thread_tag env) w
       = Inr (LeafP page, w\<lparr>local_locks := lk, chip := ch\<rparr>)"
    "lock_held (c + r) (lock_addr_of env p) (w\<lparr>local_locks := lk, chip := ch\<rparr>)"
proof -
  obtain page where pg: "mem w p = Some (LeafP page)" "page_ok 0 (LeafP page)"
    "low (mem w) p = lowest (lp_hdr page)" by (rule leaf_of [OF wi ts0])
  from lock_and_read_page_ok [OF free pg(1)] that [OF pg] show thesis by blast
qed

text \<open>A result reached through other worlds that differ in the locks only.\<close>

lemma lstored_upd_locks:
  "lstored env ts root r (w\<lparr>local_locks := lk, chip := ch\<rparr>) k x res = lstored env ts root r w k x res"
  by (simp add: lstored_def grown_def lframe_def node_roots_def)

lemma leaf_right:
  assumes wi: "winv env ts w" and ts0: "ts ! 0 = xs @ p # ys"
    and pg: "mem w p = Some (LeafP page)" "page_ok 0 (LeafP page)"
    and k: "highest (lp_hdr page) \<le> k" "k < kKeyMax"
  obtains b ys' where "ys = b # ys'" "sibling_ptr (lp_hdr page) = b" "b \<noteq> gaddr_null"
    "low (mem w) b = highest (lp_hdr page)" "ts ! 0 = (xs @ [p]) @ b # ys'"
    "low (mem w) p < low (mem w) b"
proof -
  have bl: "blink (mem w) ts" using wi by (simp add: winv_def)
  have pos: "0 < length ts" using bl by (simp add: blink_def)
  have hk: "highest (page_hdr (LeafP page)) \<le> k" using k by simp
  obtain b ys' pg' where b: "ys = b # ys'" "sibling_ptr (page_hdr (LeafP page)) = b"
    "mem w b = Some pg'" "lowest (page_hdr pg') = highest (page_hdr (LeafP page))"
    by (rule seg_step [OF winv_seg [OF wi pos ts0] pg(1) hk k(2)])
  have "low (mem w) b = highest (lp_hdr page)" using b by (simp add: low_def hdr_at_def)
  moreover have "low (mem w) p = lowest (lp_hdr page)" using pg by (simp add: low_def hdr_at_def)
  moreover have "b \<noteq> gaddr_null" using blink_not_null [OF bl pos] ts0 b(1) by auto
  moreover have "lowest (lp_hdr page) < highest (lp_hdr page)" using pg(2) by simp
  ultimately have "low (mem w) b = highest (lp_hdr page)" "b \<noteq> gaddr_null"
    "low (mem w) p < low (mem w) b" by simp_all
  with b ts0 show thesis by (intro that [of b ys']) simp_all
qed

text \<open>One record of the leaf changes.\<close>

lemma leaf_write_record:
  assumes wi: "winv env ts w" and ro: "rooted env ts root w" and co: "cache_ok ts w"
    and ts0: "ts ! 0 = xs @ p # ys" and pg: "mem w p = Some (LeafP page)"
    and held: "lock_held r (lock_addr_of env p) (w\<lparr>local_locks := lk, chip := ch\<rparr>)"
    and rs: "(lp_records page)[i := rs ! i] = rs" and ok: "page_ok 0 (LeafP (page\<lparr>lp_records := rs\<rparr>))"
    and k: "lowest (lp_hdr page) \<le> k" "k < highest (lp_hdr page)"
    and upd: "leaf_lookup rs = (leaf_lookup (lp_records page))(k := x)"
  obtains w' where "write_page_and_unlock p (LeafRecord i (rs ! i)) (lock_addr_of env p)
       (w\<lparr>local_locks := lk, chip := ch\<rparr>) = Inr w'"
    "lstored env ts root r w k x (Inr w')"
proof -
  have bl: "blink (mem w) ts" using wi by (simp add: winv_def)
  have pos: "0 < length ts" using bl by (simp add: blink_def)
  let ?P = "LeafP (page\<lparr>lp_records := rs\<rparr>)" and ?w1 = "w\<lparr>local_locks := lk, chip := ch\<rparr>"
  have pg1: "mem ?w1 p = Some (LeafP page)" using pg by simp
  obtain lk2 ch2 where
    wr: "write_page_and_unlock p (LeafRecord i (rs ! i)) (lock_addr_of env p) ?w1
      = Inr (?w1\<lparr>mem := (mem ?w1)(p \<mapsto> ?P), local_locks := lk2, chip := ch2\<rparr>)"
    and fr: "locks_free r (?w1\<lparr>mem := (mem ?w1)(p \<mapsto> ?P), local_locks := lk2, chip := ch2\<rparr>)"
    by (rule write_record_and_unlock_ok [OF held pg1 rs])
  define w' where "w' = w\<lparr>mem := (mem w)(p \<mapsto> ?P), local_locks := lk2, chip := ch2\<rparr>"
  have p: "p \<in> set (ts ! 0)" by (simp add: ts0)
  note st = rewrite_step [OF wi pos p pg ok _ _ _ _ w'_def, simplified]
  have "chain_map (mem w') (ts ! 0) = (chain_map (mem w) (ts ! 0))(k := x)"
    unfolding w'_def using chain_map_rewrite [OF winv_seg [OF wi pos ts0] pg, of k ?P x] k upd ts0
    by simp
  moreover have "cache_ok ts w'"
    by (rule cache_ok_mono [OF co]) (simp_all add: w'_def)
  moreover have "rooted env ts root w'" using ro by (simp add: rooted_def w'_def)
  moreover have "locks_free r w'" using fr by (simp add: w'_def)
  ultimately have "lstored env ts root r w k x (Inr w')"
    unfolding lstored_def grown_def using st frame_lframe [OF st(2)] heads_refl by blast
  with wr show thesis by (intro that [of w']) (simp_all add: w'_def)
qed

text \<open>The leaf is full after the store.\<close>

lemma leaf_store_full:
  assumes pre: "leaf_pre env root r fuel (Suc n) ts w xs p ys k fc"
    and pg: "mem w p = Some (LeafP page)" "page_ok 0 (LeafP page)"
    and c: "Suc c = calls ts 0 ys"
    and lr: "lock_and_read_page p (lock_addr_of env p) (thread_tag env) w
       = Inr (LeafP page, w\<lparr>local_locks := lk, chip := ch\<rparr>)"
    and held: "lock_held (c + r) (lock_addr_of env p) (w\<lparr>local_locks := lk, chip := ch\<rparr>)"
    and k: "lowest (lp_hdr page) \<le> k" "k < highest (lp_hdr page)"
    and put: "leaf_put (lp_records page) k v = Inr (rs, i, kLeafCardinality)"
    and split: "\<And>sib. \<exists>p' s sk. leaf_split (page\<lparr>lp_records := rs\<rparr>) kLeafCardinality sib = Inr (p', s, sk)
         \<and> lowest (lp_hdr page) < sk \<and> sk < highest (lp_hdr page)
         \<and> page_ok 0 (LeafP (leaf_set_consistent p')) \<and> page_ok 0 (LeafP s)
         \<and> lowest (lp_hdr p') = lowest (lp_hdr page) \<and> highest (lp_hdr p') = sk
         \<and> sibling_ptr (lp_hdr p') = sib
         \<and> lowest (lp_hdr s) = sk \<and> highest (lp_hdr s) = highest (lp_hdr page)
         \<and> sibling_ptr (lp_hdr s) = sibling_ptr (lp_hdr page)
         \<and> leaf_lookup (lp_records p') ++ leaf_lookup (lp_records s)
             = (leaf_lookup (lp_records page))(k := x)"
  shows "\<exists>w'. leaf_page_store env fuel (Suc n) p k v root 0 fc w = Inr (True, w')
    \<and> lstored env ts root r w k x (Inr w')"
proof -
  note d = leaf_preD [OF pre]
  have pos: "0 < length ts" using d(1) by (auto simp: winv_def blink_def)
  let ?w1 = "w\<lparr>local_locks := lk, chip := ch\<rparr>"
  have wi1: "winv env ts ?w1" using d(1) by simp
  have pg1: "mem ?w1 p = Some (LeafP page)" using pg(1) by simp
  have room: "alloc_room env (Suc (length ts)) ?w1" using d(11) by simp
  obtain b w2 page2 sib w4 where
    al: "tree_alloc env kLeafPageSize ?w1 = Inr (b, w2)"
    and sp: "leaf_split (page\<lparr>lp_records := rs\<rparr>) kLeafCardinality b = Inr (page2, sib, low (mem w4) b)"
    and wr: "write_page_and_unlock p (WholePage (LeafP (leaf_set_consistent page2)))
       (lock_addr_of env p) (write_page b (LeafP sib) w2) = Inr w4"
    and w4: "winv env (ts[0 := xs @ p # b # ys]) w4" "frame ?w1 w4" "cells w4 = cells ?w1"
      "network w4 = network ?w1" "locks_free (c + r) w4" "alloc_room env (length ts) w4"
    and sk: "low (mem ?w1) p < low (mem w4) b" "low (mem w4) b < kKeyMax"
    and low4: "\<forall>a. mem ?w1 a \<noteq> None \<longrightarrow> low (mem w4) a = low (mem ?w1) a"
    and cm: "chain_map (mem w4) (xs @ p # b # ys) = (chain_map (mem ?w1) (ts ! 0))(k := x)"
    by (rule leaf_store_split [OF wi1 d(4) pg1 pg(2) k held room split])
  define ts1 where "ts1 = ts[0 := xs @ p # b # ys]"
  have wf4: "winv env ts1 w4" "frame w w4" "cells w4 = cells w" "network w4 = network w"
    using w4 by (simp_all add: ts1_def frame_def node_roots_def)
  have co: "cache_ok ts1 w4"
    by (rule cache_ok_mono [OF d(6)]) (use wf4(2) d(4) pos in \<open>auto simp: frame_def ts1_def\<close>)
  have hd1: "heads ts ts1" unfolding ts1_def by (rule heads_split [OF d(4)])
  have cm1: "chain_map (mem w4) (ts1 ! 0) = (chain_map (mem w) (ts ! 0))(k := x)"
    using cm pos by (simp add: ts1_def)
  have eq: "leaf_page_store env fuel (Suc n) p k v root 0 fc w =
      rbind (after_split env fuel p (low (mem w4) b) b root fc w4) (\<lambda>w6. Inr (True, w6))"
    by (rule leaf_store_lock(4) [OF d(1) pg(2) lr k put al sp wr])
  have "lstored env ts root r w k x (after_split env fuel p (low (mem w4) b) b root fc w4)"
  proof (cases fc)
    case False
    have pf: "leaf_pre env root r fuel (Suc n) ts w xs p ys k False" using pre False by simp
    have "stored env ts1 root r w4 (after_split env fuel p (low (mem w4) b) b root False w4)"
      by (rule after_split_path [OF pf c ts1_def wf4 w4(5,6)]) (use sk low4 in auto)
    from lstored_via [OF this frame_lframe [OF wf4(2)] _ hd1 wf4(4) co cm1] show ?thesis
      using False by (simp add: ts1_def)
  next
    case True
    have pt: "leaf_pre env root r fuel (Suc n) ts w xs p ys k True" using pre True by simp
    obtain w5 where wk: "walked w4 w5" and co5: "cache_ok ts1 w5"
      and st: "stored env ts1 root r w5 (after_split env fuel p (low (mem w4) b) b root True w4)"
      using after_split_cached [OF pt c ts1_def wf4 w4(5,6)] sk by auto
    note same = walked_same [OF wk]
    have "lframe w w5" using wf4(2) same by (simp add: lframe_def frame_def node_roots_def)
    from lstored_via [OF st this _ hd1 _ co5] show ?thesis
      using True same wf4(4) cm1 by (simp add: ts1_def)
  qed
  moreover from this obtain w' where "after_split env fuel p (low (mem w4) b) b root fc w4 = Inr w'"
    unfolding lstored_def by blast
  ultimately show ?thesis unfolding eq by simp
qed

text \<open>The store, from any leaf that a walk or the cache gives.\<close>

lemma leaf_page_store_step:
  assumes pre: "leaf_pre env root r fuel (Suc n) ts w xs p ys k fc" and r: "Suc c = calls ts 0 ys"
    and IH: "\<And>w xs p ys fc. leaf_pre env root r fuel n ts w xs p ys k fc \<Longrightarrow>
      lres env ts root r (calls ts 0 ys - 1) w k (val_opt v) fc (leaf_page_store env fuel n p k v root 0 fc w)"
  shows "lres env ts root r c w k (val_opt v) fc (leaf_page_store env fuel (Suc n) p k v root 0 fc w)"
proof -
  note d = leaf_preD [OF pre]
  have free: "locks_free (Suc (c + r)) w" using d(10) by (simp flip: r)
  obtain page lk ch where pg: "mem w p = Some (LeafP page)" "page_ok 0 (LeafP page)"
    and lowp: "low (mem w) p = lowest (lp_hdr page)"
    and lr: "lock_and_read_page p (lock_addr_of env p) (thread_tag env) w
       = Inr (LeafP page, w\<lparr>local_locks := lk, chip := ch\<rparr>)"
    and held: "lock_held (c + r) (lock_addr_of env p) (w\<lparr>local_locks := lk, chip := ch\<rparr>)"
    by (rule leaf_begin [OF d(1,4) free])
  obtain lk2 ch2 where un: "unlock_addr (lock_addr_of env p) (w\<lparr>local_locks := lk, chip := ch\<rparr>)
      = w\<lparr>local_locks := lk, chip := ch\<rparr>\<lparr>local_locks := lk2, chip := ch2\<rparr>"
    and fr2: "locks_free (c + r) (w\<lparr>local_locks := lk, chip := ch\<rparr>\<lparr>local_locks := lk2, chip := ch2\<rparr>)"
    by (rule unlock_addr_ok [OF held])
  let ?w2 = "w\<lparr>local_locks := lk2, chip := ch2\<rparr>"
  consider (stale) "fc" "k < lowest (lp_hdr page) \<or> highest (lp_hdr page) \<le> k"
    | (right) "\<not> fc" "highest (lp_hdr page) \<le> k"
    | (here) "lowest (lp_hdr page) \<le> k" "k < highest (lp_hdr page)"
    using d(12) lowp by force
  then show ?thesis
  proof cases
    case stale
    have "leaf_page_store env fuel (Suc n) p k v root 0 fc w = Inr (False, ?w2)"
      using leaf_store_lock(1) [OF d(1) pg(2) lr stale] un by simp
    with lres_staleI [where w = w, OF stale(1)] fr2 show ?thesis by simp
  next
    case right
    obtain b ys' where b: "ys = b # ys'" "sibling_ptr (lp_hdr page) = b" "b \<noteq> gaddr_null"
      "low (mem w) b = highest (lp_hdr page)" "ts ! 0 = (xs @ [p]) @ b # ys'"
      "low (mem w) p < low (mem w) b"
      by (rule leaf_right [OF d(1,4) pg right(2) d(5)])
    have cb: "calls ts 0 ys' = c" using r b(1) by (simp add: calls_Cons)
    have pb: "path_ok (mem w) ts (path_stack w) (Suc 0) (low (mem w) b)"
      using path_ok_weaken [OF d(13) [OF right(1)]] b(6) by simp
    have co: "cache_ok ts ?w2" by (rule cache_ok_mono [OF d(6)]) simp_all
    have root: "get_root_ptr env ?w2 = root" using d(7) by simp
    have "leaf_pre env root r fuel n ts ?w2 (xs @ [p]) b ys' k False"
      unfolding leaf_pre_def using d(1,2,3,5,8,9,11) fr2 right b pb co root cb r by simp
    from IH [OF this] have "\<exists>w'. leaf_page_store env fuel n b k v root 0 False ?w2 = Inr (True, w')
        \<and> lstored env ts root r w k (val_opt v) (Inr w')"
      by (simp add: lres_False lstored_upd_locks)
    moreover have "leaf_page_store env fuel (Suc n) p k v root 0 fc w =
        rbind (leaf_page_store env fuel n b k v root 0 False ?w2) (\<lambda>(r, w3). Inr (True, w3))"
      using leaf_store_lock(2) [OF d(1) pg(2) lr right] un b by simp
    ultimately show ?thesis using lresI by auto
  next
    case here
    from pg(2) here show ?thesis
    proof (cases rule: leaf_store_page [where v = v])
      case (put rs i cnt)
      have held': "lock_held r (lock_addr_of env p) (w\<lparr>local_locks := lk, chip := ch\<rparr>)"
        by (rule lock_held_mono [OF held]) simp
      obtain w' where "write_page_and_unlock p (LeafRecord i (rs ! i)) (lock_addr_of env p)
          (w\<lparr>local_locks := lk, chip := ch\<rparr>) = Inr w'"
        "lstored env ts root r w k (val_opt v) (Inr w')"
        by (rule leaf_write_record [OF d(1,2,6,4) pg(1) held' put(3,4) here put(5)])
      with leaf_store_lock(3) [OF d(1) pg(2) lr here put(1,2)] show ?thesis by (simp add: lresI)
    next
      case (split rs i)
      from leaf_store_full [OF pre pg r lr held here split] show ?thesis using lresI by auto
    qed
  qed
qed

lemma leaf_page_store_ok:
  "leaf_pre env root r fuel n ts w xs p ys k fc \<Longrightarrow>
   lres env ts root r (calls ts 0 ys - 1) w k (val_opt v) fc (leaf_page_store env fuel n p k v root 0 fc w)"
proof (induction n arbitrary: w xs p ys fc)
  case 0
  from leaf_preD(8) [OF 0] calls_pos [of ts 0 ys] show ?case by simp
next
  case (Suc n)
  show ?case
    by (rule leaf_page_store_step [OF Suc.prems _ Suc.IH]) (use calls_pos [of ts 0 ys] in simp)
qed

end
