(* ===== verification/LeafDel.thy ===== *)
theory LeafDel
  imports LeafStore
begin

text \<open>\<^verbatim>\<open>leaf_page_del\<close>, by the same steps as the store; it allocates nothing and needs no
  path.\<close>

definition del_pre :: "tree_env \<Rightarrow> GlobalAddress \<Rightarrow> nat \<Rightarrow> nat \<Rightarrow> GlobalAddress list list \<Rightarrow> World
    \<Rightarrow> GlobalAddress list \<Rightarrow> GlobalAddress \<Rightarrow> GlobalAddress list \<Rightarrow> key \<Rightarrow> bool \<Rightarrow> bool" where
  "del_pre env root r n ts w xs p ys k fc \<longleftrightarrow>
     winv env ts w \<and> rooted env ts root w \<and> ts ! 0 = xs @ p # ys \<and> k < kKeyMax \<and> cache_ok ts w
     \<and> length ys < n \<and> locks_free (Suc (length ys + r)) w \<and> (\<not> fc \<longrightarrow> low (mem w) p \<le> k)"

lemma del_preD:
  assumes "del_pre env root r n ts w xs p ys k fc"
  shows "winv env ts w" "rooted env ts root w" "ts ! 0 = xs @ p # ys" "k < kKeyMax" "cache_ok ts w"
    "length ys < n" "locks_free (Suc (length ys + r)) w" "\<not> fc \<Longrightarrow> low (mem w) p \<le> k"
  using assms by (simp_all add: del_pre_def)

lemma leaf_del_lock:
  assumes "winv env ts w" "page_ok 0 (LeafP page)"
    and "lock_and_read_page p (lock_addr_of env p) (thread_tag env) w = Inr (LeafP page, w1)"
  shows "fc \<Longrightarrow> k < lowest (lp_hdr page) \<or> highest (lp_hdr page) \<le> k \<Longrightarrow>
      leaf_page_del env (Suc n) p k 0 fc w = Inr (False, unlock_addr (lock_addr_of env p) w1)"
    and "\<not> fc \<Longrightarrow> highest (lp_hdr page) \<le> k \<Longrightarrow> sibling_ptr (lp_hdr page) \<noteq> gaddr_null \<Longrightarrow>
      leaf_page_del env (Suc n) p k 0 fc w =
      rbind (leaf_page_del env n (sibling_ptr (lp_hdr page)) k 0 False
          (unlock_addr (lock_addr_of env p) w1)) (\<lambda>(r, w3). Inr (True, w3))"
    and "lowest (lp_hdr page) \<le> k \<Longrightarrow> k < highest (lp_hdr page) \<Longrightarrow>
      leaf_del (lp_records page) k = None \<Longrightarrow>
      leaf_page_del env (Suc n) p k 0 fc w = Inr (True, unlock_addr (lock_addr_of env p) w1)"
    and "lowest (lp_hdr page) \<le> k \<Longrightarrow> k < highest (lp_hdr page) \<Longrightarrow>
      leaf_del (lp_records page) k = Some (rs, i) \<Longrightarrow>
      leaf_page_del env (Suc n) p k 0 fc w =
        rbind (write_page_and_unlock p (LeafRecord i (rs ! i)) (lock_addr_of env p) w1)
          (\<lambda>w2. Inr (True, w2))"
proof -
  have tag: "thread_tag env \<noteq> 0" using assms(1) by (simp add: winv_def)
  have l: "level (lp_hdr page) = 0" "leaf_check_consistent page" using assms(2) by simp_all
  note u = leaf_page_del.simps(2) Let_def assms(3) as_leaf_def
  show "fc \<Longrightarrow> k < lowest (lp_hdr page) \<or> highest (lp_hdr page) \<le> k \<Longrightarrow>
      leaf_page_del env (Suc n) p k 0 fc w = Inr (False, unlock_addr (lock_addr_of env p) w1)"
    using tag l by (auto simp: u)
  show "\<not> fc \<Longrightarrow> highest (lp_hdr page) \<le> k \<Longrightarrow> sibling_ptr (lp_hdr page) \<noteq> gaddr_null \<Longrightarrow>
      leaf_page_del env (Suc n) p k 0 fc w =
      rbind (leaf_page_del env n (sibling_ptr (lp_hdr page)) k 0 False
          (unlock_addr (lock_addr_of env p) w1)) (\<lambda>(r, w3). Inr (True, w3))"
    using tag l by (simp add: u)
  show "lowest (lp_hdr page) \<le> k \<Longrightarrow> k < highest (lp_hdr page) \<Longrightarrow>
      leaf_del (lp_records page) k = None \<Longrightarrow>
      leaf_page_del env (Suc n) p k 0 fc w = Inr (True, unlock_addr (lock_addr_of env p) w1)"
    using tag l by (auto simp: u)
  show "lowest (lp_hdr page) \<le> k \<Longrightarrow> k < highest (lp_hdr page) \<Longrightarrow>
      leaf_del (lp_records page) k = Some (rs, i) \<Longrightarrow>
      leaf_page_del env (Suc n) p k 0 fc w =
        rbind (write_page_and_unlock p (LeafRecord i (rs ! i)) (lock_addr_of env p) w1)
          (\<lambda>w2. Inr (True, w2))"
    using tag l by (auto simp: u)
qed

text \<open>Nothing to delete: only the locks change.\<close>

lemma lstored_idle:
  assumes wi: "winv env ts w" and ro: "rooted env ts root w" and co: "cache_ok ts w"
    and ts0: "ts ! 0 = xs @ p # ys" and pg: "mem w p = Some (LeafP page)"
    and k: "lowest (lp_hdr page) \<le> k" "k < highest (lp_hdr page)"
    and none: "(leaf_lookup (lp_records page))(k := None) = leaf_lookup (lp_records page)"
    and fr: "locks_free r (w\<lparr>local_locks := lk, chip := ch\<rparr>)"
  shows "lstored env ts root r w k None (Inr (w\<lparr>local_locks := lk, chip := ch\<rparr>))"
proof -
  have pos: "0 < length ts" using wi by (auto simp: winv_def blink_def)
  have "chain_map (mem w) (xs @ p # ys) k = leaf_map (Some (LeafP page)) k"
    by (rule chain_map_at [OF winv_seg [OF wi pos ts0] pg]) (use k in simp_all)
  moreover have "leaf_lookup (lp_records page) k = None" using none by (metis fun_upd_same)
  ultimately have "(chain_map (mem w) (ts ! 0))(k := None) = chain_map (mem w) (ts ! 0)"
    using ts0 by (simp add: fun_upd_idem)
  moreover have "cache_ok ts (w\<lparr>local_locks := lk, chip := ch\<rparr>)"
    by (rule cache_ok_mono [OF co]) simp_all
  ultimately show ?thesis unfolding lstored_def grown_def
    using wi ro fr by (intro exI [of _ "w\<lparr>local_locks := lk, chip := ch\<rparr>"] exI [of _ ts] exI [of _ root])
      (simp add: lframe_def node_roots_def)
qed

lemma leaf_page_del_step:
  assumes pre: "del_pre env root r (Suc n) ts w xs p ys k fc"
    and IH: "\<And>w xs p ys. del_pre env root r n ts w xs p ys k False \<Longrightarrow>
      lres env ts root r (length ys) w k None False (leaf_page_del env n p k 0 False w)"
  shows "lres env ts root r (length ys) w k None fc (leaf_page_del env (Suc n) p k 0 fc w)"
proof -
  note d = del_preD [OF pre]
  obtain page lk ch where pg: "mem w p = Some (LeafP page)" "page_ok 0 (LeafP page)"
    and lowp: "low (mem w) p = lowest (lp_hdr page)"
    and lr: "lock_and_read_page p (lock_addr_of env p) (thread_tag env) w
       = Inr (LeafP page, w\<lparr>local_locks := lk, chip := ch\<rparr>)"
    and held: "lock_held (length ys + r) (lock_addr_of env p) (w\<lparr>local_locks := lk, chip := ch\<rparr>)"
    by (rule leaf_begin [OF d(1,3,7)])
  obtain lk2 ch2 where un: "unlock_addr (lock_addr_of env p) (w\<lparr>local_locks := lk, chip := ch\<rparr>)
      = w\<lparr>local_locks := lk, chip := ch\<rparr>\<lparr>local_locks := lk2, chip := ch2\<rparr>"
    and fr2: "locks_free (length ys + r)
      (w\<lparr>local_locks := lk, chip := ch\<rparr>\<lparr>local_locks := lk2, chip := ch2\<rparr>)"
    by (rule unlock_addr_ok [OF held])
  let ?w2 = "w\<lparr>local_locks := lk2, chip := ch2\<rparr>"
  consider (stale) "fc" "k < lowest (lp_hdr page) \<or> highest (lp_hdr page) \<le> k"
    | (right) "\<not> fc" "highest (lp_hdr page) \<le> k"
    | (here) "lowest (lp_hdr page) \<le> k" "k < highest (lp_hdr page)"
    using d(8) lowp by force
  then show ?thesis
  proof cases
    case stale
    have "leaf_page_del env (Suc n) p k 0 fc w = Inr (False, ?w2)"
      using leaf_del_lock(1) [OF d(1) pg(2) lr stale] un by simp
    with lres_staleI [where w = w, OF stale(1)] fr2 show ?thesis by simp
  next
    case right
    obtain b ys' where b: "ys = b # ys'" "sibling_ptr (lp_hdr page) = b" "b \<noteq> gaddr_null"
      "low (mem w) b = highest (lp_hdr page)" "ts ! 0 = (xs @ [p]) @ b # ys'"
      "low (mem w) p < low (mem w) b"
      by (rule leaf_right [OF d(1,3) pg right(2) d(4)])
    have co: "cache_ok ts ?w2" by (rule cache_ok_mono [OF d(5)]) simp_all
    have "del_pre env root r n ts ?w2 (xs @ [p]) b ys' k False"
      unfolding del_pre_def using d(1,2,4,6) fr2 right b co by simp
    from IH [OF this] have "\<exists>w'. leaf_page_del env n b k 0 False ?w2 = Inr (True, w')
        \<and> lstored env ts root r w k None (Inr w')"
      by (simp add: lres_False lstored_upd_locks)
    moreover have "leaf_page_del env (Suc n) p k 0 fc w =
        rbind (leaf_page_del env n b k 0 False ?w2) (\<lambda>(r, w3). Inr (True, w3))"
      using leaf_del_lock(2) [OF d(1) pg(2) lr right] un b by simp
    ultimately show ?thesis using lresI by auto
  next
    case here
    have held': "lock_held r (lock_addr_of env p) (w\<lparr>local_locks := lk, chip := ch\<rparr>)"
      by (rule lock_held_mono [OF held]) simp
    from pg(2) show ?thesis
    proof (cases rule: leaf_del_page [where k = k])
      case none
      have "locks_free r ?w2" using locks_free_mono [OF fr2, of r] by simp
      from lstored_idle [OF d(1,2,5,3) pg(1) here none(2) this]
        leaf_del_lock(3) [OF d(1) pg(2) lr here none(1)] un
      show ?thesis by (simp add: lresI)
    next
      case (del rs i)
      obtain w' where "write_page_and_unlock p (LeafRecord i (rs ! i)) (lock_addr_of env p)
          (w\<lparr>local_locks := lk, chip := ch\<rparr>) = Inr w'"
        "lstored env ts root r w k None (Inr w')"
        by (rule leaf_write_record [OF d(1,2,5,3) pg(1) held' del(2,3) here del(4)])
      with leaf_del_lock(4) [OF d(1) pg(2) lr here del(1)] show ?thesis by (simp add: lresI)
    qed
  qed
qed

lemma leaf_page_del_ok:
  "del_pre env root r n ts w xs p ys k fc \<Longrightarrow>
   lres env ts root r (length ys) w k None fc (leaf_page_del env n p k 0 fc w)"
proof (induction n arbitrary: w xs p ys fc)
  case 0
  then show ?case by (simp add: del_pre_def)
next
  case (Suc n)
  show ?case by (rule leaf_page_del_step [OF Suc.prems Suc.IH])
qed

end
