(* ===== verification/TreeRoot.thy ===== *)
theory TreeRoot
  imports LeafDel
begin

text \<open>
  The operations up to the choice between the cache and the root: the walks may start at any
  root that the tree once had, since an outdated root is the leftmost page of its level.
\<close>

section \<open>Starting at an old root\<close>

lemma blink_take:
  assumes "blink m ts" "l < length ts"
  shows "blink m (take (Suc l) ts)"
  using assms by (auto simp: blink_def)

lemma winv_take: "winv env ts w \<Longrightarrow> l < length ts \<Longrightarrow> winv env (take (Suc l) ts) w"
  by (simp add: winv_def blink_take)

lemma cache_ok_take: "l < length ts \<Longrightarrow> cache_ok (take (Suc l) ts) w = cache_ok ts w"
  by (simp add: cache_ok_def)

lemma sum_list_take_le: "sum_list (take n xs) \<le> sum_list (xs :: nat list)"
  using sum_list_append [of "take n xs" "drop n xs"] by simp

lemma steps_root:
  assumes "l < length ts" "ts ! l = p # ys"
  shows "steps (take (Suc l) ts) l ys \<le> tree_pages ts"
proof -
  have "steps (take (Suc l) ts) l ys = sum_list (take (Suc l) (map length ts))"
    using assms by (simp add: steps_def take_map take_Suc_conv_app_nth)
  then show ?thesis using sum_list_take_le [of "Suc l" "map length ts"] by (simp add: tree_pages_def)
qed

lemma blink_hd:
  assumes "blink m ts" "l < length ts"
  obtains ys where "ts ! l = hd (ts ! l) # ys" "low m (hd (ts ! l)) = kKeyMin"
proof -
  have lc: "level_chain m l (ts ! l)" using assms by (simp add: blink_def)
  then obtain a ys where a: "ts ! l = a # ys" by (cases "ts ! l") (auto simp: level_chain_def)
  with lc have "low m a = kKeyMin" by (auto simp: level_chain_def low_def hdr_at_def)
  with a that show thesis by simp
qed

text \<open>The walk from a root that the tree once had.\<close>

lemma walk_from_root:
  assumes wi: "winv env ts w" and co: "cache_ok ts w" and l: "l < length ts" and k: "k < kKeyMax"
    and room: "cache_room env (tree_pages ts + c) w"
  obtains ys where "walk_pre env c (take (Suc l) ts) w l [] (hd (ts ! l)) ys k"
    "steps (take (Suc l) ts) l ys \<le> tree_pages ts"
proof -
  have bl: "blink (mem w) ts" using wi by (simp add: winv_def)
  obtain ys where ys: "ts ! l = hd (ts ! l) # ys" "low (mem w) (hd (ts ! l)) = kKeyMin"
    by (rule blink_hd [OF bl l])
  have st: "steps (take (Suc l) ts) l ys \<le> tree_pages ts" by (rule steps_root [OF l ys(1)])
  have "cache_room env (steps (take (Suc l) ts) l ys + c) w"
    by (rule cache_room_mono [OF room]) (use st in simp)
  then have "walk_pre env c (take (Suc l) ts) w l [] (hd (ts ! l)) ys k"
    unfolding walk_pre_def
    using winv_take [OF wi l] cache_ok_take [OF l] co l k ys path_ok_top [of "take (Suc l) ts" "Suc l"]
    by simp
  with st that show thesis by blast
qed

lemma search_from_root:
  assumes "winv env ts w" "cache_ok ts w" "l < length ts" "k < kKeyMax"
    "cache_room env (tree_pages ts) w" "tree_pages ts \<le> n"
  obtains w' where "search_loop env n (hd (ts ! l)) root None k w
      = Inr (chain_map (mem w) (ts ! 0) k, w')" "walked w w'" "winv env ts w'" "cache_ok ts w'"
proof -
  have room: "cache_room env (tree_pages ts + 0) w" using assms(5) by simp
  obtain ys where wp: "walk_pre env 0 (take (Suc l) ts) w l [] (hd (ts ! l)) ys k"
    and st: "steps (take (Suc l) ts) l ys \<le> tree_pages ts"
    by (rule walk_from_root [OF assms(1-4) room])
  have "steps (take (Suc l) ts) l ys \<le> n" using st assms(6) by simp
  from search_loop_ok [OF wp this, of root] obtain w' where w':
    "search_loop env n (hd (ts ! l)) root None k w = Inr (chain_map (mem w) (take (Suc l) ts ! 0) k, w')"
    "walked w w'" "winv env (take (Suc l) ts) w'" "cache_ok (take (Suc l) ts) w'" by blast
  have "winv env ts w'" using assms(1) w'(2,3) walked_same [OF w'(2)]
    by (simp add: winv_def alloc_inv_def)
  with w' that show thesis using cache_ok_take [OF assms(3)] by simp
qed

text \<open>The descent of \<^verbatim>\<open>insert\<close> and \<^verbatim>\<open>del\<close>.\<close>

lemma descend_from_root:
  assumes wi: "winv env ts w" and co: "cache_ok ts w" and l: "l < length ts" and k: "k < kKeyMax"
    and room: "cache_room env (tree_pages ts) w" and n: "tree_pages ts \<le> n"
  obtains a w' xs ys where "descend_to_leaf env n (hd (ts ! l)) k w = Inr (a, w')" "walked w w'"
    "ts ! 0 = xs @ a # ys" "low (mem w) a \<le> k" "winv env ts w'" "cache_ok ts w'"
    "Suc l = length ts \<longrightarrow> path_ok (mem w) ts (path_stack w') (Suc 0) (low (mem w) a)"
proof -
  have room0: "cache_room env (tree_pages ts + 0) w" using room by simp
  obtain ys where wp: "walk_pre env 0 (take (Suc l) ts) w l [] (hd (ts ! l)) ys k"
    and st: "steps (take (Suc l) ts) l ys \<le> tree_pages ts"
    by (rule walk_from_root [OF wi co l k room0])
  have "steps (take (Suc l) ts) l ys \<le> n" using st n by simp
  from descend_to_leaf_ok [OF wp this] obtain a w' xs' ys' where w':
    "descend_to_leaf env n (hd (ts ! l)) k w = Inr (a, w')" "walked w w'"
    "take (Suc l) ts ! 0 = xs' @ a # ys'" "low (mem w) a \<le> k" "winv env (take (Suc l) ts) w'"
    "cache_ok (take (Suc l) ts) w'"
    "path_ok (mem w) (take (Suc l) ts) (path_stack w') (Suc 0) (low (mem w) a)" by blast
  have "winv env ts w'" using wi w'(5) walked_same [OF w'(2)]
    by (simp add: winv_def alloc_inv_def)
  moreover have "take (Suc l) ts = ts" if "Suc l = length ts" using that by simp
  ultimately show thesis using w' cache_ok_take [OF l] by (intro that [of a w' xs' ys']) auto
qed

section \<open>The cache\<close>

text \<open>A hit leads to a leaf of the tree, though perhaps not to the one that now covers the
  key.\<close>

lemma page_cached_bump: "page_cached leaves p \<Longrightarrow> page_cached leaves (bump_freq p)"
  by (simp add: page_cached_def routable_def kids_def entries_def internal_wf_def)

lemma page_cached_routable: "page_cached leaves p \<Longrightarrow> routable p"
  by (simp add: page_cached_def)

lemma search_cache_ok:
  assumes co: "cache_ok ts w"
  obtains (miss) ic where "search_cache env k w = Inr (None, w\<lparr>index_cache := ic\<rparr>)"
      "cache_ok ts (w\<lparr>index_cache := ic\<rparr>)" "free_page_cnt (index_cache w) \<le> free_page_cnt ic"
  | (hit) h a ic where "search_cache env k w = Inr (Some (h, a), w\<lparr>index_cache := ic\<rparr>)"
      "cache_ok ts (w\<lparr>index_cache := ic\<rparr>)" "free_page_cnt (index_cache w) \<le> free_page_cnt ic"
      "a \<in> set (ts ! 0)"
proof -
  have ci: "cache_inv (page_cached (ts ! 0)) (index_cache w)" using co by (simp add: cache_ok_def)
  show thesis
  proof (rule search_from_cache_spec [where env = "cenv env" and k = k and b = "is_leader env",
        OF ci page_cached_bump page_cached_routable])
    fix c'
    assume "search_from_cache (cenv env) k (is_leader env) (index_cache w) = Inr (None, c')"
      "cache_inv (page_cached (ts ! 0)) c'" "free_page_cnt (index_cache w) \<le> free_page_cnt c'"
    then show thesis by (intro miss [of c']) (simp_all add: search_cache_def cache_ok_def)
  next
    fix h a c' p
    assume *: "search_from_cache (cenv env) k (is_leader env) (index_cache w) = Inr (Some (h, a), c')"
      "cache_inv (page_cached (ts ! 0)) c'" "free_page_cnt (index_cache w) \<le> free_page_cnt c'"
      "page_cached (ts ! 0) p" "a = route_ref p k" "lowest (ip_hdr p) \<le> k" "k < highest (ip_hdr p)"
    obtain n where wf: "internal_wf p n" using *(4) by (auto simp: page_cached_def routable_def)
    obtain s where "(s, route_ref p k) \<in> set (kids p)"
      using records_route_eq(2) [OF wf] *(6,7) by blast
    then have "a \<in> set (ts ! 0)" using *(4,5) by (force simp: page_cached_def)
    with * show thesis by (intro hit [of h a c']) (simp_all add: search_cache_def cache_ok_def)
  qed assumption+
qed

lemma invalidate_entry_ok:
  "cache_ok ts w \<Longrightarrow> cache_ok ts (invalidate_entry env h w)"
  by (simp add: cache_ok_def invalidate_entry_def invalidate_inv)

text \<open>Searching the leaf that a hit gave.\<close>

lemma page_search_cached:
  assumes wi: "winv env ts w" and a: "ts ! 0 = xs @ a # ys"
  obtains (stale) res where
      "page_search env a k True w = Inr ((False, res), visited 0 a (index_cache w) w)"
  | (found) res where
      "page_search env a k True w = Inr ((True, res), visited 0 a (index_cache w) w)"
      "sr_is_leaf res" "sr_slibing res = gaddr_null"
      "sr_val res = (case chain_map (mem w) (ts ! 0) k of None \<Rightarrow> kValueNull | Some v \<Rightarrow> v)"
proof -
  have pos: "0 < length ts" using wi by (auto simp: winv_def blink_def)
  obtain page where pg: "mem w a = Some (LeafP page)" "page_ok 0 (LeafP page)"
    by (rule leaf_of [OF wi a])
  have h: "leftmost_ptr (lp_hdr page) = gaddr_null" "level (lp_hdr page) = 0"
    "leaf_check_consistent page" using pg(2) by simp_all
  let ?r0 = "\<lparr>sr_is_leaf = True, sr_level = 0, sr_slibing = gaddr_null, sr_next_level = gaddr_null, sr_val = 0\<rparr>"
  have eq: "page_search env a k True w =
    rbind (page_search_leaf page k True ?r0) (\<lambda>r. Inr (r, visited 0 a (index_cache w) w))"
    using h pg(1) by (simp add: page_search_def read_page_def set_path_def kMaxLevelOfTree_def
        visited_def Let_def)
  show thesis
  proof (cases "k < lowest (lp_hdr page) \<or> highest (lp_hdr page) \<le> k")
    case True
    then have "page_search_leaf page k True ?r0 = Inr (False, ?r0)"
      using h by (simp add: page_search_leaf_def)
    with eq stale show thesis by simp
  next
    case False
    then have k: "lowest (lp_hdr page) \<le> k" "k < highest (lp_hdr page)" by auto
    then have "page_search_leaf page k True ?r0 = Inr (True, ?r0\<lparr>sr_val := leaf_page_search page k\<rparr>)"
      using h False by (simp add: page_search_leaf_def)
    moreover have "chain_map (mem w) (xs @ a # ys) k = leaf_map (Some (LeafP page)) k"
      by (rule chain_map_at [OF winv_seg [OF wi pos a] pg(1)]) (use k in simp_all)
    ultimately show thesis using eq a
      by (intro found [of "?r0\<lparr>sr_val := leaf_page_search page k\<rparr>"]) (simp_all add: leaf_page_search_eq)
  qed
qed

end
