(* ===== verification/TreeCorrect.thy ===== *)
theory TreeCorrect
  imports TreeRoot
begin

text \<open>
  The client interface implements a map. \<open>sys_ok\<close> is the invariant between operations: the
  shape of the tree, the cache, and what the nodes and the messages under way know about the
  root. \<^verbatim>\<open>search\<close> and \<^verbatim>\<open>del\<close> work from any root the tree once had;
  \<^verbatim>\<open>insert\<close> needs the present one, which is there once the announcement of it has been
  delivered.
\<close>

section \<open>The invariant between operations\<close>

text \<open>\<open>a\<close> was announced as the root of level \<open>lv\<close>.\<close>

definition root_entry :: "GlobalAddress list list \<Rightarrow> GlobalAddress \<Rightarrow> int \<Rightarrow> bool" where
  "root_entry ts a lv \<longleftrightarrow> 0 < lv \<and> nat lv < length ts \<and> a = hd (ts ! nat lv)"

definition node_root_ok :: "GlobalAddress list list \<Rightarrow> node_state \<Rightarrow> bool" where
  "node_root_ok ts s \<longleftrightarrow> cache_switch_inv s \<and>
     (g_root_ptr s = gaddr_null \<and> g_root_level s = - 1 \<or> root_entry ts (g_root_ptr s) (g_root_level s))"

definition msg_ok :: "GlobalAddress list list \<Rightarrow> RawMessage \<Rightarrow> bool" where
  "msg_ok ts m \<longleftrightarrow> rm_type m = NEW_ROOT \<and> root_entry ts (rm_addr m) (rm_level m)"

text \<open>Every node knows the present root, or will.\<close>

definition announced :: "GlobalAddress list list \<Rightarrow> World \<Rightarrow> bool" where
  "announced ts w \<longleftrightarrow> length ts = 1 \<or> (\<forall>n < length (nodes w).
     g_root_level (nodes w ! n) = int (length ts) - 1
     \<or> (\<exists>m. (n, m) \<in> set (network w) \<and> rm_level m = int (length ts) - 1))"

definition sys_ok :: "tree_env \<Rightarrow> GlobalAddress list list \<Rightarrow> World \<Rightarrow> bool" where
  "sys_ok env ts w \<longleftrightarrow> winv env ts w \<and> rooted env ts (hd (last ts)) w \<and> cache_ok ts w
     \<and> (\<forall>s \<in> set (nodes w). node_root_ok ts s)
     \<and> (\<forall>(n, m) \<in> set (network w). n < length (nodes w) \<and> msg_ok ts m) \<and> announced ts w"

lemma sys_okD:
  assumes "sys_ok env ts w"
  shows "winv env ts w" "rooted env ts (hd (last ts)) w" "cache_ok ts w"
    "s \<in> set (nodes w) \<Longrightarrow> node_root_ok ts s"
    "(n, m) \<in> set (network w) \<Longrightarrow> n < length (nodes w)" "(n, m) \<in> set (network w) \<Longrightarrow> msg_ok ts m"
    "announced ts w"
  using assms by (auto simp: sys_ok_def)

text \<open>The map that the tree holds.\<close>

definition contents :: "GlobalAddress list list \<Rightarrow> World \<Rightarrow> key \<Rightarrow> val option" where
  "contents ts w = chain_map (mem w) (ts ! 0)"

text \<open>What one operation may use up.\<close>

definition enough :: "tree_env \<Rightarrow> nat \<Rightarrow> nat \<Rightarrow> GlobalAddress list list \<Rightarrow> World \<Rightarrow> bool" where
  "enough env fuel r ts w \<longleftrightarrow> length ts < kMaxLevelOfTree \<and> Suc (tree_pages ts) \<le> fuel
     \<and> alloc_room env (length ts + 1) w \<and> locks_free (Suc (tree_pages ts) + r) w
     \<and> cache_room env (Suc (tree_pages ts)) w"

lemma enough_mono: "enough env fuel r ts w \<Longrightarrow> r' \<le> r \<Longrightarrow> enough env fuel r' ts w"
  using locks_free_mono [of "Suc (tree_pages ts) + r" w] by (simp add: enough_def)

section \<open>What the node knows about the root\<close>

lemma root_entry_heads: "root_entry ts a lv \<Longrightarrow> heads ts ts' \<Longrightarrow> length ts \<le> length ts' \<Longrightarrow> root_entry ts' a lv"
  by (auto simp: root_entry_def heads_def)

lemma root_of_node:
  assumes ok: "sys_ok env ts w"
  obtains l where "l < length ts" "get_root_ptr env w = hd (ts ! l)"
    "my_enable_cache env w \<longrightarrow> 4 \<le> length ts"
proof -
  note d = sys_okD [OF ok]
  have my: "my_node env < length (nodes w)" and ne: "ts \<noteq> []"
    using d(1) by (auto simp: winv_def blink_def)
  let ?s = "nodes w ! my_node env"
  have nr: "node_root_ok ts ?s" using d(4) my by simp
  show thesis
  proof (cases "g_root_ptr ?s = gaddr_null \<and> g_root_level ?s = - 1")
    case True
    have "get_root_ptr env w = hd (last ts)"
      using True d(2) by (simp add: get_root_ptr_def my_state_def rooted_def)
    moreover have "\<not> my_enable_cache env w"
      using True nr by (simp add: my_enable_cache_def my_state_def node_root_ok_def cache_switch_inv_def)
    ultimately show thesis using ne by (intro that [of "length ts - 1"]) (auto simp: last_conv_nth)
  next
    case False
    then have re: "root_entry ts (g_root_ptr ?s) (g_root_level ?s)" using nr by (auto simp: node_root_ok_def)
    then have lv: "nat (g_root_level ?s) < length ts" "g_root_ptr ?s = hd (ts ! nat (g_root_level ?s))"
      by (simp_all add: root_entry_def)
    obtain ys where "ts ! nat (g_root_level ?s) = hd (ts ! nat (g_root_level ?s)) # ys"
      using blink_hd [of "mem w" ts "nat (g_root_level ?s)"] d(1) lv(1) by (auto simp: winv_def)
    then have "g_root_ptr ?s \<in> set (ts ! nat (g_root_level ?s))" using lv(2) by (metis list.set_intros(1))
    then have "g_root_ptr ?s \<noteq> gaddr_null"
      using blink_not_null [of "mem w" ts] d(1) lv(1) by (auto simp: winv_def)
    then have "get_root_ptr env w = hd (ts ! nat (g_root_level ?s))"
      using lv(2) by (simp add: get_root_ptr_def my_state_def)
    moreover have "my_enable_cache env w \<longrightarrow> 4 \<le> length ts"
      using nr re by (auto simp: my_enable_cache_def my_state_def node_root_ok_def cache_switch_inv_def
          root_entry_def)
    ultimately show thesis using lv(1) that by blast
  qed
qed

text \<open>With no message under way to it, the node knows the present root.\<close>

definition caught_up :: "tree_env \<Rightarrow> World \<Rightarrow> bool" where
  "caught_up env w \<longleftrightarrow> my_node env \<notin> fst ` set (network w)"

lemma caught_up_root:
  assumes ok: "sys_ok env ts w" and quiet: "caught_up env w"
  shows "get_root_ptr env w = hd (last ts)"
proof -
  note d = sys_okD [OF ok]
  have my: "my_node env < length (nodes w)" and ne: "ts \<noteq> []"
    using d(1) by (auto simp: winv_def blink_def)
  let ?s = "nodes w ! my_node env"
  have nr: "node_root_ok ts ?s" using d(4) my by simp
  show ?thesis
  proof (cases "g_root_ptr ?s = gaddr_null")
    case True
    then show ?thesis
      using d(2) by (simp add: get_root_ptr_def my_state_def rooted_def)
  next
    case False
    then have re: "root_entry ts (g_root_ptr ?s) (g_root_level ?s)" using nr by (auto simp: node_root_ok_def)
    then have "length ts \<noteq> 1" by (auto simp: root_entry_def)
    then have "g_root_level ?s = int (length ts) - 1" using d(7) quiet my by (force simp: announced_def caught_up_def)
    with re have "g_root_ptr ?s = hd (ts ! (length ts - 1))" by (auto simp: root_entry_def nat_diff_distrib)
    with False show ?thesis using ne by (simp add: get_root_ptr_def my_state_def last_conv_nth)
  qed
qed

section \<open>Steps that leave the tree alone\<close>

definition seen :: "World \<Rightarrow> World \<Rightarrow> bool" where
  "seen w w' \<longleftrightarrow> mem w' = mem w \<and> cells w' = cells w \<and> chip w' = chip w \<and> nodes w' = nodes w
     \<and> network w' = network w \<and> local_locks w' = local_locks w \<and> dsm_th w' = dsm_th w"

lemma seen_same:
  assumes "seen w w'"
  shows "mem w' = mem w" "cells w' = cells w" "chip w' = chip w" "nodes w' = nodes w"
    "network w' = network w" "local_locks w' = local_locks w" "dsm_th w' = dsm_th w"
    "get_root_ptr env w' = get_root_ptr env w" "my_enable_cache env w' = my_enable_cache env w"
    "contents ts w' = contents ts w" "node_roots w' = node_roots w"
  using assms by (auto simp: seen_def get_root_ptr_def my_state_def my_enable_cache_def contents_def
      node_roots_def)

lemma seen_refl [simp]: "seen w w"
  by (simp add: seen_def)

lemma seen_trans: "seen w w' \<Longrightarrow> seen w' w'' \<Longrightarrow> seen w w''"
  by (simp add: seen_def)

lemma seen_upd [simp]:
  "seen w (w'\<lparr>path_stack := ps\<rparr>) = seen w w'" "seen w (w'\<lparr>index_cache := ic\<rparr>) = seen w w'"
  "seen w (w'\<lparr>cache_hit := ch\<rparr>) = seen w w'" "seen w (w'\<lparr>cache_miss := ch\<rparr>) = seen w w'"
  "seen w (visited l p ic w') = seen w w'"
  by (simp_all add: seen_def)

lemma walked_seen: "walked w w' \<Longrightarrow> seen w w'"
  by (auto simp: walked_def)

lemma sys_ok_seen:
  assumes "sys_ok env ts w" "seen w w'" "cache_ok ts w'" "length (path_stack w') = kMaxLevelOfTree"
  shows "sys_ok env ts w'"
  using assms seen_same [OF assms(2)]
  by (simp add: sys_ok_def winv_def rooted_def announced_def alloc_inv_def)

lemma winv_seen:
  "winv env ts w \<Longrightarrow> seen w w' \<Longrightarrow> length (path_stack w') = kMaxLevelOfTree \<Longrightarrow> winv env ts w'"
  by (simp add: winv_def alloc_inv_def seen_same)

lemma cache_ok_seen: "index_cache w' = index_cache w \<Longrightarrow> cache_ok ts w' = cache_ok ts w"
  by (simp add: cache_ok_def)

lemma cache_room_seen:
  "cache_room env c w \<Longrightarrow> my_enable_cache env w' = my_enable_cache env w \<Longrightarrow>
   free_page_cnt (index_cache w) \<le> free_page_cnt (index_cache w') \<Longrightarrow> cache_room env c w'"
  by (auto simp: cache_room_def)

section \<open>search\<close>

lemma search_hit_ok:
  assumes wi: "winv env ts w" and co: "cache_ok ts w" and a: "a \<in> set (ts ! 0)" and k: "k < kKeyMax"
    and l: "l < length ts" and room: "cache_room env (tree_pages ts) w" and n: "tree_pages ts \<le> n"
  shows "\<exists>w'. search_loop env (Suc n) a (hd (ts ! l)) (Some h) k w = Inr (contents ts w k, w')
    \<and> seen w w' \<and> winv env ts w' \<and> cache_ok ts w'"
proof -
  obtain xs ys where ts0: "ts ! 0 = xs @ a # ys" using a by (meson split_list)
  let ?w1 = "visited 0 a (index_cache w) w"
  have co1: "cache_ok ts ?w1" using co by (simp add: cache_ok_def)
  show ?thesis
    using wi ts0
  proof (cases rule: page_search_cached [where k = k])
    case (stale res)
    let ?w2 = "invalidate_entry env h ?w1"
    let ?w3 = "?w2\<lparr>cache_hit := cache_hit ?w2 - 1, cache_miss := cache_miss ?w2 + 1\<rparr>"
    have sn: "seen w ?w3" by (simp add: invalidate_entry_def)
    have wi3: "winv env ts ?w3"
      by (rule winv_seen [OF wi sn]) (use wi in \<open>simp add: invalidate_entry_def winv_def\<close>)
    have co3: "cache_ok ts ?w3"
      using invalidate_entry_ok [OF co1, of env h] by (simp add: cache_ok_def)
    have room3: "cache_room env (tree_pages ts) ?w3"
      by (rule cache_room_seen [OF room seen_same(9) [OF sn]])
        (simp add: invalidate_entry_def invalidate_def read_tsc_def split: option.split)
    obtain w' where "search_loop env n (hd (ts ! l)) (hd (ts ! l)) None k ?w3
        = Inr (chain_map (mem ?w3) (ts ! 0) k, w')" "walked ?w3 w'" "winv env ts w'" "cache_ok ts w'"
      by (rule search_from_root [OF wi3 co3 l k room3 n])
    moreover have "seen w w'" by (rule seen_trans [OF sn walked_seen]) fact
    moreover have "chain_map (mem ?w3) (ts ! 0) k = contents ts w k"
      using seen_same(1) [OF sn] by (simp add: contents_def)
    ultimately show ?thesis using stale by (simp add: Let_def)
  next
    case (found res)
    have "search_loop env (Suc n) a (hd (ts ! l)) (Some h) k w = Inr (contents ts w k, ?w1)"
      using found chain_map_live [of "mem w" "ts ! 0" k]
      by (simp add: kValueNull_def contents_def split: option.splits)
    with wi co1 show ?thesis by simp
  qed
qed

lemma search_op_ok:
  assumes ok: "sys_ok env ts w" and k: "k < kKeyMax" and fuel: "Suc (tree_pages ts) \<le> fuel"
    and room: "cache_room env (tree_pages ts) w"
  obtains w' where "search_op env fuel k w = Inr (contents ts w k, w')" "seen w w'" "sys_ok env ts w'"
proof -
  note d = sys_okD [OF ok]
  obtain l where l: "l < length ts" "get_root_ptr env w = hd (ts ! l)" by (rule root_of_node [OF ok])
  obtain n where n: "fuel = Suc n" "tree_pages ts \<le> n" using fuel by (cases fuel) auto
  have nf: "tree_pages ts \<le> fuel" using fuel by simp
  have len: "length (path_stack w) = kMaxLevelOfTree" using d(1) by (simp add: winv_def)
  have "\<exists>w'. search_op env fuel k w = Inr (contents ts w k, w') \<and> seen w w' \<and> winv env ts w' \<and> cache_ok ts w'"
  proof (cases "my_enable_cache env w")
    case False
    obtain w' where "search_loop env fuel (hd (ts ! l)) (hd (ts ! l)) None k w
        = Inr (chain_map (mem w) (ts ! 0) k, w')" "walked w w'" "winv env ts w'" "cache_ok ts w'"
      by (rule search_from_root [OF d(1,3) l(1) k room nf])
    with False l show ?thesis by (auto simp: search_op_def contents_def walked_seen)
  next
    case True
    from d(3) show ?thesis
    proof (cases rule: search_cache_ok [where env = env and k = k])
      case (miss ic)
      let ?w1 = "w\<lparr>index_cache := ic, cache_miss := cache_miss w + 1\<rparr>"
      have sn: "seen w ?w1" by simp
      have wi1: "winv env ts ?w1" by (rule winv_seen [OF d(1) sn]) (use len in simp)
      have co1: "cache_ok ts ?w1" using miss(2) by (simp add: cache_ok_def)
      have room1: "cache_room env (tree_pages ts) ?w1"
        by (rule cache_room_seen [OF room seen_same(9) [OF sn]]) (use miss(3) in simp)
      obtain w' where "search_loop env fuel (hd (ts ! l)) (hd (ts ! l)) None k ?w1
          = Inr (chain_map (mem ?w1) (ts ! 0) k, w')" "walked ?w1 w'" "winv env ts w'" "cache_ok ts w'"
        by (rule search_from_root [OF wi1 co1 l(1) k room1 nf])
      moreover have "seen w w'" by (rule seen_trans [OF sn walked_seen]) fact
      ultimately show ?thesis using True l miss by (simp add: search_op_def contents_def)
    next
      case (hit h a ic)
      let ?w1 = "w\<lparr>index_cache := ic, cache_hit := cache_hit w + 1\<rparr>"
      have sn: "seen w ?w1" by simp
      have wi1: "winv env ts ?w1" by (rule winv_seen [OF d(1) sn]) (use len in simp)
      have co1: "cache_ok ts ?w1" using hit(2) by (simp add: cache_ok_def)
      have room1: "cache_room env (tree_pages ts) ?w1"
        by (rule cache_room_seen [OF room seen_same(9) [OF sn]]) (use hit(3) in simp)
      obtain w' where w': "search_loop env (Suc n) a (hd (ts ! l)) (Some h) k ?w1 = Inr (contents ts ?w1 k, w')"
        "seen ?w1 w'" "winv env ts w'" "cache_ok ts w'"
        using search_hit_ok [OF wi1 co1 hit(4) k l(1) room1 n(2)] by blast
      have "seen w w'" by (rule seen_trans [OF sn w'(2)])
      then show ?thesis using True l hit n(1) w' by (simp add: search_op_def contents_def)
    qed
  qed
  then obtain w' where w': "search_op env fuel k w = Inr (contents ts w k, w')" "seen w w'"
    "winv env ts w'" "cache_ok ts w'" by blast
  have "sys_ok env ts w'"
    by (rule sys_ok_seen [OF ok w'(2,4)]) (use w'(3) in \<open>simp add: winv_def\<close>)
  with w' that show thesis by blast
qed

section \<open>insert and del\<close>

text \<open>What a store did to the tree, seen from a world that differs in the cache only.\<close>

lemma lstored_seen:
  "lstored env ts root r w1 k x res \<Longrightarrow> seen w w1 \<Longrightarrow> lstored env ts root r w k x res"
  unfolding lstored_def grown_def lframe_def using seen_same [of w w1] by simp

lemma lstored_then:
  assumes "lstored env ts root r w k x (Inr w1)" "seen w1 w'" "index_cache w' = index_cache w1"
    "path_stack w' = path_stack w1"
  shows "lstored env ts root r w k x (Inr w')"
proof -
  note same = seen_same [OF assms(2)]
  have "winv env ts' w' = winv env ts' w1" "rooted env ts' root' w' = rooted env ts' root' w1"
    "cache_ok ts' w' = cache_ok ts' w1" "locks_free r w' = locks_free r w1" for ts' root'
    using same assms(3,4)
    by (simp_all add: winv_def rooted_def cache_ok_def locks_free_def alloc_inv_def)
  then show ?thesis using assms(1) same unfolding lstored_def grown_def lframe_def by simp
qed

lemma sys_ok_lstored:
  assumes ok: "sys_ok env ts w" and st: "lstored env ts (hd (last ts)) r w k x (Inr w')"
  obtains ts' where "sys_ok env ts' w'" "heads ts ts'" "length ts \<le> length ts'"
    "length ts' \<le> Suc (length ts)" "locks_free r w'" "contents ts' w' = (contents ts w)(k := x)"
    "length (nodes w') = length (nodes w)"
    "length ts' = length ts \<longrightarrow> network w' = network w \<and> node_roots w' = node_roots w"
proof -
  note d = sys_okD [OF ok]
  from st obtain ts' root' where s: "winv env ts' w'" "rooted env ts' root' w'"
    "grown env ts (hd (last ts)) w ts' root' w'" "locks_free r w'" "lframe w w'" "cache_ok ts' w'"
    "contents ts' w' = (contents ts w)(k := x)" by (auto simp: lstored_def contents_def)
  have hd': "hd (last ts') = root'" using s(2) by (simp add: rooted_def)
  have nr: "node_roots w' = node_roots w" and len: "length (nodes w') = length (nodes w)"
    using s(5) lframe_length [OF s(5)] by (simp_all add: lframe_def)
  have hs: "heads ts ts'" and le: "length ts \<le> length ts'" using s(3) by (auto simp: grown_def)
  have nodes: "node_root_ok ts' s" if sin: "s \<in> set (nodes w')" for s
  proof -
    obtain s0 where s0: "s0 \<in> set (nodes w)" "root_view s0 = root_view s"
      by (rule node_roots_member [OF nr sin])
    then have "node_root_ok ts s" using d(4) [OF s0(1)] by (simp add: node_root_ok_def root_view_def cache_switch_inv_def)
    then show ?thesis using root_entry_heads [OF _ hs le] by (auto simp: node_root_ok_def)
  qed
  have msgs: "msg_ok ts' m" if "msg_ok ts m" for m
    using that root_entry_heads [OF _ hs le] by (auto simp: msg_ok_def)
  have "(\<forall>(n, m) \<in> set (network w'). n < length (nodes w') \<and> msg_ok ts' m) \<and> announced ts' w'"
  proof (cases "length ts' = length ts")
    case True
    then have nw: "network w' = network w" using s(3) by (auto simp: grown_def)
    have lv: "g_root_level (nodes w' ! n) = g_root_level (nodes w ! n)" if "n < length (nodes w)" for n
      using node_roots_eqD [OF nr that] by simp
    have "announced ts' w'" using d(7) True nw len lv by (auto simp: announced_def)
    then show ?thesis using d(5,6) msgs nw len by auto
  next
    case False
    then have g: "length ts' = Suc (length ts)"
      "network w' = network w @ root_msgs env root' (length ts) (length (nodes w))"
      using s(3) by (auto simp: grown_def)
    have ne: "ts' \<noteq> []" "0 < length ts" using g(1) d(1) by (auto simp: winv_def blink_def)
    have "root' = hd (ts' ! length ts)" using hd' g(1) ne by (simp add: last_conv_nth)
    then have new: "msg_ok ts' m" "n < length (nodes w)" "rm_level m = int (length ts)"
      if "(n, m) \<in> set (root_msgs env root' (length ts) (length (nodes w)))" for n m
      using that g(1) ne by (auto simp: root_msgs_def new_root_msg_def msg_ok_def root_entry_def)
    have "\<exists>m. (n, m) \<in> set (network w') \<and> rm_level m = int (length ts)" if "n < length (nodes w)" for n
      using that g(2) by (intro exI [of _ "new_root_msg root' (int (length ts)) (of_nat (my_node env))
        (of_nat (my_thread env))"]) (auto simp: root_msgs_def new_root_msg_def)
    then have "announced ts' w'" using g(1) len by (auto simp: announced_def)
    then show ?thesis using d(5,6) msgs new g(2) len by fastforce
  qed
  then have "sys_ok env ts' w'" using s nodes hd' by (simp add: sys_ok_def)
  moreover have "length ts' = length ts \<longrightarrow> network w' = network w" using s(3) by (auto simp: grown_def)
  moreover have "length ts' \<le> Suc (length ts)" using s(3) by (auto simp: grown_def)
  ultimately show thesis using that [of ts'] s hs le len nr by blast
qed

lemma calls_le_pages:
  assumes "ts ! 0 = xs @ p # ys" "ts \<noteq> []"
  shows "calls ts 0 ys \<le> tree_pages ts"
  using assms by (cases ts) (auto simp: calls_def tree_pages_def)

text \<open>From the root: the leaf is found, and the store there has what it needs.\<close>

lemma insert_from_root_ok:
  assumes wi: "winv env ts w" and ro: "rooted env ts root w" and co: "cache_ok ts w"
    and root: "get_root_ptr env w = root" and k: "k < kKeyMax" and len: "length ts < kMaxLevelOfTree"
    and locks: "locks_free (tree_pages ts + r) w" and room: "alloc_room env (length ts + 1) w"
    and cache: "cache_room env (tree_pages ts) w" and fuel: "tree_pages ts \<le> fuel"
  obtains w' where "insert_from_root env fuel k v w = Inr w'"
    "lstored env ts root r w k (val_opt v) (Inr w')"
proof -
  have ne: "ts \<noteq> []" using wi by (auto simp: winv_def blink_def)
  then have l: "length ts - 1 < length ts" by simp
  have rt: "hd (ts ! (length ts - 1)) = root" using ro ne by (simp add: rooted_def last_conv_nth)
  obtain a w1 xs ys where ds: "descend_to_leaf env fuel (hd (ts ! (length ts - 1))) k w = Inr (a, w1)"
    and wk: "walked w w1" and a: "ts ! 0 = xs @ a # ys" "low (mem w) a \<le> k" "winv env ts w1" "cache_ok ts w1"
    and pt: "Suc (length ts - 1) = length ts \<longrightarrow>
      path_ok (mem w) ts (path_stack w1) (Suc 0) (low (mem w) a)"
    by (rule descend_from_root [OF wi co l k cache fuel])
  note same = seen_same [OF walked_seen [OF wk]]
  have c: "calls ts 0 ys \<le> tree_pages ts" by (rule calls_le_pages [OF a(1) ne])
  have lf: "locks_free (calls ts 0 ys + r) w1"
    using locks_free_mono [OF locks, of "calls ts 0 ys + r"] c same by (simp add: locks_free_def)
  have "leaf_pre env root r fuel fuel ts w1 xs a ys k False"
    unfolding leaf_pre_def using a ro len k root room fuel c lf pt ne same
    by (simp add: rooted_def alloc_room_def)
  from leaf_page_store_ok [OF this, of v] obtain w' where w':
    "leaf_page_store env fuel fuel a k v root 0 False w1 = Inr (True, w')"
    "lstored env ts root r w1 k (val_opt v) (Inr w')" by (auto simp: lres_False)
  have "insert_from_root env fuel k v w = Inr w'"
    using ds w'(1) root rt by (simp add: insert_from_root_def)
  with lstored_seen [OF w'(2) walked_seen [OF wk]] that show thesis by blast
qed

lemma del_from_root_ok:
  assumes wi: "winv env ts w" and ro: "rooted env ts root w" and co: "cache_ok ts w"
    and l: "l < length ts" and root: "get_root_ptr env w = hd (ts ! l)" and k: "k < kKeyMax"
    and locks: "locks_free (tree_pages ts + r) w"
    and cache: "cache_room env (tree_pages ts) w" and fuel: "tree_pages ts \<le> fuel"
  obtains w' where "del_from_root env fuel k w = Inr w'" "lstored env ts root r w k None (Inr w')"
proof -
  have ne: "ts \<noteq> []" using l by auto
  obtain a w1 xs ys where ds: "descend_to_leaf env fuel (hd (ts ! l)) k w = Inr (a, w1)"
    and wk: "walked w w1" and a: "ts ! 0 = xs @ a # ys" "low (mem w) a \<le> k" "winv env ts w1" "cache_ok ts w1"
    by (rule descend_from_root [OF wi co l k cache fuel])
  note same = seen_same [OF walked_seen [OF wk]]
  have c: "Suc (length ys) \<le> tree_pages ts"
    using calls_le_pages [OF a(1) ne] by (simp add: calls_def)
  have lf: "locks_free (Suc (length ys + r)) w1"
    using locks_free_mono [OF locks, of "Suc (length ys + r)"] c same by (simp add: locks_free_def)
  have "del_pre env root r fuel ts w1 xs a ys k False"
    unfolding del_pre_def using a ro k fuel c lf same by (simp add: rooted_def)
  from leaf_page_del_ok [OF this] obtain w' where w':
    "leaf_page_del env fuel a k 0 False w1 = Inr (True, w')"
    "lstored env ts root r w1 k None (Inr w')" by (auto simp: lres_False)
  have "del_from_root env fuel k w = Inr w'"
    using ds w'(1) root by (simp add: del_from_root_def)
  with lstored_seen [OF w'(2) walked_seen [OF wk]] that show thesis by blast
qed

text \<open>The world in which a stale hit leaves the operation.\<close>

lemma stale_world:
  assumes wi: "winv env ts w" and co: "cache_ok ts w" and ro: "rooted env ts root w"
    and w2: "w2 = w\<lparr>local_locks := lk, chip := ch\<rparr>"
    and w3: "w3 = (invalidate_entry env h w2)\<lparr>cache_miss := cm\<rparr>"
  shows "winv env ts w3" "cache_ok ts w3" "rooted env ts root w3" "get_root_ptr env w3 = get_root_ptr env w"
    "cache_room env c w3 = cache_room env c w" "alloc_room env n w3 = alloc_room env n w"
    "locks_free r w3 = locks_free r w2"
    "lstored env ts root r w3 k x res = lstored env ts root r w k x res"
proof -
  have "cache_ok ts w2" using co by (simp add: cache_ok_def w2)
  from invalidate_entry_ok [OF this] show "cache_ok ts w3" by (simp add: w3 cache_ok_def)
  have f: "free_page_cnt (index_cache w3) = free_page_cnt (index_cache w)"
    by (simp add: w3 w2 invalidate_entry_def invalidate_def read_tsc_def split: option.split)
  show "cache_room env c w3 = cache_room env c w"
    unfolding cache_room_def f by (simp add: w3 w2 invalidate_entry_def my_enable_cache_def my_state_def)
  show "get_root_ptr env w3 = get_root_ptr env w"
    unfolding get_root_ptr_def my_state_def by (simp add: w3 w2 invalidate_entry_def)
  show "winv env ts w3" "rooted env ts root w3" "alloc_room env n w3 = alloc_room env n w"
    "locks_free r w3 = locks_free r w2"
    "lstored env ts root r w3 k x res = lstored env ts root r w k x res"
    using wi ro by (simp_all add: w3 w2 invalidate_entry_def winv_def alloc_inv_def rooted_def
        alloc_room_def locks_free_def lstored_def grown_def lframe_def node_roots_def)
qed

lemma lstored_mono:
  "lstored env ts root r w k x res \<Longrightarrow> r' \<le> r \<Longrightarrow> lstored env ts root r' w k x res"
  unfolding lstored_def using locks_free_mono by blast

text \<open>The world after \<^verbatim>\<open>before_operation\<close> and the look into the cache.\<close>

lemma begun_world:
  assumes ok: "sys_ok env ts w" and co: "cache_ok ts (before_operation w\<lparr>index_cache := ic\<rparr>)"
    and f: "free_page_cnt (index_cache w) \<le> free_page_cnt ic"
    and w1: "w1 = before_operation w\<lparr>index_cache := ic, cache_miss := cm\<rparr>"
  shows "seen w w1" "winv env ts w1" "cache_ok ts w1" "rooted env ts (hd (last ts)) w1"
    "path_stack w1 = replicate kMaxLevelOfTree gaddr_null"
    "cache_room env c w \<Longrightarrow> cache_room env c w1" "locks_free r w1 = locks_free r w"
    "alloc_room env n w1 = alloc_room env n w"
proof -
  show sn: "seen w w1" by (simp add: w1 before_operation_def)
  show "path_stack w1 = replicate kMaxLevelOfTree gaddr_null" by (simp add: w1 before_operation_def)
  then show "winv env ts w1" using winv_seen [OF sys_okD(1) [OF ok] sn] by simp
  show "cache_ok ts w1" using co by (simp add: w1 cache_ok_def)
  show "rooted env ts (hd (last ts)) w1" using sys_okD(2) [OF ok] seen_same [OF sn] by (simp add: rooted_def)
  show "cache_room env c w1" if "cache_room env c w"
    by (rule cache_room_seen [OF that seen_same(9) [OF sn]]) (use f in \<open>simp add: w1\<close>)
  show "locks_free r w1 = locks_free r w" "alloc_room env n w1 = alloc_room env n w"
    using seen_same [OF sn] by (simp_all add: locks_free_def alloc_room_def)
qed

lemma insert_hit_ok:
  assumes ok: "sys_ok env ts w" and root: "get_root_ptr env w = hd (last ts)"
    and res: "enough env fuel r ts w" and k: "k < kKeyMax" and on: "my_enable_cache env w"
    and a: "a \<in> set (ts ! 0)" and co: "cache_ok ts (before_operation w\<lparr>index_cache := ic\<rparr>)"
    and f: "free_page_cnt (index_cache w) \<le> free_page_cnt ic"
    and w1: "w1 = before_operation w\<lparr>index_cache := ic\<rparr>"
  shows "\<exists>w'. rbind (leaf_page_store env fuel fuel a k v (hd (last ts)) 0 True w1) (\<lambda>(r, w2).
        if r then Inr (w2\<lparr>cache_hit := cache_hit w2 + 1\<rparr>)
        else let w3 = invalidate_entry env h w2 in
          insert_from_root env fuel k v (w3\<lparr>cache_miss := cache_miss w3 + 1\<rparr>)) = Inr w'
    \<and> lstored env ts (hd (last ts)) r w k (val_opt v) (Inr w')"
proof -
  let ?root = "hd (last ts)"
  have w1': "w1 = before_operation w\<lparr>index_cache := ic, cache_miss := cache_miss w\<rparr>"
    by (simp add: w1 before_operation_def)
  note b = begun_world [OF ok co f w1'] and same = seen_same [OF begun_world(1) [OF ok co f w1']]
  have r: "length ts < kMaxLevelOfTree" "Suc (tree_pages ts) \<le> fuel" "alloc_room env (length ts + 1) w"
    "locks_free (Suc (tree_pages ts) + r) w" "cache_room env (Suc (tree_pages ts)) w"
    using res by (simp_all add: enough_def)
  have ne: "ts \<noteq> []" using b(2) by (auto simp: winv_def blink_def)
  have four: "4 \<le> length ts" using root_of_node [OF ok] on by blast
  obtain xs ys where ts0: "ts ! 0 = xs @ a # ys" using a by (meson split_list)
  have c: "calls ts 0 ys \<le> tree_pages ts" "0 < calls ts 0 ys"
    using calls_le_pages [OF ts0 ne] calls_pos by blast+
  define r1 where "r1 = Suc (tree_pages ts) + r - calls ts 0 ys"
  have r1: "calls ts 0 ys + r1 = Suc (tree_pages ts) + r" "r \<le> r1"
    "calls ts 0 ys - 1 + r1 = tree_pages ts + r" using c by (simp_all add: r1_def)
  have "leaf_pre env ?root r1 fuel fuel ts w1 xs a ys k True"
    unfolding leaf_pre_def using b(2-8) r k c ts0 four root same r1 by simp
  from leaf_page_store_ok [OF this, of v, unfolded lres_def r1(3)] consider
    w' where "leaf_page_store env fuel fuel a k v ?root 0 True w1 = Inr (True, w')"
      "lstored env ts ?root r1 w1 k (val_opt v) (Inr w')"
    | lk ch where "leaf_page_store env fuel fuel a k v ?root 0 True w1
        = Inr (False, w1\<lparr>local_locks := lk, chip := ch\<rparr>)"
      "locks_free (tree_pages ts + r) (w1\<lparr>local_locks := lk, chip := ch\<rparr>)"
    by blast
  then show ?thesis
  proof cases
    case 1
    have "lstored env ts ?root r w k (val_opt v) (Inr (w'\<lparr>cache_hit := cache_hit w' + 1\<rparr>))"
      by (rule lstored_then [OF lstored_seen [OF lstored_mono [OF 1(2) r1(2)] b(1)]]) simp_all
    with 1(1) show ?thesis by simp
  next
    case 2
    let ?w2 = "w1\<lparr>local_locks := lk, chip := ch\<rparr>"
    let ?w3 = "(invalidate_entry env h ?w2)\<lparr>cache_miss := cache_miss (invalidate_entry env h ?w2) + 1\<rparr>"
    note s = stale_world [OF b(2,3,4) refl refl, where h = h and lk = lk and ch = ch and
        cm = "cache_miss (invalidate_entry env h ?w2) + 1"]
    have room: "cache_room env (tree_pages ts) ?w3"
      using cache_room_mono [OF b(6) [OF r(5)]] s(5) by simp
    have root3: "get_root_ptr env ?w3 = ?root" using s(4) root same by simp
    have locks3: "locks_free (tree_pages ts + r) ?w3" using 2(2) s(7) by simp
    have room3: "alloc_room env (length ts + 1) ?w3" using b(8) r(3) s(6) by simp
    have fu: "tree_pages ts \<le> fuel" using r(2) by simp
    obtain w' where "insert_from_root env fuel k v ?w3 = Inr w'"
      "lstored env ts ?root r ?w3 k (val_opt v) (Inr w')"
      by (rule insert_from_root_ok [OF s(1,3,2) root3 k r(1) locks3 room3 room fu])
    with 2(1) s(8) lstored_seen [OF _ b(1)] show ?thesis by (auto simp: Let_def)
  qed
qed

lemma del_hit_ok:
  assumes ok: "sys_ok env ts w" and k: "k < kKeyMax" and fuel: "Suc (tree_pages ts) \<le> fuel"
    and locks: "locks_free (Suc (tree_pages ts) + r) w" and room: "cache_room env (tree_pages ts) w"
    and a: "a \<in> set (ts ! 0)" and co: "cache_ok ts (before_operation w\<lparr>index_cache := ic\<rparr>)"
    and f: "free_page_cnt (index_cache w) \<le> free_page_cnt ic"
    and w1: "w1 = before_operation w\<lparr>index_cache := ic\<rparr>"
  shows "\<exists>w'. rbind (leaf_page_del env fuel a k 0 True w1) (\<lambda>(r, w2).
        if r then Inr (w2\<lparr>cache_hit := cache_hit w2 + 1\<rparr>)
        else let w3 = invalidate_entry env h w2 in
          del_from_root env fuel k (w3\<lparr>cache_miss := cache_miss w3 + 1\<rparr>)) = Inr w'
    \<and> lstored env ts (hd (last ts)) r w k None (Inr w')"
proof -
  let ?root = "hd (last ts)"
  have w1': "w1 = before_operation w\<lparr>index_cache := ic, cache_miss := cache_miss w\<rparr>"
    by (simp add: w1 before_operation_def)
  note b = begun_world [OF ok co f w1'] and same = seen_same [OF begun_world(1) [OF ok co f w1']]
  have ne: "ts \<noteq> []" using b(2) by (auto simp: winv_def blink_def)
  obtain l where l: "l < length ts" "get_root_ptr env w = hd (ts ! l)" by (rule root_of_node [OF ok])
  obtain xs ys where ts0: "ts ! 0 = xs @ a # ys" using a by (meson split_list)
  have c: "Suc (length ys) \<le> tree_pages ts"
    using calls_le_pages [OF ts0 ne] by (simp add: calls_def)
  define r1 where "r1 = tree_pages ts + r - length ys"
  have r1: "Suc (length ys + r1) = Suc (tree_pages ts) + r" "r \<le> r1"
    "length ys + r1 = tree_pages ts + r" using c by (simp_all add: r1_def)
  have "del_pre env ?root r1 fuel ts w1 xs a ys k True"
    unfolding del_pre_def using b(2-8) locks k c ts0 r1 fuel by simp
  from leaf_page_del_ok [OF this, unfolded lres_def r1(3)] consider
    w' where "leaf_page_del env fuel a k 0 True w1 = Inr (True, w')"
      "lstored env ts ?root r1 w1 k None (Inr w')"
    | lk ch where "leaf_page_del env fuel a k 0 True w1 = Inr (False, w1\<lparr>local_locks := lk, chip := ch\<rparr>)"
      "locks_free (tree_pages ts + r) (w1\<lparr>local_locks := lk, chip := ch\<rparr>)"
    by blast
  then show ?thesis
  proof cases
    case 1
    have "lstored env ts ?root r w k None (Inr (w'\<lparr>cache_hit := cache_hit w' + 1\<rparr>))"
      by (rule lstored_then [OF lstored_seen [OF lstored_mono [OF 1(2) r1(2)] b(1)]]) simp_all
    with 1(1) show ?thesis by simp
  next
    case 2
    let ?w2 = "w1\<lparr>local_locks := lk, chip := ch\<rparr>"
    let ?w3 = "(invalidate_entry env h ?w2)\<lparr>cache_miss := cache_miss (invalidate_entry env h ?w2) + 1\<rparr>"
    note s = stale_world [OF b(2,3,4) refl refl, where h = h and lk = lk and ch = ch and
        cm = "cache_miss (invalidate_entry env h ?w2) + 1"]
    have room: "cache_room env (tree_pages ts) ?w3" using b(6) [OF room] s(5) by simp
    have root3: "get_root_ptr env ?w3 = hd (ts ! l)" using s(4) l(2) same by simp
    have locks3: "locks_free (tree_pages ts + r) ?w3" using 2(2) s(7) by simp
    have fu: "tree_pages ts \<le> fuel" using fuel by simp
    obtain w' where "del_from_root env fuel k ?w3 = Inr w'" "lstored env ts ?root r ?w3 k None (Inr w')"
      by (rule del_from_root_ok [OF s(1,3,2) l(1) root3 k locks3 room fu])
    with 2(1) s(8) lstored_seen [OF _ b(1)] show ?thesis by (auto simp: Let_def)
  qed
qed

lemma insert_op_stored:
  assumes ok: "sys_ok env ts w" and root: "get_root_ptr env w = hd (last ts)"
    and res: "enough env fuel r ts w" and k: "k < kKeyMax"
  obtains w' where "insert_op env fuel k v w = Inr w'"
    "lstored env ts (hd (last ts)) r w k (val_opt v) (Inr w')"
proof -
  let ?w0 = "before_operation w" and ?root = "hd (last ts)"
  have r: "length ts < kMaxLevelOfTree" "tree_pages ts \<le> fuel" "alloc_room env (length ts + 1) w"
    "locks_free (tree_pages ts + r) w" "cache_room env (tree_pages ts) w"
    using res locks_free_mono [of "Suc (tree_pages ts) + r" w "tree_pages ts + r"]
      cache_room_mono [of env "Suc (tree_pages ts)" w "tree_pages ts"] by (simp_all add: enough_def)
  have co0: "cache_ok ts ?w0" using sys_okD(3) [OF ok] by (simp add: cache_ok_def before_operation_def)
  have same0: "my_enable_cache env ?w0 = my_enable_cache env w"
    "index_cache ?w0 = index_cache w" "cache_miss (?w0\<lparr>index_cache := c\<rparr>) = cache_miss w" for c
    by (simp_all add: before_operation_def my_enable_cache_def my_state_def)
  have from_root: "\<exists>w'. insert_from_root env fuel k v (?w0\<lparr>index_cache := ic, cache_miss := cm\<rparr>) = Inr w'
      \<and> lstored env ts ?root r w k (val_opt v) (Inr w')"
    if co: "cache_ok ts (?w0\<lparr>index_cache := ic\<rparr>)"
      and f: "free_page_cnt (index_cache w) \<le> free_page_cnt ic" for ic cm
  proof -
    let ?w1 = "?w0\<lparr>index_cache := ic, cache_miss := cm\<rparr>"
    note b = begun_world [OF ok co f refl, where cm = cm]
    have root1: "get_root_ptr env ?w1 = ?root" using root seen_same [OF b(1)] by simp
    have locks1: "locks_free (tree_pages ts + r) ?w1" using b(7) r(4) by simp
    have room1: "alloc_room env (length ts + 1) ?w1" using b(8) r(3) by simp
    obtain w' where "insert_from_root env fuel k v ?w1 = Inr w'"
      "lstored env ts ?root r ?w1 k (val_opt v) (Inr w')"
      by (rule insert_from_root_ok [OF b(2,4,3) root1 k r(1) locks1 room1 b(6) [OF r(5)] r(2)])
    with lstored_seen [OF _ b(1)] show ?thesis by blast
  qed
  have "\<exists>w'. insert_op env fuel k v w = Inr w' \<and> lstored env ts ?root r w k (val_opt v) (Inr w')"
  proof (cases "my_enable_cache env w")
    case False
    have co: "cache_ok ts (?w0\<lparr>index_cache := index_cache w\<rparr>)" using co0 by (simp add: cache_ok_def same0)
    have "?w0\<lparr>index_cache := index_cache w, cache_miss := cache_miss w\<rparr> = ?w0"
      by (simp add: before_operation_def)
    with from_root [OF co order_refl, of "cache_miss w"] False same0 show ?thesis
      by (simp add: insert_op_def Let_def)
  next
    case True
    show ?thesis using co0
    proof (cases rule: search_cache_ok [where env = env and k = k])
      case (miss ic)
      have "insert_op env fuel k v w
          = insert_from_root env fuel k v (?w0\<lparr>index_cache := ic, cache_miss := cache_miss w + 1\<rparr>)"
        using True miss(1) same0 by (simp add: insert_op_def Let_def)
      with from_root [OF miss(2), of "cache_miss w + 1"] miss(3) same0 show ?thesis by simp
    next
      case (hit h a ic)
      have f: "free_page_cnt (index_cache w) \<le> free_page_cnt ic" using hit(3) same0 by simp
      have root1: "get_root_ptr env (?w0\<lparr>index_cache := ic\<rparr>) = ?root"
        using root seen_same(8) [of w "?w0\<lparr>index_cache := ic\<rparr>"] by (simp add: seen_def before_operation_def)
      from insert_hit_ok [OF ok root res k True hit(4,2) f refl, of v h] True hit(1) same0 root1
      show ?thesis by (simp add: insert_op_def Let_def)
    qed
  qed
  with that show thesis by blast
qed

lemma del_op_stored:
  assumes ok: "sys_ok env ts w" and k: "k < kKeyMax" and fuel: "Suc (tree_pages ts) \<le> fuel"
    and locks: "locks_free (Suc (tree_pages ts) + r) w" and room: "cache_room env (tree_pages ts) w"
  obtains w' where "del_op env fuel k w = Inr w'" "lstored env ts (hd (last ts)) r w k None (Inr w')"
proof -
  let ?w0 = "before_operation w" and ?root = "hd (last ts)"
  have lf: "locks_free (tree_pages ts + r) w" by (rule locks_free_mono [OF locks]) simp
  have fu: "tree_pages ts \<le> fuel" using fuel by simp
  obtain l where l: "l < length ts" "get_root_ptr env w = hd (ts ! l)" by (rule root_of_node [OF ok])
  have co0: "cache_ok ts ?w0" using sys_okD(3) [OF ok] by (simp add: cache_ok_def before_operation_def)
  have same0: "my_enable_cache env ?w0 = my_enable_cache env w"
    "index_cache ?w0 = index_cache w" "cache_miss (?w0\<lparr>index_cache := c\<rparr>) = cache_miss w" for c
    by (simp_all add: before_operation_def my_enable_cache_def my_state_def)
  have from_root: "\<exists>w'. del_from_root env fuel k (?w0\<lparr>index_cache := ic, cache_miss := cm\<rparr>) = Inr w'
      \<and> lstored env ts ?root r w k None (Inr w')"
    if co: "cache_ok ts (?w0\<lparr>index_cache := ic\<rparr>)"
      and f: "free_page_cnt (index_cache w) \<le> free_page_cnt ic" for ic cm
  proof -
    let ?w1 = "?w0\<lparr>index_cache := ic, cache_miss := cm\<rparr>"
    note b = begun_world [OF ok co f refl, where cm = cm]
    have root1: "get_root_ptr env ?w1 = hd (ts ! l)" using l seen_same [OF b(1)] by simp
    have locks1: "locks_free (tree_pages ts + r) ?w1" using b(7) lf by simp
    obtain w' where "del_from_root env fuel k ?w1 = Inr w'" "lstored env ts ?root r ?w1 k None (Inr w')"
      by (rule del_from_root_ok [OF b(2,4,3) l(1) root1 k locks1 b(6) [OF room] fu])
    with lstored_seen [OF _ b(1)] show ?thesis by blast
  qed
  have "\<exists>w'. del_op env fuel k w = Inr w' \<and> lstored env ts ?root r w k None (Inr w')"
  proof (cases "my_enable_cache env w")
    case False
    have co: "cache_ok ts (?w0\<lparr>index_cache := index_cache w\<rparr>)" using co0 by (simp add: cache_ok_def same0)
    have "?w0\<lparr>index_cache := index_cache w, cache_miss := cache_miss w\<rparr> = ?w0"
      by (simp add: before_operation_def)
    with from_root [OF co order_refl, of "cache_miss w"] False same0 show ?thesis
      by (simp add: del_op_def Let_def)
  next
    case True
    show ?thesis using co0
    proof (cases rule: search_cache_ok [where env = env and k = k])
      case (miss ic)
      have "del_op env fuel k w
          = del_from_root env fuel k (?w0\<lparr>index_cache := ic, cache_miss := cache_miss w + 1\<rparr>)"
        using True miss(1) same0 by (simp add: del_op_def Let_def)
      with from_root [OF miss(2), of "cache_miss w + 1"] miss(3) same0 show ?thesis by simp
    next
      case (hit h a ic)
      have f: "free_page_cnt (index_cache w) \<le> free_page_cnt ic" using hit(3) same0 by simp
      from del_hit_ok [OF ok k fuel locks room hit(4,2) f refl, of h] True hit(1) same0
      show ?thesis by (simp add: del_op_def Let_def)
    qed
  qed
  with that show thesis by blast
qed

section \<open>Announcements\<close>

text \<open>A directory that takes an announcement keeps the invariant, in whatever order they
  arrive.\<close>

lemma dsm_inv_root_update:
  assumes "dsm_inv (ns, th)" "n < length ns" "chunckAlloc s' = chunckAlloc (ns ! n)"
  shows "dsm_inv (ns[n := s'], th)" "dsm_avail (ns[n := s'], th) = dsm_avail (ns, th)"
proof -
  have same: "chunckAlloc (ns[n := s'] ! i) = chunckAlloc (ns ! i)" for i
    using assms(2,3) by (cases "i = n") simp_all
  show "dsm_inv (ns[n := s'], th)" using assms(1)
    by (simp add: dsm_inv_def local_chunk_ok_def same)
  show "dsm_avail (ns[n := s'], th) = dsm_avail (ns, th)"
    by (simp add: dsm_avail_def global_avail_def same)
qed

lemma announcement_ok:
  assumes s: "node_root_ok ts s" and m: "msg_ok ts m"
  obtains s' where "process_message m s = Inr (None, s')" "node_root_ok ts s'"
    "chunckAlloc s' = chunckAlloc s" "g_root_level s \<le> g_root_level s'"
    "rm_level m \<le> g_root_level s'"
proof -
  let ?s' = "if g_root_level s < rm_level m then
       s\<lparr>g_root_ptr := rm_addr m, g_root_level := rm_level m,
         enable_cache := enable_cache s \<or> rm_level m \<ge> 3\<rparr> else s"
  have p: "process_message m s = Inr (None, ?s')"
    using m by (simp add: process_message_NEW_ROOT msg_ok_def)
  have "cache_switch_inv ?s'"
    using process_message_cache_switch [OF p] s by (simp add: node_root_ok_def)
  moreover have "g_root_ptr ?s' = gaddr_null \<and> g_root_level ?s' = - 1
      \<or> root_entry ts (g_root_ptr ?s') (g_root_level ?s')"
    using s m by (simp add: node_root_ok_def msg_ok_def)
  ultimately have "node_root_ok ts ?s'" by (simp add: node_root_ok_def)
  then show thesis by (intro that [of ?s']) (use p in simp_all)
qed

lemma root_level_below:
  assumes "node_root_ok ts s" "ts \<noteq> []"
  shows "g_root_level s \<le> int (length ts) - 1"
  using assms by (cases ts) (auto simp: node_root_ok_def root_entry_def)

lemma deliver_ok:
  assumes ok: "sys_ok env ts w" and i: "i < length (network w)"
  obtains w' where "deliver i w = Inr w'" "sys_ok env ts w'" "contents ts w' = contents ts w"
    "length (network w) = Suc (length (network w'))" "local_locks w' = local_locks w" "chip w' = chip w"
    "length (nodes w') = length (nodes w)"
proof -
  note d = sys_okD [OF ok]
  obtain n m where nm: "network w ! i = (n, m)" by fastforce
  then have mem: "(n, m) \<in> set (network w)" using i by (metis nth_mem)
  have n: "n < length (nodes w)" by (rule d(5) [OF mem])
  obtain s' where p: "process_message m (nodes w ! n) = Inr (None, s')" and s': "node_root_ok ts s'"
    and ca: "chunckAlloc s' = chunckAlloc (nodes w ! n)"
    and up: "g_root_level (nodes w ! n) \<le> g_root_level s'" and lv: "rm_level m \<le> g_root_level s'"
    by (rule announcement_ok [OF d(4) [OF nth_mem [OF n]] d(6) [OF mem]])
  let ?nw = "take i (network w) @ drop (Suc i) (network w)"
  let ?w' = "w\<lparr>nodes := (nodes w)[n := s'], network := ?nw\<rparr>"
  have ne: "ts \<noteq> []" using d(1) by (auto simp: winv_def blink_def)
  have split: "network w = take i (network w) @ (n, m) # drop (Suc i) (network w)"
    using i nm by (metis id_take_nth_drop)
  then have sub: "set (network w) = insert (n, m) (set ?nw)"
    by (metis Un_insert_right list.set(2) set_append)
  have dv: "deliver i w = Inr ?w'" using i nm n p by (simp add: deliver_def)
  note du = dsm_inv_root_update [OF _ n ca, of "dsm_th w"]
  have "alloc_inv ?w'" using d(1) du by (auto simp: winv_def alloc_inv_def)
  then have "winv env ts ?w'" using d(1) by (simp add: winv_def)
  moreover have "g_root_level (nodes ?w' ! j) = int (length ts) - 1"
    if l1: "length ts \<noteq> 1" and j: "j < length (nodes w)"
      and no: "\<not> (\<exists>m. (j, m) \<in> set (network ?w') \<and> rm_level m = int (length ts) - 1)" for j
  proof -
    from d(7) l1 j have o: "g_root_level (nodes w ! j) = int (length ts) - 1
      \<or> (\<exists>m. (j, m) \<in> set (network w) \<and> rm_level m = int (length ts) - 1)" by (simp add: announced_def)
    show "g_root_level (nodes ?w' ! j) = int (length ts) - 1"
    proof (cases "j = n")
      case False
      with o no sub show ?thesis by auto
    next
      case True
      have "int (length ts) - 1 \<le> g_root_level s'" using o no sub up lv True by auto
      then show ?thesis using True n root_level_below [OF s' ne] by simp
    qed
  qed
  then have "announced ts ?w'" unfolding announced_def by auto
  moreover have "\<forall>s \<in> set (nodes ?w'). node_root_ok ts s"
    using d(4) s' by (auto dest: set_update_subset_insert [THEN subsetD])
  moreover have "\<forall>(n, m) \<in> set (network ?w'). n < length (nodes ?w') \<and> msg_ok ts m"
    using d(5,6) sub by fastforce
  ultimately have "sys_ok env ts ?w'"
    using d(2,3) by (simp add: sys_ok_def rooted_def cache_ok_def)
  with dv show thesis
    by (rule that) (use i in \<open>simp_all add: contents_def\<close>)
qed

end
