(* ===== verification/TreeApi.thy ===== *)
theory TreeApi
  imports TreeCorrect
begin

text \<open>
  What a client may rely on: the constructor of the tree, and the refinement of a map by
  every history of operations and deliveries. The tree of pages is determined by memory and
  root, so that it need not be part of the state.
\<close>

section \<open>The tree is a function of the memory\<close>

lemma seg_unique:
  "seg m l lo p as hi q \<Longrightarrow> seg m l' lo' p bs hi' q \<Longrightarrow> m q = None \<Longrightarrow> as = bs"
proof (induction as arbitrary: lo lo' p bs)
  case Nil
  then show ?case by (cases bs) auto
next
  case (Cons a as)
  then obtain b bs' where bs: "bs = b # bs'" by (cases bs) auto
  with Cons.prems have "a = b" by simp
  with Cons bs show ?case by auto
qed

lemma chain_low_min:
  assumes lc: "level_chain m l as" and a: "a \<in> set as" and low: "low m a = kKeyMin"
  shows "a = hd as"
proof (rule ccontr)
  assume ne: "a \<noteq> hd as"
  obtain b bs where as: "as = b # bs" using a by (cases as) auto
  then have "a \<in> set bs" using a ne by simp
  moreover from lc as obtain pg where pg: "page_ok l pg" "lowest (page_hdr pg) = kKeyMin"
    "seg m l (highest (page_hdr pg)) (sibling_ptr (page_hdr pg)) bs kKeyMax gaddr_null"
    by (auto simp: level_chain_def)
  ultimately obtain pg' where "m a = Some pg'" "highest (page_hdr pg) \<le> lowest (page_hdr pg')"
    by (metis seg_bounds)
  with page_ok_range [OF pg(1)] pg(2) low show False by (simp add: low_def hdr_at_def)
qed

lemma blink_leftmost:
  assumes bl: "blink m ts" and i: "Suc i < length ts"
    and p: "m (hd (ts ! Suc i)) = Some (InternalP p)"
  shows "leftmost_ptr (ip_hdr p) = hd (ts ! i)"
proof -
  obtain ys where ys: "ts ! Suc i = hd (ts ! Suc i) # ys" "low m (hd (ts ! Suc i)) = kKeyMin"
    by (rule blink_hd [OF bl i])
  then have "hd (ts ! Suc i) \<in> set (ts ! Suc i)" by (metis list.set_intros(1))
  from blink_kids [OF bl i this] p have kd: "kids_ok m (ts ! i) p" by auto
  have "(lowest (ip_hdr p), leftmost_ptr (ip_hdr p)) \<in> set (kids p)" by (simp add: kids_of_entries)
  with kd have "leftmost_ptr (ip_hdr p) \<in> set (ts ! i)"
    "low m (leftmost_ptr (ip_hdr p)) = lowest (ip_hdr p)" by (auto simp: kids_ok_def)
  moreover have "lowest (ip_hdr p) = kKeyMin" using ys(2) p by (simp add: low_def hdr_at_def)
  moreover have "level_chain m i (ts ! i)" using bl i by (simp add: blink_def)
  ultimately show ?thesis by (metis chain_low_min)
qed

lemma blink_unique:
  assumes bl: "blink m ts" "blink m ts'" and top: "last ts = [root]" "last ts' = [root]"
  shows "ts = ts'"
proof -
  have ne: "ts \<noteq> []" "ts' \<noteq> []" using bl by (simp_all add: blink_def)
  have t: "length ts - 1 < length ts" "root \<in> set (ts ! (length ts - 1))"
    "length ts' - 1 < length ts'" "root \<in> set (ts' ! (length ts' - 1))"
    using ne top last_conv_nth [OF ne(1)] last_conv_nth [OF ne(2)] by simp_all
  from blink_page [OF bl(1) t(1,2)] blink_page [OF bl(2) t(3,4)]
  have "length ts - 1 = length ts' - 1" using page_ok_level by (metis option.inject)
  then have len: "length ts = length ts'" using ne by (cases ts; cases ts'; simp)
  have eq: "ts ! l = ts' ! l" if hd: "hd (ts ! l) = hd (ts' ! l)" and l: "l < length ts" for l
  proof -
    have "level_chain m l (ts ! l)" "level_chain m l (ts' ! l)" using bl l len by (simp_all add: blink_def)
    then show ?thesis using seg_unique hd bl(1) unfolding level_chain_def blink_def by metis
  qed
  have down: "hd (ts ! (length ts - 1 - d)) = hd (ts' ! (length ts - 1 - d))" for d
  proof (induction d)
    case 0
    then show ?case using top len last_conv_nth [OF ne(1)] last_conv_nth [OF ne(2)] by simp
  next
    case (Suc d)
    show ?case
    proof (cases "length ts - 1 - d")
      case 0
      then have "length ts - 1 - Suc d = length ts - 1 - d" by simp
      with Suc.IH show ?thesis by (simp only:)
    next
      case (Suc i)
      then have i: "Suc i < length ts" "length ts - 1 - Suc d = i" by simp_all
      obtain ys where "ts ! Suc i = hd (ts ! Suc i) # ys" by (rule blink_hd [OF bl(1) i(1)])
      then have "hd (ts ! Suc i) \<in> set (ts ! Suc i)" by (metis list.set_intros(1))
      from blink_kids [OF bl(1) i(1) this] obtain p where p: "m (hd (ts ! Suc i)) = Some (InternalP p)"
        by blast
      have "hd (ts' ! Suc i) = hd (ts ! Suc i)" using Suc.IH Suc by simp
      then show ?thesis using blink_leftmost [OF bl(1) i(1) p] blink_leftmost [OF bl(2), of i p] i p len
        by simp
    qed
  qed
  then have "hd (ts ! l) = hd (ts' ! l)" if "l < length ts" for l
  proof -
    have "length ts - 1 - (length ts - 1 - l) = l" using that by simp
    with down [of "length ts - 1 - l"] show ?thesis by (simp only:)
  qed
  with eq len show ?thesis by (simp add: list_eq_iff_nth_eq)
qed

lemma sys_ok_unique:
  assumes "sys_ok env ts w" "sys_ok env ts' w"
  shows "ts = ts'"
proof -
  obtain a b where a: "rooted env ts a w" and b: "rooted env ts' b w"
    using assms by (auto simp: sys_ok_def)
  then have "addr_val a = addr_val b" by (simp add: rooted_def)
  then have "a = b" by (metis addr_of_val_addr_val)
  with a b show ?thesis using blink_unique [of "mem w" ts ts' a] assms
    by (simp add: rooted_def sys_ok_def winv_def)
qed

section \<open>The constructor\<close>

text \<open>The first client finds empty memory and installs a leaf over the whole key space.\<close>

definition unborn :: "tree_env \<Rightarrow> World \<Rightarrow> bool" where
  "unborn env w \<longleftrightarrow> mem w gaddr_null = None \<and> alloc_inv w \<and> alloc_room env 1 w
     \<and> cells w (get_root_ptr_ptr env) = 0 \<and> my_node env < length (nodes w) \<and> thread_tag env \<noteq> 0
     \<and> (\<forall>s \<in> set (nodes w). g_root_ptr s = gaddr_null \<and> g_root_level s = - 1 \<and> \<not> enable_cache s)
     \<and> network w = [] \<and> length (path_stack w) = kMaxLevelOfTree
     \<and> skiplist_of (index_cache w) = [] \<and> skiplist_node_cnt (index_cache w) = 0
     \<and> free_page_cnt (index_cache w) = all_page_cnt (index_cache w) - int (length (delay_free_list (index_cache w)))"

lemma new_leaf_lookup: "leaf_lookup (replicate n new_LeafEntry) = Map.empty"
  by (induction n) (simp_all add: leaf_lookup_def new_LeafEntry_def)

lemma empty_leaf_ok: "page_ok 0 (LeafP (leaf_set_consistent (new_LeafPage 0)))"
proof -
  have "leaf_recs_ok kKeyMin kKeyMax (replicate kLeafCardinality new_LeafEntry)"
    by (simp add: leaf_recs_ok_def uniq_keys_def live_def new_LeafEntry_def kLeafCardinality_eq)
  moreover have "lp_hdr (new_LeafPage 0) = new_Header 0" by (simp add: new_LeafPage_def)
  ultimately show ?thesis by simp
qed

lemma blink_extend:
  assumes bl: "blink m ts" and b: "m b = None" "b \<noteq> gaddr_null"
  shows "blink (m(b \<mapsto> p)) ts" "chain_map (m(b \<mapsto> p)) (ts ! 0) = chain_map m (ts ! 0)"
proof -
  let ?m = "m(b \<mapsto> p)"
  have nb: "b \<notin> set (ts ! l)" if "l < length ts" for l by (rule blink_fresh [OF bl b(1) that])
  have "level_chain ?m l (ts ! l)" if "l < length ts" for l
  proof (subst level_chain_cong [of _ ?m m])
    show "level_chain m l (ts ! l)" using bl that by (simp add: blink_def)
    show "?m a = m a" if "a \<in> set (ts ! l)" for a using nb [of l] that \<open>l < length ts\<close> by auto
  qed
  moreover have "links ?m (ts ! l) (ts ! Suc l)" if l: "Suc l < length ts" for l
  proof -
    have li: "links m (ts ! l) (ts ! Suc l)" using bl l by (simp add: blink_def)
    have "kids_ok ?m (ts ! l) q = kids_ok m (ts ! l) q" for q
      by (rule kids_ok_cong) (use nb [of l] l in \<open>auto simp: low_def hdr_at_def\<close>)
    with li nb [OF l] show ?thesis by (auto simp: links_def)
  qed
  ultimately show "blink ?m ts" using bl b(2) by (simp add: blink_def)
  have "0 < length ts" using bl by (simp add: blink_def)
  then show "chain_map ?m (ts ! 0) = chain_map m (ts ! 0)"
    using nb [of 0] by (intro chain_map_cong) auto
qed

lemma new_tree_first:
  assumes un: "unborn env w"
  obtains a w' where "new_tree env w = Inr w'" "sys_ok env [[a]] w'" "contents [[a]] w' = Map.empty"
    "get_root_ptr env w' = a" "local_locks w' = local_locks w" "chip w' = chip w"
    "\<not> my_enable_cache env w'" "network w' = []"
    "\<And>n. alloc_room env (Suc n) w \<Longrightarrow> alloc_room env n w'"
proof -
  have inv: "alloc_inv w" and room: "alloc_room env (Suc 0) w" using un by (simp_all add: unborn_def)
  obtain a ns th where al: "tree_alloc env kLeafPageSize w = Inr (a, w\<lparr>nodes := ns, dsm_th := th\<rparr>)"
    and ai: "alloc_inv (w\<lparr>nodes := ns, dsm_th := th\<rparr>)"
    and fr: "mem w a = None" "a \<noteq> gaddr_null" "first_byte a \<notin> dsm_avail (ns, th)"
    and nr: "node_roots (w\<lparr>nodes := ns, dsm_th := th\<rparr>) = node_roots w" "length ns = length (nodes w)"
    by (rule tree_alloc_ok [OF inv room])
  let ?p = "LeafP (leaf_set_consistent (new_LeafPage 0))"
  let ?w = "w\<lparr>nodes := ns, dsm_th := th, mem := (mem w)(a \<mapsto> ?p),
    cells := (cells w)(get_root_ptr_ptr env := addr_val a)\<rparr>"
  have nt: "new_tree env w = Inr ?w"
    using al un by (simp add: new_tree_def write_page_def cas_sync_def cas_word_def unborn_def)
  have bl: "blink ((mem w)(a \<mapsto> ?p)) [[a]]"
    using empty_leaf_ok fr un by (auto simp: blink_def level_chain_def unborn_def new_LeafPage_def
        simp del: page_ok.simps)
  have "alloc_inv ?w" using ai fr by (auto simp: alloc_inv_def)
  with bl un nr(2) have wi: "winv env [[a]] ?w" by (simp add: winv_def unborn_def kMaxLevelOfTree_def)
  have nodes: "node_root_ok [[a]] s \<and> g_root_ptr s = gaddr_null \<and> \<not> enable_cache s" if "s \<in> set ns" for s
  proof -
    have "s \<in> set (nodes (w\<lparr>nodes := ns, dsm_th := th\<rparr>))" using that by simp
    from node_roots_member [OF nr(1) this]
    obtain s0 where s0: "s0 \<in> set (nodes w)" "root_view s0 = root_view s" by blast
    then have "g_root_ptr s0 = gaddr_null \<and> g_root_level s0 = - 1 \<and> \<not> enable_cache s0"
      using un unfolding unborn_def by blast
    with s0(2) show ?thesis by (simp add: node_root_ok_def cache_switch_inv_def root_view_def)
  qed
  have my: "my_node env < length ns" using un nr(2) by (simp add: unborn_def)
  have "cache_ok [[a]] w" using un
    unfolding unborn_def cache_ok_def cache_inv_def by (simp add: sl_ok_def pages_in_def)
  then have co: "cache_ok [[a]] ?w" by (simp add: cache_ok_def)
  have nw: "network w = []" using un by (simp add: unborn_def)
  have "sys_ok env [[a]] ?w"
    unfolding sys_ok_def using wi co nodes nw by (simp add: rooted_def announced_def)
  moreover have "get_root_ptr env ?w = a" "\<not> my_enable_cache env ?w"
    using nodes [OF nth_mem [OF my]] by (simp_all add: get_root_ptr_def my_state_def my_enable_cache_def)
  moreover have "contents [[a]] ?w = Map.empty"
    using fr by (simp add: contents_def new_leaf_lookup)
  moreover have "alloc_room env n ?w" if more: "alloc_room env (Suc n) w" for n
  proof -
    obtain a' ns' th' where al': "tree_alloc env kLeafPageSize w = Inr (a', w\<lparr>nodes := ns', dsm_th := th'\<rparr>)"
      and room': "alloc_room env n (w\<lparr>nodes := ns', dsm_th := th'\<rparr>)"
      by (rule tree_alloc_ok [OF inv more])
    from al al' have "w\<lparr>nodes := ns', dsm_th := th'\<rparr> = w\<lparr>nodes := ns, dsm_th := th\<rparr>" by simp
    with room' show ?thesis by (simp add: alloc_room_def)
  qed
  ultimately show thesis using nt nw by (intro that [of ?w a]) simp_all
qed

text \<open>Every later client leaves the tree that is there alone; its own leaf is not used.\<close>

lemma new_tree_later:
  assumes ok: "sys_ok env ts w" and room: "alloc_room env 1 w"
  obtains w' where "new_tree env w = Inr w'" "sys_ok env ts w'" "contents ts w' = contents ts w"
proof -
  note d = sys_okD [OF ok]
  have inv: "alloc_inv w" and bl: "blink (mem w) ts" using d(1) by (simp_all add: winv_def)
  have room1: "alloc_room env (Suc 0) w" using room by simp
  obtain a ns th where al: "tree_alloc env kLeafPageSize w = Inr (a, w\<lparr>nodes := ns, dsm_th := th\<rparr>)"
    and ai: "alloc_inv (w\<lparr>nodes := ns, dsm_th := th\<rparr>)"
    and fr: "mem w a = None" "a \<noteq> gaddr_null" "first_byte a \<notin> dsm_avail (ns, th)"
    and nr: "node_roots (w\<lparr>nodes := ns, dsm_th := th\<rparr>) = node_roots w" "length ns = length (nodes w)"
    by (rule tree_alloc_ok [OF inv room1])
  let ?p = "LeafP (leaf_set_consistent (new_LeafPage 0))"
  let ?w = "w\<lparr>nodes := ns, dsm_th := th, mem := (mem w)(a \<mapsto> ?p)\<rparr>"
  have "hd (last ts) \<noteq> gaddr_null"
  proof -
    have "ts \<noteq> []" using bl by (simp add: blink_def)
    moreover have "hd (last ts) \<in> set (last ts)"
      using d(2) by (metis list.set_intros(1) rooted_def)
    ultimately have "length ts - 1 < length ts" "hd (last ts) \<in> set (ts ! (length ts - 1))"
      by (simp_all add: last_conv_nth)
    then show ?thesis using blink_not_null [OF bl] by metis
  qed
  then have "cells w (get_root_ptr_ptr env) \<noteq> 0"
    using d(2) by (metis addr_val_null rooted_def addr_of_val_addr_val)
  then have nt: "new_tree env w = Inr ?w"
    using al by (simp add: new_tree_def write_page_def cas_sync_def cas_word_def)
  note be = blink_extend [OF bl fr(1,2), of ?p]
  have "alloc_inv ?w" using ai fr by (auto simp: alloc_inv_def)
  with be(1) d(1) nr(2) have "winv env ts ?w" by (simp add: winv_def)
  moreover have view: "root_view (ns ! i) = root_view (nodes w ! i)" if "i < length ns" for i
    using arg_cong [OF nr(1), of "\<lambda>xs. xs ! i"] that nr(2) by (simp add: node_roots_def)
  then have "node_root_ok ts s" if "s \<in> set ns" for s
  proof -
    obtain i where "i < length ns" "ns ! i = s" using \<open>s \<in> set ns\<close> by (metis in_set_conv_nth)
    with view d(4) nr(2) show ?thesis
      by (fastforce simp: node_root_ok_def cache_switch_inv_def root_view_def)
  qed
  moreover have "announced ts ?w"
    using d(7) view nr(2) by (auto simp: announced_def root_view_def)
  ultimately have "sys_ok env ts ?w"
    using ok nr(2) by (auto simp: sys_ok_def rooted_def cache_ok_def)
  with nt that be(2) show thesis by (simp add: contents_def)
qed

end
