(* ===== verification/History.thy ===== *)
theory History
  imports TreeApi
begin

text \<open>
  Histories of client operations and of deliveries of announcements, in any order, against
  the abstract map: the answers are those of the map, and the tree holds the map that the
  history leaves.
\<close>

section \<open>Operations and the map they stand for\<close>

datatype op = Insert key val | Search key | Delete key

datatype answer = Done | Found "val option"

fun op_key :: "op \<Rightarrow> key" where
  "op_key (Insert k v) = k"
| "op_key (Search k) = k"
| "op_key (Delete k) = k"

fun run_op :: "tree_env \<Rightarrow> nat \<Rightarrow> op \<Rightarrow> World \<Rightarrow> err + answer \<times> World" where
  "run_op env fuel (Insert k v) w = rbind (insert_op env fuel k v w) (\<lambda>w'. Inr (Done, w'))"
| "run_op env fuel (Search k) w = rbind (search_op env fuel k w) (\<lambda>(v, w'). Inr (Found v, w'))"
| "run_op env fuel (Delete k) w = rbind (del_op env fuel k w) (\<lambda>w'. Inr (Done, w'))"

text \<open>Inserting the null value takes the key away.\<close>

fun map_op :: "op \<Rightarrow> (key \<Rightarrow> val option) \<Rightarrow> answer \<times> (key \<Rightarrow> val option)" where
  "map_op (Insert k v) M = (Done, M(k := val_opt v))"
| "map_op (Search k) M = (Found (M k), M)"
| "map_op (Delete k) M = (Done, M(k := None))"

text \<open>The node of the client must have heard of every root before it inserts.\<close>

fun may_start :: "tree_env \<Rightarrow> op \<Rightarrow> World \<Rightarrow> bool" where
  "may_start env (Insert k v) w \<longleftrightarrow> caught_up env w"
| "may_start env (Search k) w \<longleftrightarrow> True"
| "may_start env (Delete k) w \<longleftrightarrow> True"

section \<open>One operation\<close>

lemma run_op_refines:
  assumes ok: "sys_ok env ts w" and res: "enough env fuel r ts w"
    and k: "op_key p < kKeyMax" and go: "may_start env p w"
  obtains w' ts' where "run_op env fuel p w = Inr (fst (map_op p (contents ts w)), w')"
    "sys_ok env ts' w'" "contents ts' w' = snd (map_op p (contents ts w))"
    "heads ts ts'" "length ts \<le> length ts'" "length ts' \<le> Suc (length ts)" "locks_free r w'"
proof -
  have fuel: "Suc (tree_pages ts) \<le> fuel" and room: "cache_room env (tree_pages ts) w"
    and locks: "locks_free (Suc (tree_pages ts) + r) w"
    using res cache_room_mono [of env "Suc (tree_pages ts)" w "tree_pages ts"] by (simp_all add: enough_def)
  show thesis
  proof (cases p)
    case (Insert k v)
    then have root: "get_root_ptr env w = hd (last ts)" using caught_up_root [OF ok] go by simp
    have k': "k < kKeyMax" using Insert k by simp
    obtain w' where w': "insert_op env fuel k v w = Inr w'"
      "lstored env ts (hd (last ts)) r w k (val_opt v) (Inr w')"
      by (rule insert_op_stored [OF ok root res k'])
    obtain ts' where "sys_ok env ts' w'" "heads ts ts'" "length ts \<le> length ts'" "length ts' \<le> Suc (length ts)"
      "locks_free r w'" "contents ts' w' = (contents ts w)(k := val_opt v)"
      by (rule sys_ok_lstored [OF ok w'(2)])
    with w'(1) Insert show thesis by (intro that [of w' ts']) simp_all
  next
    case (Search k)
    then have k': "k < kKeyMax" using k by simp
    obtain w' where w': "search_op env fuel k w = Inr (contents ts w k, w')" "seen w w'" "sys_ok env ts w'"
      by (rule search_op_ok [OF ok k' fuel room])
    have "locks_free r w'" using locks_free_mono [OF locks, of r] seen_same [OF w'(2)]
      by (simp add: locks_free_def)
    with w' Search seen_same(10) [OF w'(2), of ts] show thesis by (intro that [of w' ts]) simp_all
  next
    case (Delete k)
    then have k': "k < kKeyMax" using k by simp
    obtain w' where w': "del_op env fuel k w = Inr w'" "lstored env ts (hd (last ts)) r w k None (Inr w')"
      by (rule del_op_stored [OF ok k' fuel locks room])
    obtain ts' where "sys_ok env ts' w'" "heads ts ts'" "length ts \<le> length ts'" "length ts' \<le> Suc (length ts)"
      "locks_free r w'" "contents ts' w' = (contents ts w)(k := None)"
      by (rule sys_ok_lstored [OF ok w'(2)])
    with w'(1) Delete show thesis by (intro that [of w' ts']) simp_all
  qed
qed

section \<open>Histories\<close>

text \<open>What an operation may use up is there, for the tree that the world holds.\<close>

definition provided :: "tree_env \<Rightarrow> nat \<Rightarrow> World \<Rightarrow> bool" where
  "provided env fuel w \<longleftrightarrow> (\<exists>ts. sys_ok env ts w \<and> enough env fuel 0 ts w)"

inductive history :: "tree_env \<Rightarrow> nat \<Rightarrow> World \<Rightarrow> (op \<times> answer) list \<Rightarrow> World \<Rightarrow> bool"
  for env fuel w0 where
  history_start: "history env fuel w0 [] w0"
| history_op: "history env fuel w0 h w \<Longrightarrow> provided env fuel w \<Longrightarrow> op_key p < kKeyMax \<Longrightarrow>
    may_start env p w \<Longrightarrow> run_op env fuel p w = Inr (a, w') \<Longrightarrow> history env fuel w0 (h @ [(p, a)]) w'"
| history_deliver: "history env fuel w0 h w \<Longrightarrow> deliver i w = Inr w' \<Longrightarrow> history env fuel w0 h w'"

fun replay :: "(op \<times> answer) list \<Rightarrow> (key \<Rightarrow> val option) \<Rightarrow> (key \<Rightarrow> val option) option" where
  "replay [] M = Some M"
| "replay ((p, a) # h) M = (if a = fst (map_op p M) then replay h (snd (map_op p M)) else None)"

lemma replay_snoc:
  "replay h M = Some M' \<Longrightarrow>
   replay (h @ [(p, a)]) M = (if a = fst (map_op p M') then Some (snd (map_op p M')) else None)"
  by (induction h arbitrary: M) (auto split: if_splits)

lemma deliver_Inr: "deliver i w = Inr w' \<Longrightarrow> i < length (network w)"
  by (auto simp: deliver_def split: if_splits)

lemma history_invariant:
  assumes "history env fuel w0 h w" "sys_ok env ts0 w0"
  shows "\<exists>ts. sys_ok env ts w \<and> heads ts0 ts \<and> length ts0 \<le> length ts
    \<and> replay h (contents ts0 w0) = Some (contents ts w)"
  using assms
proof (induction rule: history.induct)
  case history_start
  then show ?case by auto
next
  case (history_op h w p a w')
  then obtain ts where ts: "sys_ok env ts w" "replay h (contents ts0 w0) = Some (contents ts w)"
    "heads ts0 ts" "length ts0 \<le> length ts" by blast
  obtain ts1 where "sys_ok env ts1 w" "enough env fuel 0 ts1 w" using history_op.hyps(2)
    by (auto simp: provided_def)
  then have res: "enough env fuel 0 ts w" using sys_ok_unique ts(1) by blast
  obtain w1 ts' where "run_op env fuel p w = Inr (fst (map_op p (contents ts w)), w1)"
    "sys_ok env ts' w1" "contents ts' w1 = snd (map_op p (contents ts w))" "heads ts ts'" "length ts \<le> length ts'"
    by (rule run_op_refines [OF ts(1) res history_op.hyps(3,4)])
  with history_op.hyps(5) ts replay_snoc [OF ts(2), of p a] heads_trans_le [OF ts(3), of ts']
  show ?case by (intro exI [of _ ts']) auto
next
  case (history_deliver h w i w')
  then obtain ts where ts: "sys_ok env ts w" "heads ts0 ts" "length ts0 \<le> length ts"
    "replay h (contents ts0 w0) = Some (contents ts w)" by blast
  obtain w1 where "deliver i w = Inr w1" "sys_ok env ts w1" "contents ts w1 = contents ts w"
    by (rule deliver_ok [OF ts(1) deliver_Inr [OF history_deliver.hyps(2)]])
  with history_deliver.hyps(2) ts show ?case by auto
qed

section \<open>Announcements arrive\<close>

text \<open>The places in the network from which messages are taken, one after the other.\<close>

fun deliver_seq :: "nat list \<Rightarrow> World \<Rightarrow> err + World" where
  "deliver_seq [] w = Inr w"
| "deliver_seq (i # is) w = rbind (deliver i w) (deliver_seq is)"

lemma deliver_seq_ok:
  assumes "sys_ok env ts w" "deliver_seq is w = Inr w'"
  shows "sys_ok env ts w'" "contents ts w' = contents ts w"
    "length (network w) = length is + length (network w')"
proof -
  have "sys_ok env ts w' \<and> contents ts w' = contents ts w
    \<and> length (network w) = length is + length (network w')"
    using assms
  proof (induction "is" arbitrary: w)
    case (Cons i "is")
    then obtain w1 where w1: "deliver i w = Inr w1" "deliver_seq is w1 = Inr w'"
      by (auto simp: rbind_Inr_iff)
    obtain w2 where "deliver i w = Inr w2" "sys_ok env ts w2" "contents ts w2 = contents ts w"
      "length (network w) = Suc (length (network w2))"
      by (rule deliver_ok [OF Cons.prems(1) deliver_Inr [OF w1(1)]])
    with Cons.IH [of w1] w1 show ?case by auto
  qed simp
  then show "sys_ok env ts w'" "contents ts w' = contents ts w"
    "length (network w) = length is + length (network w')" by simp_all
qed

lemma node_knows_root:
  assumes ok: "sys_ok env ts w" and quiet: "network w = []" and s: "s \<in> set (nodes w)"
  shows "if length ts = 1 then g_root_ptr s = gaddr_null \<and> \<not> enable_cache s
    else g_root_ptr s = hd (last ts) \<and> g_root_level s = int (length ts) - 1
      \<and> (enable_cache s \<longleftrightarrow> 4 \<le> length ts)"
proof -
  note d = sys_okD [OF ok]
  have ne: "ts \<noteq> []" using d(1) by (auto simp: winv_def blink_def)
  have nr: "node_root_ok ts s" by (rule d(4) [OF s])
  show ?thesis
  proof (cases "length ts = 1")
    case True
    with nr show ?thesis by (auto simp: node_root_ok_def root_entry_def cache_switch_inv_def)
  next
    case False
    obtain n where "n < length (nodes w)" "nodes w ! n = s" using s by (metis in_set_conv_nth)
    then have lv: "g_root_level s = int (length ts) - 1" using d(7) quiet False by (auto simp: announced_def)
    have "0 < length ts" using ne by simp
    with lv False have "g_root_level s \<noteq> - 1" by linarith
    with nr have re: "root_entry ts (g_root_ptr s) (g_root_level s)" by (auto simp: node_root_ok_def)
    have "nat (g_root_level s) = length ts - 1" using lv by simp
    with re have "g_root_ptr s = hd (last ts)" using ne by (simp add: root_entry_def last_conv_nth)
    moreover have "enable_cache s \<longleftrightarrow> 4 \<le> length ts"
      using nr lv by (auto simp: node_root_ok_def cache_switch_inv_def)
    ultimately show ?thesis using False lv by simp
  qed
qed

end
