(* ===== verification/AllocClaims.thy ===== *)
theory AllocClaims
  imports DsmAlloc
begin

text \<open>
  Memory allocation and the directories as properties: the pages that a thread allocates are
  disjoint, the chunks of a memory node are handed out one after the other until they are used
  up, freed chunks do not come back, requests beyond a chunk are not served properly, and the
  announcements of roots can arrive in any order.
\<close>

section \<open>Pages\<close>

text \<open>One memory node with 64 MB and a thread that has allocated nothing.\<close>

definition one_node :: node_state where
  "one_node = \<lparr>chunckAlloc = \<lparr>ga_start = gaddr_null, ga_size = 67108864, bitmap = [True, False],
     bitmap_len = 2, bitmap_tail = 1\<rparr>, g_root_ptr = gaddr_null, g_root_level = - 1,
     enable_cache = False\<rparr>"

lemma one_node_new: "new_Directory 67108864 0 0 = Inr one_node"
  by (simp add: new_Directory_def new_GlobalAllocator_def one_node_def common_defs gaddr_null_def
      numeral_2_eq_2)

lemma one_node_inv: "dsm_inv ([one_node], new_dsm_thread 1 0 0)"
proof -
  have "i = 1" if "Suc 0 \<le> i" "i < 2" for i :: nat using that by simp
  then show ?thesis
    by (auto simp: dsm_inv_def node_alloc_ok_def ga_inv_def ga_end_def one_node_def gaddr_null_def
        local_chunk_ok_def la_inv_def new_dsm_thread_def new_LocalAllocator_def common_defs)
qed

lemma one_node_two_pages:
  "alloc_seq (dsm_alloc 0 0 kLeafPageSize) (Suc (Suc 0)) ([one_node], new_dsm_thread 1 0 0) \<noteq> Inl e"
  by (simp add: one_node_def dsm_alloc_def new_dsm_thread_def new_LocalAllocator_def
      la_malloc_def la_set_chunck_def rpc_malloc_def process_message_def alloc_chunck_def
      gaddr_null_def common_defs Let_def)

text \<open>(C17) The pages that a thread allocates one after the other, from whatever directories the
  round robin asks, are not null and pairwise disjoint, lie in memory that was available
  before, and take no byte of what is still available afterwards.\<close>

theorem dsm_pages_disjoint:
  assumes "dsm_inv st" "alloc_seq (dsm_alloc n t kLeafPageSize) k st = Inr (as, st')"
  shows "length as = k \<and> gaddr_null \<notin> set as \<and> dsm_inv st'
    \<and> sorted_wrt (\<lambda>a b. bytes_of a kLeafPageSize \<inter> bytes_of b kLeafPageSize = {}) as
    \<and> (\<Union>a \<in> set as. bytes_of a kLeafPageSize) \<subseteq> dsm_avail st - dsm_avail st'"
  using dsm.alloc_seq_spec [OF assms] dsm.alloc_seq_no_null [OF assms] by blast

theorem dsm_pages_disjoint_witness:
  "\<exists>a b st'. alloc_seq (dsm_alloc 0 0 kLeafPageSize) (Suc (Suc 0)) ([one_node], new_dsm_thread 1 0 0)
      = Inr ([a, b], st') \<and> bytes_of a kLeafPageSize \<inter> bytes_of b kLeafPageSize = {}"
proof -
  obtain as st' where s: "alloc_seq (dsm_alloc 0 0 kLeafPageSize) (Suc (Suc 0)) ([one_node], new_dsm_thread 1 0 0)
      = Inr (as, st')"
    using one_node_two_pages
    by (cases "alloc_seq (dsm_alloc 0 0 kLeafPageSize) (Suc (Suc 0)) ([one_node], new_dsm_thread 1 0 0)") auto
  note p = dsm_pages_disjoint [OF one_node_inv s]
  then obtain a b where "as = [a, b]"
    by (cases as rule: remdups_adj.cases) (auto simp: numeral_2_eq_2)
  with p s show ?thesis by auto
qed

section \<open>Chunks\<close>

text \<open>A memory node of \<open>n\<close> chunks hands out the chunks 1 to \<open>n - 1\<close> in order (chunk 0
  is kept for the root pointers and never handed out); the next request is answered by the
  assertion that memory has run out.\<close>

theorem chunks_in_order:
  assumes "new_GlobalAllocator start sz = Inr ga" "unat (offset start) + sz < 2 ^ 48"
  shows "if k < sz div kChunkSize
    then map_sum id fst (alloc_seq alloc_chunck k ga) = Inr (map (\<lambda>i. start\<lparr>offset := offset start
        + of_nat (i * kChunkSize)\<rparr>) [1..<Suc k])
    else alloc_seq alloc_chunck k ga = Inl (AssertFail ''shared memory space run out'')"
proof -
  have gen: "if bitmap_tail g + j \<le> bitmap_len g
      then map_sum id fst (alloc_seq alloc_chunck j g) =
        Inr (map (\<lambda>i. (ga_start g)\<lparr>offset := offset (ga_start g) + of_nat (i * kChunkSize)\<rparr>)
          [bitmap_tail g..<bitmap_tail g + j])
      else alloc_seq alloc_chunck j g = Inl (AssertFail ''shared memory space run out'')"
    if "ga_inv g" for g j
    using that
  proof (induction j arbitrary: g)
    case (Suc j)
    show ?case
    proof (cases "bitmap_tail g < bitmap_len g")
      case True
      obtain a g' where al: "alloc_chunck g = Inr (a, g')"
        using alloc_chunck_ok [OF Suc.prems True] by blast
      have g': "a = (ga_start g)\<lparr>offset := offset (ga_start g) + of_nat (bitmap_tail g * kChunkSize)\<rparr>"
        "bitmap_tail g' = Suc (bitmap_tail g)" "bitmap_len g' = bitmap_len g" "ga_start g' = ga_start g"
        using al True by (auto simp: alloc_chunck_def split: if_splits)
      have run: "alloc_seq alloc_chunck (Suc j) g =
          map_sum id (map_prod ((#) a) id) (alloc_seq alloc_chunck j g')"
        by (cases "alloc_seq alloc_chunck j g'") (auto simp: al)
      have up: "[bitmap_tail g..<bitmap_tail g + Suc j]
          = bitmap_tail g # [Suc (bitmap_tail g)..<Suc (bitmap_tail g) + j]"
        by (simp add: upt_rec)
      from Suc.IH [OF alloc_chunck_spec(1) [OF Suc.prems al]] show ?thesis
        unfolding run up by (cases "alloc_seq alloc_chunck j g'") (auto simp: g' split: if_splits)
    next
      case False
      with Suc.prems show ?thesis by (auto simp: alloc_chunck_def ga_inv_def)
    qed
  qed (auto simp: ga_inv_def)
  have "ga_start ga = start" "bitmap_tail ga = 1" "bitmap_len ga = sz div kChunkSize"
    using assms(1) by (auto simp: new_GlobalAllocator_def Let_def split: if_splits)
  with gen [OF new_GlobalAllocator_inv [OF assms], of k] show ?thesis
    by (auto simp: Suc_le_eq)
qed

theorem chunks_in_order_witness:
  "\<exists>ga. new_GlobalAllocator gaddr_null (3 * kChunkSize) = Inr ga
    \<and> map_sum id fst (alloc_seq alloc_chunck 2 ga) =
      Inr [gaddr_null\<lparr>offset := 33554432\<rparr>, gaddr_null\<lparr>offset := 67108864\<rparr>]
    \<and> alloc_seq alloc_chunck 3 ga = Inl (AssertFail ''shared memory space run out'')"
proof -
  obtain ga where ga: "new_GlobalAllocator gaddr_null (3 * kChunkSize) = Inr ga"
    by (auto simp: new_GlobalAllocator_def Let_def)
  have sz: "unat (offset gaddr_null) + 3 * kChunkSize < 2 ^ 48"
    by (simp add: gaddr_null_def common_defs)
  show ?thesis
    using ga chunks_in_order [OF ga sz, of 2] chunks_in_order [OF ga sz, of 3]
    by (simp add: upt_rec gaddr_null_def common_defs)
qed

text \<open>Freeing a chunk never makes a chunk available: the allocator goes on where it was,
  with the same address or the same failure, whatever was freed behind its tail.\<close>

theorem freed_chunks_are_not_reused:
  assumes "ga_inv ga" "free_chunk a ga = Inr ga'"
  shows "ga_inv ga' \<and> map_sum id fst (alloc_chunck ga') = map_sum id fst (alloc_chunck ga)"
proof -
  define i where "i = unat ((ucast (offset a) :: u64) - ucast (offset (ga_start ga))) div kChunkSize"
  have ga': "ga' = ga\<lparr>bitmap := (bitmap ga)[i := False]\<rparr>" "i < length (bitmap ga)"
    using assms(2) unfolding i_def by (auto simp: free_chunk_def Let_def split: if_splits)
  have "\<not> (bitmap ga)[i := False] ! j" if "bitmap_tail ga \<le> j" "j < bitmap_len ga" for j
    using assms(1) that ga'(2) by (cases "j = i") (auto simp: ga_inv_def)
  then have "ga_inv ga'" "bitmap_tail ga < bitmap_len ga \<Longrightarrow>
      \<not> (bitmap ga)[i := False] ! bitmap_tail ga \<and> \<not> bitmap ga ! bitmap_tail ga"
    using assms(1) by (auto simp: ga' ga_inv_def ga_end_def)
  then show ?thesis
    by (cases "bitmap_tail ga < bitmap_len ga") (auto simp: ga' alloc_chunck_def)
qed

theorem freed_chunks_are_not_reused_witness:
  "\<exists>a ga ga'. alloc_chunck (chunckAlloc one_node) = Inr (a, ga) \<and> free_chunk a ga = Inr ga'
    \<and> alloc_chunck ga' = Inl (AssertFail ''shared memory space run out'')"
proof -
  let ?ga = "\<lparr>ga_start = gaddr_null, ga_size = 67108864, bitmap = [True, True], bitmap_len = 2,
    bitmap_tail = 2\<rparr>"
  let ?a = "\<lparr>nodeID = 0, offset = 33554432\<rparr>"
  have al: "alloc_chunck (chunckAlloc one_node) = Inr (?a, ?ga)"
    by (simp add: alloc_chunck_def one_node_def gaddr_null_def common_defs numeral_2_eq_2)
  have inv: "ga_inv ?ga"
    by (simp add: ga_inv_def ga_end_def gaddr_null_def common_defs)
  have fr: "free_chunk ?a ?ga = Inr (?ga\<lparr>bitmap := [True, False]\<rparr>)"
    by (simp add: free_chunk_def gaddr_null_def common_defs Let_def)
  have "alloc_chunck ?ga = Inl (AssertFail ''shared memory space run out'')"
    by (simp add: alloc_chunck_def)
  with freed_chunks_are_not_reused [OF inv fr] al fr show ?thesis
    by (cases "alloc_chunck (?ga\<lparr>bitmap := [True, False]\<rparr>)") auto
qed

lemma oversize_needs_chunk:
  assumes "la_inv la" "kChunkSize < sz" "sz < 2 ^ 32"
  shows "\<exists>b. la_malloc sz la = (b, True, la)"
proof (cases "log_heads la = []")
  case False
  have lt: "unat (x :: 48 word) < 2 ^ 48" for x using unsigned_less [of x] by simp
  have u: "unat ((ucast (x :: 48 word) :: u64) + of_nat n) = unat x + n" if "n < 2 ^ 32" for x n
    using lt [of x] that by (subst unat_word_ariths) (simp add: unat_of_nat)
  have c: "kChunkSize < 2 ^ 32" by (simp add: common_defs)
  have "unat (offset (la_head la)) + kChunkSize < unat (offset (la_cur la)) + sz"
    using assms False by (simp add: la_inv_def)
  then have "(ucast (offset (la_head la)) :: u64) + of_nat kChunkSize
      < ucast (offset (la_cur la)) + of_nat sz"
    unfolding word_less_nat_alt u [OF c] u [OF assms(3)] .
  then show ?thesis by (simp add: la_malloc_def Let_def)
qed (simp add: la_malloc_def Let_def)

text \<open>A request larger than a chunk is answered with the start of a fresh chunk, whose
  end it passes, and the chunk is not marked as used: the next page that the thread allocates
  has the same address, so that the two overlap.\<close>

theorem oversized_request_overlaps:
  assumes "kChunkSize < sz" "sz < 2 ^ 32" "la_inv (local_allocator th)"
    "dsm_alloc n t sz (ns, th) = Inr (a, ns', th')"
  shows "\<exists>th''. dsm_alloc n t kLeafPageSize (ns', th') = Inr (a, ns', th'')"
proof -
  let ?la = "local_allocator th"
  obtain b where b: "la_malloc sz ?la = (b, True, ?la)"
    using oversize_needs_chunk [OF assms(3,1,2)] by blast
  have "\<exists>c. a = c \<and> local_allocator th' = la_set_chunck c ?la"
    using assms(4) la_malloc_oversize [OF assms(1,2)]
    by (rule_tac dsm_alloc_cases [OF assms(4)]) (auto simp: b)
  moreover have "kLeafPageSize \<le> kChunkSize" by (simp add: common_defs)
  ultimately obtain la where "la_malloc kLeafPageSize (local_allocator th') = (a, False, la)"
    using la_malloc_fresh_chunk by metis
  then show ?thesis by (simp add: dsm_alloc_def)
qed

theorem oversized_request_overlaps_witness:
  "\<exists>a ns th th'. dsm_alloc 0 0 33554433 ([one_node], new_dsm_thread 1 0 0) = Inr (a, ns, th)
    \<and> dsm_alloc 0 0 kLeafPageSize (ns, th) = Inr (a, ns, th')"
proof -
  have l: "la_inv (local_allocator (new_dsm_thread 1 0 0))"
    by (simp add: la_inv_def new_dsm_thread_def new_LocalAllocator_def)
  obtain a ns th where d: "dsm_alloc 0 0 33554433 ([one_node], new_dsm_thread 1 0 0) = Inr (a, ns, th)"
    by (simp add: one_node_def dsm_alloc_def new_dsm_thread_def new_LocalAllocator_def
        la_malloc_def la_set_chunck_def rpc_malloc_def process_message_def alloc_chunck_def
        gaddr_null_def common_defs Let_def)
  have "kChunkSize < 33554433" "(33554433 :: nat) < 2 ^ 32" by (simp_all add: common_defs)
  from oversized_request_overlaps [OF this l d] d show ?thesis by blast
qed

section \<open>Announcements\<close>

text \<open>A directory that receives announcements of roots ends in the same state whatever
  order they arrive in and however often each is repeated, when no two roots are announced
  for one level: it knows the root of the highest level.\<close>

theorem root_announcements_commute:
  assumes "\<forall>m \<in> set ms. rm_type m = NEW_ROOT" "set ms = set ms'" "cache_switch_inv s"
    "\<forall>m \<in> set ms. \<forall>m' \<in> set ms. rm_level m = rm_level m' \<longrightarrow> rm_addr m = rm_addr m'"
  shows "\<exists>s'. process_all ms s = Inr s' \<and> process_all ms' s = Inr s' \<and> cache_switch_inv s'
    \<and> (\<forall>m \<in> set ms. rm_level m \<le> g_root_level s') \<and> g_root_level s \<le> g_root_level s'"
proof -
  let ?r = "(g_root_ptr s, g_root_level s)"
  obtain a l where r: "latest_root ms ?r = (a, l)" by force
  have r': "latest_root ms' ?r = (a, l)" using latest_root_order [OF assms(2,4)] r by simp
  let ?s = "s\<lparr>g_root_ptr := a, g_root_level := l, enable_cache := (l \<ge> 3)\<rparr>"
  have "\<forall>m \<in> set ms'. rm_type m = NEW_ROOT" using assms(1,2) by simp
  then have "process_all ms s = Inr ?s" "process_all ms' s = Inr ?s"
    using process_all_new_roots [OF assms(1,3)] process_all_new_roots [OF _ assms(3)] r r' by simp_all
  moreover have "cache_switch_inv ?s" by (simp add: cache_switch_inv_def)
  moreover have "(\<forall>m \<in> set ms. rm_level m \<le> g_root_level ?s) \<and> g_root_level s \<le> g_root_level ?s"
    using latest_root_mem [OF r] by simp
  ultimately show ?thesis by blast
qed

theorem root_announcements_commute_witness:
  "\<exists>s'. process_all [new_root_msg gaddr_null 1 0 0, new_root_msg gaddr_null 4 0 0] one_node = Inr s'
    \<and> process_all [new_root_msg gaddr_null 4 0 0, new_root_msg gaddr_null 1 0 0] one_node = Inr s'
    \<and> enable_cache s'"
proof -
  let ?m = "new_root_msg gaddr_null 1 0 0" and ?n = "new_root_msg gaddr_null 4 0 0"
  have "cache_switch_inv one_node" by (simp add: cache_switch_inv_def one_node_def)
  then obtain s' where "process_all [?m, ?n] one_node = Inr s'" "process_all [?n, ?m] one_node = Inr s'"
    "cache_switch_inv s'" "\<forall>m \<in> set [?m, ?n]. rm_level m \<le> g_root_level s'"
    using root_announcements_commute [of "[?m, ?n]" "[?n, ?m]" one_node]
    by (auto simp: new_root_msg_def insert_commute simp del: process_all.simps)
  then show ?thesis by (auto simp: new_root_msg_def cache_switch_inv_def simp del: process_all.simps)
qed

end
