(* ===== verification/Example.thy ===== *)
theory Example
  imports History AllocClaims
begin

text \<open>One node with 64 MB of shared memory and one client: the instance on which the
  theorems about the tree are shown to apply.\<close>

definition ex_env :: tree_env where
  "ex_env = \<lparr>my_node = 0, my_thread = 0, tree_id = 0, city_hash64 = (\<lambda>x. x),
     cenv = \<lparr>rdtsc = of_nat, rand_r = (\<lambda>s. (unat s, s + 1)), cache_fuel = 10\<rparr>, stale_word = 0\<rparr>"

definition ex_world :: World where
  "ex_world = \<lparr>mem = Map.empty, cells = (\<lambda>_. 0), chip = (\<lambda>_. 0), nodes = [one_node], network = [],
     local_locks = (\<lambda>_. \<lparr>ticket_lock = 0, hand_over = False, hand_time = 0\<rparr>),
     index_cache = new_IndexCache 1, dsm_th = new_dsm_thread 1 0 0,
     path_stack = replicate kMaxLevelOfTree gaddr_null, cache_hit = 0, cache_miss = 0\<rparr>"

text \<open>The first page takes a chunk from the directory, the next ones come from that chunk.\<close>

lemma ex_room: "alloc_room ex_env (Suc (Suc (Suc 0))) ex_world"
  by (simp add: alloc_room_def page_alloc_def ex_world_def ex_env_def one_node_def dsm_alloc_def
      new_dsm_thread_def new_LocalAllocator_def la_malloc_def la_set_chunck_def rpc_malloc_def
      process_message_def alloc_chunck_def gaddr_null_def common_defs Let_def)

lemma ex_room1: "alloc_room ex_env 1 ex_world"
  by (rule alloc_room_mono [OF ex_room]) simp

lemma ex_simps [simp]:
  "mem ex_world a = None" "cells ex_world a = 0" "chip ex_world a = 0" "nodes ex_world = [one_node]"
  "network ex_world = []" "dsm_th ex_world = new_dsm_thread 1 0 0"
  "local_locks ex_world s = new_LocalLockNode" "index_cache ex_world = new_IndexCache 1"
  "length (path_stack ex_world) = kMaxLevelOfTree"
  "g_root_ptr one_node = gaddr_null" "g_root_level one_node = - 1" "enable_cache one_node = False"
  "my_node ex_env = 0" "my_thread ex_env = 0" "thread_tag ex_env = 1"
  by (simp_all add: ex_world_def ex_env_def one_node_def thread_tag_def new_LocalLockNode_def)

lemma ex_unborn: "unborn ex_env ex_world"
  unfolding unborn_def
  by (simp add: alloc_inv_def one_node_inv ex_room1 new_IndexCache_def Let_def del: One_nat_def)

lemma ex_locks: "r < 4294967296 \<Longrightarrow> locks_free r ex_world"
  by (simp add: locks_free_def local_free_def new_LocalLockNode_def lock_ticket_def lock_current_def)

text \<open>The tree that the first client makes, with all that one operation needs.\<close>

lemma ex_tree:
  obtains a w where "new_tree ex_env ex_world = Inr w" "sys_ok ex_env [[a]] w"
    "contents [[a]] w = Map.empty" "get_root_ptr ex_env w = a" "network w = []"
    "enough ex_env 2 10 [[a]] w"
proof -
  obtain a w where w: "new_tree ex_env ex_world = Inr w" "sys_ok ex_env [[a]] w"
    "contents [[a]] w = Map.empty" "get_root_ptr ex_env w = a" "local_locks w = local_locks ex_world"
    "chip w = chip ex_world" "\<not> my_enable_cache ex_env w" "network w = []"
    and room: "\<And>n. alloc_room ex_env (Suc n) ex_world \<Longrightarrow> alloc_room ex_env n w"
    by (rule new_tree_first [OF ex_unborn], rule that) (assumption | simp)+
  have "locks_free 12 w" using ex_locks [of 12] w(5,6) by (simp add: locks_free_def)
  then have "enough ex_env 2 10 [[a]] w"
    using room [OF ex_room] w(7) by (simp add: enough_def tree_pages_def kMaxLevelOfTree_def cache_room_def
        numeral_2_eq_2)
  with w that show thesis by blast
qed

end
