(* ===== verification/NodeClaims.thy ===== *)
theory NodeClaims
  imports LeafProps InternalProps
begin

text \<open>
  What the routines on the local copy of a page promise, as properties: the search, the store,
  the removal and the split of a leaf against the map that its records hold, the routing, the
  store and the split of an internal page against the sorted list of its children, and the
  layout of both pages in their 1024 bytes.
\<close>

section \<open>A leaf page as a map\<close>

text \<open>Two leaves to try the properties on: an empty one, and a full one with the keys 1 to 54.\<close>

definition empty_recs :: "LeafEntry list" where
  "empty_recs = replicate kLeafCardinality new_LeafEntry"

definition full_recs :: "LeafEntry list" where
  "full_recs = map (\<lambda>i. \<lparr>f_version = 0, le_key = of_nat i, le_value = 1, r_version = 0\<rparr>) [1..<55]"

lemma empty_recs_ok: "leaf_recs_ok lo hi empty_recs"
  by (simp add: empty_recs_def leaf_recs_ok_def uniq_keys_def live_def new_LeafEntry_def
      kLeafCardinality_eq)

lemma full_recs_full: "leaf_full 0 100 full_recs"
proof -
  have "inj_on (of_nat :: nat \<Rightarrow> key) {1..<55}"
    by (rule inj_onI) (simp add: word_of_nat_eq_iff take_bit_nat_eq_self)
  then have "distinct (map le_key full_recs)"
    by (simp add: full_recs_def distinct_map o_def)
  moreover have "(of_nat i :: key) < 100" if "i < 55" for i
  proof -
    have "unat (of_nat i :: key) = i" using that by (simp add: unsigned_of_nat take_bit_nat_eq_self)
    then show ?thesis using that by (simp add: word_less_nat_alt)
  qed
  ultimately show ?thesis
    by (auto simp: leaf_full_def full_recs_def kLeafCardinality_eq)
qed

text \<open>(C7) On a well-formed leaf the search returns a value exactly when a live record holds
  it under the key (and the null value when none has the key), which is what the lookup of the
  first fitting record gives.\<close>

theorem leaf_search_finds_record:
  assumes "leaf_recs_ok lo hi (lp_records p)"
  shows "leaf_page_search p k =
      (case leaf_lookup (lp_records p) k of None \<Rightarrow> kValueNull | Some v \<Rightarrow> v)
    \<and> (leaf_page_search p k = v \<and> v \<noteq> kValueNull \<longleftrightarrow>
      v \<noteq> kValueNull \<and> list_ex (\<lambda>r. le_key r = k \<and> le_value r = v) (lp_records p))"
proof -
  have ok: "uniq_keys (lp_records p)" "\<forall>r \<in> set (lp_records p). f_version r = r_version r"
    using assms by (auto simp: leaf_recs_ok_def)
  show ?thesis
    using leaf_page_search_eq [of p k] leaf_lookup_iff [OF ok, of k v]
      leaf_lookup_value_live [of "lp_records p" k]
    by (auto simp: list_ex_iff live_def split: option.splits)
qed

theorem leaf_search_finds_record_witness:
  "leaf_page_search ((new_LeafPage 0)\<lparr>lp_records := empty_recs\<rparr>) 5 = kValueNull"
proof -
  let ?p = "(new_LeafPage 0)\<lparr>lp_records := empty_recs\<rparr>"
  have ok: "leaf_recs_ok kKeyMin kKeyMax (lp_records ?p)" using empty_recs_ok by simp
  have "leaf_lookup empty_recs 5 = None"
    by (rule leaf_lookup_empty) (simp add: empty_recs_def live_def new_LeafEntry_def)
  with leaf_search_finds_record [OF ok, of 5] show ?thesis by simp
qed

text \<open>(C8) Storing a key of the leaf's range succeeds: it writes one record, with equal
  versions, the lookup is the old one changed at the key (storing the null value removes the
  key), and the leaf is well-formed again or full with distinct keys in its range, which is
  when the caller splits it.\<close>

theorem leaf_put_updates:
  assumes "leaf_recs_ok lo hi rs" "lo \<le> k" "k < hi"
  shows "\<exists>rs' j e cnt. leaf_put rs k v = Inr (rs', j, cnt) \<and> rs' = rs[j := e]
    \<and> j < kLeafCardinality \<and> f_version e = r_version e
    \<and> leaf_lookup rs' = (leaf_lookup rs)(k := val_opt v)
    \<and> (if cnt = kLeafCardinality then leaf_full lo hi rs' else leaf_recs_ok lo hi rs')"
proof -
  obtain rs' j e cnt where p: "leaf_put rs k v = Inr (rs', j, cnt)" "rs' = rs[j := e]"
    "j < kLeafCardinality" "leaf_lookup rs' = (leaf_lookup rs)(k := val_opt v)"
    "cnt \<le> kLeafCardinality" "f_version e = r_version e"
    "cnt < kLeafCardinality \<Longrightarrow> leaf_recs_ok lo hi rs'"
    "cnt = kLeafCardinality \<Longrightarrow> leaf_full lo hi rs'"
    by (rule leaf_put_spec [OF assms, where v = v]) blast
  have "if cnt = kLeafCardinality then leaf_full lo hi rs' else leaf_recs_ok lo hi rs'"
    using p(5,7,8) by simp
  with p(1-4,6) show ?thesis by blast
qed

theorem leaf_put_updates_witness:
  "\<exists>rs' j cnt. leaf_put empty_recs 5 7 = Inr (rs', j, cnt) \<and> leaf_lookup rs' 5 = Some 7"
proof -
  have k: "kKeyMin \<le> (5 :: key)" "(5 :: key) < kKeyMax" by (simp_all add: kKeyMax_def)
  from leaf_put_updates [OF empty_recs_ok k, of 7] show ?thesis
    by (auto simp: val_opt_def kValueNull_def)
qed

text \<open>(C9) Removing a key reports whether it was there; when it was, one record is cleared,
  the lookup is the old one without the key, and the leaf stays well-formed.\<close>

theorem leaf_del_removes:
  assumes "leaf_recs_ok lo hi rs"
  shows "case leaf_del rs k of
      None \<Rightarrow> leaf_lookup rs k = None
    | Some (rs', j) \<Rightarrow> leaf_lookup rs k \<noteq> None \<and> j < kLeafCardinality \<and> leaf_recs_ok lo hi rs'
        \<and> leaf_lookup rs' = (leaf_lookup rs)(k := None)"
proof (cases "leaf_del rs k")
  case None
  then show ?thesis using leaf_del_spec [OF assms, of k] by simp
next
  case (Some x)
  obtain rs' j where x: "x = (rs', j)" by force
  with Some have d: "leaf_del_scan rs k 0 = Some j" by (auto simp: leaf_del_def split: option.splits)
  then have "\<exists>r \<in> set rs. live r \<and> le_key r = k"
    using leaf_del_scan_Some [OF d] by (auto intro!: bexI [of _ "rs ! j"])
  then obtain r where r: "r \<in> set rs" "live r" "le_key r = k" by blast
  have "leaf_lookup rs k = Some (le_value r)"
    using r assms leaf_lookup_iff [of rs k "le_value r"] unfolding leaf_recs_ok_def by blast
  then show ?thesis using leaf_del_spec [OF assms, of k] Some x by simp
qed

theorem leaf_del_removes_witness:
  "leaf_del empty_recs 5 = None \<and> leaf_lookup empty_recs 5 = None"
proof -
  have n: "leaf_lookup empty_recs 5 = None"
    by (rule leaf_lookup_empty) (simp add: empty_recs_def live_def new_LeafEntry_def)
  then show ?thesis
    using leaf_del_removes [OF empty_recs_ok [of 0 100], of 5] by (auto split: option.splits)
qed

text \<open>(C10) Splitting a full leaf cuts it at a key strictly inside its range: both halves are
  well-formed in their ranges, the left one links to the new page and the right one to the old
  sibling, the front and rear versions of the new page agree, and each key is found in exactly
  the half whose range it falls in, with the value it had.\<close>

theorem leaf_split_partitions:
  assumes "leaf_full (lowest (lp_hdr p)) (highest (lp_hdr p)) (lp_records p)"
  shows "\<exists>p' s sk. leaf_split p kLeafCardinality sib = Inr (p', s, sk)
    \<and> lowest (lp_hdr p) < sk \<and> sk < highest (lp_hdr p)
    \<and> leaf_recs_ok (lowest (lp_hdr p)) sk (lp_records p') \<and> highest (lp_hdr p') = sk
    \<and> leaf_recs_ok sk (highest (lp_hdr p)) (lp_records s) \<and> lowest (lp_hdr s) = sk
    \<and> highest (lp_hdr s) = highest (lp_hdr p) \<and> leaf_check_consistent s
    \<and> sibling_ptr (lp_hdr p') = sib \<and> sibling_ptr (lp_hdr s) = sibling_ptr (lp_hdr p)
    \<and> leaf_lookup (lp_records p') = leaf_lookup (lp_records p) |` {..<sk}
    \<and> leaf_lookup (lp_records s) = leaf_lookup (lp_records p) |` {sk..}"
proof -
  obtain p' s sk li li' where sp: "leaf_split p kLeafCardinality sib = Inr (p', s, sk)"
    "lowest (lp_hdr p) < sk" "sk < highest (lp_hdr p)"
    "lp_hdr p' = (lp_hdr p)\<lparr>last_index := li, highest := sk, sibling_ptr := sib\<rparr>"
    "lp_hdr s = (new_Header (level (lp_hdr p)))\<lparr>last_index := li', lowest := sk,
        highest := highest (lp_hdr p), sibling_ptr := sibling_ptr (lp_hdr p)\<rparr>"
    "lp_front_version s = lp_rear_version s"
    "leaf_recs_ok (lowest (lp_hdr p)) sk (lp_records p')"
    "leaf_recs_ok sk (highest (lp_hdr p)) (lp_records s)"
    and lk: "\<And>k. leaf_lookup (lp_records p') k = (if k < sk then leaf_lookup (lp_records p) k else None)"
      "\<And>k. leaf_lookup (lp_records s) k = (if k < sk then None else leaf_lookup (lp_records p) k)"
    by (rule leaf_split_spec [OF assms refl, where sib = sib]) blast
  have "leaf_lookup (lp_records p') = leaf_lookup (lp_records p) |` {..<sk}"
    "leaf_lookup (lp_records s) = leaf_lookup (lp_records p) |` {sk..}"
    using lk by (auto simp: restrict_map_def fun_eq_iff not_less)
  with sp show ?thesis by (auto simp: leaf_check_consistent_def)
qed

definition full_leaf :: LeafPage where
  "full_leaf = (new_LeafPage 0)\<lparr>lp_hdr := (new_Header 0)\<lparr>highest := 100\<rparr>, lp_records := full_recs\<rparr>"

theorem leaf_split_partitions_witness:
  "\<exists>p' s sk. leaf_split full_leaf kLeafCardinality gaddr_null = Inr (p', s, sk) \<and> sk < 100"
proof -
  have "leaf_full (lowest (lp_hdr full_leaf)) (highest (lp_hdr full_leaf)) (lp_records full_leaf)"
    using full_recs_full by (simp add: full_leaf_def kKeyMin_def)
  from leaf_split_partitions [OF this, of gaddr_null] show ?thesis by (auto simp: full_leaf_def)
qed

section \<open>An internal page as a sorted list of children\<close>

text \<open>Two internal pages to try the properties on: one with a single separator, and a full
  one with the separators 1 to 61.\<close>

definition small_page :: InternalPage where
  "small_page = new_root_InternalPage 0 gaddr_null 5 \<lparr>nodeID = 1, offset = 1024\<rparr> 1"

definition full_page :: InternalPage where
  "full_page = (new_InternalPage 1)\<lparr>
     ip_hdr := (new_Header 1)\<lparr>last_index := 60\<rparr>,
     ip_records := map (\<lambda>i. \<lparr>ie_key = of_nat i, ie_ptr = \<lparr>nodeID = 1, offset = of_nat i\<rparr>\<rparr>) [1..<62]\<rparr>"

lemma take_1_update: "xs \<noteq> [] \<Longrightarrow> take (Suc 0) (xs[0 := x]) = [x]"
  by (cases xs) auto

lemma small_entries: "entries small_page = [\<lparr>ie_key = 5, ie_ptr = \<lparr>nodeID = 1, offset = 1024\<rparr>\<rparr>]"
  by (simp add: entries_def small_page_def new_root_InternalPage_def kInternalCardinality_eq
      take_1_update)

lemma small_page_wf: "internal_wf small_page 1"
  unfolding internal_wf_def small_entries
  by (simp add: small_page_def new_root_InternalPage_def kInternalCardinality_eq kKeyMax_def)

lemma unat_small_key: "i < 4096 \<Longrightarrow> unat (of_nat i :: key) = i"
  by (simp add: unsigned_of_nat take_bit_nat_eq_self)

lemma full_page_wf: "internal_wf full_page kInternalCardinality"
proof -
  have "sorted_wrt (<) (map (of_nat :: nat \<Rightarrow> key) [1..<62])"
    unfolding sorted_wrt_map
    by (rule sorted_wrt_mono_rel [OF _ sorted_wrt_upt]) (simp add: word_less_nat_alt unat_small_key)
  moreover have "(of_nat i :: key) < kKeyMax" if "i < 62" for i
    using that by (simp add: kKeyMax_def word_less_nat_alt unat_small_key unsigned_minus_1_eq_mask
        mask_eq_exp_minus_1)
  ultimately show ?thesis
    by (auto simp: internal_wf_def full_page_def new_InternalPage_def entries_def o_def
        kInternalCardinality_eq)
qed

text \<open>(C11) On a well-formed internal page the search gives, for a key of the page's range,
  the child with the greatest separator at or below the key: the routing loop is equivalent to
  filtering the children by their separators and taking the last.\<close>

theorem internal_search_routes:
  assumes "internal_wf p n" "lowest (ip_hdr p) \<le> k" "k < highest (ip_hdr p)"
  shows "internal_page_search p k = Inr (snd (last (filter (\<lambda>(s, a). s \<le> k) (kids p))))"
  using internal_page_search_eq [OF assms] by (simp add: route_ref_def)

theorem internal_search_routes_witness:
  "internal_page_search small_page 4 = Inr gaddr_null
    \<and> internal_page_search small_page 5 = Inr \<lparr>nodeID = 1, offset = 1024\<rparr>"
proof -
  have "kids small_page = [(0, gaddr_null), (5, \<lparr>nodeID = 1, offset = 1024\<rparr>)]"
    unfolding kids_def small_entries
    by (simp add: entry_pair_def small_page_def new_root_InternalPage_def kKeyMin_def)
  moreover have "lowest (ip_hdr small_page) \<le> k" "highest (ip_hdr small_page) = kKeyMax" for k
    by (simp_all add: small_page_def new_root_InternalPage_def)
  ultimately show ?thesis
    using internal_search_routes [OF small_page_wf, of 4]
      internal_search_routes [OF small_page_wf, of 5] by (simp add: kKeyMax_def)
qed

text \<open>(C12) Storing a separator into a page that is not full succeeds and is the ordered
  insertion (or the overwriting of the pointer when the separator exists): the page stays
  sorted, nothing else of it changes, and one record is gained at most.\<close>

theorem internal_put_inserts:
  assumes "internal_wf p n" "n < kInternalCardinality" "lowest (ip_hdr p) \<le> k" "k < highest (ip_hdr p)"
  shows "\<exists>p' n'. internal_put p k v = Inr p' \<and> internal_wf p' n' \<and> n' \<le> Suc n
    \<and> entries p' = upd_entries k v (entries p)
    \<and> ip_hdr p' = (ip_hdr p)\<lparr>last_index := int n' - 1\<rparr>"
proof -
  obtain p' n' where "internal_put p k v = Inr p'" "internal_wf p' n'" "n' \<le> Suc n"
    "entries p' = upd_entries k v (entries p)" "ip_hdr p' = (ip_hdr p)\<lparr>last_index := int n' - 1\<rparr>"
    by (rule internal_put_spec [OF assms, where v = v]) blast
  then show ?thesis by blast
qed

theorem internal_put_inserts_witness:
  "\<exists>p'. internal_put small_page 3 gaddr_null = Inr p' \<and> map ie_key (entries p') = [3, 5]"
proof -
  have "1 < kInternalCardinality" by (simp add: kInternalCardinality_eq)
  moreover have "lowest (ip_hdr small_page) \<le> 3" "3 < highest (ip_hdr small_page)"
    by (simp_all add: small_page_def new_root_InternalPage_def kKeyMax_def)
  ultimately show ?thesis
    using internal_put_inserts [OF small_page_wf, of 3 gaddr_null] by (auto simp: small_entries)
qed

text \<open>(C13) Splitting a full internal page cuts the list of its children in two: the page and
  its new sibling hold them in order, the sibling starts at the split key, which lies strictly
  inside the range, the key ranges meet there, and both pages have room again.\<close>

theorem internal_split_partitions:
  assumes "internal_wf p kInternalCardinality"
  shows "\<exists>p' s sk. internal_split p kInternalCardinality sib = Inr (p', s, sk)
    \<and> kids p = kids p' @ kids s \<and> internal_ok p' \<and> internal_ok s
    \<and> lowest (ip_hdr p) < sk \<and> sk < highest (ip_hdr p)
    \<and> highest (ip_hdr p') = sk \<and> lowest (ip_hdr s) = sk \<and> highest (ip_hdr s) = highest (ip_hdr p)
    \<and> sibling_ptr (ip_hdr p') = sib \<and> sibling_ptr (ip_hdr s) = sibling_ptr (ip_hdr p)
    \<and> level (ip_hdr s) = level (ip_hdr p) \<and> internal_check_consistent s"
proof -
  obtain p' s sk where "internal_split p kInternalCardinality sib = Inr (p', s, sk)"
    "lowest (ip_hdr p) < sk" "sk < highest (ip_hdr p)" "internal_ok p'" "internal_ok s"
    "ip_hdr p' = (ip_hdr p)\<lparr>last_index := 29, highest := sk, sibling_ptr := sib\<rparr>"
    "level (ip_hdr s) = level (ip_hdr p)" "lowest (ip_hdr s) = sk"
    "highest (ip_hdr s) = highest (ip_hdr p)" "sibling_ptr (ip_hdr s) = sibling_ptr (ip_hdr p)"
    "ip_front_version s = ip_rear_version s" "kids p = kids p' @ kids s"
    by (rule internal_split_spec [OF assms, where sib = sib]) blast
  then show ?thesis by (auto simp: internal_check_consistent_def)
qed

theorem internal_split_partitions_witness:
  "\<exists>p' s sk. internal_split full_page kInternalCardinality gaddr_null = Inr (p', s, sk)
    \<and> kids full_page = kids p' @ kids s"
  using internal_split_partitions [OF full_page_wf, of gaddr_null] by blast

section \<open>Layout\<close>

text \<open>Both page types fit in their 1024 bytes with the cardinalities that are computed
  from the sizes, no further record would fit, the records of a page lie one behind the other
  after the header and before the rear version, and the offsets that are written remotely stay
  inside the page.\<close>

theorem page_layout_fits:
  "sizeof_InternalPage \<le> kInternalPageSize
    \<and> kInternalPageSize < sizeof_InternalPage + 8 + sizeof_InternalEntry
    \<and> sizeof_LeafPage \<le> kLeafPageSize \<and> kLeafPageSize < sizeof_LeafPage + 8 + sizeof_LeafEntry
    \<and> (i < kLeafCardinality \<longrightarrow> records_offset \<le> leaf_entry_offset i
        \<and> leaf_entry_offset i + sizeof_LeafEntry \<le> leaf_entry_offset (Suc i)
        \<and> leaf_entry_offset (Suc i) < sizeof_LeafPage)"
proof -
  have "i < kLeafCardinality \<Longrightarrow> leaf_entry_offset (Suc i) < sizeof_LeafPage"
    by (simp add: layout_defs)
  then show ?thesis by (simp add: layout_defs)
qed

theorem page_layout_fits_witness: "leaf_entry_offset 54 < sizeof_LeafPage \<and> sizeof_LeafPage \<le> 1024"
  using page_layout_fits [of 53] by (simp add: kLeafCardinality_eq kLeafPageSize_def)

end
