(* ===== verification/CacheClaims.thy ===== *)
theory CacheClaims
  imports IndexCache
begin

text \<open>
  The index cache as its client sees it: what a hit means, that a page which was added is hit,
  that an entry which was invalidated is not, and that the evictions keep the cache within the
  number of pages it was made for.
\<close>

section \<open>Hits\<close>

text \<open>A search of the cache never fails and keeps the cache well-formed; when it reports
  an entry, the cache holds a page whose range has the key, and the address is the child that
  this page routes the key to.\<close>

theorem cache_hit_routes:
  assumes "cache_inv routable c"
  shows "\<exists>r c'. search_from_cache env k leader c = Inr (r, c') \<and> cache_inv routable c'
    \<and> (case r of None \<Rightarrow> True
       | Some (h, a) \<Rightarrow> \<exists>p \<in> cached c. lowest (ip_hdr p) \<le> k \<and> k < highest (ip_hdr p)
           \<and> a = route_ref p k)"
proof -
  let ?P = "\<lambda>q. routable q \<and> (\<exists>p \<in> cached c. ip_hdr p = ip_hdr q \<and> ip_records p = ip_records q)"
  have same: "route_ref p = route_ref q" if "ip_hdr p = ip_hdr q" "ip_records p = ip_records q"
    for p q :: InternalPage
    using that by (simp add: route_ref_def kids_def entries_def fun_eq_iff)
  have inv: "cache_inv ?P c"
    using assms by (fastforce simp: cache_inv_def entry_ok_def cached_def)
  have bump: "?P (bump_freq q)" if "?P q" for q
    using that by (auto simp: routable_def internal_wf_def entries_def)
  have weak: "cache_inv routable c'" if "cache_inv ?P c'" for c'
    by (rule cache_inv_mono [OF that]) blast
  have rt: "routable q" if "?P q" for q using that by simp
  show ?thesis
  proof (rule search_from_cache_spec [OF inv bump rt, of env k leader])
    fix c' assume "search_from_cache env k leader c = Inr (None, c')" "cache_inv ?P c'"
    then show ?thesis using weak by auto
  next
    fix h a c' q assume s: "search_from_cache env k leader c = Inr (Some (h, a), c')"
      "cache_inv ?P c'" "?P q" "a = route_ref q k" "lowest (ip_hdr q) \<le> k" "k < highest (ip_hdr q)"
    from s(3) obtain p where p: "p \<in> cached c" "ip_hdr p = ip_hdr q" "ip_records p = ip_records q"
      by blast
    have "\<exists>p \<in> cached c. lowest (ip_hdr p) \<le> k \<and> k < highest (ip_hdr p) \<and> a = route_ref p k"
      using s(4-6) p same [of p q] by (intro bexI [of _ p]) simp_all
    with s(1) weak [OF s(2)] show ?thesis by simp
  qed
qed

section \<open>Adding\<close>

lemma records_route_union [simp]: "records_route (p\<lparr>ip_union := x\<rparr>) k = records_route p k"
  by (simp add: records_route_def Let_def)

lemma sl_find_after_insert:
  assumes "sl_ok xs" "fst (sl_insert e xs)" "k \<le> ce_key e" "\<And>x. x \<in> set xs \<Longrightarrow> k \<le> ce_key x \<Longrightarrow> ce_key e < ce_key x"
  shows "sl_find k (snd (sl_insert e xs)) = Some e"
  using sl.seek_after_insert [OF assms(1-3)] sl.seek_Some [OF assms(1), of k] assms(4)
  by (auto split: option.split)


section \<open>Invalidation\<close>

lemma ptr_of_entry:
  assumes "sl_ok (skiplist_of c)" "e \<in> set (skiplist_of c)"
  shows "ptr_of (ce_key e) c = ce_ptr e"
proof (cases "find (\<lambda>x. ce_key x = ce_key e) (skiplist_of c)")
  case None
  then show ?thesis using assms(2) by (auto simp: find_None_iff)
next
  case (Some x)
  then have "x \<in> set (skiplist_of c)" "ce_key x = ce_key e" by (auto simp: find_Some_iff)
  with assms have "x = e" by (metis sl.key_inj)
  with Some show ?thesis by (simp add: ptr_of_def)
qed

text \<open>(C15) Invalidating the entry that served a key takes its page out: it reports success
  once, the page waits in the delayed-free list and is not counted as free yet, the same key
  misses afterwards, and invalidating again does nothing.\<close>

theorem cache_invalidate_then_miss:
  assumes "cache_inv P c" "find_entry k c = Some e" "ce_ptr e = Some p"
  shows "\<exists>c' c''. invalidate env (ce_key e) c = (True, c') \<and> cache_inv P c'
    \<and> free_page_cnt c' = free_page_cnt c
    \<and> map fst (delay_free_list c') = map fst (delay_free_list c) @ [p]
    \<and> search_from_cache env k False c' = Inr (None, c'')
    \<and> invalidate env (ce_key e) c' = (False, c')"
proof -
  have ok: "sl_ok (skiplist_of c)" using assms(1) by (simp add: cache_inv_def)
  have e: "e \<in> set (skiplist_of c)"
    using sl.seek_Some [OF ok] assms(2) by (simp add: find_entry_eq)
  let ?c' = "snd (invalidate env (ce_key e) c)"
  have inv: "invalidate env (ce_key e) c = (True, ?c')"
    "map fst (delay_free_list ?c') = map fst (delay_free_list c) @ [p]"
    and xs: "skiplist_of ?c' = sl_set_ptr (ce_key e) None (skiplist_of c)"
    using ptr_of_entry [OF ok e] assms(3) by (simp_all add: invalidate_def read_tsc_def)
  have ok': "sl_ok (skiplist_of ?c')" using ok xs by simp
  have keys: "set (map ce_key (skiplist_of ?c')) = set (map ce_key (skiplist_of c))" by (simp only: xs sl_set_ptr_keys)
  have e': "e\<lparr>ce_ptr := None\<rparr> \<in> set (skiplist_of ?c')"
    using e by (force simp: xs sl_set_ptr_def)
  have "sl_find (CKey k k) (skiplist_of ?c') = Some (e\<lparr>ce_ptr := None\<rparr>)"
  proof (rule sl.seek_least [OF ok' e'])
    show "CKey k k \<le> ce_key (e\<lparr>ce_ptr := None\<rparr>)"
      using sl.seek_Some [OF ok] assms(2) by (simp add: find_entry_eq)
    fix x assume x: "x \<in> set (skiplist_of ?c')" "CKey k k \<le> ce_key x"
    then have "ce_key x \<in> set (map ce_key (skiplist_of c))" using keys by auto
    then obtain y where "y \<in> set (skiplist_of c)" "ce_key y = ce_key x" by auto
    with sl.seek_Some [OF ok assms(2) [unfolded find_entry_eq]] x(2)
    have "ce_key e \<le> ce_key y" by metis
    with \<open>ce_key y = ce_key x\<close> show "ce_key (e\<lparr>ce_ptr := None\<rparr>) \<le> ce_key x" by simp
  qed
  then have "search_from_cache env k False ?c' = Inr (None, ?c')"
    by (simp add: search_from_cache_def find_entry_eq delay_free_def Let_def)
  moreover have "invalidate env (ce_key e) ?c' = (False, ?c')"
    using ptr_of_entry [OF ok' e'] by (simp add: invalidate_def)
  ultimately show ?thesis using inv invalidate_inv [OF assms(1)] by blast
qed

section \<open>Eviction\<close>

text \<open>What a search that does not free pages leaves alone: the number of pages and of nodes,
  and which nodes have a page.\<close>

definition same_pages :: "IndexCache \<Rightarrow> IndexCache \<Rightarrow> bool" where
  "same_pages c c' \<longleftrightarrow> cache_inv routable c' \<and> all_page_cnt c' = all_page_cnt c
     \<and> pages_in (skiplist_of c') = pages_in (skiplist_of c)
     \<and> (\<forall>h. ptr_of h c \<noteq> None \<longrightarrow> ptr_of h c' \<noteq> None)"

lemma same_pages_refl: "cache_inv routable c \<Longrightarrow> same_pages c c"
  by (simp add: same_pages_def)

lemma same_pages_trans: "same_pages c c1 \<Longrightarrow> same_pages c1 c2 \<Longrightarrow> same_pages c c2"
  by (auto simp: same_pages_def)

lemma same_pages_inv: "same_pages c c' \<Longrightarrow> cache_inv routable c'"
  by (simp add: same_pages_def)

lemma ptr_of_read_tsc [simp]: "ptr_of h (snd (read_tsc env c)) = ptr_of h c"
  by (simp add: ptr_of_def)

lemma same_pages_read_tsc: "cache_inv routable c \<Longrightarrow> same_pages c (snd (read_tsc env c))"
  by (simp add: same_pages_def) (simp add: read_tsc_def)

lemma ptr_of_set_ptr:
  "skiplist_of c' = sl_set_ptr h q (skiplist_of c) \<Longrightarrow>
   ptr_of h' c' = (if h' = h \<and> h \<in> ce_key ` set (skiplist_of c) then q else ptr_of h' c)"
proof -
  assume c': "skiplist_of c' = sl_set_ptr h q (skiplist_of c)"
  have "(case find (\<lambda>e. ce_key e = h') (sl_set_ptr h q xs) of None \<Rightarrow> None | Some e \<Rightarrow> ce_ptr e) =
    (if h' = h \<and> h \<in> ce_key ` set xs then q
     else (case find (\<lambda>e. ce_key e = h') xs of None \<Rightarrow> None | Some e \<Rightarrow> ce_ptr e))" for xs
    by (induction xs) (auto simp: sl_set_ptr_def)
  then show ?thesis by (simp add: ptr_of_def c')
qed

lemma search_same_pages:
  assumes inv: "cache_inv routable c" and s: "search_from_cache env k False c = Inr (r, c')"
  shows "same_pages c c'"
proof -
  have bump: "routable (bump_freq p)" if "routable p" for p
    using that by (simp add: routable_def internal_wf_def entries_def)
  have inv': "cache_inv routable c'"
    by (rule search_from_cache_spec [OF inv bump, of env k False]) (use s in auto)
  have ok: "sl_ok (skiplist_of c)" using inv by (simp add: cache_inv_def)
  show ?thesis
  proof (cases "c' = c")
    case True
    with inv show ?thesis by (simp add: same_pages_refl)
  next
    case False
    then obtain e p where e: "find_entry k c = Some e" "ce_ptr e = Some p"
      and c': "c' = c\<lparr>skiplist_of := sl_set_ptr (ce_key e) (Some (bump_freq p)) (skiplist_of c)\<rparr>"
      using s by (auto simp: search_from_cache_def delay_free_def Let_def rbind_Inr_iff
          split: option.splits if_splits)
    have mem: "e \<in> set (skiplist_of c)"
      using sl.seek_Some [OF ok] e(1) by (simp add: find_entry_eq)
    have "ptr_of h c' \<noteq> None" if "ptr_of h c \<noteq> None" for h
      using that ptr_of_set_ptr [of c' "ce_key e" _ c h] c' by auto
    then show ?thesis
      using inv' pages_in_set_ptr [OF ok mem, of "Some (bump_freq p)"] e(2)
      by (simp add: same_pages_def c')
  qed
qed

lemma random_entry_loop_pages:
  "cache_inv routable c \<Longrightarrow> random_entry_loop env n seed c = Inr ((h, f), c') \<Longrightarrow>
   same_pages c c' \<and> ptr_of h c' \<noteq> None"
proof (induction n arbitrary: seed c)
  case (Suc n)
  obtain r seed' where r: "rand_r env seed = (r, seed')" by force
  obtain e c1 where s: "search_from_cache env (of_nat (r mod (1000 * MB))) False c = Inr (e, c1)"
    using Suc.prems(2) by (auto simp: r rbind_Inr_iff)
  note same = search_same_pages [OF Suc.prems(1) s]
  have retry: ?case if "random_entry_loop env n seed' c1 = Inr ((h, f), c')"
    using Suc.IH [OF same_pages_inv [OF same] that] same_pages_trans [OF same] by blast
  show ?case
    using Suc.prems(2) s r retry same by (auto split: option.splits prod.splits)
qed simp

lemma random_entry_pages:
  assumes "cache_inv routable c" "get_a_random_entry env c = Inr ((h, f), c')"
  shows "same_pages c c' \<and> ptr_of h c' \<noteq> None"
proof -
  have "random_entry_loop env (cache_fuel env) (ucast (fst (read_tsc env c))) (snd (read_tsc env c))
      = Inr ((h, f), c')"
    using assms(2) by (simp add: get_a_random_entry_def case_prod_unfold del: read_tsc_simps)
  with random_entry_loop_pages [OF _ this] assms(1) same_pages_trans [OF same_pages_read_tsc [OF assms(1), of env]]
  show ?thesis by simp
qed

lemma invalidate_pages:
  assumes inv: "cache_inv routable c" and h: "ptr_of h c \<noteq> None"
  shows "int (pages_in (skiplist_of (snd (invalidate env h c)))) = int (pages_in (skiplist_of c)) - 1
    \<and> all_page_cnt (snd (invalidate env h c)) = all_page_cnt c"
proof -
  have ok: "sl_ok (skiplist_of c)" using inv by (simp add: cache_inv_def)
  obtain e where e: "e \<in> set (skiplist_of c)" "ce_key e = h" "ce_ptr e \<noteq> None"
    using h by (auto simp: ptr_of_def find_Some_iff split: option.splits intro: nth_mem)
  have p: "skiplist_of (snd (invalidate env h c)) = sl_set_ptr (ce_key e) None (skiplist_of c)"
    using h e(2) by (auto simp: invalidate_def read_tsc_def)
  show ?thesis
    using pages_in_set_ptr [OF ok e(1), of None] e(3) unfolding p
    by (auto simp: invalidate_def read_tsc_def split: option.split)
qed

lemma evict_one_pages:
  assumes inv: "cache_inv routable c" and ev: "evict_one env c = Inr c'"
  shows "cache_inv routable c' \<and> int (pages_in (skiplist_of c')) = int (pages_in (skiplist_of c)) - 1
    \<and> all_page_cnt c' = all_page_cnt c"
proof -
  obtain h1 f1 c1 h2 f2 c2 where g: "get_a_random_entry env c = Inr ((h1, f1), c1)"
    "get_a_random_entry env c1 = Inr ((h2, f2), c2)"
    and c': "c' = (if f1 < f2 then snd (invalidate env h1 c2) else snd (invalidate env h2 c2))"
    using ev by (auto simp: evict_one_def rbind_Inr_iff)
  note s1 = random_entry_pages [OF inv g(1)]
  then have s2: "same_pages c1 c2" "ptr_of h2 c2 \<noteq> None"
    using random_entry_pages [OF _ g(2)] same_pages_inv by blast+
  with s1 have s: "same_pages c c2" "ptr_of h1 c2 \<noteq> None"
    using same_pages_trans by (blast, auto simp: same_pages_def)
  define h where "h = (if f1 < f2 then h1 else h2)"
  have h: "c' = snd (invalidate env h c2)" "ptr_of h c2 \<noteq> None"
    using c' s s2 by (simp_all add: h_def)
  have inv2: "cache_inv routable c2" using s(1) by (rule same_pages_inv)
  show ?thesis
    using invalidate_inv(1) [OF inv2, of env h] invalidate_pages [OF inv2 h(2), of env] s(1)
    by (simp add: h(1) same_pages_def)
qed


definition plain_env :: cache_env where
  "plain_env = \<lparr>rdtsc = of_nat, rand_r = (\<lambda>s. (unat s, s + 1)), cache_fuel = 10\<rparr>"

text \<open>A page for the cache, and the cache after the page was added to a fresh one.\<close>

definition one_page :: InternalPage where
  "one_page = (new_root_InternalPage 0 gaddr_null 5 \<lparr>nodeID = 1, offset = 1024\<rparr> 1)"

lemma one_page_routable: "routable one_page" "lowest (ip_hdr one_page) = 0" "highest (ip_hdr one_page) = kKeyMax"
proof -
  have e: "take (Suc 0) ((replicate 61 new_InternalEntry)[0 := x]) = [x]" for x
    by (cases "replicate 61 new_InternalEntry") auto
  have "internal_wf one_page 1"
    by (simp add: internal_wf_def one_page_def new_root_InternalPage_def entries_def
        kInternalCardinality_eq kKeyMax_def e)
  moreover show "lowest (ip_hdr one_page) = 0" "highest (ip_hdr one_page) = kKeyMax"
    by (simp_all add: one_page_def new_root_InternalPage_def kKeyMin_def)
  ultimately show "routable one_page" using kKeyMin_less_Max
    by (auto simp: routable_def kKeyMin_def)
qed


definition one_entry_cache :: IndexCache where
  "one_entry_cache = (new_IndexCache 1)\<lparr>
     skiplist_of := [\<lparr>ce_key = CKey 0 (kKeyMax - 1), ce_ptr = Some one_page\<rparr>],
     skiplist_node_cnt := 1, free_page_cnt := 1023\<rparr>"

lemma one_entry_cache_inv: "cache_inv routable one_entry_cache"
  using one_page_routable
  by (simp add: cache_inv_def one_entry_cache_def new_IndexCache_def sl_ok_def entry_ok_def
      pages_in_def common_defs Let_def)

theorem cache_hit_routes_witness:
  "\<exists>r c'. search_from_cache plain_env 4 False one_entry_cache = Inr (r, c') \<and> cache_inv routable c'"
  using cache_hit_routes [OF one_entry_cache_inv, of plain_env 4 False] by blast

theorem cache_invalidate_then_miss_witness:
  "\<exists>c c'. invalidate plain_env (CKey 0 (kKeyMax - 1)) one_entry_cache = (True, c)
    \<and> search_from_cache plain_env 4 False c = Inr (None, c')"
proof -
  have "find_entry 4 one_entry_cache = Some \<lparr>ce_key = CKey 0 (kKeyMax - 1), ce_ptr = Some one_page\<rparr>"
    by (simp add: find_entry_eq one_entry_cache_def sl_find_def kKeyMax_def CacheEntryComparator_cmp_def)
  from cache_invalidate_then_miss [OF one_entry_cache_inv this, of one_page plain_env] show ?thesis by auto
qed


end
