(* ===== verification/LockProto.thy ===== *)
theory LockProto
  imports Locks
begin

text \<open>
  The lock of one page under contention: any number of compute nodes, threads and coroutines
  run \<^verbatim>\<open>lock_and_read_page\<close>, \<^verbatim>\<open>write_page_and_unlock\<close> and \<^verbatim>\<open>unlock_addr\<close> on
  it, interleaved at the accesses to shared memory: the ticket counter of the node, the
  compare-and-swap on the remote word, the writes of the page and of the word, which may be
  under way when the client goes on (\<^verbatim>\<open>async\<close>), and the release of the local lock.
\<close>

section \<open>State\<close>

text \<open>A client is a coroutine of a thread of a compute node.\<close>

datatype client = Client (cl_node: nat) (cl_thread: nat) (cl_coro: nat)

definition client_tag :: "client \<Rightarrow> u64" where
  "client_tag c = of_nat (cl_thread c) + push_bit 32 (of_nat (cl_node c)) + 1"

definition client_ok :: "client \<Rightarrow> bool" where
  "client_ok c \<longleftrightarrow> cl_node c < 2 ^ 16 \<and> cl_thread c < MAX_APP_THREAD \<and> cl_coro c < kMaxCoro"

text \<open>
  Where a client is: outside; waiting for its ticket; in the compare-and-swap loop, with its
  count of attempts and the tag of the last conflict; holding the lock; after
  \<^verbatim>\<open>can_hand_over\<close> said yes, or no; waiting for the completion of its last writes; before
  the release of the local lock; stopped by the assertion of the loop.
\<close>

datatype phase = Idle | Waiting | Contending nat u64 | Critical | Handing | Unlocking | Draining
  | Leaving | Crashed

datatype 'v remote_write = WriteContent 'v | WriteUnlock

text \<open>\<open>latest\<close> and \<open>draws\<close> only serve the statements: the content that was last handed to
  the network, and the number of tickets drawn so far.\<close>

record 'v lock_state =
  lword :: u64
  content :: 'v
  lnode :: "nat \<Rightarrow> LocalLockNode"
  ph :: "client \<Rightarrow> phase"
  tkt :: "client \<Rightarrow> u32"           \<comment> \<open>\<^verbatim>\<open>ticket\<close> and \<^verbatim>\<open>current\<close> of a waiting client\<close>
  loaded :: "client \<Rightarrow> u32"
  inflight :: "client \<Rightarrow> 'v remote_write list"
  latest :: 'v
  draws :: nat

definition lock_start :: "'v \<Rightarrow> 'v lock_state" where
  "lock_start v = \<lparr>lword = 0, content = v, lnode = (\<lambda>_. new_LocalLockNode), ph = (\<lambda>_. Idle),
     tkt = (\<lambda>_. 0), loaded = (\<lambda>_. 0), inflight = (\<lambda>_. []), latest = v, draws = 0\<rparr>"

section \<open>Steps\<close>

text \<open>What a failed attempt does to the count and the tag: \<^verbatim>\<open>conflict_tag = *buf - 1\<close>,
  and a new conflict starts the count again.\<close>

definition cas_retry :: "u64 \<Rightarrow> nat \<Rightarrow> u64 \<Rightarrow> nat \<times> u64" where
  "cas_retry old retry_cnt pre_tag =
     (let conflict_tag = old - 1
      in if conflict_tag \<noteq> pre_tag then (0, conflict_tag) else (retry_cnt, pre_tag))"

definition kMaxRetry :: nat where "kMaxRetry = 1000000"

inductive lock_step :: "'v lock_state \<Rightarrow> 'v lock_state \<Rightarrow> bool" where
  draw: "ph s c = Idle \<Longrightarrow> client_ok c \<Longrightarrow> draw_ticket (lnode s (cl_node c)) = (v, n) \<Longrightarrow>
    lock_step s (s\<lparr>lnode := (lnode s)(cl_node c := n), tkt := (tkt s)(c := lock_ticket v),
      loaded := (loaded s)(c := lock_current v), ph := (ph s)(c := Waiting), draws := Suc (draws s)\<rparr>)"
| spin: "ph s c = Waiting \<Longrightarrow> tkt s c \<noteq> loaded s c \<Longrightarrow>
    lock_step s (s\<lparr>loaded := (loaded s)(c := reload_current (lnode s (cl_node c)))\<rparr>)"
| enter: "ph s c = Waiting \<Longrightarrow> tkt s c = loaded s c \<Longrightarrow>
    enter_local_lock (lnode s (cl_node c)) = (h, n) \<Longrightarrow>
    lock_step s (s\<lparr>lnode := (lnode s)(cl_node c := n),
      ph := (ph s)(c := if h then Critical else Contending 0 0)\<rparr>)"
| cas_ok: "ph s c = Contending r p \<Longrightarrow> Suc r \<le> kMaxRetry \<Longrightarrow>
    cas_word (lword s) 0 (client_tag c) = (old, x) \<Longrightarrow> old = 0 \<Longrightarrow>
    lock_step s (s\<lparr>lword := x, ph := (ph s)(c := Critical)\<rparr>)"
| cas_fail: "ph s c = Contending r p \<Longrightarrow> Suc r \<le> kMaxRetry \<Longrightarrow>
    cas_word (lword s) 0 (client_tag c) = (old, x) \<Longrightarrow> old \<noteq> 0 \<Longrightarrow>
    cas_retry old (Suc r) p = (r', p') \<Longrightarrow>
    lock_step s (s\<lparr>lword := x, ph := (ph s)(c := Contending r' p')\<rparr>)"
| deadlock: "ph s c = Contending r p \<Longrightarrow> kMaxRetry < Suc r \<Longrightarrow>
    lock_step s (s\<lparr>ph := (ph s)(c := Crashed)\<rparr>)"
| decide: "ph s c = Critical \<Longrightarrow> can_hand_over (lnode s (cl_node c)) = (h, n) \<Longrightarrow>
    lock_step s (s\<lparr>lnode := (lnode s)(cl_node c := n),
      ph := (ph s)(c := if h then Handing else Unlocking)\<rparr>)"
| hand_write: "ph s c = Handing \<Longrightarrow>
    lock_step s (s\<lparr>content := v, latest := v, ph := (ph s)(c := Leaving)\<rparr>)"
| hand_plain: "ph s c = Handing \<Longrightarrow> lock_step s (s\<lparr>ph := (ph s)(c := Leaving)\<rparr>)"
| issue_write: "ph s c = Unlocking \<Longrightarrow>
    lock_step s (s\<lparr>inflight := (inflight s)(c := inflight s c @ [WriteContent v, WriteUnlock]),
      latest := v, ph := (ph s)(c := if async then Leaving else Draining)\<rparr>)"
| issue_plain: "ph s c = Unlocking \<Longrightarrow>
    lock_step s (s\<lparr>inflight := (inflight s)(c := inflight s c @ [WriteUnlock]),
      ph := (ph s)(c := if async then Leaving else Draining)\<rparr>)"
| land_content: "inflight s c = WriteContent v # ws \<Longrightarrow>
    lock_step s (s\<lparr>content := v, inflight := (inflight s)(c := ws)\<rparr>)"
| land_unlock: "inflight s c = WriteUnlock # ws \<Longrightarrow>
    lock_step s (s\<lparr>lword := 0, inflight := (inflight s)(c := ws)\<rparr>)"
| drained: "ph s c = Draining \<Longrightarrow> inflight s c = [] \<Longrightarrow>
    lock_step s (s\<lparr>ph := (ph s)(c := Leaving)\<rparr>)"
| leave: "ph s c = Leaving \<Longrightarrow>
    lock_step s (s\<lparr>lnode := (lnode s)(cl_node c := releases_local_lock (lnode s (cl_node c))),
      ph := (ph s)(c := Idle)\<rparr>)"

inductive lock_reach :: "'v lock_state \<Rightarrow> bool" where
  start: "lock_reach (lock_start v)"
| step: "lock_reach s \<Longrightarrow> lock_step s s' \<Longrightarrow> lock_reach s'"

section \<open>The tickets of a node\<close>

definition cur :: "'v lock_state \<Rightarrow> nat \<Rightarrow> nat" where
  "cur s n = unat (lock_current (ticket_lock (lnode s n)))"

definition nxt :: "'v lock_state \<Rightarrow> nat \<Rightarrow> nat" where
  "nxt s n = unat (lock_ticket (ticket_lock (lnode s n)))"

definition inside :: "phase \<Rightarrow> bool" where
  "inside p \<longleftrightarrow> p \<noteq> Idle \<and> p \<noteq> Waiting"

text \<open>The tickets between the two halves of the counter are held by one client each, and the
  clients past the local lock hold the current one.\<close>

definition ticket_inv :: "'v lock_state \<Rightarrow> bool" where
  "ticket_inv s \<longleftrightarrow>
     (\<forall>n. cur s n \<le> nxt s n \<and> nxt s n \<le> draws s)
     \<and> (\<forall>c. ph s c \<noteq> Idle \<longrightarrow> cur s (cl_node c) \<le> unat (tkt s c) \<and> unat (tkt s c) < nxt s (cl_node c))
     \<and> (\<forall>c d. ph s c \<noteq> Idle \<longrightarrow> ph s d \<noteq> Idle \<longrightarrow> cl_node c = cl_node d \<longrightarrow> tkt s c = tkt s d \<longrightarrow> c = d)
     \<and> (\<forall>c. inside (ph s c) \<longrightarrow> unat (tkt s c) = cur s (cl_node c))
     \<and> (\<forall>c. ph s c = Waiting \<longrightarrow> unat (loaded s c) \<le> cur s (cl_node c))
     \<and> (\<forall>n t. cur s n \<le> t \<longrightarrow> t < nxt s n \<longrightarrow> (\<exists>c. cl_node c = n \<and> ph s c \<noteq> Idle \<and> unat (tkt s c) = t))"

lemma ticket_invD:
  assumes "ticket_inv s"
  shows "cur s n \<le> nxt s n" "nxt s n \<le> draws s"
    "ph s c \<noteq> Idle \<Longrightarrow> cur s (cl_node c) \<le> unat (tkt s c)"
    "ph s c \<noteq> Idle \<Longrightarrow> unat (tkt s c) < nxt s (cl_node c)"
    "ph s c \<noteq> Idle \<Longrightarrow> ph s d \<noteq> Idle \<Longrightarrow> cl_node c = cl_node d \<Longrightarrow> tkt s c = tkt s d \<Longrightarrow> c = d"
    "inside (ph s c) \<Longrightarrow> unat (tkt s c) = cur s (cl_node c)"
    "cur s n \<le> t \<Longrightarrow> t < nxt s n \<Longrightarrow> \<exists>c. cl_node c = n \<and> ph s c \<noteq> Idle \<and> unat (tkt s c) = t"
    "ph s c = Waiting \<Longrightarrow> unat (loaded s c) \<le> cur s (cl_node c)"
  using assms unfolding ticket_inv_def by blast+

lemma inside_simps [simp]:
  "\<not> inside Idle" "\<not> inside Waiting" "inside (Contending r p)" "inside Critical" "inside Handing"
  "inside Unlocking" "inside Draining" "inside Leaving" "inside Crashed"
  "inside (if b then x else y) = (if b then inside x else inside y)"
  by (simp_all add: inside_def)

lemma inside_not_Idle: "inside p \<Longrightarrow> p \<noteq> Idle"
  by (simp add: inside_def)

text \<open>The mutual exclusion of one node's clients past their local lock.\<close>

lemma inside_unique:
  assumes "ticket_inv s" "inside (ph s c)" "inside (ph s d)" "cl_node c = cl_node d"
  shows "c = d"
proof -
  have "unat (tkt s c) = unat (tkt s d)" using ticket_invD(6) [OF assms(1)] assms(2-4) by simp
  then have "tkt s c = tkt s d" by (simp add: word_unat_eq_iff)
  with ticket_invD(5) [OF assms(1)] assms(2-4) inside_not_Idle show ?thesis by blast
qed

lemma ticket_inv_cong:
  assumes inv: "ticket_inv s" and same: "\<And>n. ticket_lock (lnode s' n) = ticket_lock (lnode s n)"
    "tkt s' = tkt s" "draws s' = draws s" "\<And>c. ph s' c = Idle \<longleftrightarrow> ph s c = Idle"
    and wait: "\<And>c. ph s' c = Waiting \<Longrightarrow> ph s c = Waiting \<and>
      (loaded s' c = loaded s c \<or> loaded s' c = lock_current (ticket_lock (lnode s (cl_node c))))"
    and new: "\<And>c. inside (ph s' c) \<Longrightarrow> inside (ph s c) \<or> unat (tkt s c) = cur s (cl_node c)"
  shows "ticket_inv s'"
proof -
  have cn: "cur s' = cur s" "nxt s' = nxt s" using same(1) by (simp_all add: cur_def nxt_def fun_eq_iff)
  have "unat (tkt s' c) = cur s' (cl_node c)" if "inside (ph s' c)" for c
    using new [OF that] ticket_invD(6) [OF inv, of c] by (auto simp: same cn)
  moreover have "unat (loaded s' c) \<le> cur s' (cl_node c)" if "ph s' c = Waiting" for c
    using wait [OF that] ticket_invD(8) [OF inv, of c] by (auto simp: cn cur_def)
  ultimately show ?thesis using inv unfolding ticket_inv_def by (simp add: same cn)
qed

lemma ticket_inv_draw:
  assumes inv: "ticket_inv s" and c: "ph s c = Idle" and room: "draws s < 4294967295"
    and d: "draw_ticket (lnode s (cl_node c)) = (v, n)"
  shows "ticket_inv (s\<lparr>lnode := (lnode s)(cl_node c := n), tkt := (tkt s)(c := lock_ticket v),
      loaded := (loaded s)(c := lock_current v), ph := (ph s)(c := Waiting), draws := Suc (draws s)\<rparr>)" (is "ticket_inv ?s")
proof -
  let ?n = "cl_node c"
  have v: "v = ticket_lock (lnode s ?n)" "ticket_lock n = v + 1"
    using d by (auto simp: draw_ticket_def)
  have lt: "unat (lock_ticket v) + 1 < 4294967296"
    using ticket_invD(2) [OF inv, of ?n] room by (simp add: nxt_def v)
  note w = lock_word_after_draw [OF lt]
  have t: "unat (lock_ticket v) = nxt s ?n" by (simp add: nxt_def v)
  have cu: "cur ?s m = cur s m" and nx: "nxt ?s m = (if m = ?n then Suc (nxt s ?n) else nxt s m)" for m
    using w by (simp_all add: cur_def nxt_def v)
  have le: "cur s ?n \<le> nxt s ?n" using ticket_invD(1) [OF inv] .
  show ?thesis
    unfolding ticket_inv_def
  proof (intro conjI allI impI)
    fix m show "cur ?s m \<le> nxt ?s m" "nxt ?s m \<le> draws ?s"
      using ticket_invD(1,2) [OF inv, of m] by (auto simp: cu nx)
  next
    fix d assume "ph ?s d \<noteq> Idle"
    then show "cur ?s (cl_node d) \<le> unat (tkt ?s d)" "unat (tkt ?s d) < nxt ?s (cl_node d)"
      using ticket_invD(3,4) [OF inv, of d] le by (auto simp: cu nx t split: if_splits)
  next
    fix d e assume a: "ph ?s d \<noteq> Idle" "ph ?s e \<noteq> Idle" "cl_node d = cl_node e" "tkt ?s d = tkt ?s e"
    have "unat (tkt s x) \<noteq> nxt s ?n" if "ph s x \<noteq> Idle" "cl_node x = ?n" for x
      using ticket_invD(4) [OF inv that(1)] that(2) by simp
    then have ne: "tkt s x \<noteq> lock_ticket v" if "ph s x \<noteq> Idle" "cl_node x = ?n" for x
      using that t by metis
    show "d = e"
    proof (cases "d = c \<or> e = c")
      case True
      then show ?thesis using a ne [of d] ne [of e] by (auto split: if_splits)
    next
      case False
      then show ?thesis using a ticket_invD(5) [OF inv, of d e] by simp
    qed
  next
    fix d assume "inside (ph ?s d)"
    then show "unat (tkt ?s d) = cur ?s (cl_node d)"
      using ticket_invD(6) [OF inv, of d] by (auto simp: cu split: if_splits)
  next
    fix d assume "ph ?s d = Waiting"
    then show "unat (loaded ?s d) \<le> cur ?s (cl_node d)"
      using ticket_invD(8) [OF inv, of d] by (cases "d = c") (auto simp: cu, simp add: cur_def v)
  next
    fix m x assume m: "cur ?s m \<le> x" "x < nxt ?s m"
    show "\<exists>d. cl_node d = m \<and> ph ?s d \<noteq> Idle \<and> unat (tkt ?s d) = x"
    proof (cases "m = ?n \<and> x = nxt s ?n")
      case True
      then show ?thesis using t by (intro exI [of _ c]) simp
    next
      case False
      then have "x < nxt s m" using m by (auto simp: nx split: if_splits)
      with ticket_invD(7) [OF inv, of m x] m obtain d where
        d: "cl_node d = m" "ph s d \<noteq> Idle" "unat (tkt s d) = x" by (auto simp: cu)
      with c have "d \<noteq> c" by auto
      with d show ?thesis by (intro exI [of _ d]) simp
    qed
  qed
qed

lemma ticket_inv_leave:
  assumes inv: "ticket_inv s" and c: "inside (ph s c)"
  shows "ticket_inv (s\<lparr>lnode := (lnode s)(cl_node c := releases_local_lock (lnode s (cl_node c))),
      ph := (ph s)(c := Idle)\<rparr>)" (is "ticket_inv ?s")
    and "cur (s\<lparr>lnode := (lnode s)(cl_node c := releases_local_lock (lnode s (cl_node c))),
      ph := (ph s)(c := Idle)\<rparr>) (cl_node c) = Suc (cur s (cl_node c))"
proof -
  let ?n = "cl_node c"
  have tc: "unat (tkt s c) = cur s ?n" "unat (tkt s c) < nxt s ?n"
    using ticket_invD(4,6) [OF inv] c inside_not_Idle by blast+
  have nlt: "nxt s ?n < 4294967296"
    using unsigned_less [of "lock_ticket (ticket_lock (lnode s ?n))"] by (simp add: nxt_def)
  with tc have "unat (lock_current (ticket_lock (lnode s ?n)) + 1) = Suc (cur s ?n)"
    by (subst unat_word_ariths) (simp add: cur_def)
  then have cu: "cur ?s m = (if m = ?n then Suc (cur s ?n) else cur s m)" and nx: "nxt ?s m = nxt s m" for m
    by (auto simp: cur_def nxt_def releases_local_lock_def lock_word_after_release)
  show "cur ?s ?n = Suc (cur s ?n)" using cu by simp
  show "ticket_inv ?s"
    unfolding ticket_inv_def
  proof (intro conjI allI impI)
    fix m show "cur ?s m \<le> nxt ?s m" "nxt ?s m \<le> draws ?s"
      using ticket_invD(1,2) [OF inv, of m] tc by (auto simp: cu nx)
  next
    fix d assume "ph ?s d \<noteq> Idle"
    then have d: "ph s d \<noteq> Idle" "d \<noteq> c" by (auto split: if_splits)
    have "unat (tkt s d) \<noteq> cur s ?n" if "cl_node d = ?n"
      using ticket_invD(5) [OF inv d(1), of c] that d(2) tc(1) c inside_not_Idle
      by (auto simp: word_unat_eq_iff)
    with ticket_invD(3,4) [OF inv d(1)]
    show "cur ?s (cl_node d) \<le> unat (tkt ?s d)" "unat (tkt ?s d) < nxt ?s (cl_node d)"
      by (auto simp: cu nx)
  next
    fix d e assume "ph ?s d \<noteq> Idle" "ph ?s e \<noteq> Idle" "cl_node d = cl_node e" "tkt ?s d = tkt ?s e"
    then show "d = e" using ticket_invD(5) [OF inv, of d e] by (auto split: if_splits)
  next
    fix d assume "inside (ph ?s d)"
    then have d: "inside (ph s d)" "d \<noteq> c" by (auto split: if_splits)
    with inside_unique [OF inv d(1) c] ticket_invD(6) [OF inv d(1)]
    show "unat (tkt ?s d) = cur ?s (cl_node d)" by (auto simp: cu)
  next
    fix d assume "ph ?s d = Waiting"
    then show "unat (loaded ?s d) \<le> cur ?s (cl_node d)"
      using ticket_invD(8) [OF inv, of d] by (cases "d = c") (auto simp: cu)
  next
    fix m x assume m: "cur ?s m \<le> x" "x < nxt ?s m"
    then have "cur s m \<le> x" "x < nxt s m" "m = ?n \<Longrightarrow> x \<noteq> cur s ?n" by (auto simp: cu nx split: if_splits)
    with ticket_invD(7) [OF inv, of m x] obtain d where
      d: "cl_node d = m" "ph s d \<noteq> Idle" "unat (tkt s d) = x" "m = ?n \<Longrightarrow> x \<noteq> cur s ?n" by blast
    with tc have "d \<noteq> c" by auto
    with d show "\<exists>d. cl_node d = m \<and> ph ?s d \<noteq> Idle \<and> unat (tkt ?s d) = x"
      by (intro exI [of _ d]) simp
  qed
qed

text \<open>The other operations on the local lock leave its counter alone.\<close>

lemma local_ops_word [simp]:
  "enter_local_lock n = (h, n') \<Longrightarrow> ticket_lock n' = ticket_lock n"
  "can_hand_over n = (h, n') \<Longrightarrow> ticket_lock n' = ticket_lock n"
  by (auto simp: enter_local_lock_def can_hand_over_def Let_def split: if_splits)

lemma enter_facts:
  assumes "enter_local_lock n = (h, n')"
  shows "hand_time n' = hand_time n + 1" "hand_over n' = hand_over n" "h = hand_over n"
  using assms unfolding enter_local_lock_def by (erule_tac Pair_inject, hypsubst, simp)+

text \<open>A client that saw its ticket come up still has its turn.\<close>

lemma loaded_turn:
  assumes "ticket_inv s" "ph s c = Waiting" "tkt s c = loaded s c"
  shows "unat (loaded s c) = cur s (cl_node c)"
  using ticket_invD(3,8) [OF assms(1), of c] assms(2,3) by simp

lemma ticket_inv_step:
  assumes "lock_step s s'" "ticket_inv s" "draws s' < 4294967296"
  shows "ticket_inv s'"
  using assms(1)
proof cases
  case (draw c v n)
  have "draws s < 4294967295" using assms(3) draw(1) by simp
  from ticket_inv_draw [OF assms(2) draw(2) this draw(4)] show ?thesis unfolding draw(1) .
next
  case (enter c h n)
  show ?thesis unfolding enter(1)
    by (rule ticket_inv_cong [OF assms(2)])
      (use enter loaded_turn [OF assms(2)] in \<open>auto split: if_splits\<close>)
next
  case (spin c)
  show ?thesis unfolding spin(1)
    by (rule ticket_inv_cong [OF assms(2)]) (use spin in \<open>auto simp: reload_current_def\<close>)
next
  case (decide c h n)
  show ?thesis unfolding decide(1)
    by (rule ticket_inv_cong [OF assms(2)]) (use decide in \<open>auto split: if_splits\<close>)
next
  case (leave c)
  then show ?thesis using ticket_inv_leave [OF assms(2), of c] by simp
qed (rule ticket_inv_cong [OF assms(2)]; auto split: if_splits)+

section \<open>Handing over\<close>

text \<open>The flag says that the remote word passes to the next client of the node: it is off
  while a client asks for the word or gives it back, and on only when a successor waits.\<close>

fun flag_for :: "phase \<Rightarrow> bool \<Rightarrow> bool \<Rightarrow> bool" where
  "flag_for (Contending r p) flag succ = (\<not> flag)"
| "flag_for Crashed flag succ = (\<not> flag)"
| "flag_for Unlocking flag succ = (\<not> flag)"
| "flag_for Draining flag succ = (\<not> flag)"
| "flag_for Handing flag succ = (flag \<and> succ)"
| "flag_for Leaving flag succ = (flag \<longrightarrow> succ)"
| "flag_for _ flag succ = True"

definition flag_ok :: "'v lock_state \<Rightarrow> client \<Rightarrow> bool" where
  "flag_ok s c \<longleftrightarrow> flag_for (ph s c) (hand_over (lnode s (cl_node c)))
     (Suc (cur s (cl_node c)) < nxt s (cl_node c))"

definition hand_inv :: "'v lock_state \<Rightarrow> bool" where
  "hand_inv s \<longleftrightarrow> (\<forall>c. flag_ok s c)
     \<and> (\<forall>n. hand_over (lnode s n) \<longrightarrow> (\<forall>c. cl_node c = n \<longrightarrow> \<not> inside (ph s c)) \<longrightarrow> cur s n < nxt s n)"

text \<open>\<^verbatim>\<open>hand_time\<close> counts the clients of a node that had the word since it was taken; one
  that is about to enter finds it below the limit.\<close>

definition entered :: "phase \<Rightarrow> bool" where
  "entered p \<longleftrightarrow> (case p of Contending r q \<Rightarrow> True | Critical \<Rightarrow> True | Crashed \<Rightarrow> True | _ \<Rightarrow> False)"

lemma entered_simps [simp]:
  "\<not> entered Idle" "\<not> entered Waiting" "entered (Contending r p)" "entered Critical"
  "\<not> entered Handing" "\<not> entered Unlocking" "\<not> entered Draining" "\<not> entered Leaving" "entered Crashed"
  "entered (if b then x else y) = (if b then entered x else entered y)"
  by (simp_all add: entered_def)

lemma entered_inside: "entered p \<Longrightarrow> inside p"
  by (cases p) simp_all

definition time_inv :: "'v lock_state \<Rightarrow> bool" where
  "time_inv s \<longleftrightarrow> (\<forall>n. hand_time (lnode s n) \<le> kMaxHandOverTime
     \<and> ((\<forall>c. cl_node c = n \<longrightarrow> \<not> entered (ph s c)) \<longrightarrow> hand_time (lnode s n) < kMaxHandOverTime))"

lemma can_hand_over_eq:
  "can_hand_over n =
    (if \<not> lock_ticket (ticket_lock n) \<le> lock_current (ticket_lock n) + 1
        \<and> hand_time n < kMaxHandOverTime
     then (True, n\<lparr>hand_over := True\<rparr>) else (False, n\<lparr>hand_over := False, hand_time := 0\<rparr>))"
  unfolding can_hand_over_def Let_def
  by (cases "lock_ticket (ticket_lock n) \<le> lock_current (ticket_lock n) + 1";
      cases "hand_time n < kMaxHandOverTime") (simp_all only: if_True if_False simp_thms)

lemma can_hand_over_cases:
  assumes "can_hand_over n = (h, n')"
  obtains (yes) "h" "n' = n\<lparr>hand_over := True\<rparr>" "hand_time n < kMaxHandOverTime"
      "\<not> lock_ticket (ticket_lock n) \<le> lock_current (ticket_lock n) + 1"
  | (no) "\<not> h" "n' = n\<lparr>hand_over := False, hand_time := 0\<rparr>"
  using assms that unfolding can_hand_over_eq by (metis prod.inject)

text \<open>A client whose turn it is finds no other client of its node inside.\<close>

lemma turn_alone:
  assumes "ticket_inv s" "ph s c = Waiting" "tkt s c = loaded s c"
    "cl_node d = cl_node c"
  shows "\<not> inside (ph s d)"
proof
  assume d: "inside (ph s d)"
  then have "unat (tkt s d) = unat (tkt s c)"
    using ticket_invD(6) [OF assms(1)] loaded_turn [OF assms(1-3)] assms(3,4) by simp
  then have "tkt s d = tkt s c" by (simp add: word_unat_eq_iff)
  then have "d = c"
    using ticket_invD(5) [OF assms(1), of d c] d assms(2,4) inside_not_Idle by simp
  with d assms(2) show False by simp
qed

lemma time_inv_upd:
  assumes "time_inv s" "\<And>n. n \<noteq> m \<Longrightarrow> lnode s' n = lnode s n"
    "\<And>c. cl_node c \<noteq> m \<Longrightarrow> ph s' c = ph s c"
    "hand_time (lnode s' m) \<le> kMaxHandOverTime"
    "(\<And>c. cl_node c = m \<Longrightarrow> \<not> entered (ph s' c)) \<Longrightarrow> hand_time (lnode s' m) < kMaxHandOverTime"
  shows "time_inv s'"
  unfolding time_inv_def
proof (intro allI)
  fix n
  show "hand_time (lnode s' n) \<le> kMaxHandOverTime
     \<and> ((\<forall>c. cl_node c = n \<longrightarrow> \<not> entered (ph s' c)) \<longrightarrow> hand_time (lnode s' n) < kMaxHandOverTime)"
    using assms by (cases "n = m") (auto simp: time_inv_def)
qed

lemma time_inv_cong:
  assumes "time_inv s" "\<And>n. hand_time (lnode s' n) = hand_time (lnode s n)"
    "\<And>c. entered (ph s c) \<Longrightarrow> entered (ph s' c)"
  shows "time_inv s'"
  using assms unfolding time_inv_def by metis

lemma time_inv_step:
  assumes "lock_step s s'" "ticket_inv s" "time_inv s"
  shows "time_inv s'"
  using assms(1)
proof cases
  case (enter c h n)
  have "\<not> entered (ph s d)" if "cl_node d = cl_node c" for d
    using turn_alone [OF assms(2) enter(2,3) that] entered_inside by blast
  then have "hand_time (lnode s (cl_node c)) < kMaxHandOverTime"
    using assms(3) by (simp add: time_inv_def)
  then have "hand_time (lnode s (cl_node c)) + 1 \<le> kMaxHandOverTime" by (rule inc_le)
  moreover have "hand_time n = hand_time (lnode s (cl_node c)) + 1"
    using enter(4) by (rule enter_facts)
  ultimately have "hand_time n \<le> kMaxHandOverTime" by (simp only:)
  moreover have "entered (ph s' c)" unfolding enter(1) by simp
  ultimately show ?thesis
    using enter(1) by (intro time_inv_upd [OF assms(3), of "cl_node c"]) (blast | simp)+
next
  case (decide c h n)
  have "hand_time n < kMaxHandOverTime"
    by (rule can_hand_over_cases [OF decide(3)]) (simp_all add: kMaxHandOverTime_def)
  then show ?thesis
    unfolding decide(1) by (intro time_inv_upd [OF assms(3), of "cl_node c"]) auto
qed (rule time_inv_cong [OF assms(3)]; auto simp: draw_ticket_def releases_local_lock_def
    split: if_splits)+

lemma hand_invD:
  assumes "hand_inv s"
  shows "flag_ok s c"
    "hand_over (lnode s n) \<Longrightarrow> (\<And>c. cl_node c = n \<Longrightarrow> \<not> inside (ph s c)) \<Longrightarrow> cur s n < nxt s n"
  using assms unfolding hand_inv_def by blast+

lemma flag_for_mono: "flag_for p h w \<Longrightarrow> (w \<Longrightarrow> w') \<Longrightarrow> flag_for p h w'"
  by (cases p) auto

lemma flag_for_outside: "\<not> inside p \<Longrightarrow> flag_for p h w"
  by (cases p) auto

text \<open>A step concerns one node. If the stepping client is inside before or after, it is alone
  there, so that only its own flag has to be looked at.\<close>

lemma hand_inv_upd:
  assumes inv: "hand_inv s" and other: "\<And>n. n \<noteq> m \<Longrightarrow> lnode s' n = lnode s n"
    "\<And>c. cl_node c \<noteq> m \<Longrightarrow> ph s' c = ph s c"
    and own: "\<And>c. cl_node c = m \<Longrightarrow> flag_ok s' c"
    and out: "hand_over (lnode s' m) \<Longrightarrow> (\<And>c. cl_node c = m \<Longrightarrow> \<not> inside (ph s' c)) \<Longrightarrow> cur s' m < nxt s' m"
  shows "hand_inv s'"
proof -
  have cn: "cur s' n = cur s n" "nxt s' n = nxt s n" if "n \<noteq> m" for n
    using other(1) [OF that] by (simp_all add: cur_def nxt_def)
  have "flag_ok s' c" for c
    using own [of c] hand_invD(1) [OF inv, of c] other(1) [of "cl_node c"] other(2) [of c]
      cn [of "cl_node c"] by (cases "cl_node c = m") (simp_all add: flag_ok_def)
  moreover have "cur s' n < nxt s' n"
    if "hand_over (lnode s' n)" "\<And>c. cl_node c = n \<Longrightarrow> \<not> inside (ph s' c)" for n
  proof (cases "n = m")
    case True
    with out that show ?thesis by blast
  next
    case False
    have "cur s n < nxt s n"
      by (rule hand_invD(2) [OF inv]) (use that other False in auto)
    with cn [OF False] show ?thesis by simp
  qed
  ultimately show ?thesis by (simp add: hand_inv_def)
qed

lemma lock_ticket_le_iff:
  assumes "unat (lock_current v) < unat (lock_ticket v)"
  shows "lock_ticket v \<le> lock_current v + 1 \<longleftrightarrow> unat (lock_ticket v) \<le> Suc (unat (lock_current v))"
proof -
  have "unat (lock_ticket v) < 4294967296" using unsigned_less [of "lock_ticket v"] by simp
  then have "unat (lock_current v + 1) = Suc (unat (lock_current v))"
    using assms by (subst unat_word_ariths) simp
  then show ?thesis by (simp only: word_le_nat_alt)
qed

lemma inside_waits:
  assumes "ticket_inv s" "inside (ph s c)"
  shows "cur s (cl_node c) < nxt s (cl_node c)"
  using ticket_invD(4,6) [OF assms(1), of c] assms(2) inside_not_Idle [OF assms(2)] by simp

text \<open>A step of a client that is inside, and what is left to show for it.\<close>

lemma hand_inv_inside:
  assumes t: "ticket_inv s" and inv: "hand_inv s" and c: "inside (ph s c)"
    and other: "\<And>n. n \<noteq> cl_node c \<Longrightarrow> lnode s' n = lnode s n" "\<And>d. d \<noteq> c \<Longrightarrow> ph s' d = ph s d"
    and own: "flag_ok s' c"
    and out: "hand_over (lnode s' (cl_node c)) \<Longrightarrow> \<not> inside (ph s' c) \<Longrightarrow> cur s' (cl_node c) < nxt s' (cl_node c)"
  shows "hand_inv s'"
proof (rule hand_inv_upd [OF inv, of "cl_node c"])
  fix d assume d: "cl_node d = cl_node c"
  show "flag_ok s' d"
  proof (cases "d = c")
    case False
    then have "\<not> inside (ph s d)" using inside_unique [OF t _ c d] by blast
    with other(2) [OF False] show ?thesis by (simp add: flag_ok_def flag_for_outside)
  qed (simp add: own)
next
  fix d assume "cl_node d \<noteq> cl_node c"
  then have "d \<noteq> c" by auto
  then show "ph s' d = ph s d" by (rule other(2))
qed (use other(1) out in auto)

text \<open>A step that leaves the local lock alone.\<close>

lemma hand_inv_keep:
  assumes inv: "hand_inv s" and ln: "lnode s' = lnode s"
    and ph: "\<And>d. ph s' d = ph s d \<or> inside (ph s d) \<and> inside (ph s' d)
      \<and> (\<forall>h w. flag_for (ph s d) h w \<longrightarrow> flag_for (ph s' d) h w)"
  shows "hand_inv s'"
proof -
  have cn: "cur s' = cur s" "nxt s' = nxt s" using ln by (simp_all add: cur_def nxt_def fun_eq_iff)
  have "inside (ph s' d) = inside (ph s d)" for d using ph [of d] by auto
  moreover have "flag_ok s' d" for d
    using ph [of d] hand_invD(1) [OF inv, of d] by (auto simp: flag_ok_def ln cn)
  ultimately show ?thesis using hand_invD(2) [OF inv] by (simp add: hand_inv_def ln cn)
qed

lemma hand_inv_step:
  assumes step: "lock_step s s'" and t: "ticket_inv s" and inv: "hand_inv s"
    and room: "draws s' < 4294967296"
  shows "hand_inv s'"
  using step
proof cases
  case (draw c v n)
  have lt: "unat (lock_ticket (ticket_lock (lnode s (cl_node c)))) + 1 < 4294967296"
    using ticket_invD(2) [OF t(1), of "cl_node c"] room draw(1) by (simp add: nxt_def)
  have n: "hand_over n = hand_over (lnode s (cl_node c))" "ticket_lock n = ticket_lock (lnode s (cl_node c)) + 1"
    using draw(4) by (auto simp: draw_ticket_def)
  then have cn: "cur s' m = cur s m" "nxt s' m = (if m = cl_node c then Suc (nxt s m) else nxt s m)" for m
    using lock_word_after_draw [OF lt] unfolding draw(1) by (simp_all add: cur_def nxt_def)
  have h: "hand_over (lnode s' m) = hand_over (lnode s m)" for m
    unfolding draw(1) using n by simp
  have same: "inside (ph s' d) = inside (ph s d)" "ph s' d = ph s d \<or> \<not> inside (ph s' d)" for d
    using draw(2) unfolding draw(1) by auto
  have "flag_ok s' d" for d
    using same(2) [of d] hand_invD(1) [OF inv, of d]
    by (auto simp: flag_ok_def h cn flag_for_outside elim!: flag_for_mono)
  moreover have "cur s' m < nxt s' m"
    if "hand_over (lnode s' m)" "\<And>d. cl_node d = m \<Longrightarrow> \<not> inside (ph s' d)" for m
    using hand_invD(2) [OF inv, of m] that by (auto simp: h same cn)
  ultimately show ?thesis by (simp add: hand_inv_def)
next
  case (enter c h n)
  have n: "hand_over n = hand_over (lnode s (cl_node c))" "h = hand_over (lnode s (cl_node c))"
    using enter_facts [OF enter(4)] by blast+
  show ?thesis
  proof (rule hand_inv_upd [OF inv, of "cl_node c"])
    fix d assume d: "cl_node d = cl_node c"
    have "\<not> inside (ph s d)" by (rule turn_alone [OF t enter(2,3) d])
    then show "flag_ok s' d"
      unfolding enter(1) using n by (auto simp: flag_ok_def flag_for_outside)
  next
    assume "\<And>d. cl_node d = cl_node c \<Longrightarrow> \<not> inside (ph s' d)"
    then have "\<not> inside (ph s' c)" by blast
    moreover have "inside (ph s' c)" unfolding enter(1) by simp
    ultimately show "cur s' (cl_node c) < nxt s' (cl_node c)" by blast
  qed (auto simp: enter(1))
next
  case (decide c h n)
  have in_c: "inside (ph s c)" using decide(2) by simp
  have cn: "cur s' (cl_node c) = cur s (cl_node c)" "nxt s' (cl_node c) = nxt s (cl_node c)"
    using decide(3) unfolding decide(1) by (simp_all add: cur_def nxt_def)
  have h: "hand_over n = h" "h \<Longrightarrow> Suc (cur s (cl_node c)) < nxt s (cl_node c)"
    using decide(3) lock_ticket_le_iff [of "ticket_lock (lnode s (cl_node c))"]
      inside_waits [OF t in_c]
    by (auto elim!: can_hand_over_cases simp: cur_def nxt_def simp del: not_less)
  show ?thesis
    by (rule hand_inv_inside [OF t inv in_c]) (use h in_c cn in \<open>auto simp: flag_ok_def decide(1)\<close>)
next
  case (leave c)
  have in_c: "inside (ph s c)" using leave(2) by simp
  have cu: "cur s' (cl_node c) = Suc (cur s (cl_node c))"
    using ticket_inv_leave(2) [OF t in_c] leave(1) by simp
  have nx: "nxt s' (cl_node c) = nxt s (cl_node c)" "hand_over (lnode s' (cl_node c)) = hand_over (lnode s (cl_node c))"
    unfolding leave(1) by (simp_all add: nxt_def releases_local_lock_def lock_word_after_release)
  show ?thesis
    by (rule hand_inv_inside [OF t inv in_c])
      (use hand_invD(1) [OF inv, of c] cu nx leave(2) in \<open>auto simp: flag_ok_def leave(1)\<close>)
qed (rule hand_inv_keep [OF inv]; auto)+

section \<open>Who owns the remote word\<close>

text \<open>The word is taken exactly while one of these has it: a client (its holder), the writes of a
  client that are under way, or a node that handed it over to the successor that has not
  entered yet.\<close>

datatype owner = Holder client | Pending client | Handed nat

fun owns :: "'v lock_state \<Rightarrow> owner \<Rightarrow> bool" where
  "owns s (Holder c) \<longleftrightarrow> ph s c = Critical \<or> ph s c = Handing \<or> ph s c = Unlocking
     \<or> ph s c = Leaving \<and> hand_over (lnode s (cl_node c))"
| "owns s (Pending c) \<longleftrightarrow> inflight s c \<noteq> []"
| "owns s (Handed n) \<longleftrightarrow> hand_over (lnode s n) \<and> (\<forall>c. cl_node c = n \<longrightarrow> \<not> inside (ph s c))"

definition word_inv :: "'v lock_state \<Rightarrow> bool" where
  "word_inv s \<longleftrightarrow> (if lword s = 0 then \<forall>x. \<not> owns s x else \<exists>x. owns s x)
     \<and> (\<forall>x y. owns s x \<longrightarrow> owns s y \<longrightarrow> x = y)"

definition content_inv :: "'v lock_state \<Rightarrow> bool" where
  "content_inv s \<longleftrightarrow> (\<forall>c. inflight s c = [] \<or> inflight s c = [WriteUnlock]
       \<or> inflight s c = [WriteContent (latest s), WriteUnlock])
     \<and> ((\<forall>c. length (inflight s c) \<noteq> 2) \<longrightarrow> content s = latest s)"

lemma content_invD:
  "content_inv s \<Longrightarrow> inflight s c = [] \<or> inflight s c = [WriteUnlock]
    \<or> inflight s c = [WriteContent (latest s), WriteUnlock]"
  by (simp add: content_inv_def)

lemma word_invD:
  assumes "word_inv s"
  shows "owns s x \<Longrightarrow> lword s \<noteq> 0" "owns s x \<Longrightarrow> owns s y \<Longrightarrow> x = y"
    "lword s \<noteq> 0 \<Longrightarrow> \<exists>x. owns s x" "lword s = 0 \<Longrightarrow> \<not> owns s x"
  using assms unfolding word_inv_def by (auto split: if_splits)

text \<open>How the owner changes: not at all, by passing on, by taking a free word, by giving back.\<close>

lemma word_inv_same:
  "word_inv s \<Longrightarrow> lword s' = lword s \<Longrightarrow> (\<And>x. owns s' x \<longleftrightarrow> owns s x) \<Longrightarrow> word_inv s'"
  unfolding word_inv_def by presburger

lemma word_inv_pass:
  assumes "word_inv s" "lword s' = lword s" "owns s a" "owns s' b"
    "\<And>x. owns s' x \<Longrightarrow> x = b \<or> owns s x \<and> x \<noteq> a"
  shows "word_inv s'"
  using assms word_invD(1,2) [OF assms(1)] unfolding word_inv_def by metis

lemma word_inv_take:
  assumes "word_inv s" "lword s = 0" "lword s' \<noteq> 0" "owns s' b" "\<And>x. owns s' x \<Longrightarrow> x = b \<or> owns s x"
  shows "word_inv s'"
  using assms word_invD(4) [OF assms(1)] unfolding word_inv_def by metis

lemma word_inv_give:
  assumes "word_inv s" "lword s' = 0" "owns s a" "\<And>x. owns s' x \<Longrightarrow> owns s x \<and> x \<noteq> a"
  shows "word_inv s'"
  using assms word_invD(2) [OF assms(1)] unfolding word_inv_def by metis

lemma client_tag_unat:
  assumes "client_ok c"
  shows "unat (client_tag c) = cl_thread c + cl_node c * 4294967296 + 1"
proof -
  have lt: "cl_node c < 65536" "cl_thread c < 26"
    using assms by (simp_all add: client_ok_def MAX_APP_THREAD_def)
  then have n: "unat (of_nat (cl_node c) * 4294967296 :: u64) = cl_node c * 4294967296"
    by (simp add: unat_word_ariths unsigned_of_nat take_bit_nat_eq_self)
  then show ?thesis
    using lt by (simp add: client_tag_def push_bit_eq_mult unat_word_ariths unsigned_of_nat
        take_bit_nat_eq_self)
qed

lemma client_tag_nonzero: "client_ok c \<Longrightarrow> client_tag c \<noteq> 0"
  using client_tag_unat [of c] by auto

text \<open>Every client with a ticket passed the check that draws it.\<close>

definition clients_ok :: "'v lock_state \<Rightarrow> bool" where
  "clients_ok s \<longleftrightarrow> (\<forall>c. ph s c \<noteq> Idle \<longrightarrow> client_ok c)"

lemma clients_ok_step: "lock_step s s' \<Longrightarrow> clients_ok s \<Longrightarrow> clients_ok s'"
  by (induction rule: lock_step.induct) (auto simp: clients_ok_def)

text \<open>Only the owner of the node's flag, the holder or its writes see a change.\<close>

lemma owns_upd:
  assumes "\<And>n. n \<noteq> cl_node c \<Longrightarrow> lnode s' n = lnode s n" "\<And>d. d \<noteq> c \<Longrightarrow> ph s' d = ph s d"
    "\<And>d. d \<noteq> c \<Longrightarrow> inflight s' d = inflight s d"
    "hand_over (lnode s' (cl_node c)) = hand_over (lnode s (cl_node c))"
    "x \<noteq> Holder c" "x \<noteq> Pending c" "x \<noteq> Handed (cl_node c)"
  shows "owns s' x \<longleftrightarrow> owns s x"
proof (cases x)
  case (Holder d)
  then show ?thesis using assms by (cases "cl_node d = cl_node c") auto
next
  case (Handed n)
  then have "n \<noteq> cl_node c" using assms by simp
  then have "ph s' d = ph s d" if "cl_node d = n" for d using assms(2) [of d] that by auto
  then show ?thesis using Handed assms(1) \<open>n \<noteq> cl_node c\<close> by auto
qed (use assms in auto)

lemma owns_same:
  assumes "\<And>n. n \<noteq> cl_node c \<Longrightarrow> lnode s' n = lnode s n" "\<And>d. d \<noteq> c \<Longrightarrow> ph s' d = ph s d"
    "\<And>d. inflight s' d = inflight s d"
    "hand_over (lnode s' (cl_node c)) = hand_over (lnode s (cl_node c))"
    "owns s' (Holder c) \<longleftrightarrow> owns s (Holder c)"
    "hand_over (lnode s (cl_node c)) \<Longrightarrow> inside (ph s' c) \<longleftrightarrow> inside (ph s c)"
  shows "owns s' x \<longleftrightarrow> owns s x"
proof -
  have "inside (ph s' d) = inside (ph s d)" if "hand_over (lnode s (cl_node c))" for d
    using assms(2,6) that by (cases "d = c") auto
  then have "owns s' (Handed (cl_node c)) \<longleftrightarrow> owns s (Handed (cl_node c))" using assms(4) by auto
  moreover have "owns s' (Pending c) \<longleftrightarrow> owns s (Pending c)" using assms(3) by simp
  ultimately show ?thesis
    using owns_upd [OF assms(1,2) _ assms(4), of x] assms(3,5) by blast
qed

lemma word_inv_step:
  assumes step: "lock_step s s'" and t: "ticket_inv s" and hi: "hand_inv s" and inv: "word_inv s"
    and con: "content_inv s" and cl: "clients_ok s"
  shows "word_inv s'"
  using step
proof cases
  case (draw c v n)
  show ?thesis
    by (rule word_inv_same [OF inv _ owns_same [of c]]) (use draw in \<open>auto simp: draw_ticket_def\<close>)
next
  case (enter c h n)
  note n = enter_facts [OF enter(4)]
  show ?thesis
  proof (cases h)
    case True
    show ?thesis
    proof (rule word_inv_pass [OF inv, of s' "Handed (cl_node c)" "Holder c"])
      show "owns s (Handed (cl_node c))"
        using True n(3) turn_alone [OF t enter(2,3)] by auto
      fix x assume x: "owns s' x"
      have "inside (ph s' c)" unfolding enter(1) by simp
      with x have "x \<noteq> Handed (cl_node c)" by auto
      moreover have "owns s x" if "x \<noteq> Holder c"
      proof (cases "x = Pending c")
        case False
        show ?thesis
          by (rule owns_upd [THEN iffD1, OF _ _ _ _ that False \<open>x \<noteq> Handed (cl_node c)\<close> x])
            (use n in \<open>auto simp: enter(1)\<close>)
      qed (use x enter(1) in simp)
      ultimately show "x = Holder c \<or> owns s x \<and> x \<noteq> Handed (cl_node c)" by blast
    qed (simp_all add: enter(1) True)
  next
    case False
    show ?thesis
      by (rule word_inv_same [OF inv _ owns_same [of c]]) (use enter n False in auto)
  qed
next
  case (spin c)
  show ?thesis
    by (rule word_inv_same [OF inv _ owns_same [of c]]) (use spin in auto)
next
  case (cas_ok c r p old x)
  have tag: "lword s' \<noteq> 0" "lword s = 0"
    using cas_ok client_tag_nonzero [of c] cl by (auto simp: cas_word_def clients_ok_def)
  show ?thesis
  proof (rule word_inv_take [OF inv tag(2,1), of "Holder c"])
    fix y assume y: "owns s' y"
    have same: "inside (ph s' d) = inside (ph s d)" "lnode s' = lnode s" for d
      using cas_ok(2) unfolding cas_ok(1) by simp_all
    show "y = Holder c \<or> owns s y"
    proof (cases y)
      case (Handed n)
      with y show ?thesis by (simp add: same)
    qed (use y in \<open>auto simp: cas_ok(1) split: if_splits\<close>)
  qed (simp add: cas_ok(1))
next
  case (cas_fail c r p old x r' p')
  show ?thesis
    by (rule word_inv_same [OF inv _ owns_same [of c]]) (use cas_fail in \<open>auto simp: cas_word_def\<close>)
next
  case (deadlock c r p)
  show ?thesis
    by (rule word_inv_same [OF inv _ owns_same [of c]]) (use deadlock in auto)
next
  case (decide c h n)
  have own: "owns s (Holder c)" using decide(2) by simp
  show ?thesis
  proof (rule word_inv_pass [OF inv _ own, of s' "Holder c"])
    fix x assume x: "owns s' x"
    show "x = Holder c \<or> owns s x \<and> x \<noteq> Holder c"
    proof (cases x)
      case (Holder d)
      have "d = c \<or> cl_node d \<noteq> cl_node c \<or> \<not> inside (ph s d)"
        using inside_unique [OF t, of d c] decide(2) by auto
      with x Holder show ?thesis unfolding decide(1) by auto
    next
      case (Handed n)
      with x show ?thesis unfolding decide(1) by (auto split: if_splits)
    qed (use x decide(1) in auto)
  qed (simp_all add: decide(1))
next
  case (hand_write c v)
  have "hand_over (lnode s (cl_node c))" using hand_invD(1) [OF hi, of c] hand_write(2) by (simp add: flag_ok_def)
  then show ?thesis
    by (intro word_inv_same [OF inv _ owns_same [of c]]) (use hand_write in auto)
next
  case (hand_plain c)
  have "hand_over (lnode s (cl_node c))" using hand_invD(1) [OF hi, of c] hand_plain(2) by (simp add: flag_ok_def)
  then show ?thesis
    by (intro word_inv_same [OF inv _ owns_same [of c]]) (use hand_plain in auto)
next
  case (issue_write c async v)
  have own: "owns s (Holder c)" using issue_write(2) by simp
  have "\<not> hand_over (lnode s (cl_node c))" using hand_invD(1) [OF hi, of c] issue_write(2) by (simp add: flag_ok_def)
  then show ?thesis
    by (intro word_inv_pass [OF inv _ own, of s' "Pending c"])
      (use issue_write in \<open>auto elim!: owns.elims split: if_splits\<close>)
next
  case (issue_plain c async)
  have own: "owns s (Holder c)" using issue_plain(2) by simp
  have "\<not> hand_over (lnode s (cl_node c))" using hand_invD(1) [OF hi, of c] issue_plain(2) by (simp add: flag_ok_def)
  then show ?thesis
    by (intro word_inv_pass [OF inv _ own, of s' "Pending c"])
      (use issue_plain in \<open>auto elim!: owns.elims split: if_splits\<close>)
next
  case (land_content c v ws)
  have "ws \<noteq> []" using content_invD [OF con, of c] land_content(2) by auto
  have "owns s' x \<longleftrightarrow> owns s x" for x
    using land_content \<open>ws \<noteq> []\<close> by (cases x) auto
  then show ?thesis by (intro word_inv_same [OF inv]) (simp_all add: land_content(1))
next
  case (land_unlock c ws)
  have "ws = []" using content_invD [OF con, of c] land_unlock(2) by auto
  then show ?thesis
    by (intro word_inv_give [OF inv, of s' "Pending c"])
      (use land_unlock in \<open>auto elim!: owns.elims split: if_splits\<close>)
next
  case (drained c)
  have "\<not> hand_over (lnode s (cl_node c))" using hand_invD(1) [OF hi, of c] drained(2) by (simp add: flag_ok_def)
  then show ?thesis
    by (intro word_inv_same [OF inv _ owns_same [of c]]) (use drained in auto)
next
  case (leave c)
  have ho: "hand_over (lnode s' (cl_node c)) = hand_over (lnode s (cl_node c))"
    unfolding leave(1) by (simp add: releases_local_lock_def)
  show ?thesis
  proof (cases "hand_over (lnode s (cl_node c))")
    case True
    then have own: "owns s (Holder c)" using leave(2) by simp
    have alone: "\<not> inside (ph s d)" if "cl_node d = cl_node c" "d \<noteq> c" for d
      using inside_unique [OF t, of d c] leave(2) that by auto
    show ?thesis
    proof (rule word_inv_pass [OF inv _ own, of s' "Handed (cl_node c)"])
      show "owns s' (Handed (cl_node c))" using True ho alone by (auto simp: leave(1))
      fix x assume x: "owns s' x"
      have "x \<noteq> Holder c" using x unfolding leave(1) by auto
      moreover have "owns s x" if "x \<noteq> Handed (cl_node c)"
      proof (cases "x = Pending c")
        case False
        show ?thesis
          by (rule owns_upd [THEN iffD1, OF _ _ _ ho \<open>x \<noteq> Holder c\<close> False that x])
            (auto simp: leave(1))
      qed (use x leave(1) in simp)
      ultimately show "x = Handed (cl_node c) \<or> owns s x \<and> x \<noteq> Holder c" by blast
    qed (simp add: leave(1))
  next
    case False
    then show ?thesis
      by (intro word_inv_same [OF inv _ owns_same [of c]]) (use leave ho in auto)
  qed
qed

text \<open>While a client holds the word nothing is under way.\<close>

lemma holder_quiet:
  assumes "word_inv s" "content_inv s" "owns s (Holder c)"
  shows "inflight s d = []" "content s = latest s"
proof -
  have q: "inflight s d = []" for d
    using word_invD(2) [OF assms(1,3), of "Pending d"] by auto
  then show "inflight s d = []" .
  show "content s = latest s" using assms(2) q by (simp add: content_inv_def)
qed

lemma content_inv_step:
  assumes step: "lock_step s s'" and w: "word_inv s" and inv: "content_inv s"
  shows "content_inv s'"
  using step
proof cases
  case (hand_write c v)
  then show ?thesis using holder_quiet [OF w inv, of c] by (simp add: content_inv_def)
next
  case (issue_write c async v)
  then show ?thesis using holder_quiet [OF w inv, of c] by (auto simp: content_inv_def)
next
  case (issue_plain c async)
  then show ?thesis using holder_quiet [OF w inv, of c] by (auto simp: content_inv_def)
next
  case (land_content c v ws)
  then have ws: "ws = [WriteUnlock]" "v = latest s" using content_invD [OF inv, of c] by auto
  have "inflight s d = []" if "d \<noteq> c" for d
    using word_invD(2) [OF w, of "Pending c" "Pending d"] land_content(2) that by auto
  then show ?thesis using ws by (auto simp: content_inv_def land_content(1))
next
  case (land_unlock c ws)
  then have ws: "ws = []" "\<And>d. d \<noteq> c \<Longrightarrow> inflight s d = []"
    using content_invD [OF inv, of c] word_invD(2) [OF w, of "Pending c" "Pending d" for d] by auto
  then have "length (inflight s d) \<noteq> 2" for d
    using land_unlock(2) by (cases "d = c") auto
  then have "content s = latest s" using inv by (simp add: content_inv_def)
  then show ?thesis using ws by (auto simp: content_inv_def land_unlock(1))
qed (use inv in \<open>simp_all add: content_inv_def\<close>)

section \<open>Reachable states\<close>

definition lock_inv :: "'v lock_state \<Rightarrow> bool" where
  "lock_inv s \<longleftrightarrow> ticket_inv s \<and> hand_inv s \<and> time_inv s \<and> word_inv s \<and> content_inv s \<and> clients_ok s"

lemma lock_start_inv: "lock_inv (lock_start v)"
proof -
  have [simp]: "cur (lock_start v) n = 0" "nxt (lock_start v) n = 0" for n
    by (simp_all add: cur_def nxt_def lock_start_def new_LocalLockNode_def lock_current_def
        lock_ticket_def)
  have "\<not> owns (lock_start v) x" for x by (cases x) (simp_all add: lock_start_def new_LocalLockNode_def)
  moreover have "flag_ok (lock_start v) c" for c by (simp add: flag_ok_def lock_start_def)
  ultimately show ?thesis
    by (simp add: lock_inv_def ticket_inv_def hand_inv_def time_inv_def word_inv_def content_inv_def
        clients_ok_def) (simp add: lock_start_def new_LocalLockNode_def kMaxHandOverTime_def)
qed

lemma lock_inv_step:
  assumes "lock_step s s'" "lock_inv s" "draws s' < 4294967296"
  shows "lock_inv s'"
  using assms ticket_inv_step [of s s'] hand_inv_step [of s s'] time_inv_step [of s s']
    word_inv_step [of s s'] content_inv_step [of s s'] clients_ok_step [of s s']
  by (simp add: lock_inv_def)

lemma draws_mono: "lock_step s s' \<Longrightarrow> draws s \<le> draws s'"
  by (induction rule: lock_step.induct) simp_all

lemma lock_reach_inv: "lock_reach s \<Longrightarrow> draws s < 4294967296 \<Longrightarrow> lock_inv s"
proof (induction rule: lock_reach.induct)
  case (start v)
  show ?case by (rule lock_start_inv)
next
  case (step s s')
  then have "draws s < 4294967296" using draws_mono [OF step.hyps(2)] by simp
  with step lock_inv_step show ?case by blast
qed

lemmas lock_reachD = lock_reach_inv [unfolded lock_inv_def]

end
