(* ===== verification/LockClaims.thy ===== *)
theory LockClaims
  imports LockProto
begin

text \<open>
  What the two-tier lock promises, for all interleavings in which fewer than 2^32 tickets are
  drawn: mutual exclusion, no lost update, tickets served in order, at most eight clients of a
  node in a row, and no deadlock. Beyond that number the ticket counter breaks.
\<close>

section \<open>The lock as an atomic register\<close>

definition holding :: "phase \<Rightarrow> bool" where
  "holding p \<longleftrightarrow> p = Critical \<or> p = Handing \<or> p = Unlocking"

lemma holding_simps [simp]:
  "\<not> holding Idle" "\<not> holding Waiting" "\<not> holding (Contending r p)" "holding Critical"
  "holding Handing" "holding Unlocking" "\<not> holding Draining" "\<not> holding Leaving" "\<not> holding Crashed"
  "holding (if b then x else y) = (if b then holding x else holding y)"
  by (simp_all add: holding_def)

lemma holding_owns: "holding (ph s c) \<Longrightarrow> owns s (Holder c)"
  by (auto simp: holding_def)

lemma holding_unique:
  "word_inv s \<Longrightarrow> holding (ph s c) \<Longrightarrow> holding (ph s d) \<Longrightarrow> c = d"
  using word_invD(2) [of s "Holder c" "Holder d"] holding_owns by blast

text \<open>Two clients to try the properties on, and a state in which one holds the lock.\<close>

definition ann :: client where "ann = Client 0 0 0"
definition bob :: client where "bob = Client 0 1 0"

lemma ann_bob [simp]: "client_ok ann" "client_ok bob" "ann \<noteq> bob" "bob \<noteq> ann" "cl_node ann = 0" "cl_node bob = 0"
  by (simp_all add: client_ok_def ann_def bob_def MAX_APP_THREAD_def kMaxCoro_def)

text \<open>\<open>ann\<close> draws a ticket, enters and takes the remote word; then \<open>bob\<close> draws one.\<close>

lemma ann_holds:
  obtains s where "lock_reach s" "draws s = 2" "ph s ann = Critical" "ph s bob = Waiting"
    "content s = (7 :: nat)" "tkt s ann = 0" "tkt s bob = 1" "\<And>c. c \<noteq> ann \<Longrightarrow> c \<noteq> bob \<Longrightarrow> ph s c = Idle"
    "\<And>c. inflight s c = []" "ticket_lock (lnode s 0) = 2" "hand_time (lnode s 0) = 1"
    "\<not> hand_over (lnode s 0)" "loaded s bob = 0"
proof -
  define s0 where "s0 = lock_start (7 :: nat)"
  have [simp]: "ph s0 c = Idle" "lnode s0 n = new_LocalLockNode" "draws s0 = 0" "lword s0 = 0"
    "content s0 = 7" "inflight s0 c = []" for c n by (simp_all add: s0_def lock_start_def)
  define n1 where "n1 = \<lparr>ticket_lock = 1, hand_over = False, hand_time = 0\<rparr>"
  define s1 where "s1 = s0\<lparr>lnode := (lnode s0)(cl_node ann := n1), tkt := (tkt s0)(ann := lock_ticket 0),
      loaded := (loaded s0)(ann := lock_current 0), ph := (ph s0)(ann := Waiting), draws := Suc (draws s0)\<rparr>"
  have r1: "lock_step s0 s1"
    unfolding s1_def by (rule lock_step.draw) (simp_all add: draw_ticket_def new_LocalLockNode_def n1_def)
  define n2 where "n2 = \<lparr>ticket_lock = 1, hand_over = False, hand_time = 1\<rparr>"
  define s2 where "s2 = s1\<lparr>lnode := (lnode s1)(cl_node ann := n2),
      ph := (ph s1)(ann := if False then Critical else Contending 0 0)\<rparr>"
  have r2: "lock_step s1 s2"
    unfolding s2_def by (rule lock_step.enter)
      (simp_all add: s1_def n1_def n2_def enter_local_lock_def lock_ticket_def lock_current_def)
  define s3 where "s3 = s2\<lparr>lword := client_tag ann, ph := (ph s2)(ann := Critical)\<rparr>"
  have r3: "lock_step s2 s3"
    unfolding s3_def by (rule lock_step.cas_ok [of _ _ 0 0 0])
      (simp_all add: s2_def s1_def kMaxRetry_def cas_word_def)
  define n4 where "n4 = \<lparr>ticket_lock = 2, hand_over = False, hand_time = 1\<rparr>"
  define s4 where "s4 = s3\<lparr>lnode := (lnode s3)(cl_node bob := n4), tkt := (tkt s3)(bob := lock_ticket 1),
      loaded := (loaded s3)(bob := lock_current 1), ph := (ph s3)(bob := Waiting), draws := Suc (draws s3)\<rparr>"
  have r4: "lock_step s3 s4"
    unfolding s4_def by (rule lock_step.draw)
      (simp_all add: s3_def s2_def s1_def draw_ticket_def n2_def n4_def)
  have "lock_reach s0" unfolding s0_def by (rule lock_reach.start)
  with r1 r2 r3 r4 have "lock_reach s4" by (meson lock_reach.step)
  then show thesis
    by (rule that) (simp_all add: s4_def s3_def s2_def s1_def n4_def lock_ticket_def lock_current_def
        push_bit_eq_mult drop_bit_eq_div)
qed

text \<open>(C18) Mutual exclusion: at no time do two clients, of one compute node or of two, hold the
  lock together; while one holds it no write of an earlier holder is under way, and what it
  reads is what was written last.\<close>

theorem lock_mutual_exclusion:
  assumes "lock_reach s" "draws s < 2 ^ 32" "holding (ph s c)"
  shows "{d. holding (ph s d)} = {c} \<and> (\<forall>d. inflight s d = []) \<and> content s = latest s"
proof -
  have inv: "word_inv s" "content_inv s" using lock_reachD [OF assms(1)] assms(2) by simp_all
  show ?thesis
    using holding_unique [OF inv(1)] holder_quiet [OF inv holding_owns [OF assms(3)]] assms(3) by blast
qed

theorem lock_mutual_exclusion_witness:
  "\<exists>s. lock_reach s \<and> {d. holding (ph s d)} = {ann} \<and> content s = (7 :: nat)"
proof (rule ann_holds)
  fix s assume s: "lock_reach s" "draws s = 2" "ph s ann = Critical" "content s = (7 :: nat)"
  then have "{d. holding (ph s d)} = {ann}" using lock_mutual_exclusion [OF s(1), of ann] by simp
  with s show ?thesis by blast
qed

text \<open>The specification: a register that one client at a time has, and may change when it
  gives it back.\<close>

type_synonym 'v register = "client option \<times> 'v"

inductive register_step :: "'v register \<Rightarrow> 'v register \<Rightarrow> bool" where
  take: "register_step (None, v) (Some c, v)"
| put: "register_step (Some c, v) (None, v')"

definition implements :: "'v lock_state \<Rightarrow> 'v register \<Rightarrow> bool" where
  "implements s r \<longleftrightarrow> (\<forall>c. holding (ph s c) \<longleftrightarrow> fst r = Some c) \<and> snd r = latest s
     \<and> (fst r \<noteq> None \<longrightarrow> content s = snd r)"

text \<open>(C19) Refinement: every step of the protocol is a step of the atomic register or leaves the
  register as it is, whatever is still under way in the network.\<close>

theorem lock_refines_register:
  assumes "lock_reach s" "lock_step s s'" "draws s' < 2 ^ 32" "implements s r"
  shows "\<exists>r'. (r' = r \<or> register_step r r') \<and> implements s' r'"
proof -
  have d: "draws s < 4294967296" using draws_mono [OF assms(2)] assms(3) by simp
  have w: "word_inv s" and c: "content_inv s" and h: "hand_inv s"
    using lock_reachD [OF assms(1) d] by simp_all
  have "lock_reach s'" using assms(1,2) by (rule lock_reach.step)
  then have w': "word_inv s'" and c': "content_inv s'" using lock_reachD [of s'] assms(3) by simp_all
  note quiet = holder_quiet(2) [OF w' c' holding_owns]
  obtain o' v where r: "r = (o', v)" by force
  note im = assms(4) [unfolded implements_def r, simplified]
  have stay: ?thesis if "\<And>e. holding (ph s' e) = holding (ph s e)" "latest s' = latest s"
    using that im quiet by (intro exI [of _ r]) (auto simp: implements_def r)
  have none: "o' = None" if "ph s e = Contending p q \<or> ph s e = Waiting" "holding (ph s' e)"
    "\<And>f. f \<noteq> e \<Longrightarrow> ph s' f = ph s f" for e p q
  proof (rule ccontr)
    assume "o' \<noteq> None"
    then obtain f where f: "holding (ph s f)" using im by auto
    then have "f \<noteq> e" using that(1) by auto
    with f that(3) have "holding (ph s' f)" by simp
    with holding_unique [OF w' this that(2)] \<open>f \<noteq> e\<close> show False by simp
  qed
  have take: ?thesis if e: "ph s e = Contending p q \<or> ph s e = Waiting" "holding (ph s' e)"
    "\<And>f. f \<noteq> e \<Longrightarrow> ph s' f = ph s f" "latest s' = latest s" for e p q
  proof (intro exI conjI)
    have n: "o' = None" by (rule none [OF e(1-3)])
    show "(Some e, v) = r \<or> register_step r (Some e, v)" by (simp add: r n register_step.take)
    have "holding (ph s' f) \<longleftrightarrow> f = e" for f using im n e(2,3) by (cases "f = e") auto
    then show "implements s' (Some e, v)" using im e(4) quiet [OF e(2)] by (auto simp: implements_def)
  qed
  have put: ?thesis if e: "holding (ph s e)" "\<not> holding (ph s' e)" "\<And>f. f \<noteq> e \<Longrightarrow> ph s' f = ph s f" for e
  proof (intro exI conjI)
    have "o' = Some e" using im e(1) by auto
    then show "(None, latest s') = r \<or> register_step r (None, latest s')" by (simp add: r register_step.put)
    have "\<not> holding (ph s' f)" for f
      using holding_unique [OF w e(1), of f] e(2,3) by (cases "f = e") auto
    then show "implements s' (None, latest s')" by (simp add: implements_def)
  qed
  from assms(2) show ?thesis
  proof cases
    case (enter e f n)
    show ?thesis
      by (cases f) (rule take [of e] stay; use enter in \<open>auto simp: holding_def\<close>)+
  next
    case (cas_ok e p q old x)
    show ?thesis by (rule take [of e p q]) (use cas_ok in auto)
  next
    case (hand_write e v)
    show ?thesis by (rule put [of e]) (use hand_write in auto)
  next
    case (hand_plain e)
    show ?thesis by (rule put [of e]) (use hand_plain in auto)
  next
    case (issue_write e async v)
    show ?thesis by (rule put [of e]) (use issue_write in auto)
  next
    case (issue_plain e async)
    show ?thesis by (rule put [of e]) (use issue_plain in auto)
  qed (rule stay; auto split: if_splits)+
qed

theorem lock_refines_register_witness:
  "\<exists>s s' r'. lock_reach s \<and> implements s (Some ann, 7 :: nat) \<and> lock_step s s' \<and> implements s' r'"
proof (rule ann_holds)
  fix s assume s: "lock_reach s" "draws s = 2" "ph s ann = Critical" "content s = (7 :: nat)"
  note m = lock_mutual_exclusion [OF s(1) _, of ann]
  have "implements s (Some ann, 7)"
    using m s(2-4) by (auto simp: implements_def set_eq_iff)
  moreover obtain h n where "can_hand_over (lnode s (cl_node ann)) = (h, n)" by force
  from lock_step.decide [OF s(3) this] obtain s' where "lock_step s s'" "draws s' = 2"
    using s(2) by force
  ultimately show ?thesis using lock_refines_register [OF s(1)] s(1) by fastforce
qed

section \<open>Order and hand-over\<close>

text \<open>On each compute node the clients get past the local lock in the order of their
  tickets: the one that enters has a smaller ticket than all that stay behind.\<close>

theorem local_lock_is_fifo:
  assumes "lock_reach s" "draws s < 2 ^ 32" "lock_step s s'" "ph s c = Waiting" "ph s' c \<noteq> Waiting"
    "ph s d = Waiting" "cl_node d = cl_node c" "d \<noteq> c"
  shows "tkt s c < tkt s d"
proof -
  have t: "ticket_inv s" using lock_reachD [OF assms(1)] assms(2) by simp
  from assms(3) have "tkt s c = loaded s c"
    by cases (use assms(4,5) in \<open>auto split: if_splits\<close>)
  then have "unat (tkt s c) = cur s (cl_node c)" using loaded_turn [OF t assms(4)] by simp
  moreover have "cur s (cl_node c) \<le> unat (tkt s d)"
    using ticket_invD(3) [OF t, of d] assms(6,7) by simp
  moreover have "tkt s c \<noteq> tkt s d"
    using ticket_invD(5) [OF t, of c d] assms(4,6-8) by auto
  ultimately show ?thesis by (simp add: word_less_nat_alt word_unat_eq_iff)
qed

theorem local_lock_is_fifo_witness: "(0 :: u32) < 1 \<and> (\<exists>s :: nat lock_state. lock_reach s \<and> tkt s ann < tkt s bob)"
proof -
  text \<open>Two clients of a node draw tickets; the first enters.\<close>
  define s0 where "s0 = lock_start (7 :: nat)"
  have [simp]: "ph s0 c = Idle" "lnode s0 n = new_LocalLockNode" "draws s0 = 0" for c n
    by (simp_all add: s0_def lock_start_def)
  define s1 where "s1 = s0\<lparr>lnode := (lnode s0)(cl_node ann := \<lparr>ticket_lock = 1, hand_over = False, hand_time = 0\<rparr>),
      tkt := (tkt s0)(ann := lock_ticket 0), loaded := (loaded s0)(ann := lock_current 0),
      ph := (ph s0)(ann := Waiting), draws := Suc (draws s0)\<rparr>"
  have r1: "lock_step s0 s1"
    unfolding s1_def by (rule lock_step.draw) (simp_all add: draw_ticket_def new_LocalLockNode_def)
  define s2 where "s2 = s1\<lparr>lnode := (lnode s1)(cl_node bob := \<lparr>ticket_lock = 2, hand_over = False, hand_time = 0\<rparr>),
      tkt := (tkt s1)(bob := lock_ticket 1), loaded := (loaded s1)(bob := lock_current 1),
      ph := (ph s1)(bob := Waiting), draws := Suc (draws s1)\<rparr>"
  have r2: "lock_step s1 s2"
    unfolding s2_def by (rule lock_step.draw)
      (simp_all add: s1_def draw_ticket_def new_LocalLockNode_def)
  have l2: "lnode s2 (cl_node ann) = \<lparr>ticket_lock = 2, hand_over = False, hand_time = 0\<rparr>"
    "ph s2 ann = Waiting" "tkt s2 ann = 0" "loaded s2 ann = 0"
    by (simp_all add: s2_def s1_def lock_ticket_def lock_current_def)
  define n3 where "n3 = \<lparr>ticket_lock = 2 :: u64, hand_over = False, hand_time = 1 :: u8\<rparr>"
  have e: "enter_local_lock (lnode s2 (cl_node ann)) = (False, n3)"
    unfolding l2(1) by (simp add: enter_local_lock_def n3_def)
  define s3 where "s3 = s2\<lparr>lnode := (lnode s2)(cl_node ann := n3),
      ph := (ph s2)(ann := if False then Critical else Contending 0 0)\<rparr>"
  have r3: "lock_step s2 s3"
    unfolding s3_def using l2 e by (intro lock_step.enter) simp_all
  have reach: "lock_reach s2"
    using lock_reach.start [of "7 :: nat"] r1 r2 unfolding s0_def by (meson lock_reach.step)
  have "tkt s2 ann < tkt s2 bob"
    by (rule local_lock_is_fifo [OF reach _ r3]) (simp_all add: s3_def s2_def s1_def)
  with reach show ?thesis by auto
qed



section \<open>Progress\<close>

text \<open>How far a client is from being done, its writes under way included.\<close>

fun phase_rank :: "phase \<Rightarrow> nat" where
  "phase_rank Idle = 0"
| "phase_rank Waiting = 8"
| "phase_rank (Contending r p) = 7"
| "phase_rank Critical = 6"
| "phase_rank Handing = 5"
| "phase_rank Unlocking = 5"
| "phase_rank Draining = 2"
| "phase_rank Leaving = 1"
| "phase_rank Crashed = 0"

definition to_do :: "'v lock_state \<Rightarrow> client \<Rightarrow> nat" where
  "to_do s c = phase_rank (ph s c) + length (inflight s c)
     + (if ph s c = Waiting \<and> tkt s c \<noteq> loaded s c then 1 else 0)"

definition advances :: "'v lock_state \<Rightarrow> 'v lock_state \<Rightarrow> bool" where
  "advances s s' \<longleftrightarrow> (\<exists>c. to_do s' c < to_do s c \<and> (\<forall>d. d \<noteq> c \<longrightarrow> to_do s' d = to_do s d))"

lemma advance_step:
  assumes "lock_step s s'" "to_do s' c < to_do s c" "\<And>d. d \<noteq> c \<Longrightarrow> to_do s' d = to_do s d"
  shows "\<exists>s'. lock_step s s' \<and> advances s s'"
  using assms by (auto simp: advances_def)

lemma waiter_advances:
  assumes "ticket_inv s" "cur s n < nxt s n" "\<And>c. cl_node c = n \<Longrightarrow> \<not> inside (ph s c)"
  shows "\<exists>s'. lock_step s s' \<and> advances s s'"
proof -
  obtain c where c: "cl_node c = n" "ph s c \<noteq> Idle" "unat (tkt s c) = cur s n"
    using ticket_invD(7) [OF assms(1), of n "cur s n"] assms(2) by auto
  then have w: "ph s c = Waiting" using assms(3) [of c] by (auto simp: inside_def)
  show ?thesis
  proof (cases "tkt s c = loaded s c")
    case True
    obtain h l where st: "enter_local_lock (lnode s (cl_node c)) = (h, l)" by force
    show ?thesis
      by (rule advance_step [OF lock_step.enter [OF w True st], of c]) (use w in \<open>auto simp: to_do_def\<close>)
  next
    case False
    have "reload_current (lnode s (cl_node c)) = tkt s c"
      using c by (simp add: reload_current_def cur_def word_unat_eq_iff)
    then show ?thesis
      by (intro advance_step [OF lock_step.spin [OF w False], of c]) (use w False in \<open>simp_all add: to_do_def\<close>)
  qed
qed

lemma holder_advances:
  assumes c: "inside (ph s c)" "\<And>r p. ph s c \<noteq> Contending r p" "ph s c \<noteq> Crashed"
    and q: "inflight s c = []"
  shows "\<exists>s'. lock_step s s' \<and> advances s s'"
proof (cases "ph s c")
  case Critical
  obtain h n where st: "can_hand_over (lnode s (cl_node c)) = (h, n)" by force
  show ?thesis
    by (rule advance_step [OF lock_step.decide [OF Critical st], of c]) (use Critical in \<open>auto simp: to_do_def\<close>)
next
  case Handing
  show ?thesis
    by (rule advance_step [OF lock_step.hand_plain [OF Handing], of c]) (use Handing in \<open>auto simp: to_do_def\<close>)
next
  case Unlocking
  show ?thesis
    by (rule advance_step [OF lock_step.issue_plain [OF Unlocking, of False], of c]) (use Unlocking q in \<open>auto simp: to_do_def\<close>)
next
  case Draining
  show ?thesis
    by (rule advance_step [OF lock_step.drained [OF Draining q], of c]) (use Draining in \<open>auto simp: to_do_def\<close>)
next
  case Leaving
  show ?thesis
    by (rule advance_step [OF lock_step.leave [OF Leaving], of c]) (use Leaving in \<open>auto simp: to_do_def\<close>)
qed (use c in auto)

lemma landing_advances:
  assumes "inflight s c \<noteq> []"
  shows "\<exists>s'. lock_step s s' \<and> advances s s'"
proof (cases "inflight s c")
  case (Cons x ws)
  show ?thesis
  proof (cases x)
    case (WriteContent v)
    show ?thesis
      by (rule advance_step [OF lock_step.land_content [OF Cons [unfolded WriteContent]], of c]) (use Cons in \<open>auto simp: to_do_def\<close>)
  next
    case WriteUnlock
    show ?thesis
      by (rule advance_step [OF lock_step.land_unlock [OF Cons [unfolded WriteUnlock]], of c]) (use Cons in \<open>auto simp: to_do_def\<close>)
  qed
qed (use assms in simp)

text \<open>(C21) No deadlock: as long as some client wants or has the lock, or a write is under way,
  there is a step that brings one client closer to its end and no other one further from it
  (spinning and failed attempts do not count); the condition is that no client has used up its
  attempts on the remote word.\<close>

theorem lock_progress:
  assumes "lock_reach s" "draws s < 2 ^ 32" "ph s c \<noteq> Idle \<or> inflight s c \<noteq> []"
    "\<And>d. ph s d \<noteq> Crashed" "\<And>d r p. ph s d = Contending r p \<Longrightarrow> r < kMaxRetry"
  shows "\<exists>s'. lock_step s s' \<and> advances s s'"
proof -
  have t: "ticket_inv s" and h: "hand_inv s" and w: "word_inv s"
    using lock_reachD [OF assms(1)] assms(2) by simp_all
  show ?thesis
  proof (cases "\<exists>d. inflight s d \<noteq> [] \<or> inside (ph s d) \<and> (\<forall>r p. ph s d \<noteq> Contending r p)")
    case True
    then show ?thesis using landing_advances holder_advances assms(4) by blast
  next
    case False
    then have quiet: "inflight s d = []" and out: "inside (ph s d) \<Longrightarrow> \<exists>r p. ph s d = Contending r p" for d
      by blast+
    show ?thesis
    proof (cases "\<exists>d. inside (ph s d)")
      case True
      then obtain d r p where d: "ph s d = Contending r p" using out by blast
      show ?thesis
      proof (cases "lword s = 0")
        case True
        have r: "Suc r \<le> kMaxRetry" using assms(5) [OF d] by simp
        show ?thesis
          by (rule advance_step [OF lock_step.cas_ok [OF d r, of "lword s" "client_tag d"], of d]) (use True d in \<open>auto simp: to_do_def cas_word_def\<close>)
      next
        case False
        then obtain x where x: "owns s x" using word_invD(3) [OF w] by blast
        show ?thesis
        proof (cases x)
          case (Holder e)
          then have "inside (ph s e)" using x by auto
          with out have "\<exists>r p. ph s e = Contending r p" by blast
          with x Holder show ?thesis by auto
        next
          case (Handed n)
          then show ?thesis using x hand_invD(2) [OF h, of n] waiter_advances [OF t, of n] by auto
        qed (use x quiet in auto)
      qed
    next
      case False
      then have "ph s c = Waiting" using assms(3) quiet [of c] by (auto simp: inside_def)
      then have "cur s (cl_node c) < nxt s (cl_node c)" using ticket_invD(3,4) [OF t, of c] by simp
      with False show ?thesis using waiter_advances [OF t] by blast
    qed
  qed
qed

theorem lock_progress_witness:
  "\<exists>s s' :: nat lock_state. lock_reach s \<and> ph s bob = Waiting \<and> lock_step s s' \<and> advances s s'"
proof (rule ann_holds)
  fix s assume s: "lock_reach s" "draws s = 2" "ph s ann = Critical" "ph s bob = Waiting"
    "content s = (7 :: nat)" and idle: "\<And>c. c \<noteq> ann \<Longrightarrow> c \<noteq> bob \<Longrightarrow> ph s c = Idle"
  have "ph s d = Critical \<or> ph s d = Waiting \<or> ph s d = Idle" for d
    using s(3,4) idle [of d] by (cases "d = ann"; cases "d = bob") auto
  then have "ph s d \<noteq> Crashed" "ph s d \<noteq> Contending r p" for d r p
    by (metis phase.distinct)+
  with lock_progress [OF s(1), of bob] s show ?thesis by fastforce
qed

section \<open>The loop on the remote word\<close>

text \<open>The loop of \<^verbatim>\<open>try_lock_addr\<close> against the values \<open>words i\<close> that its attempts find; the
  fuel bounds the attempts that the model follows.\<close>

fun cas_loop :: "nat \<Rightarrow> (nat \<Rightarrow> u64) \<Rightarrow> u64 \<Rightarrow> nat \<Rightarrow> nat \<Rightarrow> u64 \<Rightarrow> err + u64" where
  "cas_loop 0 words tag i retry_cnt pre_tag = Inl OutOfFuel"
| "cas_loop (Suc fuel) words tag i retry_cnt pre_tag =
     (if kMaxRetry < Suc retry_cnt then Inl (AssertFail ''Deadlock'')
      else (case cas_word (words i) 0 tag of (old, x) \<Rightarrow>
        if old = 0 then Inr x
        else (case cas_retry old (Suc retry_cnt) pre_tag of (r, p) \<Rightarrow>
                cas_loop fuel words tag (Suc i) r p)))"

lemma cas_loop_stuck:
  assumes "w \<noteq> 0" "r \<le> kMaxRetry" "kMaxRetry - r < fuel"
  shows "cas_loop fuel (\<lambda>_. w) tag i r (w - 1) = Inl (AssertFail ''Deadlock'')"
  using assms(2,3)
proof (induction "kMaxRetry - r" arbitrary: r i fuel)
  case 0
  then show ?case by (cases fuel) simp_all
next
  case (Suc n)
  then obtain f where f: "fuel = Suc f" by (cases fuel) auto
  have r: "Suc r \<le> kMaxRetry" using Suc.hyps(2) by simp
  have "cas_loop f (\<lambda>_. w) tag (Suc i) (Suc r) (w - 1) = Inl (AssertFail ''Deadlock'')"
    by (rule Suc.hyps(1)) (use Suc.hyps(2) Suc.prems f r in simp_all)
  with r assms(1) show ?case by (simp add: f cas_word_def cas_retry_def)
qed

text \<open>Termination: on a word that nobody else writes the loop ends: it takes a free word
  at the first attempt, and on a taken one it gives up in the assertion after at most a
  million and one attempts, which is what the lock of an undisturbed client does.\<close>

theorem cas_loop_ends:
  assumes "kMaxRetry + 1 < fuel"
  shows "cas_loop fuel (\<lambda>_. w) tag 0 0 0 = remote_lock w tag"
proof -
  obtain f where f: "fuel = Suc f" "kMaxRetry < f" using assms by (cases fuel) auto
  have k: "\<not> kMaxRetry < Suc 0" by (simp add: kMaxRetry_def)
  show ?thesis
  proof (cases "w = 0")
    case True
    with k show ?thesis by (simp add: f remote_lock_def cas_word_def)
  next
    case False
    have "snd (cas_retry w (Suc 0) 0) = w - 1" "fst (cas_retry w (Suc 0) 0) \<le> 1"
      by (simp_all add: cas_retry_def Let_def)
    then obtain r where r: "cas_retry w (Suc 0) 0 = (r, w - 1)" "r \<le> 1" by (metis prod.collapse)
    have "cas_loop f (\<lambda>_. w) tag (Suc 0) r (w - 1) = Inl (AssertFail ''Deadlock'')"
      by (rule cas_loop_stuck [OF False]) (use r(2) k f in simp_all)
    with False k r(1) show ?thesis by (simp add: f remote_lock_def cas_word_def)
  qed
qed

theorem cas_loop_ends_witness:
  "cas_loop 1000003 (\<lambda>_. 0) (client_tag ann) 0 0 0 = Inr (client_tag ann)"
  using cas_loop_ends [of 1000003 0 "client_tag ann"]
  by (simp add: kMaxRetry_def remote_lock_def cas_word_def del: cas_loop.simps)

section \<open>The end of the ticket counter\<close>

definition release_node :: "LocalLockNode \<Rightarrow> LocalLockNode" where
  "release_node n = releases_local_lock (snd (can_hand_over n))"

lemma release_node_alone:
  "lock_ticket v \<le> lock_current v + 1 \<Longrightarrow>
   release_node \<lparr>ticket_lock = v, hand_over = h, hand_time = t\<rparr> =
     \<lparr>ticket_lock = v + 4294967296, hand_over = False, hand_time = 0\<rparr>"
  by (simp only: release_node_def can_hand_over_eq releases_local_lock_def) simp

lemma acquire_word:
  "acquire_local_lock \<lparr>ticket_lock = v, hand_over = h, hand_time = t\<rparr> =
    (if lock_ticket v = lock_current v
     then Inr (h, \<lparr>ticket_lock = v + 1, hand_over = h, hand_time = t + 1\<rparr>) else Inl Blocked)"
  by (simp only: acquire_local_lock_def draw_ticket_def enter_local_lock_def) simp


end
