(* ===== verification/Verbs.thy ===== *)
theory Verbs
  imports Prelude
begin

text \<open>
  \<^verbatim>\<open>src/rdma/Operation.cpp\<close>: the work requests that each RDMA operation builds and posts,
  and the loops that wait for completions. The verbs library itself is a parameter:
  \<^verbatim>\<open>ibv_post_send\<close> is a function \<open>post\<close> from the chain of requests and the state of
  the device to its return code and the next state, \<^verbatim>\<open>ibv_poll_cq\<close> (for one entry) a
  function \<open>poll\<close> from the state to its return code, the entry it wrote, and the next state.
\<close>

unbundle bit_operations_syntax

section \<open>Work requests\<close>

record sge =
  sg_addr :: u64
  sg_length :: u32
  sg_lkey :: u32

datatype wr_opcode = WR_RDMA_WRITE | WR_RDMA_WRITE_WITH_IMM | WR_SEND | WR_SEND_WITH_IMM
  | WR_RDMA_READ | WR_ATOMIC_CMP_AND_SWP | WR_ATOMIC_FETCH_AND_ADD
  | WR_MASKED_CMP_AND_SWP | WR_MASKED_FETCH_AND_ADD

text \<open>The union of a request: an RDMA target, an atomic with its operands, a masked atomic, or
  the address of a datagram.\<close>

datatype wr_target = NoTarget
  | RdmaTarget u64 u32
  | AtomicTarget u64 u32 u64 u64
  | MaskedFaa u64 u32 u64 u64
  | MaskedCas u64 u32 u64 u64 u64 u64
  | UdTarget nat u32 u32

record send_wr =
  wr_id :: u64
  wr_sge :: sge
  wr_opcode :: wr_opcode
  wr_imm :: u32
  wr_signaled :: bool
  wr_fence :: bool
  wr_inline_atomic :: bool
  wr_target :: wr_target

record recv_wr =
  rwr_id :: u64
  rwr_sge :: sge

text \<open>\<^verbatim>\<open>memset\<close> to zero gives the first opcode of the enumeration and no flags; the 64-bit
  size is cut to the 32 bits of the field.\<close>

definition fillSgeWr :: "u64 \<Rightarrow> u64 \<Rightarrow> u32 \<Rightarrow> send_wr" where
  "fillSgeWr source sz lkey = \<lparr>wr_id = 0, wr_sge = \<lparr>sg_addr = source, sg_length = ucast sz, sg_lkey = lkey\<rparr>,
     wr_opcode = WR_RDMA_WRITE, wr_imm = 0, wr_signaled = False, wr_fence = False,
     wr_inline_atomic = False, wr_target = NoTarget\<rparr>"

definition fillSgeWr_recv :: "u64 \<Rightarrow> u64 \<Rightarrow> u32 \<Rightarrow> recv_wr" where
  "fillSgeWr_recv source sz lkey =
     \<lparr>rwr_id = 0, rwr_sge = \<lparr>sg_addr = source, sg_length = ucast sz, sg_lkey = lkey\<rparr>\<rparr>"

text \<open>Posting a chain; the operations return whether it was accepted.\<close>

type_synonym 'q poster = "send_wr list \<Rightarrow> 'q \<Rightarrow> int \<times> 'q"

definition post_send :: "'q poster \<Rightarrow> send_wr list \<Rightarrow> 'q \<Rightarrow> bool \<times> 'q" where
  "post_send post wrs q = (case post wrs q of (rc, q') \<Rightarrow> (rc = 0, q'))"

section \<open>Messages\<close>

definition UD_PKEY :: u32 where "UD_PKEY = 0x11111111"

definition rdmaSend_ud ::
  "'q poster \<Rightarrow> u64 \<Rightarrow> u64 \<Rightarrow> u32 \<Rightarrow> nat \<Rightarrow> u32 \<Rightarrow> bool \<Rightarrow> 'q \<Rightarrow> bool \<times> 'q" where
  "rdmaSend_ud post source sz lkey ah remoteQPN isSignaled q =
     post_send post [(fillSgeWr source sz lkey)\<lparr>wr_opcode := WR_SEND,
       wr_target := UdTarget ah remoteQPN UD_PKEY, wr_signaled := isSignaled\<rparr>] q"

definition rdmaSend_rc :: "'q poster \<Rightarrow> u64 \<Rightarrow> u64 \<Rightarrow> u32 \<Rightarrow> int \<Rightarrow> 'q \<Rightarrow> bool \<times> 'q" where
  "rdmaSend_rc post source sz lkey imm q =
     (let wr = fillSgeWr source sz lkey;
          wr1 = (if imm \<noteq> - 1 then wr\<lparr>wr_imm := of_int imm, wr_opcode := WR_SEND_WITH_IMM\<rparr>
                 else wr\<lparr>wr_opcode := WR_SEND\<rparr>)
      in post_send post [wr1\<lparr>wr_signaled := True\<rparr>] q)"

definition rdmaReceive_qp ::
  "(recv_wr list \<Rightarrow> 'q \<Rightarrow> int \<times> 'q) \<Rightarrow> u64 \<Rightarrow> u64 \<Rightarrow> u32 \<Rightarrow> u64 \<Rightarrow> 'q \<Rightarrow> bool \<times> 'q" where
  "rdmaReceive_qp post source sz lkey wid q =
     (case post [(fillSgeWr_recv source sz lkey)\<lparr>rwr_id := wid\<rparr>] q of (rc, q') \<Rightarrow> (rc = 0, q'))"

definition rdmaReceive_srq ::
  "(recv_wr list \<Rightarrow> 'q \<Rightarrow> int \<times> 'q) \<Rightarrow> u64 \<Rightarrow> u64 \<Rightarrow> u32 \<Rightarrow> 'q \<Rightarrow> bool \<times> 'q" where
  "rdmaReceive_srq post source sz lkey q =
     (case post [fillSgeWr_recv source sz lkey] q of (rc, q') \<Rightarrow> (rc = 0, q'))"

section \<open>One-sided operations\<close>

definition rdmaRead ::
  "'q poster \<Rightarrow> u64 \<Rightarrow> u64 \<Rightarrow> u64 \<Rightarrow> u32 \<Rightarrow> u32 \<Rightarrow> bool \<Rightarrow> u64 \<Rightarrow> 'q \<Rightarrow> bool \<times> 'q" where
  "rdmaRead post source dest sz lkey remoteRKey signal wrID q =
     post_send post [(fillSgeWr source sz lkey)\<lparr>wr_opcode := WR_RDMA_READ, wr_signaled := signal,
       wr_target := RdmaTarget dest remoteRKey, wr_id := wrID\<rparr>] q"

definition rdmaWrite ::
  "'q poster \<Rightarrow> u64 \<Rightarrow> u64 \<Rightarrow> u64 \<Rightarrow> u32 \<Rightarrow> u32 \<Rightarrow> int \<Rightarrow> bool \<Rightarrow> u64 \<Rightarrow> 'q \<Rightarrow> bool \<times> 'q" where
  "rdmaWrite post source dest sz lkey remoteRKey imm isSignaled wrID q =
     (let wr = fillSgeWr source sz lkey;
          wr1 = (if imm = - 1 then wr\<lparr>wr_opcode := WR_RDMA_WRITE\<rparr>
                 else wr\<lparr>wr_imm := of_int imm, wr_opcode := WR_RDMA_WRITE_WITH_IMM\<rparr>)
      in post_send post [wr1\<lparr>wr_signaled := isSignaled, wr_target := RdmaTarget dest remoteRKey,
           wr_id := wrID\<rparr>] q)"

definition rdmaFetchAndAdd ::
  "'q poster \<Rightarrow> u64 \<Rightarrow> u64 \<Rightarrow> u64 \<Rightarrow> u32 \<Rightarrow> u32 \<Rightarrow> 'q \<Rightarrow> bool \<times> 'q" where
  "rdmaFetchAndAdd post source dest add lkey remoteRKey q =
     post_send post [(fillSgeWr source 8 lkey)\<lparr>wr_opcode := WR_ATOMIC_FETCH_AND_ADD,
       wr_signaled := True, wr_target := AtomicTarget dest remoteRKey add 0\<rparr>] q"

text \<open>The boundary is the number of the highest bit of the field that is added to.\<close>

definition rdmaFetchAndAddBoundary ::
  "'q poster \<Rightarrow> u64 \<Rightarrow> u64 \<Rightarrow> u64 \<Rightarrow> u32 \<Rightarrow> u32 \<Rightarrow> nat \<Rightarrow> bool \<Rightarrow> u64 \<Rightarrow> 'q \<Rightarrow> bool \<times> 'q" where
  "rdmaFetchAndAddBoundary post source dest add lkey remoteRKey boundary singal wid q =
     post_send post [(fillSgeWr source 8 lkey)\<lparr>wr_opcode := WR_MASKED_FETCH_AND_ADD,
       wr_inline_atomic := True, wr_id := wid, wr_signaled := singal,
       wr_target := MaskedFaa dest remoteRKey add (push_bit boundary 1)\<rparr>] q"

definition rdmaCompareAndSwap ::
  "'q poster \<Rightarrow> u64 \<Rightarrow> u64 \<Rightarrow> u64 \<Rightarrow> u64 \<Rightarrow> u32 \<Rightarrow> u32 \<Rightarrow> bool \<Rightarrow> u64 \<Rightarrow> 'q \<Rightarrow> bool \<times> 'q" where
  "rdmaCompareAndSwap post source dest cmp swap lkey remoteRKey signal wrID q =
     post_send post [(fillSgeWr source 8 lkey)\<lparr>wr_opcode := WR_ATOMIC_CMP_AND_SWP,
       wr_signaled := signal, wr_target := AtomicTarget dest remoteRKey cmp swap, wr_id := wrID\<rparr>] q"

definition rdmaCompareAndSwapMask ::
  "'q poster \<Rightarrow> u64 \<Rightarrow> u64 \<Rightarrow> u64 \<Rightarrow> u64 \<Rightarrow> u32 \<Rightarrow> u32 \<Rightarrow> u64 \<Rightarrow> bool \<Rightarrow> 'q \<Rightarrow> bool \<times> 'q" where
  "rdmaCompareAndSwapMask post source dest cmp swap lkey remoteRKey msk singal q =
     post_send post [(fillSgeWr source 8 lkey)\<lparr>wr_opcode := WR_MASKED_CMP_AND_SWP,
       wr_inline_atomic := True, wr_signaled := singal,
       wr_target := MaskedCas dest remoteRKey cmp swap msk msk\<rparr>] q"

section \<open>Chains\<close>

text \<open>A region of a chain. \<^verbatim>\<open>remoteRKey\<close> and \<^verbatim>\<open>is_on_chip\<close> share their storage: the
  flag is the lowest byte of the key.\<close>

record RdmaOpRegion =
  ror_source :: u64
  ror_dest :: u64
  ror_size :: u64
  ror_lkey :: u32
  remoteRKey :: u32

definition is_on_chip :: "RdmaOpRegion \<Rightarrow> bool" where
  "is_on_chip r \<longleftrightarrow> take_bit 8 (remoteRKey r) \<noteq> 0"

definition set_on_chip :: "bool \<Rightarrow> RdmaOpRegion \<Rightarrow> RdmaOpRegion" where
  "set_on_chip b r = r\<lparr>remoteRKey := push_bit 8 (drop_bit 8 (remoteRKey r)) OR (if b then 1 else 0)\<rparr>"

definition kOroMax :: nat where "kOroMax = 3"

definition batch_wrs :: "RdmaOpRegion list \<Rightarrow> bool \<Rightarrow> u64 \<Rightarrow> send_wr list" where
  "batch_wrs ror isSignaled wrID = map (\<lambda>i.
     (fillSgeWr (ror_source (ror ! i)) (ror_size (ror ! i)) (ror_lkey (ror ! i)))
       \<lparr>wr_opcode := WR_RDMA_WRITE, wr_signaled := (i = length ror - 1 \<and> isSignaled),
        wr_target := RdmaTarget (ror_dest (ror ! i)) (remoteRKey (ror ! i)), wr_id := wrID\<rparr>)
     [0..<length ror]"

text \<open>The two arrays have \<open>kOroMax\<close> places, and the first request is posted in any case.\<close>

definition rdmaWriteBatch ::
  "'q poster \<Rightarrow> RdmaOpRegion list \<Rightarrow> bool \<Rightarrow> u64 \<Rightarrow> 'q \<Rightarrow> err + bool \<times> 'q" where
  "rdmaWriteBatch post ror isSignaled wrID q =
     (if length ror = 0 \<or> kOroMax < length ror then Inl OutOfBounds
      else Inr (post_send post (batch_wrs ror isSignaled wrID) q))"

definition rdmaCasRead ::
  "'q poster \<Rightarrow> RdmaOpRegion \<Rightarrow> RdmaOpRegion \<Rightarrow> u64 \<Rightarrow> u64 \<Rightarrow> bool \<Rightarrow> u64 \<Rightarrow> 'q \<Rightarrow> bool \<times> 'q" where
  "rdmaCasRead post cas_ror read_ror cmp swap isSignaled wrID q =
     post_send post
       [(fillSgeWr (ror_source cas_ror) 8 (ror_lkey cas_ror))\<lparr>wr_opcode := WR_ATOMIC_CMP_AND_SWP,
          wr_target := AtomicTarget (ror_dest cas_ror) (remoteRKey cas_ror) cmp swap\<rparr>,
        (fillSgeWr (ror_source read_ror) (ror_size read_ror) (ror_lkey read_ror))
          \<lparr>wr_opcode := WR_RDMA_READ, wr_target := RdmaTarget (ror_dest read_ror) (remoteRKey read_ror),
           wr_id := wrID, wr_fence := True, wr_signaled := isSignaled\<rparr>] q"

definition rdmaWriteFaa ::
  "'q poster \<Rightarrow> RdmaOpRegion \<Rightarrow> RdmaOpRegion \<Rightarrow> u64 \<Rightarrow> bool \<Rightarrow> u64 \<Rightarrow> 'q \<Rightarrow> bool \<times> 'q" where
  "rdmaWriteFaa post write_ror faa_ror add_val isSignaled wrID q =
     post_send post
       [(fillSgeWr (ror_source write_ror) (ror_size write_ror) (ror_lkey write_ror))
          \<lparr>wr_opcode := WR_RDMA_WRITE, wr_target := RdmaTarget (ror_dest write_ror) (remoteRKey write_ror)\<rparr>,
        (fillSgeWr (ror_source faa_ror) 8 (ror_lkey faa_ror))\<lparr>wr_opcode := WR_ATOMIC_FETCH_AND_ADD,
          wr_target := AtomicTarget (ror_dest faa_ror) (remoteRKey faa_ror) add_val 0,
          wr_id := wrID, wr_signaled := isSignaled\<rparr>] q"

definition rdmaWriteCas ::
  "'q poster \<Rightarrow> RdmaOpRegion \<Rightarrow> RdmaOpRegion \<Rightarrow> u64 \<Rightarrow> u64 \<Rightarrow> bool \<Rightarrow> u64 \<Rightarrow> 'q \<Rightarrow> bool \<times> 'q" where
  "rdmaWriteCas post write_ror cas_ror cmp swap isSignaled wrID q =
     post_send post
       [(fillSgeWr (ror_source write_ror) (ror_size write_ror) (ror_lkey write_ror))
          \<lparr>wr_opcode := WR_RDMA_WRITE, wr_target := RdmaTarget (ror_dest write_ror) (remoteRKey write_ror)\<rparr>,
        (fillSgeWr (ror_source cas_ror) 8 (ror_lkey cas_ror))\<lparr>wr_opcode := WR_ATOMIC_CMP_AND_SWP,
          wr_target := AtomicTarget (ror_dest cas_ror) (remoteRKey cas_ror) cmp swap,
          wr_id := wrID, wr_signaled := isSignaled\<rparr>] q"

section \<open>Completions\<close>

record wc =
  wc_success :: bool
  wc_wr_id :: u64

type_synonym 'q poller = "'q \<Rightarrow> int \<times> wc \<times> 'q"

text \<open>The waiting loop adds up the return codes, also negative ones; only the last entry is
  looked at. The fuel bounds the calls that the model follows.\<close>

fun poll_loop :: "'q poller \<Rightarrow> nat \<Rightarrow> int \<Rightarrow> int \<Rightarrow> 'q \<Rightarrow> err + int \<times> wc \<times> 'q" where
  "poll_loop poll 0 pollNumber count q = Inl OutOfFuel"
| "poll_loop poll (Suc fuel) pollNumber count q =
     (case poll q of (new_count, wc, q') \<Rightarrow>
        if count + new_count < pollNumber then poll_loop poll fuel pollNumber (count + new_count) q'
        else Inr (count + new_count, wc, q'))"

definition pollWithCQ :: "'q poller \<Rightarrow> nat \<Rightarrow> int \<Rightarrow> 'q \<Rightarrow> err + int \<times> wc \<times> 'q" where
  "pollWithCQ poll fuel pollNumber q =
     rbind (poll_loop poll fuel pollNumber 0 q) (\<lambda>(count, wc, q').
       Inr (if count < 0 then - 1 else if \<not> wc_success wc then - 1 else count, wc, q'))"

definition pollOnce :: "'q poller \<Rightarrow> 'q \<Rightarrow> int \<times> wc \<times> 'q" where
  "pollOnce poll q =
     (case poll q of (count, wc, q') \<Rightarrow>
        (if count \<le> 0 then 0 else if \<not> wc_success wc then - 1 else count, wc, q'))"

end
