(* ===== verification/DsmOps.thy ===== *)
theory DsmOps
  imports Verbs GlobalAddr
begin

text \<open>
  The one-sided operations of \<^verbatim>\<open>src/DSM.cpp\<close>: which chain of requests each posts to
  which queue pair, and how the \<open>_sync\<close> variants wait. The network and its devices are the
  parameter \<open>net\<close>: what posting and polling do, the words in registered local memory, and
  what happens to the state \<open>'q\<close> while a coroutine is away (\<open>net_away\<close>: the master and the
  other coroutines run until the completion of this one is polled).
\<close>

unbundle bit_operations_syntax

section \<open>The connection of a thread\<close>

record 'q dsm_net =
  net_post :: "16 word \<Rightarrow> 'q poster"
  net_poll :: "'q poller"
  net_fuel :: nat
  net_away :: "nat \<Rightarrow> 'q \<Rightarrow> 'q"
  net_load :: "'q \<Rightarrow> u64 \<Rightarrow> u64"
  dsmBase :: "16 word \<Rightarrow> u64"
  dsmRKey :: "16 word \<Rightarrow> u32"
  lockBase :: "16 word \<Rightarrow> u64"
  lockRKey :: "16 word \<Rightarrow> u32"
  cacheLKey :: u32

definition dsm_addr :: "'q dsm_net \<Rightarrow> GlobalAddress \<Rightarrow> u64" where
  "dsm_addr net a = dsmBase net (nodeID a) + ucast (offset a)"

definition lock_addr :: "'q dsm_net \<Rightarrow> GlobalAddress \<Rightarrow> u64" where
  "lock_addr net a = lockBase net (nodeID a) + ucast (offset a)"

text \<open>The two branches of every operation: without a coroutine the caller says whether it wants
  a completion; with one it always does, under the number of the coroutine, and control goes to
  the master. The result of posting is ignored.\<close>

definition issue :: "'q dsm_net \<Rightarrow> nat option \<Rightarrow> bool \<Rightarrow> (bool \<Rightarrow> u64 \<Rightarrow> 'q \<Rightarrow> bool \<times> 'q) \<Rightarrow> 'q \<Rightarrow> 'q" where
  "issue net ctx signal rdma q =
     (case ctx of
        None \<Rightarrow> snd (rdma signal 0 q)
      | Some coro_id \<Rightarrow> net_away net coro_id (snd (rdma True (of_nat coro_id) q)))"

definition wait_one :: "'q dsm_net \<Rightarrow> nat option \<Rightarrow> 'q \<Rightarrow> err + 'q" where
  "wait_one net ctx q =
     (case ctx of
        None \<Rightarrow> rbind (pollWithCQ (net_poll net) (net_fuel net) 1 q) (\<lambda>(_, _, q'). Inr q')
      | Some _ \<Rightarrow> Inr q)"

section \<open>Reads and writes\<close>

definition dsm_read ::
  "'q dsm_net \<Rightarrow> u64 \<Rightarrow> GlobalAddress \<Rightarrow> u64 \<Rightarrow> bool \<Rightarrow> nat option \<Rightarrow> 'q \<Rightarrow> 'q" where
  "dsm_read net buffer gaddr sz signal ctx q =
     issue net ctx signal (rdmaRead (net_post net (nodeID gaddr)) buffer (dsm_addr net gaddr) sz
       (cacheLKey net) (dsmRKey net (nodeID gaddr))) q"

definition dsm_read_sync ::
  "'q dsm_net \<Rightarrow> u64 \<Rightarrow> GlobalAddress \<Rightarrow> u64 \<Rightarrow> nat option \<Rightarrow> 'q \<Rightarrow> err + 'q" where
  "dsm_read_sync net buffer gaddr sz ctx q = wait_one net ctx (dsm_read net buffer gaddr sz True ctx q)"

definition dsm_write ::
  "'q dsm_net \<Rightarrow> u64 \<Rightarrow> GlobalAddress \<Rightarrow> u64 \<Rightarrow> bool \<Rightarrow> nat option \<Rightarrow> 'q \<Rightarrow> 'q" where
  "dsm_write net buffer gaddr sz signal ctx q =
     issue net ctx signal (rdmaWrite (net_post net (nodeID gaddr)) buffer (dsm_addr net gaddr) sz
       (cacheLKey net) (dsmRKey net (nodeID gaddr)) (- 1)) q"

definition dsm_write_sync ::
  "'q dsm_net \<Rightarrow> u64 \<Rightarrow> GlobalAddress \<Rightarrow> u64 \<Rightarrow> nat option \<Rightarrow> 'q \<Rightarrow> err + 'q" where
  "dsm_write_sync net buffer gaddr sz ctx q = wait_one net ctx (dsm_write net buffer gaddr sz True ctx q)"

section \<open>Atomics\<close>

definition dsm_cas ::
  "'q dsm_net \<Rightarrow> GlobalAddress \<Rightarrow> u64 \<Rightarrow> u64 \<Rightarrow> u64 \<Rightarrow> bool \<Rightarrow> nat option \<Rightarrow> 'q \<Rightarrow> 'q" where
  "dsm_cas net gaddr equal val buf signal ctx q =
     issue net ctx signal (rdmaCompareAndSwap (net_post net (nodeID gaddr)) buf (dsm_addr net gaddr)
       equal val (cacheLKey net) (dsmRKey net (nodeID gaddr))) q"

definition dsm_cas_sync ::
  "'q dsm_net \<Rightarrow> GlobalAddress \<Rightarrow> u64 \<Rightarrow> u64 \<Rightarrow> u64 \<Rightarrow> nat option \<Rightarrow> 'q \<Rightarrow> err + bool \<times> 'q" where
  "dsm_cas_sync net gaddr equal val buf ctx q =
     rbind (wait_one net ctx (dsm_cas net gaddr equal val buf True ctx q)) (\<lambda>q'.
       Inr (equal = net_load net q' buf, q'))"

definition dsm_cas_mask ::
  "'q dsm_net \<Rightarrow> GlobalAddress \<Rightarrow> u64 \<Rightarrow> u64 \<Rightarrow> u64 \<Rightarrow> u64 \<Rightarrow> bool \<Rightarrow> 'q \<Rightarrow> 'q" where
  "dsm_cas_mask net gaddr equal val buf msk signal q =
     snd (rdmaCompareAndSwapMask (net_post net (nodeID gaddr)) buf (dsm_addr net gaddr)
       equal val (cacheLKey net) (dsmRKey net (nodeID gaddr)) msk signal q)"

definition dsm_cas_mask_sync ::
  "'q dsm_net \<Rightarrow> GlobalAddress \<Rightarrow> u64 \<Rightarrow> u64 \<Rightarrow> u64 \<Rightarrow> u64 \<Rightarrow> 'q \<Rightarrow> err + bool \<times> 'q" where
  "dsm_cas_mask_sync net gaddr equal val buf msk q =
     rbind (wait_one net None (dsm_cas_mask net gaddr equal val buf msk True q)) (\<lambda>q'.
       Inr (equal AND msk = net_load net q' buf AND msk, q'))"

definition dsm_faa_boundary ::
  "'q dsm_net \<Rightarrow> GlobalAddress \<Rightarrow> u64 \<Rightarrow> u64 \<Rightarrow> nat \<Rightarrow> bool \<Rightarrow> nat option \<Rightarrow> 'q \<Rightarrow> 'q" where
  "dsm_faa_boundary net gaddr add_val buf msk signal ctx q =
     issue net ctx signal (rdmaFetchAndAddBoundary (net_post net (nodeID gaddr)) buf
       (dsm_addr net gaddr) add_val (cacheLKey net) (dsmRKey net (nodeID gaddr)) msk) q"

definition dsm_faa_boundary_sync ::
  "'q dsm_net \<Rightarrow> GlobalAddress \<Rightarrow> u64 \<Rightarrow> u64 \<Rightarrow> nat \<Rightarrow> nat option \<Rightarrow> 'q \<Rightarrow> err + 'q" where
  "dsm_faa_boundary_sync net gaddr add_val buf msk ctx q =
     wait_one net ctx (dsm_faa_boundary net gaddr add_val buf msk True ctx q)"

section \<open>On-chip memory\<close>

text \<open>The same operations on the device memory of the locks.\<close>

definition dsm_read_dm ::
  "'q dsm_net \<Rightarrow> u64 \<Rightarrow> GlobalAddress \<Rightarrow> u64 \<Rightarrow> bool \<Rightarrow> nat option \<Rightarrow> 'q \<Rightarrow> 'q" where
  "dsm_read_dm net buffer gaddr sz signal ctx q =
     issue net ctx signal (rdmaRead (net_post net (nodeID gaddr)) buffer (lock_addr net gaddr) sz
       (cacheLKey net) (lockRKey net (nodeID gaddr))) q"

definition dsm_read_dm_sync ::
  "'q dsm_net \<Rightarrow> u64 \<Rightarrow> GlobalAddress \<Rightarrow> u64 \<Rightarrow> nat option \<Rightarrow> 'q \<Rightarrow> err + 'q" where
  "dsm_read_dm_sync net buffer gaddr sz ctx q = wait_one net ctx (dsm_read_dm net buffer gaddr sz True ctx q)"

definition dsm_write_dm ::
  "'q dsm_net \<Rightarrow> u64 \<Rightarrow> GlobalAddress \<Rightarrow> u64 \<Rightarrow> bool \<Rightarrow> nat option \<Rightarrow> 'q \<Rightarrow> 'q" where
  "dsm_write_dm net buffer gaddr sz signal ctx q =
     issue net ctx signal (rdmaWrite (net_post net (nodeID gaddr)) buffer (lock_addr net gaddr) sz
       (cacheLKey net) (lockRKey net (nodeID gaddr)) (- 1)) q"

definition dsm_write_dm_sync ::
  "'q dsm_net \<Rightarrow> u64 \<Rightarrow> GlobalAddress \<Rightarrow> u64 \<Rightarrow> nat option \<Rightarrow> 'q \<Rightarrow> err + 'q" where
  "dsm_write_dm_sync net buffer gaddr sz ctx q = wait_one net ctx (dsm_write_dm net buffer gaddr sz True ctx q)"

definition dsm_cas_dm ::
  "'q dsm_net \<Rightarrow> GlobalAddress \<Rightarrow> u64 \<Rightarrow> u64 \<Rightarrow> u64 \<Rightarrow> bool \<Rightarrow> nat option \<Rightarrow> 'q \<Rightarrow> 'q" where
  "dsm_cas_dm net gaddr equal val buf signal ctx q =
     issue net ctx signal (rdmaCompareAndSwap (net_post net (nodeID gaddr)) buf (lock_addr net gaddr)
       equal val (cacheLKey net) (lockRKey net (nodeID gaddr))) q"

definition dsm_cas_dm_sync ::
  "'q dsm_net \<Rightarrow> GlobalAddress \<Rightarrow> u64 \<Rightarrow> u64 \<Rightarrow> u64 \<Rightarrow> nat option \<Rightarrow> 'q \<Rightarrow> err + bool \<times> 'q" where
  "dsm_cas_dm_sync net gaddr equal val buf ctx q =
     rbind (wait_one net ctx (dsm_cas_dm net gaddr equal val buf True ctx q)) (\<lambda>q'.
       Inr (equal = net_load net q' buf, q'))"

definition dsm_cas_dm_mask ::
  "'q dsm_net \<Rightarrow> GlobalAddress \<Rightarrow> u64 \<Rightarrow> u64 \<Rightarrow> u64 \<Rightarrow> u64 \<Rightarrow> bool \<Rightarrow> 'q \<Rightarrow> 'q" where
  "dsm_cas_dm_mask net gaddr equal val buf msk signal q =
     snd (rdmaCompareAndSwapMask (net_post net (nodeID gaddr)) buf (lock_addr net gaddr)
       equal val (cacheLKey net) (lockRKey net (nodeID gaddr)) msk signal q)"

definition dsm_cas_dm_mask_sync ::
  "'q dsm_net \<Rightarrow> GlobalAddress \<Rightarrow> u64 \<Rightarrow> u64 \<Rightarrow> u64 \<Rightarrow> u64 \<Rightarrow> 'q \<Rightarrow> err + bool \<times> 'q" where
  "dsm_cas_dm_mask_sync net gaddr equal val buf msk q =
     rbind (wait_one net None (dsm_cas_dm_mask net gaddr equal val buf msk True q)) (\<lambda>q'.
       Inr (equal AND msk = net_load net q' buf AND msk, q'))"

definition dsm_faa_dm_boundary ::
  "'q dsm_net \<Rightarrow> GlobalAddress \<Rightarrow> u64 \<Rightarrow> u64 \<Rightarrow> nat \<Rightarrow> bool \<Rightarrow> nat option \<Rightarrow> 'q \<Rightarrow> 'q" where
  "dsm_faa_dm_boundary net gaddr add_val buf msk signal ctx q =
     issue net ctx signal (rdmaFetchAndAddBoundary (net_post net (nodeID gaddr)) buf
       (lock_addr net gaddr) add_val (cacheLKey net) (lockRKey net (nodeID gaddr)) msk) q"

definition dsm_faa_dm_boundary_sync ::
  "'q dsm_net \<Rightarrow> GlobalAddress \<Rightarrow> u64 \<Rightarrow> u64 \<Rightarrow> nat \<Rightarrow> nat option \<Rightarrow> 'q \<Rightarrow> err + 'q" where
  "dsm_faa_dm_boundary_sync net gaddr add_val buf msk ctx q =
     wait_one net ctx (dsm_faa_dm_boundary net gaddr add_val buf msk True ctx q)"

section \<open>Chains of two or more\<close>

text \<open>Address and key of a region; the flag is read before the key takes its place.\<close>

definition fill_keys_dest :: "'q dsm_net \<Rightarrow> GlobalAddress \<Rightarrow> bool \<Rightarrow> RdmaOpRegion \<Rightarrow> RdmaOpRegion" where
  "fill_keys_dest net gaddr is_chip r =
     (let r1 = r\<lparr>ror_lkey := cacheLKey net\<rparr>
      in if is_chip then r1\<lparr>ror_dest := lock_addr net gaddr, remoteRKey := lockRKey net (nodeID gaddr)\<rparr>
         else r1\<lparr>ror_dest := dsm_addr net gaddr, remoteRKey := dsmRKey net (nodeID gaddr)\<rparr>)"

definition fill_region :: "'q dsm_net \<Rightarrow> RdmaOpRegion \<Rightarrow> RdmaOpRegion" where
  "fill_region net r = fill_keys_dest net (addr_of_val (ror_dest r)) (is_on_chip r) r"

definition ror_node :: "RdmaOpRegion \<Rightarrow> 16 word" where
  "ror_node r = nodeID (addr_of_val (ror_dest r))"

text \<open>The whole batch goes to the node of its last region; the regions are changed in place.\<close>

definition dsm_write_batch ::
  "'q dsm_net \<Rightarrow> RdmaOpRegion list \<Rightarrow> bool \<Rightarrow> nat option \<Rightarrow> 'q \<Rightarrow> err + RdmaOpRegion list \<times> 'q" where
  "dsm_write_batch net rs signal ctx q =
     (if rs = [] then Inl OutOfBounds
      else let rs' = map (fill_region net) rs; post = net_post net (ror_node (last rs))
        in case ctx of
             None \<Rightarrow> rbind (rdmaWriteBatch post rs' signal 0 q) (\<lambda>(_, q'). Inr (rs', q'))
           | Some coro_id \<Rightarrow>
               rbind (rdmaWriteBatch post rs' True (of_nat coro_id) q) (\<lambda>(_, q').
                 Inr (rs', net_away net coro_id q')))"

definition dsm_write_batch_sync ::
  "'q dsm_net \<Rightarrow> RdmaOpRegion list \<Rightarrow> nat option \<Rightarrow> 'q \<Rightarrow> err + RdmaOpRegion list \<times> 'q" where
  "dsm_write_batch_sync net rs ctx q =
     rbind (dsm_write_batch net rs True ctx q) (\<lambda>(rs', q'). rbind (wait_one net ctx q') (\<lambda>q''. Inr (rs', q'')))"

definition dsm_write_faa ::
  "'q dsm_net \<Rightarrow> RdmaOpRegion \<Rightarrow> RdmaOpRegion \<Rightarrow> u64 \<Rightarrow> bool \<Rightarrow> nat option \<Rightarrow> 'q \<Rightarrow> 'q" where
  "dsm_write_faa net write_ror faa_ror add_val signal ctx q =
     issue net ctx signal (rdmaWriteFaa (net_post net (ror_node write_ror))
       (fill_region net write_ror) (fill_region net faa_ror) add_val) q"

definition dsm_write_faa_sync ::
  "'q dsm_net \<Rightarrow> RdmaOpRegion \<Rightarrow> RdmaOpRegion \<Rightarrow> u64 \<Rightarrow> nat option \<Rightarrow> 'q \<Rightarrow> err + 'q" where
  "dsm_write_faa_sync net write_ror faa_ror add_val ctx q =
     wait_one net ctx (dsm_write_faa net write_ror faa_ror add_val True ctx q)"

definition dsm_write_cas ::
  "'q dsm_net \<Rightarrow> RdmaOpRegion \<Rightarrow> RdmaOpRegion \<Rightarrow> u64 \<Rightarrow> u64 \<Rightarrow> bool \<Rightarrow> nat option \<Rightarrow> 'q \<Rightarrow> 'q" where
  "dsm_write_cas net write_ror cas_ror equal val signal ctx q =
     issue net ctx signal (rdmaWriteCas (net_post net (ror_node write_ror))
       (fill_region net write_ror) (fill_region net cas_ror) equal val) q"

definition dsm_write_cas_sync ::
  "'q dsm_net \<Rightarrow> RdmaOpRegion \<Rightarrow> RdmaOpRegion \<Rightarrow> u64 \<Rightarrow> u64 \<Rightarrow> nat option \<Rightarrow> 'q \<Rightarrow> err + 'q" where
  "dsm_write_cas_sync net write_ror cas_ror equal val ctx q =
     wait_one net ctx (dsm_write_cas net write_ror cas_ror equal val True ctx q)"

definition dsm_cas_read ::
  "'q dsm_net \<Rightarrow> RdmaOpRegion \<Rightarrow> RdmaOpRegion \<Rightarrow> u64 \<Rightarrow> u64 \<Rightarrow> bool \<Rightarrow> nat option \<Rightarrow> 'q \<Rightarrow> 'q" where
  "dsm_cas_read net cas_ror read_ror equal val signal ctx q =
     issue net ctx signal (rdmaCasRead (net_post net (ror_node cas_ror))
       (fill_region net cas_ror) (fill_region net read_ror) equal val) q"

definition dsm_cas_read_sync ::
  "'q dsm_net \<Rightarrow> RdmaOpRegion \<Rightarrow> RdmaOpRegion \<Rightarrow> u64 \<Rightarrow> u64 \<Rightarrow> nat option \<Rightarrow> 'q \<Rightarrow> err + bool \<times> 'q" where
  "dsm_cas_read_sync net cas_ror read_ror equal val ctx q =
     rbind (wait_one net ctx (dsm_cas_read net cas_ror read_ror equal val True ctx q)) (\<lambda>q'.
       Inr (equal = net_load net q' (ror_source cas_ror), q'))"

text \<open>The two regions of \<^verbatim>\<open>Tree::write_page_and_unlock\<close>: the page (or one record of it) in
  the shared memory, and the zero for the lock word in the device memory. \<open>g0\<close> and \<open>g1\<close> are
  what the uninitialised keys hold.\<close>

definition unlock_regions ::
  "u32 \<Rightarrow> u32 \<Rightarrow> u64 \<Rightarrow> GlobalAddress \<Rightarrow> u64 \<Rightarrow> u64 \<Rightarrow> GlobalAddress \<Rightarrow> RdmaOpRegion list" where
  "unlock_regions g0 g1 page_buffer page_addr page_size cas_buffer lockAddr =
     [set_on_chip False \<lparr>ror_source = page_buffer, ror_dest = addr_val page_addr, ror_size = page_size,
        ror_lkey = 0, remoteRKey = g0\<rparr>,
      set_on_chip True \<lparr>ror_source = cas_buffer, ror_dest = addr_val lockAddr, ror_size = 8,
        ror_lkey = 0, remoteRKey = g1\<rparr>]"

section \<open>Polling for the master\<close>

definition poll_rdma_cq :: "'q dsm_net \<Rightarrow> int \<Rightarrow> 'q \<Rightarrow> err + u64 \<times> 'q" where
  "poll_rdma_cq net count q =
     rbind (pollWithCQ (net_poll net) (net_fuel net) count q) (\<lambda>(_, wc, q'). Inr (wc_wr_id wc, q'))"

definition poll_rdma_cq_once :: "'q dsm_net \<Rightarrow> 'q \<Rightarrow> bool \<times> u64 \<times> 'q" where
  "poll_rdma_cq_once net q =
     (case pollOnce (net_poll net) q of (res, wc, q') \<Rightarrow> (res = 1, wc_wr_id wc, q'))"

end
