(* ===== verification/DsmClaims.thy ===== *)
theory DsmClaims
  imports DsmOps
begin

text \<open>
  What the one-sided operations promise on a network that behaves as the verbs library
  documents: each synchronous operation waits for its own completion and for nothing else,
  a batch is one chain in order with one completion at its end, and what happens to failures.
\<close>

section \<open>A reliable network\<close>

text \<open>\<open>cq q\<close> are the completions that the posted requests will give, in their order: one for
  each signaled request. Polling takes the oldest one, or returns nothing for now; \<open>delay\<close>
  bounds how often in a row it does that while one is outstanding.\<close>

definition reliable :: "'q dsm_net \<Rightarrow> ('q \<Rightarrow> u64 list) \<Rightarrow> ('q \<Rightarrow> nat) \<Rightarrow> bool" where
  "reliable net cq delay \<longleftrightarrow>
     (\<forall>n wrs q. cq (snd (net_post net n wrs q)) = cq q @ map wr_id (filter wr_signaled wrs))
     \<and> (\<forall>q. delay q < net_fuel net)
     \<and> (\<forall>q. case net_poll net q of (c, wc, q') \<Rightarrow>
          c = 0 \<and> cq q' = cq q \<and> (cq q = [] \<or> delay q' < delay q)
          \<or> c = 1 \<and> wc_success wc \<and> cq q = wc_wr_id wc # cq q')"

lemma reliableD:
  assumes "reliable net cq delay"
  shows "cq (snd (net_post net n wrs q)) = cq q @ map wr_id (filter wr_signaled wrs)"
    "delay q < net_fuel net"
    "net_poll net q = (c, wc, q') \<Longrightarrow>
      c = 0 \<and> cq q' = cq q \<and> (cq q = [] \<or> delay q' < delay q)
      \<or> c = 1 \<and> wc_success wc \<and> cq q = wc_wr_id wc # cq q'"
proof -
  show "cq (snd (net_post net n wrs q)) = cq q @ map wr_id (filter wr_signaled wrs)"
    "delay q < net_fuel net" using assms unfolding reliable_def by blast+
  have "case net_poll net q of (c, wc, q') \<Rightarrow> c = 0 \<and> cq q' = cq q \<and> (cq q = [] \<or> delay q' < delay q)
      \<or> c = 1 \<and> wc_success wc \<and> cq q = wc_wr_id wc # cq q'"
    using assms unfolding reliable_def by (elim conjE) (erule spec)
  then show "net_poll net q = (c, wc, q') \<Longrightarrow> c = 0 \<and> cq q' = cq q \<and> (cq q = [] \<or> delay q' < delay q)
      \<or> c = 1 \<and> wc_success wc \<and> cq q = wc_wr_id wc # cq q'" by simp
qed

lemma poll_loop_one:
  assumes "reliable net cq delay"
  shows "delay q < fuel \<Longrightarrow> cq q = x # xs \<Longrightarrow>
    \<exists>wc q'. poll_loop (net_poll net) fuel 1 0 q = Inr (1, wc, q') \<and> wc_success wc
      \<and> wc_wr_id wc = x \<and> cq q' = xs"
proof (induction fuel arbitrary: q)
  case (Suc fuel)
  obtain c wc q' where p: "net_poll net q = (c, wc, q')" by (metis prod_cases3)
  from reliableD(3) [OF assms p] Suc.prems(2) show ?case
  proof (elim disjE conjE)
    assume "c = 0" "cq q' = cq q" "delay q' < delay q"
    with Suc.IH [of q'] Suc.prems p show ?case by simp
  qed (use p Suc.prems in auto)
qed simp

lemma wait_one_completion:
  assumes "reliable net cq delay" "cq q = [x]"
  shows "\<exists>q'. wait_one net None q = Inr q' \<and> cq q' = []"
  using poll_loop_one [OF assms(1) reliableD(2) [OF assms(1)] assms(2)]
  by (auto simp: wait_one_def pollWithCQ_def)

text \<open>The completions that an operation leaves behind.\<close>

lemmas rdma_defs = rdmaRead_def rdmaWrite_def rdmaFetchAndAdd_def rdmaFetchAndAddBoundary_def
  rdmaCompareAndSwap_def rdmaCompareAndSwapMask_def rdmaCasRead_def rdmaWriteFaa_def rdmaWriteCas_def
  post_send_def fillSgeWr_def

lemmas dsm_op_defs = dsm_read_def dsm_write_def dsm_cas_def dsm_faa_boundary_def dsm_cas_mask_def
  dsm_read_dm_def dsm_write_dm_def dsm_cas_dm_def dsm_faa_dm_boundary_def dsm_cas_dm_mask_def
  dsm_write_faa_def dsm_write_cas_def dsm_cas_read_def

lemma post_send_cq:
  assumes "reliable net cq delay"
  shows "cq (snd (post_send (net_post net n) wrs q)) = cq q @ map wr_id (filter wr_signaled wrs)"
  using reliableD(1) [OF assms, of n wrs q] by (simp add: post_send_def case_prod_unfold)

lemma issue_cq:
  assumes "reliable net cq delay"
  shows "cq (snd (rdmaRead (net_post net n) b d sz l r sg w q)) = cq q @ (if sg then [w] else [])"
    "cq (snd (rdmaWrite (net_post net n) b d sz l r i sg w q)) = cq q @ (if sg then [w] else [])"
    "cq (snd (rdmaFetchAndAddBoundary (net_post net n) b d v l r bd sg w q)) = cq q @ (if sg then [w] else [])"
    "cq (snd (rdmaCompareAndSwap (net_post net n) b d v v' l r sg w q)) = cq q @ (if sg then [w] else [])"
    "cq (snd (rdmaCompareAndSwapMask (net_post net n) b d v v' l r m sg q)) = cq q @ (if sg then [0] else [])"
    "cq (snd (rdmaCasRead (net_post net n) r1 r2 v v' sg w q)) = cq q @ (if sg then [w] else [])"
    "cq (snd (rdmaWriteFaa (net_post net n) r1 r2 v sg w q)) = cq q @ (if sg then [w] else [])"
    "cq (snd (rdmaWriteCas (net_post net n) r1 r2 v v' sg w q)) = cq q @ (if sg then [w] else [])"
  unfolding rdmaRead_def rdmaWrite_def rdmaFetchAndAddBoundary_def rdmaCompareAndSwap_def
    rdmaCompareAndSwapMask_def rdmaCasRead_def rdmaWriteFaa_def rdmaWriteCas_def Let_def
    post_send_cq [OF assms]
  by (simp_all add: fillSgeWr_def)

lemma batch_signals:
  assumes "rs \<noteq> []"
  shows "map wr_id (filter wr_signaled (batch_wrs rs sg w)) = (if sg then [w] else [])"
proof -
  have up: "[0..<length rs] = [0..<length rs - 1] @ [length rs - 1]"
    using assms by (simp add: upt_Suc_append [symmetric])
  have "filter (\<lambda>i. i = length rs - 1 \<and> sg) [0..<length rs - 1] = []" by (auto simp: filter_empty_conv)
  then show ?thesis
    unfolding batch_wrs_def filter_map up by (simp add: o_def fillSgeWr_def)
qed

lemma write_batch_cq:
  assumes "reliable net cq delay" "rs \<noteq> []" "length rs \<le> kOroMax"
  obtains q' where "dsm_write_batch net rs sg None q = Inr (map (fill_region net) rs, q')"
    "cq q' = cq q @ (if sg then [0] else [])"
proof -
  let ?rs = "map (fill_region net) rs"
  have "rdmaWriteBatch (net_post net (ror_node (last rs))) ?rs sg 0 q =
      Inr (post_send (net_post net (ror_node (last rs))) (batch_wrs ?rs sg 0) q)"
    using assms(2,3) by (simp add: rdmaWriteBatch_def)
  then have "dsm_write_batch net rs sg None q =
      Inr (?rs, snd (post_send (net_post net (ror_node (last rs))) (batch_wrs ?rs sg 0) q))"
    using assms(2) by (simp add: dsm_write_batch_def Let_def case_prod_unfold)
  then show thesis
    using post_send_cq [OF assms(1)] batch_signals [of ?rs sg 0] assms(2) by (intro that) auto
qed

section \<open>Synchronous operations\<close>

lemma issue_None: "issue net None sg f q = snd (f sg 0 q)"
  by (simp add: issue_def)

text \<open>A network that delivers every completion at once, to try the properties on.\<close>

definition prompt_net :: "u64 list dsm_net" where
  "prompt_net = \<lparr>net_post = (\<lambda>n wrs q. (0, q @ map wr_id (filter wr_signaled wrs))),
     net_poll = (\<lambda>q. case q of [] \<Rightarrow> (0, \<lparr>wc_success = True, wc_wr_id = 0\<rparr>, [])
        | x # xs \<Rightarrow> (1, \<lparr>wc_success = True, wc_wr_id = x\<rparr>, xs)),
     net_fuel = 1, net_away = (\<lambda>_ q. q), net_load = (\<lambda>_ _. 0), dsmBase = (\<lambda>_. 4096), dsmRKey = (\<lambda>_. 7),
     lockBase = (\<lambda>_. 0), lockRKey = (\<lambda>_. 9), cacheLKey = 3\<rparr>"

lemma prompt_net_reliable: "reliable prompt_net (\<lambda>q. q) (\<lambda>_. 0)"
  by (auto simp: reliable_def prompt_net_def split: list.split)

text \<open>(C23) Completion accounting: on a reliable network each synchronous operation returns, and
  each leaves the completion queue as empty as it found it, so that none takes the completion
  of another; the operations that ask for no completion (the asynchronous unlocks) leave none
  behind that a later one would take for its own.\<close>

theorem sync_ops_wait_for_own:
  assumes "reliable net cq delay" "cq q = []"
  shows "(\<exists>q'. dsm_read_sync net buf a sz None q = Inr q' \<and> cq q' = [])
    \<and> (\<exists>q'. dsm_write_sync net buf a sz None q = Inr q' \<and> cq q' = [])
    \<and> (\<exists>r q'. dsm_cas_sync net a old new buf None q = Inr (r, q') \<and> cq q' = [])
    \<and> (\<exists>r q'. dsm_cas_mask_sync net a old new buf msk q = Inr (r, q') \<and> cq q' = [])
    \<and> (\<exists>q'. dsm_faa_boundary_sync net a old buf bd None q = Inr q' \<and> cq q' = [])
    \<and> (\<exists>q'. dsm_read_dm_sync net buf a sz None q = Inr q' \<and> cq q' = [])
    \<and> (\<exists>q'. dsm_write_dm_sync net buf a sz None q = Inr q' \<and> cq q' = [])
    \<and> (\<exists>r q'. dsm_cas_dm_sync net a old new buf None q = Inr (r, q') \<and> cq q' = [])
    \<and> (\<exists>r q'. dsm_cas_dm_mask_sync net a old new buf msk q = Inr (r, q') \<and> cq q' = [])
    \<and> (\<exists>q'. dsm_faa_dm_boundary_sync net a old buf bd None q = Inr q' \<and> cq q' = [])
    \<and> (\<exists>q'. dsm_write_faa_sync net r1 r2 old None q = Inr q' \<and> cq q' = [])
    \<and> (\<exists>q'. dsm_write_cas_sync net r1 r2 old new None q = Inr q' \<and> cq q' = [])
    \<and> (\<exists>r q'. dsm_cas_read_sync net r1 r2 old new None q = Inr (r, q') \<and> cq q' = [])
    \<and> (\<exists>rs q'. dsm_write_batch_sync net [r1, r2] None q = Inr (rs, q') \<and> cq q' = [])
    \<and> (\<exists>rs q'. dsm_write_batch net [r1, r2] False None q = Inr (rs, q') \<and> cq q' = [])
    \<and> cq (dsm_write_dm net buf a sz False None q) = []"
proof -
  have w: "\<exists>q''. wait_one net None q' = Inr q'' \<and> cq q'' = []" if "cq q' = [0]" for q'
    by (rule wait_one_completion [OF assms(1) that])
  have wr: "\<exists>r q''. rbind (wait_one net None q') (\<lambda>q''. Inr (f q'', q'')) = Inr (r, q'') \<and> cq q'' = []"
    if "cq q' = [0]" for q' and f :: "_ \<Rightarrow> 'r"
    using w [OF that] by auto
  note i = issue_None issue_cq [OF assms(1)] assms(2)
  have k: "[r1, r2] \<noteq> []" "length [r1, r2] \<le> kOroMax" by (simp_all add: kOroMax_def)
  obtain q1 where q1: "dsm_write_batch net [r1, r2] True None q = Inr (map (fill_region net) [r1, r2], q1)"
    "cq q1 = [0]" using write_batch_cq [OF assms(1) k, of True q] assms(2) by auto
  obtain q2 where q2: "dsm_write_batch net [r1, r2] False None q = Inr (map (fill_region net) [r1, r2], q2)"
    "cq q2 = []" using write_batch_cq [OF assms(1) k, of False q] assms(2) by auto
  have b: "\<exists>rs q'. dsm_write_batch_sync net [r1, r2] None q = Inr (rs, q') \<and> cq q' = []"
    using w [OF q1(2)] q1(1) by (auto simp: dsm_write_batch_sync_def)
  show ?thesis
    using q2 b
    unfolding dsm_read_sync_def dsm_write_sync_def dsm_cas_sync_def dsm_cas_mask_sync_def
      dsm_faa_boundary_sync_def dsm_read_dm_sync_def dsm_write_dm_sync_def dsm_cas_dm_sync_def
      dsm_cas_dm_mask_sync_def dsm_faa_dm_boundary_sync_def dsm_write_faa_sync_def
      dsm_write_cas_sync_def dsm_cas_read_sync_def
    by (intro conjI w wr; simp add: dsm_op_defs i)
qed

theorem sync_ops_wait_for_own_witness:
  "\<exists>q'. dsm_read_sync prompt_net 0 gaddr_null 1024 None [] = Inr q' \<and> q' = []"
  using sync_ops_wait_for_own [OF prompt_net_reliable, of "[]" 0 gaddr_null 1024] by simp

lemma is_on_chip_set: "is_on_chip (set_on_chip b r) = b"
proof -
  have "take_bit 8 (push_bit 8 w OR (if b then 1 else 0)) = (if b then 1 else 0 :: u32)" for w :: u32
    by (simp add: take_bit_or take_bit_push_bit)
  then show ?thesis by (simp add: is_on_chip_def set_on_chip_def)
qed



section \<open>Failures\<close>

lemma poll_loop_count: "poll_loop poll fuel n c q = Inr (count, wc, q') \<Longrightarrow> n \<le> count"
  by (induction poll fuel n c q rule: poll_loop.induct) (auto split: prod.splits if_splits)

lemma poll_loop_failing:
  assumes "\<forall>q. fst (poll q) < 0"
  shows "c \<le> n \<Longrightarrow> poll_loop poll fuel n c q = Inl OutOfFuel"
proof (induction fuel arbitrary: c q)
  case (Suc fuel)
  have "fst (poll q) < 0" using assms by blast
  with Suc show ?case by (cases "poll q") auto
qed simp

text \<open>A failing device is never reported: when polling always gives an error code the
  waiting loop does not end with any number of polls, since the codes are added up and the test
  for an error comes after the loop; and when the loop ends its count is what the caller asked
  for, so that the branch that prints the error is dead.\<close>

theorem poll_errors_not_reported:
  assumes "0 < n"
  shows "((\<forall>q. fst (poll q) < 0) \<longrightarrow> pollWithCQ poll fuel n q = Inl OutOfFuel)
    \<and> (\<forall>count wc q'. poll_loop poll fuel n 0 q = Inr (count, wc, q') \<longrightarrow> \<not> count < 0)"
  using assms poll_loop_failing [of poll 0 n fuel q] poll_loop_count [of poll fuel n 0 q]
  by (force simp: pollWithCQ_def)

theorem poll_errors_not_reported_witness:
  "pollWithCQ (\<lambda>q :: unit. (- 1, \<lparr>wc_success = False, wc_wr_id = 0\<rparr>, q)) 1000 1 () = Inl OutOfFuel"
  using poll_errors_not_reported [of 1 "\<lambda>q :: unit. (- 1, \<lparr>wc_success = False, wc_wr_id = 0\<rparr>, q)" 1000 "()"]
  by simp

end
