(* ===== verification/RangeQuery.thy ===== *)
theory RangeQuery
  imports TreeCorrect
begin

text \<open>
  \<^verbatim>\<open>Tree::range_query\<close>: the leaves that the cached level-1 pages name for a range of keys
  are fetched in batches of \<open>kParaFetch\<close> reads into one buffer, and the records of each batch
  are filtered when its reads have completed.
\<close>

definition kParaFetch :: nat where "kParaFetch = 32"

section \<open>Which leaves to fetch\<close>

definition range_leaves :: "key \<Rightarrow> key \<Rightarrow> InternalPage \<Rightarrow> err + GlobalAddress list" where
  "range_leaves from to page =
     (let cnt = nat (last_index (ip_hdr page) + 1); rs = ip_records page;
          unless = (\<lambda>no_fetch a. if no_fetch then [] else [a])
      in if cnt = 0 \<or> length rs < cnt then Inl OutOfBounds
         else Inr
           (unless (from > ie_key (rs ! 0) \<or> to < lowest (ip_hdr page)) (leftmost_ptr (ip_hdr page))
            @ concat (map (\<lambda>i. unless (from > ie_key (rs ! i) \<or> to < ie_key (rs ! (i - 1)))
                                  (ie_ptr (rs ! (i - 1)))) [1..<cnt])
            @ unless (from > highest (ip_hdr page) \<or> to < ie_key (rs ! (cnt - 1)))
                (ie_ptr (rs ! (cnt - 1)))))"

fun gather_leaves :: "key \<Rightarrow> key \<Rightarrow> InternalPage list \<Rightarrow> err + GlobalAddress list" where
  "gather_leaves from to [] = Inr []"
| "gather_leaves from to (p # ps) =
     rbind (range_leaves from to p) (\<lambda>as. rbind (gather_leaves from to ps) (\<lambda>bs. Inr (as @ bs)))"

section \<open>Fetching them\<close>

text \<open>
  The range buffer with its \<open>kParaFetch\<close> places, the reads that were posted and have not
  completed (by number and address), and the values found so far. The read with number \<open>i\<close>
  finds the memory \<open>m i\<close>: other clients may write between two reads.
\<close>

record range_state =
  rq_buffer :: "nat \<Rightarrow> page option"
  rq_posted :: "(nat \<times> GlobalAddress) list"
  cq_cnt :: int
  value_buffer :: "val list"

fun land_reads :: "(nat \<Rightarrow> memory) \<Rightarrow> (nat \<times> GlobalAddress) list \<Rightarrow> (nat \<Rightarrow> page option) \<Rightarrow> nat \<Rightarrow> page option" where
  "land_reads m [] buf = buf"
| "land_reads m ((i, a) # xs) buf = land_reads m xs (buf(i mod kParaFetch := m i a))"

text \<open>\<^verbatim>\<open>poll_rdma_cq(n)\<close> returns when \<open>n\<close> reads have completed, never if fewer are out.\<close>

definition poll_reads :: "(nat \<Rightarrow> memory) \<Rightarrow> nat \<Rightarrow> range_state \<Rightarrow> err + range_state" where
  "poll_reads m n st =
     rbind (require (n \<le> length (rq_posted st)) Blocked) (\<lambda>_.
       Inr (st\<lparr>rq_buffer := land_reads m (take n (rq_posted st)) (rq_buffer st),
               rq_posted := drop n (rq_posted st)\<rparr>))"

definition leaf_in_range :: "key \<Rightarrow> key \<Rightarrow> LeafPage \<Rightarrow> val list" where
  "leaf_in_range from to page = map le_value (filter (\<lambda>r. le_value r \<noteq> kValueNull
     \<and> f_version r = r_version r \<and> from \<le> le_key r \<and> le_key r \<le> to) (lp_records page))"

fun collect_slots :: "key \<Rightarrow> key \<Rightarrow> nat list \<Rightarrow> range_state \<Rightarrow> err + range_state" where
  "collect_slots from to [] st = Inr st"
| "collect_slots from to (k # ks) st =
     (case rq_buffer st k of
        Some (LeafP page) \<Rightarrow>
          collect_slots from to ks (st\<lparr>value_buffer := value_buffer st @ leaf_in_range from to page\<rparr>)
      | _ \<Rightarrow> Inl WildAccess)"

fun fetch_leaves ::
  "(nat \<Rightarrow> memory) \<Rightarrow> key \<Rightarrow> key \<Rightarrow> (nat \<times> GlobalAddress) list \<Rightarrow> range_state \<Rightarrow> err + range_state" where
  "fetch_leaves m from to [] st = Inr st"
| "fetch_leaves m from to ((i, a) # xs) st =
     rbind (if 0 < i \<and> i mod kParaFetch = 0 then
              rbind (poll_reads m kParaFetch st) (\<lambda>st1.
                collect_slots from to [0..<kParaFetch] (st1\<lparr>cq_cnt := cq_cnt st1 - int kParaFetch\<rparr>))
            else Inr st) (\<lambda>st2.
     fetch_leaves m from to xs
       (st2\<lparr>rq_posted := rq_posted st2 @ [(i, a)], cq_cnt := cq_cnt st2 + 1\<rparr>))"

definition range_query :: "(nat \<Rightarrow> memory) \<Rightarrow> key \<Rightarrow> key \<Rightarrow> IndexCache \<Rightarrow> err + val list" where
  "range_query m from to c =
     (let result = search_range_from_cache from to c in
      if result = [] then Inr []
      else
        rbind (gather_leaves from to result) (\<lambda>leaves.
        rbind (fetch_leaves m from to (enumerate 0 leaves)
          \<lparr>rq_buffer = Map.empty, rq_posted = [], cq_cnt = 0, value_buffer = []\<rparr>) (\<lambda>st.
        if cq_cnt st \<noteq> 0 then
          rbind (poll_reads m (nat (cq_cnt st)) st) (\<lambda>st1.
          rbind (collect_slots from to [0..<nat (cq_cnt st)] st1) (\<lambda>st2. Inr (value_buffer st2)))
        else Inr (value_buffer st))))"

section \<open>Batches\<close>

lemma poll_reads_all:
  "poll_reads m (length (rq_posted st)) st =
     Inr (st\<lparr>rq_buffer := land_reads m (rq_posted st) (rq_buffer st), rq_posted := []\<rparr>)"
  by (simp add: poll_reads_def)

lemma land_reads_append: "land_reads m (xs @ ys) buf = land_reads m ys (land_reads m xs buf)"
  by (induction m xs buf rule: land_reads.induct) (simp_all del: fun_upd_apply)

text \<open>The reads of one batch end in the first places of the buffer, in order.\<close>

lemma land_reads_batch:
  assumes "c \<le> kParaFetch" "k < c"
  shows "land_reads m (map (\<lambda>i. (i, f i)) [kParaFetch * b..<kParaFetch * b + c]) buf k
    = m (kParaFetch * b + k) (f (kParaFetch * b + k))"
  using assms
proof (induction c)
  case (Suc c)
  have "(kParaFetch * b + c) mod kParaFetch = c" using Suc.prems by simp
  then show ?case using Suc by (cases "k = c") (auto simp: land_reads_append)
qed simp

lemma collect_slots_spec:
  "(\<forall>k \<in> set ks. rq_buffer st k = Some (LeafP (pg k))) \<Longrightarrow> collect_slots from to ks st =
     Inr (st\<lparr>value_buffer := value_buffer st @ concat (map (\<lambda>k. leaf_in_range from to (pg k)) ks)\<rparr>)"
  by (induction ks arbitrary: st) auto

text \<open>The state after \<open>i\<close> leaves: \<open>b\<close> whole batches are done, the rest is posted.\<close>

definition fetched :: "key \<Rightarrow> key \<Rightarrow> (nat \<Rightarrow> GlobalAddress) \<Rightarrow> (nat \<Rightarrow> LeafPage) \<Rightarrow> nat \<Rightarrow> nat \<Rightarrow> range_state \<Rightarrow> bool" where
  "fetched from to f pg b i st \<longleftrightarrow> kParaFetch * b \<le> i \<and> i \<le> kParaFetch * b + kParaFetch
     \<and> (i = kParaFetch * b \<longrightarrow> i = 0)
     \<and> rq_posted st = map (\<lambda>j. (j, f j)) [kParaFetch * b..<i] \<and> cq_cnt st = int (i - kParaFetch * b)
     \<and> value_buffer st = concat (map (\<lambda>j. leaf_in_range from to (pg j)) [0..<kParaFetch * b])"

lemma batch_done:
  assumes inv: "fetched from to f pg b i st" and pg: "\<forall>j < i. m j (f j) = Some (LeafP (pg j))"
    and n: "n = i - kParaFetch * b"
  obtains st1 st2 where "poll_reads m n st = Inr st1" "rq_posted st1 = []" "cq_cnt st1 = cq_cnt st"
    "collect_slots from to [0..<n] (st1\<lparr>cq_cnt := x\<rparr>) = Inr (st2\<lparr>cq_cnt := x\<rparr>)"
    "collect_slots from to [0..<n] st1 = Inr st2"
    "rq_posted st2 = []" "value_buffer st2 = concat (map (\<lambda>j. leaf_in_range from to (pg j)) [0..<i])"
proof -
  let ?b = "kParaFetch * b"
  have le: "?b \<le> i" "i = ?b + n" "n \<le> kParaFetch" using inv n by (auto simp: fetched_def)
  have posted: "rq_posted st = map (\<lambda>j. (j, f j)) [?b..<?b + n]" using inv le by (simp add: fetched_def)
  define st1 where "st1 = st\<lparr>rq_buffer := land_reads m (rq_posted st) (rq_buffer st), rq_posted := []\<rparr>"
  have "length (rq_posted st) = n" using posted by simp
  then have p: "poll_reads m n st = Inr st1" using poll_reads_all [of m st] by (simp add: st1_def)
  have buf: "\<forall>k \<in> set [0..<n]. rq_buffer st1 k = Some (LeafP (pg (?b + k)))"
    using land_reads_batch [OF le(3)] pg le by (simp add: st1_def posted)
  have vals: "concat (map (\<lambda>k. leaf_in_range from to (pg (?b + k))) [0..<n])
      = concat (map (\<lambda>j. leaf_in_range from to (pg j)) [?b..<i])"
    by (simp add: le(2) map_add_upt [symmetric] o_def add.commute)
  have all: "[0..<i] = [0..<?b] @ [?b..<i]" using le(1) by (metis le0 upt_add_eq_append le_Suc_ex add_0)
  show thesis
  proof (rule that [OF p])
    show "collect_slots from to [0..<n] st1 =
        Inr (st1\<lparr>value_buffer := value_buffer st1 @ concat (map (\<lambda>k. leaf_in_range from to (pg (?b + k))) [0..<n])\<rparr>)"
      by (rule collect_slots_spec [OF buf])
    show "collect_slots from to [0..<n] (st1\<lparr>cq_cnt := x\<rparr>) = Inr ((st1\<lparr>value_buffer := value_buffer st1
        @ concat (map (\<lambda>k. leaf_in_range from to (pg (?b + k))) [0..<n])\<rparr>)\<lparr>cq_cnt := x\<rparr>)"
      by (subst collect_slots_spec [where pg = "\<lambda>k. pg (?b + k)"]) (use buf in auto)
  qed (use inv vals all in \<open>auto simp: st1_def fetched_def\<close>)
qed

lemma fetch_leaves_spec:
  assumes "fetched from to f pg b i st" "\<forall>j < i + length xs. m j (f j) = Some (LeafP (pg j))"
    and "xs = map (\<lambda>j. (j, f j)) [i..<i + length xs]"
  shows "\<exists>st' b'. fetch_leaves m from to xs st = Inr st' \<and> fetched from to f pg b' (i + length xs) st'"
  using assms
proof (induction xs arbitrary: i b st)
  case (Cons x xs)
  have "[i..<i + length (x # xs)] = i # [Suc i..<Suc i + length xs]"
    by (simp add: upt_conv_Cons del: upt_Suc)
  then have x: "x = (i, f i)" and xs: "xs = map (\<lambda>j. (j, f j)) [Suc i..<Suc i + length xs]"
    using Cons.prems(3) by (simp_all del: upt_Suc)
  have pg: "\<forall>j < Suc i + length xs. m j (f j) = Some (LeafP (pg j))" using Cons.prems(2) by simp
  show ?case
  proof (cases "0 < i \<and> i mod kParaFetch = 0")
    case False
    let ?st = "st\<lparr>rq_posted := rq_posted st @ [(i, f i)], cq_cnt := cq_cnt st + 1\<rparr>"
    have "i \<noteq> kParaFetch * b + kParaFetch" using False by (auto simp: kParaFetch_def)
    then have "fetched from to f pg b (Suc i) ?st"
      using Cons.prems(1) by (auto simp: fetched_def Suc_diff_le)
    from Cons.IH [OF this pg xs] False show ?thesis by (cases "i = 0") (simp_all add: x)
  next
    case True
    have i: "i = kParaFetch * b + kParaFetch"
    proof -
      have "kParaFetch * b < i" "i \<le> kParaFetch * Suc b" using Cons.prems(1) True by (auto simp: fetched_def)
      moreover obtain q where "i = kParaFetch * q" using True by (metis mod_0_imp_dvd dvdE)
      ultimately have "b < q" "q \<le> Suc b" by (auto simp: kParaFetch_def)
      then show ?thesis using \<open>i = kParaFetch * q\<close> by (simp add: le_Suc_eq)
    qed
    have pgi: "\<forall>j < i. m j (f j) = Some (LeafP (pg j))" using Cons.prems(2) by simp
    obtain st1 st2 where p: "poll_reads m kParaFetch st = Inr st1" "cq_cnt st1 = cq_cnt st"
      "collect_slots from to [0..<kParaFetch] (st1\<lparr>cq_cnt := 0\<rparr>) = Inr (st2\<lparr>cq_cnt := 0\<rparr>)"
      "rq_posted st2 = []" "value_buffer st2 = concat (map (\<lambda>j. leaf_in_range from to (pg j)) [0..<i])"
      by (rule batch_done [where f = f and pg = pg and m = m and n = kParaFetch and x = 0, OF Cons.prems(1) pgi])
        (use i in auto)
    have c0: "cq_cnt st1 - int kParaFetch = 0" using p(2) Cons.prems(1) i by (simp add: fetched_def)
    let ?st = "st2\<lparr>rq_posted := [(i, f i)], cq_cnt := 1\<rparr>"
    have "fetched from to f pg (Suc b) (Suc i) ?st"
    proof -
      have i': "kParaFetch * Suc b = i" using i by simp
      then show ?thesis using p True unfolding fetched_def i' by (simp add: kParaFetch_def)
    qed
    from Cons.IH [OF this pg xs] True p c0 show ?thesis by (simp add: x)
  qed
qed auto

text \<open>What the whole loop computes: the matches of every leaf, in the order of the leaves, each
  leaf as its read found it.\<close>

lemma range_query_eq:
  assumes g: "gather_leaves from to (search_range_from_cache from to c) = Inr leaves"
    and pg: "\<forall>i < length leaves. m i (leaves ! i) = Some (LeafP (pg i))"
  shows "range_query m from to c = Inr (concat (map (\<lambda>i. leaf_in_range from to (pg i)) [0..<length leaves]))"
proof (cases "search_range_from_cache from to c = []")
  case True
  then show ?thesis using g by (simp add: range_query_def)
next
  case False
  let ?s0 = "\<lparr>rq_buffer = Map.empty, rq_posted = [], cq_cnt = 0, value_buffer = []\<rparr>"
  let ?f = "\<lambda>i. leaves ! i" and ?n = "length leaves"
  have en: "enumerate 0 leaves = map (\<lambda>j. (j, ?f j)) [0..<?n]"
    by (rule nth_equalityI) (simp_all add: nth_enumerate_eq)
  have "\<exists>st' b'. fetch_leaves m from to (enumerate 0 leaves) ?s0 = Inr st'
      \<and> fetched from to ?f pg b' (0 + length (enumerate 0 leaves)) st'"
    by (rule fetch_leaves_spec [where b = 0]) (use pg en in \<open>simp_all add: fetched_def\<close>)
  then obtain st b where st: "fetch_leaves m from to (enumerate 0 leaves) ?s0 = Inr st"
    "fetched from to ?f pg b ?n st" by auto
  have n: "nat (cq_cnt st) = ?n - kParaFetch * b"
    using st(2) unfolding fetched_def by (metis nat_int)
  obtain st1 st2 where p: "poll_reads m (nat (cq_cnt st)) st = Inr st1"
    "collect_slots from to [0..<nat (cq_cnt st)] st1 = Inr st2"
    "value_buffer st2 = concat (map (\<lambda>j. leaf_in_range from to (pg j)) [0..<?n])"
    by (rule batch_done [where f = ?f and pg = pg and m = m and n = "nat (cq_cnt st)", OF st(2) pg n]) auto
  have "cq_cnt st = 0 \<Longrightarrow> value_buffer st = concat (map (\<lambda>j. leaf_in_range from to (pg j)) [0..<?n])"
    using st(2) by (auto simp: fetched_def)
  then show ?thesis using g st(1) p False by (simp add: range_query_def)
qed

end
