(* ===== verification/Messages.thy ===== *)
theory Messages
  imports Verbs Directory
begin

text \<open>
  The message rings between application threads and directories
  (\<^verbatim>\<open>src/AbstractMessageConnection.cpp\<close>, \<^verbatim>\<open>src/RawMessageConnection.cpp\<close>): a pool of
  \<open>messageNR\<close> places for receiving, given to the device in four batches, and one for sending.
  The device is a parameter, as in theory \<open>Verbs\<close>: \<open>post_recv\<close> and \<open>post\<close> for the two
  queues, \<open>poll\<close> for the completions of sends.
\<close>

unbundle bit_operations_syntax

definition MESSAGE_SIZE :: nat where "MESSAGE_SIZE = 96"
definition APP_MESSAGE_NR :: nat where "APP_MESSAGE_NR = 96"
definition DIR_MESSAGE_NR :: nat where "DIR_MESSAGE_NR = 128"
definition kBatchCount :: nat where "kBatchCount = 4"
definition SIGNAL_BATCH :: u64 where "SIGNAL_BATCH = 31"
definition sizeof_RawMessage :: nat where "sizeof_RawMessage = 1 + 2 + 2 + 8 + 4"

section \<open>The connection\<close>

record message_conn =
  messageNR :: nat
  curMessage :: nat
  curSend :: nat
  sendCounter :: u64
  sendPadding :: nat
  recvPadding :: nat
  messagePool :: u64
  messageLkey :: u32
  sendPool :: u64
  subNR :: nat
  recvs :: "recv_wr list list"

text \<open>The pool and its key come from the allocation and registration of memory. The field for
  the number of places has 16 bits, the size of the pool is computed in 32.\<close>

definition new_AbstractMessageConnection ::
  "nat \<Rightarrow> nat \<Rightarrow> nat \<Rightarrow> u64 \<Rightarrow> u32 \<Rightarrow> err + message_conn" where
  "new_AbstractMessageConnection sp rp nr pool lkey =
     rbind (assert_that (nr mod kBatchCount = 0) ''messageNR % kBatchCount == 0'') (\<lambda>_.
     Inr \<lparr>messageNR = nr mod 2 ^ 16, curMessage = 0, curSend = 0, sendCounter = 0, sendPadding = sp, recvPadding = rp,
          messagePool = pool, messageLkey = lkey, sendPool = pool + ucast (of_nat (nr * MESSAGE_SIZE) :: u32),
          subNR = 0, recvs = []\<rparr>)"

definition new_RawMessageConnection :: "nat \<Rightarrow> u64 \<Rightarrow> u32 \<Rightarrow> err + message_conn" where
  "new_RawMessageConnection nr pool lkey = new_AbstractMessageConnection 0 40 nr pool lkey"

type_synonym 'q recv_poster = "recv_wr list \<Rightarrow> 'q \<Rightarrow> int \<times> 'q"

definition recv_slot :: "message_conn \<Rightarrow> nat \<Rightarrow> recv_wr" where
  "recv_slot mc n = \<lparr>rwr_id = 0, rwr_sge = \<lparr>sg_addr = messagePool mc + of_nat (n * MESSAGE_SIZE),
     sg_length = of_nat MESSAGE_SIZE, sg_lkey = messageLkey mc\<rparr>\<rparr>"

fun post_batches :: "'q recv_poster \<Rightarrow> recv_wr list list \<Rightarrow> 'q \<Rightarrow> 'q" where
  "post_batches post_recv [] q = q"
| "post_batches post_recv (b # bs) q = post_batches post_recv bs (snd (post_recv b q))"

definition initRecv :: "'q recv_poster \<Rightarrow> message_conn \<Rightarrow> 'q \<Rightarrow> message_conn \<times> 'q" where
  "initRecv post_recv mc q =
     (let sub = messageNR mc div kBatchCount;
          rs = map (\<lambda>k. map (\<lambda>i. recv_slot mc (k * sub + i)) [0..<sub]) [0..<kBatchCount]
      in (mc\<lparr>subNR := sub, recvs := rs\<rparr>, post_batches post_recv rs q))"

text \<open>The address of the oldest message; the batch whose last message this is goes back to the
  device at once.\<close>

definition getMessage :: "'q recv_poster \<Rightarrow> message_conn \<Rightarrow> 'q \<Rightarrow> err + u64 \<times> message_conn \<times> 'q" where
  "getMessage post_recv mc q =
     (let m = messagePool mc + of_nat (curMessage mc * MESSAGE_SIZE) + of_nat (recvPadding mc);
          mc1 = mc\<lparr>curMessage := (curMessage mc + 1) mod messageNR mc\<rparr>
      in rbind (assert_that (subNR mc \<noteq> 0) ''division by zero'') (\<lambda>_.
         if curMessage mc1 mod subNR mc = 0 then
           let b = nat ((int (curMessage mc1 div subNR mc) - 1 + int kBatchCount) mod int kBatchCount)
           in Inr (m, mc1, snd (post_recv (recvs mc1 ! b) q))
         else Inr (m, mc1, q)))"

definition getSendPool :: "message_conn \<Rightarrow> u64 \<times> message_conn" where
  "getSendPool mc =
     (sendPool mc + of_nat (curSend mc * MESSAGE_SIZE) + of_nat (sendPadding mc),
      mc\<lparr>curSend := (curSend mc + 1) mod messageNR mc\<rparr>)"

definition sendRawMessage ::
  "'q poster \<Rightarrow> 'q poller \<Rightarrow> nat \<Rightarrow> u64 \<Rightarrow> u32 \<Rightarrow> nat \<Rightarrow> message_conn \<Rightarrow> 'q \<Rightarrow> err + message_conn \<times> 'q" where
  "sendRawMessage post poll fuel m remoteQPN ah mc q =
     rbind (if sendCounter mc AND SIGNAL_BATCH = 0 \<and> sendCounter mc > 0
            then rbind (pollWithCQ poll fuel 1 q) (\<lambda>(_, _, q'). Inr q') else Inr q) (\<lambda>q1.
     Inr (mc\<lparr>sendCounter := sendCounter mc + 1\<rparr>,
          snd (rdmaSend_ud post (m - of_nat (sendPadding mc)) (of_nat (sizeof_RawMessage + sendPadding mc))
            (messageLkey mc) ah remoteQPN (sendCounter mc AND SIGNAL_BATCH = 0) q1)))"

section \<open>Who sends to whom\<close>

text \<open>What a node knows about the others (\<^verbatim>\<open>include/Connection.h\<close>), as far as messages need it.\<close>

record message_routes =
  dirMessageQPN :: "nat \<Rightarrow> nat \<Rightarrow> u32"
  appToDirAh :: "nat \<Rightarrow> nat \<Rightarrow> nat \<Rightarrow> nat"
  appMessageQPN :: "nat \<Rightarrow> nat \<Rightarrow> u32"
  dirToAppAh :: "nat \<Rightarrow> nat \<Rightarrow> nat \<Rightarrow> nat"

definition sendMessage2Dir ::
  "'q poster \<Rightarrow> 'q poller \<Rightarrow> nat \<Rightarrow> message_routes \<Rightarrow> nat \<Rightarrow> u64 \<Rightarrow> nat \<Rightarrow> nat \<Rightarrow> message_conn \<Rightarrow> 'q
    \<Rightarrow> err + message_conn \<times> 'q" where
  "sendMessage2Dir post poll fuel ri threadID m node_id dir_id mc q =
     sendRawMessage post poll fuel m (dirMessageQPN ri node_id dir_id) (appToDirAh ri node_id threadID dir_id) mc q"

definition sendMessage2App ::
  "'q poster \<Rightarrow> 'q poller \<Rightarrow> nat \<Rightarrow> message_routes \<Rightarrow> nat \<Rightarrow> u64 \<Rightarrow> nat \<Rightarrow> nat \<Rightarrow> message_conn \<Rightarrow> 'q
    \<Rightarrow> err + message_conn \<times> 'q" where
  "sendMessage2App post poll fuel ri dirID m node_id th_id mc q =
     sendRawMessage post poll fuel m (appMessageQPN ri node_id th_id) (dirToAppAh ri node_id dirID th_id) mc q"

text \<open>\<^verbatim>\<open>DSM::rpc_call_dir\<close> writes the message, with its sender, into a place of the send pool
  (\<open>pool\<close> is what the places hold) and sends it; \<^verbatim>\<open>DSM::rpc_wait\<close> waits for one arrival.\<close>

definition rpc_send ::
  "'q poster \<Rightarrow> 'q poller \<Rightarrow> nat \<Rightarrow> message_routes \<Rightarrow> nat \<Rightarrow> nat \<Rightarrow> RawMessage \<Rightarrow> nat \<Rightarrow> nat
    \<Rightarrow> (u64 \<Rightarrow> RawMessage) \<Rightarrow> message_conn \<Rightarrow> 'q \<Rightarrow> err + (u64 \<Rightarrow> RawMessage) \<times> message_conn \<times> 'q" where
  "rpc_send post poll fuel ri myNodeID threadID msg node_id dir_id pool mc q =
     (case getSendPool mc of (buffer, mc1) \<Rightarrow>
        rbind (sendMessage2Dir post poll fuel ri threadID buffer node_id dir_id mc1 q) (\<lambda>(mc2, q2).
          Inr (pool(buffer := msg\<lparr>rm_node_id := of_nat myNodeID, rm_app_id := of_nat threadID\<rparr>), mc2, q2)))"

definition rpc_wait ::
  "'q recv_poster \<Rightarrow> 'q poller \<Rightarrow> nat \<Rightarrow> message_conn \<Rightarrow> 'q \<Rightarrow> err + u64 \<times> message_conn \<times> 'q" where
  "rpc_wait post_recv poll fuel mc q =
     rbind (pollWithCQ poll fuel 1 q) (\<lambda>(_, _, q1). getMessage post_recv mc q1)"

text \<open>The answer of a directory to \<^verbatim>\<open>MALLOC\<close>: only the address is written, the other fields of
  the place stay as they were.\<close>

definition answer_malloc ::
  "'q poster \<Rightarrow> 'q poller \<Rightarrow> nat \<Rightarrow> message_routes \<Rightarrow> nat \<Rightarrow> GlobalAddress \<times> u16 \<times> u16
    \<Rightarrow> (u64 \<Rightarrow> RawMessage) \<Rightarrow> message_conn \<Rightarrow> 'q \<Rightarrow> err + (u64 \<Rightarrow> RawMessage) \<times> message_conn \<times> 'q" where
  "answer_malloc post poll fuel ri dirID ans pool mc q =
     (case ans of (a, node, app) \<Rightarrow>
      case getSendPool mc of (s, mc1) \<Rightarrow>
        rbind (sendMessage2App post poll fuel ri dirID s (unat node) (unat app) mc1 q) (\<lambda>(mc2, q2).
          Inr (pool(s := (pool s)\<lparr>rm_addr := a\<rparr>), mc2, q2)))"

text \<open>One turn of \<^verbatim>\<open>Directory::dirThread\<close> for a message: it is read from its place, processed,
  and answered if there is an answer.\<close>

definition dir_turn ::
  "'q recv_poster \<Rightarrow> 'q poster \<Rightarrow> 'q poller \<Rightarrow> nat \<Rightarrow> message_routes \<Rightarrow> nat \<Rightarrow> (u64 \<Rightarrow> RawMessage)
    \<Rightarrow> (u64 \<Rightarrow> RawMessage) \<Rightarrow> node_state \<Rightarrow> message_conn \<Rightarrow> 'q
    \<Rightarrow> err + (u64 \<Rightarrow> RawMessage) \<times> node_state \<times> message_conn \<times> 'q" where
  "dir_turn post_recv post poll fuel ri dirID received pool s mc q =
     rbind (rpc_wait post_recv poll fuel mc q) (\<lambda>(m, mc1, q1).
     rbind (process_message (received m) s) (\<lambda>(ans, s1).
     case ans of
       None \<Rightarrow> Inr (pool, s1, mc1, q1)
     | Some a \<Rightarrow> rbind (answer_malloc post poll fuel ri dirID a pool mc1 q1) (\<lambda>(pool1, mc2, q2).
         Inr (pool1, s1, mc2, q2))))"

end
