(* ===== verification/MessageClaims.thy ===== *)
theory MessageClaims
  imports Messages
begin

text \<open>
  The two rings as properties: messages are read where they arrive, in order, and the device
  never has a place that holds an unread message; a place of the send pool is used again only
  after the send that last used it has completed.
\<close>

unbundle bit_operations_syntax

section \<open>Receiving\<close>

text \<open>\<open>posted q\<close> are all places given to the device so far, in order. Arrivals take them in
  this order, so that message \<open>n\<close> lands in \<open>posted q ! n\<close>.\<close>

definition recv_device :: "'q recv_poster \<Rightarrow> ('q \<Rightarrow> u64 list) \<Rightarrow> bool" where
  "recv_device post_recv posted \<longleftrightarrow>
     (\<forall>wrs q. posted (snd (post_recv wrs q)) = posted q @ map (\<lambda>r. sg_addr (rwr_sge r)) wrs)"

fun get_messages ::
  "'q recv_poster \<Rightarrow> nat \<Rightarrow> message_conn \<Rightarrow> 'q \<Rightarrow> err + u64 list \<times> message_conn \<times> 'q" where
  "get_messages post_recv 0 mc q = Inr ([], mc, q)"
| "get_messages post_recv (Suc k) mc q =
     rbind (get_messages post_recv k mc q) (\<lambda>(ms, mc1, q1).
     rbind (getMessage post_recv mc1 q1) (\<lambda>(m, mc2, q2). Inr (ms @ [m], mc2, q2)))"

definition place :: "message_conn \<Rightarrow> nat \<Rightarrow> u64" where
  "place mc n = messagePool mc + of_nat ((n mod messageNR mc) * MESSAGE_SIZE)"

lemma post_batches_posted:
  assumes "recv_device post_recv posted"
  shows "posted (post_batches post_recv bs q) = posted q @ map (\<lambda>r. sg_addr (rwr_sge r)) (concat bs)"
  using assms by (induction post_recv bs q rule: post_batches.induct) (simp_all add: recv_device_def)

lemma concat_batches: "concat (map (\<lambda>k. map (\<lambda>i. f (k * s + i)) [0..<s]) [0..<n]) = map f [0..<n * s]"
proof (induction n)
  case (Suc n)
  have "[0..<Suc n * s] = [0..<n * s] @ [n * s..<n * s + s]" by (metis add.commute le0 mult_Suc upt_add_eq_append)
  moreover have "map (\<lambda>i. f (n * s + i)) [0..<s] = map f [n * s..<n * s + s]"
    by (rule map_upt_shift)
  ultimately show ?case using Suc by simp
qed simp

text \<open>The connection after \<open>k\<close> messages were read.\<close>

definition recv_inv :: "('q \<Rightarrow> u64 list) \<Rightarrow> nat \<Rightarrow> message_conn \<Rightarrow> nat \<Rightarrow> message_conn \<Rightarrow> 'q \<Rightarrow> bool" where
  "recv_inv posted sub mc0 k mc q \<longleftrightarrow> 0 < sub \<and> messageNR mc0 = 4 * sub \<and> messageNR mc = messageNR mc0
     \<and> messagePool mc = messagePool mc0 \<and> recvPadding mc = recvPadding mc0 \<and> subNR mc = sub \<and> curMessage mc = k mod messageNR mc0
     \<and> recvs mc = map (\<lambda>b. map (\<lambda>i. recv_slot mc (b * sub + i)) [0..<sub]) [0..<4]
     \<and> posted q = map (place mc0) [0..<4 * sub + sub * (k div sub)]"

lemma place_simp: "n < messageNR mc \<Longrightarrow> place mc n = messagePool mc + of_nat (n * MESSAGE_SIZE)"
  by (simp add: place_def)

lemma initRecv_inv:
  assumes dev: "recv_device post_recv posted" and nr: "messageNR mc mod 4 = 0" "0 < messageNR mc"
    and fresh: "curMessage mc = 0" "posted q = []" and i: "initRecv post_recv mc q = (mc', q')"
  shows "recv_inv posted (messageNR mc div 4) mc 0 mc' q'"
proof -
  let ?s = "messageNR mc div 4"
  have n4: "messageNR mc = 4 * ?s" "0 < ?s" using nr by auto
  have mc': "mc' = mc\<lparr>subNR := ?s, recvs := map (\<lambda>k. map (\<lambda>i. recv_slot mc (k * ?s + i)) [0..<?s]) [0..<4]\<rparr>"
    and q': "q' = post_batches post_recv (map (\<lambda>k. map (\<lambda>i. recv_slot mc (k * ?s + i)) [0..<?s]) [0..<4]) q"
    using i by (simp_all add: initRecv_def kBatchCount_def Let_def)
  have "posted q' = map (\<lambda>r. sg_addr (rwr_sge r)) (map (recv_slot mc) [0..<4 * ?s])"
    unfolding q' post_batches_posted [OF dev] fresh(2) concat_batches by simp
  also have "\<dots> = map (place mc) [0..<4 * ?s]"
    using n4 by (simp add: recv_slot_def place_def)
  finally have p: "posted q' = map (place mc) [0..<4 * ?s]" .
  show ?thesis unfolding recv_inv_def
    using n4 fresh(1) p by (simp add: mc' recv_slot_def)
qed

lemma batch_number:
  assumes "0 < s" "Suc k mod (4 * s) mod s = 0"
  shows "nat ((int (Suc k mod (4 * s) div s) - 1 + 4) mod 4) = (k div s) mod 4" "Suc k div s = Suc (k div s)"
proof -
  have "Suc k mod s = 0" using assms(2) by (simp add: mod_mult2_eq mult.commute)
  then obtain d where d: "Suc k = s * d" by (metis mod_0_imp_dvd dvdE)
  then obtain e where e: "d = Suc e" using assms(1) by (cases d) auto
  have "Suc k = s * e + s" using d e by simp
  then have "k = s * e + (s - 1)" using assms(1) by linarith
  then have k: "k div s = e" using assms(1) by (intro div_nat_eqI) simp_all
  have "Suc k mod (4 * s) div s = d mod 4"
    using assms(1) d by (metis div_mult_mod_eq mod_mult2_eq mult.commute nonzero_mult_div_cancel_left add.commute
      mod_mult_mult1 neq0_conv)
  then have "int (Suc k mod (4 * s) div s) = (int e + 1) mod 4" using e by (simp add: zmod_int add.commute)
  then have "(int (Suc k mod (4 * s) div s) - 1 + 4) mod 4 = int e mod 4"
    by (simp add: mod_simps)
  then show "nat ((int (Suc k mod (4 * s) div s) - 1 + 4) mod 4) = (k div s) mod 4"
    using k by (simp add: nat_mod_distrib)
  show "Suc k div s = Suc (k div s)" using d e k assms(1) by simp
qed

lemma place_ring: "place mc (n + messageNR mc) = place mc n"
  by (simp add: place_def)

lemma batch_posted:
  assumes "messageNR mc = 4 * s"
  shows "map (\<lambda>i. place mc (k mod 4 * s + i)) [0..<s] = map (place mc) [4 * s + s * k..<4 * s + s * k + s]"
proof -
  have "place mc (k mod 4 * s + i) = place mc (4 * s + s * k + i)" for i
  proof -
    have "s * (4 * (k div 4) + k mod 4) = 4 * s * (k div 4) + k mod 4 * s"
      by (simp only: distrib_left mult.commute mult.left_commute mult.assoc)
    then have "s * k = 4 * s * (k div 4) + k mod 4 * s" by (simp only: mult_div_mod_eq)
    then have "4 * s + s * k + i = (k mod 4 * s + i) + 4 * s * Suc (k div 4)" by simp
    then have "(4 * s + s * k + i) mod (4 * s) = (k mod 4 * s + i) mod (4 * s)" by (simp only: mod_mult_self2)
    then show ?thesis using assms by (simp add: place_def)
  qed
  then have "map (\<lambda>i. place mc (k mod 4 * s + i)) [0..<s] = map (\<lambda>i. place mc (4 * s + s * k + i)) [0..<s]"
    by simp
  also have "\<dots> = map (place mc) [4 * s + s * k..<4 * s + s * k + s]" by (rule map_upt_shift)
  finally show ?thesis .
qed

lemma getMessage_inv:
  assumes dev: "recv_device post_recv posted" and inv: "recv_inv posted s mc0 k mc q"
  shows "\<exists>mc' q'. getMessage post_recv mc q = Inr (place mc0 k + of_nat (recvPadding mc0), mc', q')
    \<and> recv_inv posted s mc0 (Suc k) mc' q'"
proof -
  note i = inv [unfolded recv_inv_def]
  let ?mc = "mc\<lparr>curMessage := Suc k mod messageNR mc0\<rparr>"
  have cur: "(curMessage mc + 1) mod messageNR mc = Suc k mod messageNR mc0" using i by (simp add: mod_simps)
  have m: "messagePool mc + of_nat (curMessage mc * MESSAGE_SIZE) = place mc0 k" using i by (simp add: place_def)
  show ?thesis
  proof (cases "Suc k mod messageNR mc0 mod s = 0")
    case False
    have "Suc k mod s \<noteq> 0" using False i by (simp add: mod_mult2_eq mult.commute)
    then have "Suc k div s = k div s" by (simp add: div_Suc)
    then have "recv_inv posted s mc0 (Suc k) ?mc q" using i by (simp add: recv_inv_def recv_slot_def)
    moreover have "getMessage post_recv mc q = Inr (place mc0 k + of_nat (recvPadding mc0), ?mc, q)"
      using False i unfolding getMessage_def cur m by (simp add: Let_def)
    ultimately show ?thesis by blast
  next
    case True
    let ?b = "k div s mod 4"
    have pos: "0 < s" and nr: "messageNR mc0 = 4 * s" using i by simp_all
    note bn = batch_number [OF pos True [unfolded nr]]
    let ?q = "snd (post_recv (recvs mc ! ?b) q)"
    have g: "getMessage post_recv mc q = Inr (place mc0 k + of_nat (recvPadding mc0), ?mc, ?q)"
      using True i bn(1) unfolding getMessage_def cur m by (simp add: Let_def kBatchCount_def nr)
    have "map (\<lambda>r. sg_addr (rwr_sge r)) (recvs mc ! ?b) = map (\<lambda>i. place mc0 (?b * s + i)) [0..<s]"
    proof -
      have b: "?b < 4" by simp
      have "?b * s + i < messageNR mc0" if "i < s" for i
      proof -
        have "?b * s + i < ?b * s + s" using that by simp
        also have "\<dots> = Suc ?b * s" by simp
        also have "\<dots> \<le> 4 * s" by (rule mult_le_mono1) (use b in simp)
        finally show ?thesis using nr by simp
      qed
      then show ?thesis using i b by (simp add: recv_slot_def place_simp)
    qed
    then have "posted ?q = posted q @ map (place mc0) [4 * s + s * (k div s)..<4 * s + s * (k div s) + s]"
      using dev batch_posted [OF nr, of "k div s"] by (simp add: recv_device_def)
    also have "\<dots> = map (place mc0) [0..<4 * s + s * (Suc k div s)]"
      using i bn(2) upt_add_eq_append [of 0 "4 * s + s * (k div s)" s] by (simp add: add.assoc)
    finally have "recv_inv posted s mc0 (Suc k) ?mc ?q" using i by (simp add: recv_inv_def recv_slot_def)
    with g show ?thesis by blast
  qed
qed

lemma get_messages_inv:
  assumes dev: "recv_device post_recv posted" and inv: "recv_inv posted s mc0 0 mc q"
  shows "\<exists>mc' q'. get_messages post_recv k mc q
      = Inr (map (\<lambda>n. place mc0 n + of_nat (recvPadding mc0)) [0..<k], mc', q') \<and> recv_inv posted s mc0 k mc' q'"
proof (induction k)
  case (Suc k)
  then obtain mc1 q1 where "get_messages post_recv k mc q
      = Inr (map (\<lambda>n. place mc0 n + of_nat (recvPadding mc0)) [0..<k], mc1, q1)" "recv_inv posted s mc0 k mc1 q1"
    by blast
  moreover obtain mc2 q2 where "getMessage post_recv mc1 q1 = Inr (place mc0 k + of_nat (recvPadding mc0), mc2, q2)"
    "recv_inv posted s mc0 (Suc k) mc2 q2" using getMessage_inv [OF dev calculation(2)] by blast
  ultimately show ?case by simp
qed (use inv in simp)

lemma place_inj:
  assumes nr: "messageNR mc \<le> 2 ^ 16" and ij: "i < j" "j < i + messageNR mc"
  shows "place mc i \<noteq> place mc j"
proof
  assume "place mc i = place mc j"
  then have "unat (of_nat (i mod messageNR mc * MESSAGE_SIZE) :: u64) = unat (of_nat (j mod messageNR mc * MESSAGE_SIZE) :: u64)"
    by (simp add: place_def)
  moreover have "unat (of_nat (n mod messageNR mc * MESSAGE_SIZE) :: u64) = n mod messageNR mc * MESSAGE_SIZE" for n
  proof -
    have "n mod messageNR mc < messageNR mc" using ij by (intro mod_less_divisor) simp
    then have "n mod messageNR mc * MESSAGE_SIZE < 2 ^ 64" using nr by (simp add: MESSAGE_SIZE_def)
    then show ?thesis by (simp only: unat_of_nat) simp
  qed
  ultimately have "i mod messageNR mc = j mod messageNR mc" by (simp add: MESSAGE_SIZE_def)
  then have "messageNR mc dvd j - i" using ij(1) by (metis mod_eq_dvd_iff_nat less_imp_le)
  with ij show False by (auto dest: dvd_imp_le)
qed



section \<open>Sending\<close>

text \<open>What the device knows of sends: \<open>sent q\<close> were posted; \<open>cq q\<close> are the signaled ones whose
  completion was not taken yet, the oldest first; the first \<open>fin q\<close> of all are known to be complete,
  so their buffers may change. Sends complete in order: a completion taken tells that all
  earlier sends are complete. While a signaled send is outstanding, fewer than \<open>fuel\<close> polls in a row find
  nothing.\<close>

record send_ghost =
  sent :: nat
  fin :: nat
  cq :: "nat list"

definition send_device :: "'q poster \<Rightarrow> 'q poller \<Rightarrow> nat \<Rightarrow> ('q \<Rightarrow> send_ghost) \<Rightarrow> ('q \<Rightarrow> nat) \<Rightarrow> bool" where
  "send_device post poll fuel ghost delay \<longleftrightarrow>
     (\<forall>wr q. ghost (snd (post [wr] q)) = (ghost q)\<lparr>sent := Suc (sent (ghost q)),
        cq := cq (ghost q) @ (if wr_signaled wr then [sent (ghost q)] else [])\<rparr>)
     \<and> (\<forall>q. delay q < fuel)
     \<and> (\<forall>q. cq (ghost q) \<noteq> [] \<longrightarrow> (case poll q of (c, wc, q') \<Rightarrow>
          c = 0 \<and> ghost q' = ghost q \<and> delay q' < delay q
          \<or> c = 1 \<and> ghost q' = (ghost q)\<lparr>fin := Suc (hd (cq (ghost q))), cq := tl (cq (ghost q))\<rparr>))"

text \<open>A client of the ring takes a place, writes its message there and sends it. It gives the
  place and what the device had completed when the place was written.\<close>

fun send_messages ::
  "'q poster \<Rightarrow> 'q poller \<Rightarrow> nat \<Rightarrow> (nat \<Rightarrow> u32 \<times> nat) \<Rightarrow> nat \<Rightarrow> message_conn \<Rightarrow> 'q
    \<Rightarrow> err + (u64 \<times> 'q) list \<times> message_conn \<times> 'q" where
  "send_messages post poll fuel dest 0 mc q = Inr ([], mc, q)"
| "send_messages post poll fuel dest (Suc k) mc q =
     rbind (send_messages post poll fuel dest k mc q) (\<lambda>(ms, mc1, q1).
     case getSendPool mc1 of (m, mc2) \<Rightarrow>
     rbind (sendRawMessage post poll fuel m (fst (dest k)) (snd (dest k)) mc2 q1) (\<lambda>(mc3, q2).
       Inr (ms @ [(m, q1)], mc3, q2)))"

lemma poll_send:
  assumes dev: "send_device post poll fuel ghost delay"
  shows "delay q < n \<Longrightarrow> cq (ghost q) = x # xs \<Longrightarrow>
    \<exists>wc q'. poll_loop poll n 1 0 q = Inr (1, wc, q') \<and> ghost q' = (ghost q)\<lparr>fin := Suc x, cq := xs\<rparr>"
proof (induction n arbitrary: q)
  case (Suc n)
  obtain c wc q' where p: "poll q = (c, wc, q')" by (metis prod_cases3)
  have "cq (ghost q) \<noteq> [] \<longrightarrow> (case poll q of (c, wc, q') \<Rightarrow> c = 0 \<and> ghost q' = ghost q \<and> delay q' < delay q
      \<or> c = 1 \<and> ghost q' = (ghost q)\<lparr>fin := Suc (hd (cq (ghost q))), cq := tl (cq (ghost q))\<rparr>)"
    using dev unfolding send_device_def by (elim conjE) (erule spec)
  then have "c = 0 \<and> ghost q' = ghost q \<and> delay q' < delay q
      \<or> c = 1 \<and> ghost q' = (ghost q)\<lparr>fin := Suc x, cq := xs\<rparr>" using p Suc.prems(2) by simp
  then show ?case
  proof (elim disjE conjE)
    assume "c = 0" "ghost q' = ghost q" "delay q' < delay q"
    with Suc.IH [of q'] Suc.prems p show ?thesis by simp
  qed (use p in simp)
qed simp

text \<open>After \<open>k\<close> sends: every 32nd was signaled and all but the last signaled ones
  were waited for.\<close>

definition last_signaled :: "nat \<Rightarrow> nat" where "last_signaled k = 32 * ((k - 1) div 32)"

definition send_inv :: "message_conn \<Rightarrow> nat \<Rightarrow> message_conn \<Rightarrow> send_ghost \<Rightarrow> bool" where
  "send_inv mc0 k mc g \<longleftrightarrow> messageNR mc = messageNR mc0 \<and> sendPool mc = sendPool mc0
     \<and> sendPadding mc = 0 \<and> curSend mc = k mod messageNR mc0 \<and> sendCounter mc = of_nat k
     \<and> sent g = k \<and> (if k = 0 then cq g = [] \<and> fin g = 0
         else cq g = [last_signaled k] \<and> fin g = (if k \<le> 32 then 0 else last_signaled k - 31))"

lemma signal_mask: "(of_nat k AND SIGNAL_BATCH :: u64) = 0 \<longleftrightarrow> k mod 32 = 0"
proof -
  have "SIGNAL_BATCH = mask 5" by (simp add: SIGNAL_BATCH_def mask_eq_exp_minus_1)
  then have "(of_nat k AND SIGNAL_BATCH :: u64) = take_bit 5 (of_nat k)" by (simp add: take_bit_eq_mask)
  also have "\<dots> = of_nat (k mod 32)" by (subst take_bit_of_nat) (simp add: take_bit_eq_mod)
  finally have e: "(of_nat k AND SIGNAL_BATCH :: u64) = of_nat (k mod 32)" .
  have "unat (of_nat (k mod 32) :: u64) = k mod 32" by (simp add: unat_of_nat less_trans [OF mod_less_divisor])
  then show ?thesis unfolding e by (metis unat_eq_zero)
qed

lemma last_signaled_Suc:
  "k mod 32 \<noteq> 0 \<Longrightarrow> last_signaled (Suc k) = last_signaled k"
  "k mod 32 = 0 \<Longrightarrow> last_signaled (Suc k) = k"
  "k mod 32 = 0 \<Longrightarrow> 0 < k \<Longrightarrow> last_signaled k = k - 32"
proof -
  show "k mod 32 = 0 \<Longrightarrow> last_signaled (Suc k) = k"
    using mult_div_mod_eq [of 32 k] by (simp add: last_signaled_def)
  show "k mod 32 \<noteq> 0 \<Longrightarrow> last_signaled (Suc k) = last_signaled k"
    by (cases k) (simp_all add: last_signaled_def div_Suc)
  show "last_signaled k = k - 32" if "k mod 32 = 0" "0 < k"
  proof -
    obtain j where j: "k = Suc j" using \<open>0 < k\<close> by (cases k) auto
    have "Suc j div 32 = Suc (j div 32)" using that(1) j by (simp add: div_Suc)
    then show ?thesis using mult_div_mod_eq [of 32 k] that(1) j by (simp add: last_signaled_def)
  qed
qed

lemma last_signaled_bounds: "k \<le> last_signaled k + 32" "0 < k \<Longrightarrow> last_signaled k < k"
  using mult_div_mod_eq [of 32 "k - 1"] mod_less_divisor [of 32 "k - 1"]
  unfolding last_signaled_def by linarith+

lemma send_step:
  assumes dev: "send_device post poll fuel ghost delay" and inv: "send_inv mc0 k mc (ghost q)" and k: "k < 2 ^ 64"
  shows "\<exists>mc1 mc2 q'. getSendPool mc = (sendPool mc0 + of_nat (k mod messageNR mc0 * MESSAGE_SIZE), mc1)
    \<and> sendRawMessage post poll fuel m qpn ah mc1 q = Inr (mc2, q') \<and> send_inv mc0 (Suc k) mc2 (ghost q')"
proof -
  note i = inv [unfolded send_inv_def]
  let ?mc1 = "mc\<lparr>curSend := (curSend mc + 1) mod messageNR mc\<rparr>"
  let ?mc2 = "?mc1\<lparr>sendCounter := sendCounter ?mc1 + 1\<rparr>"
  have g: "getSendPool mc = (sendPool mc0 + of_nat (k mod messageNR mc0 * MESSAGE_SIZE), ?mc1)"
    using i by (simp add: getSendPool_def)
  have sig: "sendCounter ?mc1 AND SIGNAL_BATCH = 0 \<longleftrightarrow> k mod 32 = 0" using i signal_mask [of k] by simp
  have pos: "sendCounter ?mc1 > 0 \<longleftrightarrow> 0 < k"
  proof -
    have "unat (of_nat k :: u64) = k" using k by (simp add: unat_of_nat)
    then have "(of_nat k :: u64) = 0 \<longleftrightarrow> k = 0" by (simp only: unat_eq_zero [symmetric])
    then show ?thesis using i by (simp add: word_gt_0)
  qed
  have post: "ghost (snd (rdmaSend_ud post a b c d e sg q)) = (ghost q)\<lparr>sent := Suc (sent (ghost q)),
      cq := cq (ghost q) @ (if sg then [sent (ghost q)] else [])\<rparr>" for a b c d e sg q
    using dev by (simp add: send_device_def rdmaSend_ud_def post_send_def case_prod_unfold)
  show ?thesis
  proof (cases "k mod 32 = 0 \<and> 0 < k")
    case True
    have "cq (ghost q) = [last_signaled k]" using i True by simp
    moreover have "delay q < fuel" using dev by (simp add: send_device_def)
    ultimately obtain wc q1 where w: "poll_loop poll fuel 1 0 q = Inr (1, wc, q1)"
      and g1: "ghost q1 = (ghost q)\<lparr>fin := Suc (last_signaled k), cq := []\<rparr>"
      using poll_send [OF dev] by blast
    let ?q2 = "snd (rdmaSend_ud post (m - of_nat (sendPadding ?mc1)) (of_nat (sizeof_RawMessage + sendPadding ?mc1))
      (messageLkey ?mc1) ah qpn True q1)"
    have "sendRawMessage post poll fuel m qpn ah ?mc1 q = Inr (?mc2, ?q2)"
      unfolding sendRawMessage_def sig pos using True w by (simp add: pollWithCQ_def)
    moreover have "send_inv mc0 (Suc k) ?mc2 (ghost ?q2)"
      using i True g1 last_signaled_Suc(2,3) [of k] unfolding send_inv_def post
      by (auto simp: mod_simps)
    ultimately show ?thesis using g by blast
  next
    case False
    let ?q2 = "snd (rdmaSend_ud post (m - of_nat (sendPadding ?mc1)) (of_nat (sizeof_RawMessage + sendPadding ?mc1))
      (messageLkey ?mc1) ah qpn (k mod 32 = 0) q)"
    have "sendRawMessage post poll fuel m qpn ah ?mc1 q = Inr (?mc2, ?q2)"
      unfolding sendRawMessage_def sig pos by (simp only: False if_False rbind_simps)
    moreover have "send_inv mc0 (Suc k) ?mc2 (ghost ?q2)"
    proof (cases "k = 0")
      case True
      then show ?thesis using i unfolding send_inv_def post by (simp add: last_signaled_def)
    next
      case False
      then have "k mod 32 \<noteq> 0" "k \<noteq> 32" using \<open>\<not> (k mod 32 = 0 \<and> 0 < k)\<close> by auto
      with False show ?thesis using i last_signaled_Suc(1) [of k] unfolding send_inv_def post
        by (auto simp: mod_simps)
    qed
    ultimately show ?thesis using g by blast
  qed
qed

text \<open>(C26) Message rings, the sending side: in a ring of at least 64 places every one of fewer
  than \<open>2^64\<close> sends returns; message \<open>n\<close> goes to place \<open>n\<close> of the ring, and when it is
  written there the send that used the place before is known to be complete; at most 64 sends
  are outstanding, which the 128 places of the send queue hold.\<close>

theorem send_slot_reuse:
  assumes "send_device post poll fuel ghost delay" "new_RawMessageConnection nr pool lkey = Inr mc0"
    and "64 \<le> nr" "nr < 2 ^ 16" "k < 2 ^ 64" "ghost q0 = \<lparr>sent = 0, fin = 0, cq = []\<rparr>"
  shows "\<exists>ms mc q. send_messages post poll fuel dest k mc0 q0 = Inr (ms, mc, q) \<and> length ms = k
    \<and> (\<forall>n < k. fst (ms ! n) = sendPool mc0 + of_nat (n mod nr * MESSAGE_SIZE) \<and> n < fin (ghost (snd (ms ! n))) + nr)
    \<and> sent (ghost q) = k \<and> k \<le> fin (ghost q) + 64"
proof -
  have nr: "messageNR mc0 = nr" "curSend mc0 = 0" "sendCounter mc0 = 0" "sendPadding mc0 = 0"
    using assms(2,4) by (auto simp: new_RawMessageConnection_def new_AbstractMessageConnection_def
      require_def split: if_splits)
  have known: "n \<le> fin g + 64" if "send_inv mc0 n mc g" for n mc g
    using that last_signaled_bounds [of n] by (auto simp: send_inv_def split: if_splits)
  have "\<exists>ms mc q. send_messages post poll fuel dest k mc0 q0 = Inr (ms, mc, q) \<and> length ms = k
    \<and> (\<forall>n < k. fst (ms ! n) = sendPool mc0 + of_nat (n mod nr * MESSAGE_SIZE) \<and> n < fin (ghost (snd (ms ! n))) + nr)
    \<and> send_inv mc0 k mc (ghost q)"
    using assms(5)
  proof (induction k)
    case 0
    then show ?case using nr assms(6) by (simp add: send_inv_def)
  next
    case (Suc k)
    then obtain ms mc1 q1 where 1: "send_messages post poll fuel dest k mc0 q0 = Inr (ms, mc1, q1)" "length ms = k"
      "\<forall>n < k. fst (ms ! n) = sendPool mc0 + of_nat (n mod nr * MESSAGE_SIZE) \<and> n < fin (ghost (snd (ms ! n))) + nr"
      "send_inv mc0 k mc1 (ghost q1)" by auto
    have k: "k < 2 ^ 64" using Suc.prems by simp
    let ?a = "sendPool mc0 + of_nat (k mod nr * MESSAGE_SIZE)"
    obtain mc2 mc3 q2 where 2: "getSendPool mc1 = (?a, mc2)"
      "sendRawMessage post poll fuel ?a (fst (dest k)) (snd (dest k)) mc2 q1 = Inr (mc3, q2)"
      "send_inv mc0 (Suc k) mc3 (ghost q2)"
      using send_step [OF assms(1) 1(4) k] unfolding nr(1) by blast
    have free: "k < fin (ghost q1) + nr"
      using 1(4) last_signaled_bounds [of k] assms(3) by (auto simp: send_inv_def split: if_splits)
    show ?case
    proof (intro exI conjI)
      show "send_messages post poll fuel dest (Suc k) mc0 q0 = Inr (ms @ [(?a, q1)], mc3, q2)"
        using 1(1) 2(1,2) by simp
      show "\<forall>n < Suc k. fst ((ms @ [(?a, q1)]) ! n) = sendPool mc0 + of_nat (n mod nr * MESSAGE_SIZE)
        \<and> n < fin (ghost (snd ((ms @ [(?a, q1)]) ! n))) + nr"
        using 1(2,3) free by (auto simp: nth_append less_Suc_eq)
    qed (use 1(2) 2(3) in simp_all)
  qed
  then obtain ms mc q where "send_messages post poll fuel dest k mc0 q0 = Inr (ms, mc, q)" "length ms = k"
    "\<forall>n < k. fst (ms ! n) = sendPool mc0 + of_nat (n mod nr * MESSAGE_SIZE) \<and> n < fin (ghost (snd (ms ! n))) + nr"
    "send_inv mc0 k mc (ghost q)" by blast
  moreover from this(4) have "sent (ghost q) = k" "k \<le> fin (ghost q) + 64"
    by (simp add: send_inv_def, rule known)
  ultimately show ?thesis by blast
qed

theorem send_slot_reuse_witness:
  "\<exists>ms mc q. send_messages
      (\<lambda>wrs g. (0, fold (\<lambda>wr g. g\<lparr>sent := Suc (sent g), cq := cq g @ (if wr_signaled wr then [sent g] else [])\<rparr>) wrs g))
      (\<lambda>g. (1, \<lparr>wc_success = True, wc_wr_id = 0\<rparr>, g\<lparr>fin := Suc (hd (cq g)), cq := tl (cq g)\<rparr>))
      1 (\<lambda>_. (7, 3)) 1000 (projr (new_RawMessageConnection 96 8192 5)) \<lparr>sent = 0, fin = 0, cq = []\<rparr> = Inr (ms, mc, q)
    \<and> length ms = 1000 \<and> 500 < fin (snd (ms ! 500)) + 96 \<and> 1000 \<le> fin q + 64"
proof -
  let ?post = "\<lambda>wrs g. (0 :: int, fold (\<lambda>wr g. g\<lparr>sent := Suc (sent g), cq := cq g @ (if wr_signaled wr then [sent g] else [])\<rparr>) wrs g)"
  let ?poll = "\<lambda>g :: send_ghost. (1 :: int, \<lparr>wc_success = True, wc_wr_id = 0\<rparr>, g\<lparr>fin := Suc (hd (cq g)), cq := tl (cq g)\<rparr>)"
  let ?mc = "projr (new_RawMessageConnection 96 8192 5)"
  have dev: "send_device ?post ?poll 1 (\<lambda>g. g) (\<lambda>_. 0)" by (simp add: send_device_def)
  have new: "new_RawMessageConnection 96 8192 5 = Inr ?mc"
    by (simp add: new_RawMessageConnection_def new_AbstractMessageConnection_def kBatchCount_def require_def)
  obtain ms mc q where "send_messages ?post ?poll 1 (\<lambda>_. (7, 3)) 1000 ?mc \<lparr>sent = 0, fin = 0, cq = []\<rparr> = Inr (ms, mc, q)"
    "length ms = 1000" "\<forall>n < 1000. fst (ms ! n) = sendPool ?mc + of_nat (n mod 96 * MESSAGE_SIZE) \<and> n < fin (snd (ms ! n)) + 96"
    "1000 \<le> fin q + 64"
    using send_slot_reuse [OF dev new, of 1000 "\<lparr>sent = 0, fin = 0, cq = []\<rparr>" "\<lambda>_. (7, 3)"] by auto
  then show ?thesis by (intro exI [of _ ms] exI [of _ mc] exI [of _ q]) simp
qed

end
