(* ===== verification/RdmaBuf.thy ===== *)
theory RdmaBuf
  imports Prelude
begin

text \<open>
  The registered buffers of a client: \<^verbatim>\<open>include/RdmaBuffer.h\<close>, one for each coroutine, and
  \<^verbatim>\<open>DSM::registerThread\<close>, which gives every thread its number, its lock tag and its part of
  the registered memory. Addresses are numbers of bytes; what the code stores in local memory
  through a pointer is the function \<open>lmem\<close> of 64-bit words.
\<close>

unbundle bit_operations_syntax

section \<open>RdmaBuffer\<close>

definition kPageBufferCnt :: nat where "kPageBufferCnt = 8"
definition kSiblingBufferCnt :: nat where "kSiblingBufferCnt = 8"
definition kCasBufferCnt :: nat where "kCasBufferCnt = 8"

record RdmaBuffer =
  rb_buffer :: nat
  cas_buffer :: nat
  unlock_buffer :: nat
  zero_64bit :: nat
  page_buffer :: nat
  sibling_buffer :: nat
  entry_buffer :: nat
  page_buffer_cur :: nat
  sibling_buffer_cur :: nat
  cas_buffer_cur :: nat
  kPageSize :: nat

text \<open>A thread-local buffer before \<^verbatim>\<open>set_buffer\<close>: all zero.\<close>

definition zero_RdmaBuffer :: RdmaBuffer where
  "zero_RdmaBuffer = \<lparr>rb_buffer = 0, cas_buffer = 0, unlock_buffer = 0, zero_64bit = 0, page_buffer = 0,
     sibling_buffer = 0, entry_buffer = 0, page_buffer_cur = 0, sibling_buffer_cur = 0,
     cas_buffer_cur = 0, kPageSize = 0\<rparr>"

definition set_buffer ::
  "nat \<Rightarrow> RdmaBuffer \<Rightarrow> (nat \<Rightarrow> u64) \<Rightarrow> err + RdmaBuffer \<times> (nat \<Rightarrow> u64)" where
  "set_buffer b rb lmem =
     (let ps = max kLeafPageSize kInternalPageSize; unlock = b + 8 * kCasBufferCnt; zero = unlock + 8;
          page = zero + 8; sibling = page + ps * kPageBufferCnt
      in rbind (assert_that (zero + 8 - b < kPerCoroRdmaBuf) ''zero_64bit + 8 - buffer'') (\<lambda>_.
         Inr (rb\<lparr>kPageSize := ps, rb_buffer := b, cas_buffer := b, unlock_buffer := unlock,
                 zero_64bit := zero, page_buffer := page, sibling_buffer := sibling,
                 entry_buffer := sibling + ps * kSiblingBufferCnt\<rparr>, lmem(zero := 0))))"

definition new_RdmaBuffer :: "nat \<Rightarrow> (nat \<Rightarrow> u64) \<Rightarrow> err + RdmaBuffer \<times> (nat \<Rightarrow> u64)" where
  "new_RdmaBuffer b lmem = rbind (set_buffer b zero_RdmaBuffer lmem) (\<lambda>(rb, lmem').
     Inr (rb\<lparr>page_buffer_cur := 0, sibling_buffer_cur := 0, cas_buffer_cur := 0\<rparr>, lmem'))"

definition get_cas_buffer :: "RdmaBuffer \<Rightarrow> nat \<times> RdmaBuffer" where
  "get_cas_buffer rb = (let c = (cas_buffer_cur rb + 1) mod kCasBufferCnt
     in (cas_buffer rb + 8 * c, rb\<lparr>cas_buffer_cur := c\<rparr>))"

definition get_page_buffer :: "RdmaBuffer \<Rightarrow> nat \<times> RdmaBuffer" where
  "get_page_buffer rb = (let c = (page_buffer_cur rb + 1) mod kPageBufferCnt
     in (page_buffer rb + c * kPageSize rb, rb\<lparr>page_buffer_cur := c\<rparr>))"

definition get_sibling_buffer :: "RdmaBuffer \<Rightarrow> nat \<times> RdmaBuffer" where
  "get_sibling_buffer rb = (let c = (sibling_buffer_cur rb + 1) mod kSiblingBufferCnt
     in (sibling_buffer rb + c * kPageSize rb, rb\<lparr>sibling_buffer_cur := c\<rparr>))"

text \<open>The getters without a cursor: \<^verbatim>\<open>get_unlock_buffer\<close>, \<^verbatim>\<open>get_zero_64bit\<close>,
  \<^verbatim>\<open>get_range_buffer\<close>, \<^verbatim>\<open>get_entry_buffer\<close>.\<close>

definition get_unlock_buffer :: "RdmaBuffer \<Rightarrow> nat" where "get_unlock_buffer rb = unlock_buffer rb"
definition get_zero_64bit :: "RdmaBuffer \<Rightarrow> nat" where "get_zero_64bit rb = zero_64bit rb"
definition get_range_buffer :: "RdmaBuffer \<Rightarrow> nat" where "get_range_buffer rb = page_buffer rb"
definition get_entry_buffer :: "RdmaBuffer \<Rightarrow> nat" where "get_entry_buffer rb = entry_buffer rb"

section \<open>Threads\<close>

text \<open>What the threads of a process share: the counter, which connections are set up (\<open>inits\<close>
  counts the calls of \<^verbatim>\<open>initRecv\<close>), and the local memory.\<close>

record process =
  appID :: nat
  has_init :: "bool list"
  inits :: "nat list"
  lmem :: "nat \<Rightarrow> u64"

record thread_locals =
  thread_id :: int
  tl_tag :: u64
  iCon :: nat
  rdma_buffer :: nat
  rbuf :: "RdmaBuffer list"

definition new_process :: "(nat \<Rightarrow> u64) \<Rightarrow> process" where
  "new_process m = \<lparr>appID = 0, has_init = replicate MAX_APP_THREAD False,
     inits = replicate MAX_APP_THREAD 0, lmem = m\<rparr>"

definition new_thread :: thread_locals where
  "new_thread = \<lparr>thread_id = - 1, tl_tag = 0, iCon = 0, rdma_buffer = 0,
     rbuf = replicate kMaxCoro zero_RdmaBuffer\<rparr>"

fun set_buffers :: "nat \<Rightarrow> nat list \<Rightarrow> RdmaBuffer list \<Rightarrow> (nat \<Rightarrow> u64) \<Rightarrow> err + RdmaBuffer list \<times> (nat \<Rightarrow> u64)"
  where
  "set_buffers base [] rbs m = Inr (rbs, m)"
| "set_buffers base (i # is) rbs m =
     rbind (set_buffer (base + i * kPerCoroRdmaBuf) (rbs ! i) m) (\<lambda>(rb, m').
       set_buffers base is (rbs[i := rb]) m')"

definition registerThread ::
  "nat \<Rightarrow> nat \<Rightarrow> process \<times> thread_locals \<Rightarrow> err + process \<times> thread_locals" where
  "registerThread node cache_data s =
     (case s of (g, t) \<Rightarrow>
        if thread_id t \<noteq> - 1 then Inr (g, t)
        else
          let id = appID g; g1 = g\<lparr>appID := id + 1\<rparr>
          in rbind (require (id < MAX_APP_THREAD) OutOfBounds) (\<lambda>_.
             let g2 = (if has_init g1 ! id then g1
                       else g1\<lparr>inits := (inits g1)[id := inits g1 ! id + 1],
                               has_init := (has_init g1)[id := True]\<rparr>);
                 base = cache_data + id * 12 * MB
             in rbind (set_buffers base [0..<kMaxCoro] (rbuf t) (lmem g2)) (\<lambda>(rbs, m).
                Inr (g2\<lparr>lmem := m\<rparr>,
                  \<lparr>thread_id = int id, tl_tag = of_nat id + push_bit 32 (of_nat node) + 1, iCon = id,
                   rdma_buffer = base, rbuf = rbs\<rparr>))))"

section \<open>Layout\<close>

lemmas buffer_defs = kPageBufferCnt_def kSiblingBufferCnt_def kCasBufferCnt_def common_defs

text \<open>A buffer as \<^verbatim>\<open>set_buffer\<close> lays it out at \<open>b\<close>.\<close>

definition laid_out :: "nat \<Rightarrow> RdmaBuffer \<Rightarrow> bool" where
  "laid_out b rb \<longleftrightarrow> rb_buffer rb = b \<and> cas_buffer rb = b \<and> unlock_buffer rb = b + 64
     \<and> zero_64bit rb = b + 72 \<and> page_buffer rb = b + 80 \<and> sibling_buffer rb = b + 8272
     \<and> entry_buffer rb = b + 16464 \<and> kPageSize rb = 1024"

lemma set_buffer_ok: "\<exists>rb'. set_buffer b rb m = Inr (rb', m(b + 72 := 0)) \<and> laid_out b rb'"
  by (simp add: set_buffer_def laid_out_def buffer_defs Let_def add.assoc)

lemma set_buffers_ok:
  "distinct is \<Longrightarrow> \<forall>i \<in> set is. i < length rbs \<Longrightarrow> \<exists>rbs' m'. set_buffers base is rbs m = Inr (rbs', m')
     \<and> length rbs' = length rbs \<and> (\<forall>i \<in> set is. laid_out (base + i * kPerCoroRdmaBuf) (rbs' ! i))
     \<and> (\<forall>i < length rbs. i \<notin> set is \<longrightarrow> rbs' ! i = rbs ! i)"
proof (induction "is" arbitrary: rbs m)
  case (Cons i "is")
  obtain rb where rb: "set_buffer (base + i * kPerCoroRdmaBuf) (rbs ! i) m
      = Inr (rb, m(base + i * kPerCoroRdmaBuf + 72 := 0))" "laid_out (base + i * kPerCoroRdmaBuf) rb"
    using set_buffer_ok by blast
  have "distinct is" "\<forall>j \<in> set is. j < length (rbs[i := rb])" using Cons.prems by simp_all
  from Cons.IH [OF this, of "m(base + i * kPerCoroRdmaBuf + 72 := 0)"] obtain rbs' m' where
    "set_buffers base is (rbs[i := rb]) (m(base + i * kPerCoroRdmaBuf + 72 := 0)) = Inr (rbs', m')"
    "length rbs' = length rbs" "\<forall>j \<in> set is. laid_out (base + j * kPerCoroRdmaBuf) (rbs' ! j)"
    "\<forall>j < length rbs. j \<notin> set is \<longrightarrow> rbs' ! j = rbs[i := rb] ! j" by (auto simp del: fun_upd_apply)
  with rb Cons.prems show ?case by (auto simp del: fun_upd_apply)
qed simp

lemma registerThread_ok:
  assumes "appID g < MAX_APP_THREAD" "thread_id t = - 1" "length (rbuf t) = kMaxCoro"
  obtains g' t' where "registerThread node data (g, t) = Inr (g', t')" "appID g' = appID g + 1"
    "thread_id t' = int (appID g)" "tl_tag t' = of_nat (appID g) + push_bit 32 (of_nat node) + 1"
    "iCon t' = appID g" "length (rbuf t') = kMaxCoro"
    "\<And>c. c < kMaxCoro \<Longrightarrow> laid_out (data + appID g * 12 * MB + c * kPerCoroRdmaBuf) (rbuf t' ! c)"
proof -
  let ?g = "g\<lparr>appID := appID g + 1\<rparr>" and ?b = "data + appID g * 12 * MB"
  let ?g2 = "if has_init ?g ! appID g then ?g else ?g\<lparr>inits := (inits ?g)[appID g := inits ?g ! appID g + 1],
    has_init := (has_init ?g)[appID g := True]\<rparr>"
  have "distinct [0..<kMaxCoro]" "\<forall>i \<in> set [0..<kMaxCoro]. i < length (rbuf t)" using assms(3) by simp_all
  from set_buffers_ok [OF this, of ?b "lmem g"] obtain rbs m where
    r: "set_buffers ?b [0..<kMaxCoro] (rbuf t) (lmem g) = Inr (rbs, m)" "length rbs = kMaxCoro"
    "\<forall>i < kMaxCoro. laid_out (?b + i * kPerCoroRdmaBuf) (rbs ! i)" using assms(3) by auto
  have "registerThread node data (g, t) = Inr (?g2\<lparr>lmem := m\<rparr>, \<lparr>thread_id = int (appID g),
      tl_tag = of_nat (appID g) + push_bit 32 (of_nat node) + 1, iCon = appID g, rdma_buffer = ?b, rbuf = rbs\<rparr>)"
    using r(1) assms(1,2) by (simp add: registerThread_def Let_def)
  from that [OF this] r(2,3) show thesis by simp
qed

section \<open>The buffers handed out\<close>

text \<open>Any sequence of calls of the getters; each gives an address and the number of bytes that its
  callers use there.\<close>

datatype getter = Cas | Unlock | Zero | PageBuf | RangeBuf | Sibling | EntryBuf

fun get_buffer :: "getter \<Rightarrow> RdmaBuffer \<Rightarrow> (nat \<times> nat) \<times> RdmaBuffer" where
  "get_buffer Cas rb = (case get_cas_buffer rb of (a, rb') \<Rightarrow> ((a, 8), rb'))"
| "get_buffer Unlock rb = ((get_unlock_buffer rb, 8), rb)"
| "get_buffer Zero rb = ((get_zero_64bit rb, 8), rb)"
| "get_buffer PageBuf rb = (case get_page_buffer rb of (a, rb') \<Rightarrow> ((a, kPageSize rb), rb'))"
| "get_buffer RangeBuf rb = ((get_range_buffer rb, 32 * kLeafPageSize), rb)"
| "get_buffer Sibling rb = (case get_sibling_buffer rb of (a, rb') \<Rightarrow> ((a, kPageSize rb), rb'))"
| "get_buffer EntryBuf rb = ((get_entry_buffer rb, kPageSize rb), rb)"

fun after_calls :: "getter list \<Rightarrow> RdmaBuffer \<Rightarrow> RdmaBuffer" where
  "after_calls [] rb = rb"
| "after_calls (c # cs) rb = after_calls cs (snd (get_buffer c rb))"

definition nth_buffer :: "getter list \<Rightarrow> getter \<Rightarrow> RdmaBuffer \<Rightarrow> nat \<times> nat" where
  "nth_buffer cs c rb = fst (get_buffer c (after_calls cs rb))"

definition bytes_at :: "nat \<times> nat \<Rightarrow> nat set" where
  "bytes_at p = {fst p..<fst p + snd p}"

lemma get_buffer_cases:
  assumes "laid_out b rb"
  shows "laid_out b (snd (get_buffer c rb))"
    and "fst (get_buffer c rb) = (case c of
       Cas \<Rightarrow> (b + 8 * ((cas_buffer_cur rb + 1) mod 8), 8) | Unlock \<Rightarrow> (b + 64, 8) | Zero \<Rightarrow> (b + 72, 8)
     | PageBuf \<Rightarrow> (b + 80 + 1024 * ((page_buffer_cur rb + 1) mod 8), 1024)
     | RangeBuf \<Rightarrow> (b + 80, 32768)
     | Sibling \<Rightarrow> (b + 8272 + 1024 * ((sibling_buffer_cur rb + 1) mod 8), 1024)
     | EntryBuf \<Rightarrow> (b + 16464, 1024))"
  using assms
  by (cases c; simp add: laid_out_def get_cas_buffer_def get_page_buffer_def get_sibling_buffer_def
      get_unlock_buffer_def get_zero_64bit_def get_range_buffer_def get_entry_buffer_def buffer_defs Let_def
      mult.commute)+

text \<open>The cursor behind a getter; the others have none.\<close>

fun cursor :: "getter \<Rightarrow> RdmaBuffer \<Rightarrow> nat" where
  "cursor Cas rb = cas_buffer_cur rb"
| "cursor PageBuf rb = page_buffer_cur rb"
| "cursor Sibling rb = sibling_buffer_cur rb"
| "cursor _ rb = 0"

lemma get_buffer_cursor:
  "c \<in> {Cas, PageBuf, Sibling} \<Longrightarrow>
   cursor c (snd (get_buffer d rb)) mod 8 = (cursor c rb + (if d = c then 1 else 0)) mod 8"
  by (cases d) (auto simp: get_cas_buffer_def get_page_buffer_def get_sibling_buffer_def
      buffer_defs Let_def)

lemma after_calls_laid: "laid_out b rb \<Longrightarrow> laid_out b (after_calls cs rb)"
  by (induction cs rb rule: after_calls.induct) (simp_all add: get_buffer_cases(1))

lemma after_calls_append: "after_calls (cs @ ds) rb = after_calls ds (after_calls cs rb)"
  by (induction cs rb rule: after_calls.induct) simp_all

lemma after_calls_cursor:
  "c \<in> {Cas, PageBuf, Sibling} \<Longrightarrow>
   cursor c (after_calls cs rb) mod 8 = (cursor c rb + count_list cs c) mod 8"
proof (induction cs rb rule: after_calls.induct)
  case (2 d cs rb)
  have "cursor c (after_calls (d # cs) rb) mod 8
      = (cursor c (snd (get_buffer d rb)) mod 8 + count_list cs c) mod 8"
    using 2 by (simp add: mod_simps)
  also have "\<dots> = (cursor c rb + count_list (d # cs) c) mod 8"
    unfolding get_buffer_cursor [OF 2(2)] by (simp add: mod_simps)
  finally show ?case .
qed simp

lemma nth_buffer_eq:
  assumes "laid_out b rb"
  shows "nth_buffer cs c rb = (case c of
       Cas \<Rightarrow> (b + 8 * ((cursor Cas rb + count_list cs Cas + 1) mod 8), 8)
     | Unlock \<Rightarrow> (b + 64, 8) | Zero \<Rightarrow> (b + 72, 8)
     | PageBuf \<Rightarrow> (b + 80 + 1024 * ((cursor PageBuf rb + count_list cs PageBuf + 1) mod 8), 1024)
     | RangeBuf \<Rightarrow> (b + 80, 32768)
     | Sibling \<Rightarrow> (b + 8272 + 1024 * ((cursor Sibling rb + count_list cs Sibling + 1) mod 8), 1024)
     | EntryBuf \<Rightarrow> (b + 16464, 1024))"
proof -
  note l = get_buffer_cases(2) [OF after_calls_laid [OF assms], of c cs]
  have "(cursor d (after_calls cs rb) + 1) mod 8 = (cursor d rb + count_list cs d + 1) mod 8"
    if "d \<in> {Cas, PageBuf, Sibling}" for d
    using after_calls_cursor [OF that, of cs rb] by (metis mod_add_left_eq)
  from this [of Cas] this [of PageBuf] this [of Sibling] show ?thesis
    unfolding nth_buffer_def l by (cases c) simp_all
qed

lemma nth_buffer_within:
  assumes "laid_out b rb"
  shows "bytes_at (nth_buffer cs c rb) \<subseteq> {b..<b + kPerCoroRdmaBuf}"
proof -
  have m: "x mod 8 < 8" for x :: nat by simp
  show ?thesis
    using m [of "cursor Cas rb + count_list cs Cas + 1"] m [of "cursor PageBuf rb + count_list cs PageBuf + 1"]
      m [of "cursor Sibling rb + count_list cs Sibling + 1"]
    unfolding bytes_at_def nth_buffer_eq [OF assms] by (cases c) (auto simp: kPerCoroRdmaBuf_def)
qed

section \<open>Properties\<close>

text \<open>(C27) Threads and coroutines do not share buffers: when two threads have registered, in
  whatever order, under the numbers that the counter gave them, any two buffers that their
  coroutines get, after any calls, are disjoint unless it is the same coroutine of the same
  thread; all of them lie in the first gigabyte of the registered memory (312 MB are used);
  and threads with different numbers, or on different nodes, have different lock tags, none
  of them zero.\<close>

theorem thread_buffers_disjoint:
  assumes "registerThread node data (g, new_thread) = Inr (g1, t)"
    and "registerThread node' data (h, new_thread) = Inr (h1, u)"
    and "c < kMaxCoro" "d < kMaxCoro" "node < 2 ^ 16" "node' < 2 ^ 16"
  shows "((appID g, c) \<noteq> (appID h, d) \<longrightarrow>
      bytes_at (nth_buffer cs x (rbuf t ! c)) \<inter> bytes_at (nth_buffer ds y (rbuf u ! d)) = {})
    \<and> bytes_at (nth_buffer cs x (rbuf t ! c)) \<subseteq> {data..<data + 312 * MB}
    \<and> tl_tag t \<noteq> 0 \<and> (tl_tag t = tl_tag u \<longleftrightarrow> node = node' \<and> appID g = appID h)"
proof -
  have reg: "appID g < MAX_APP_THREAD \<and> laid_out (data + appID g * 12 * MB + c * kPerCoroRdmaBuf) (rbuf t ! c)
      \<and> tl_tag t = of_nat (appID g) + push_bit 32 (of_nat node) + 1"
    if r: "registerThread node data (g, new_thread) = Inr (g1, t)" and c: "c < kMaxCoro" for node g g1 t c
  proof -
    have n: "thread_id new_thread = - 1" "length (rbuf new_thread) = kMaxCoro" by (simp_all add: new_thread_def)
    then have lt: "appID g < MAX_APP_THREAD"
      using r by (auto simp: registerThread_def Let_def require_def split: if_splits)
    show ?thesis by (rule registerThread_ok [OF lt n, of node data]) (use r c lt in auto)
  qed
  note a = reg [OF assms(1,3)] and b = reg [OF assms(2,4)]
  let ?p = "data + appID g * 12 * MB + c * kPerCoroRdmaBuf"
  let ?q = "data + appID h * 12 * MB + d * kPerCoroRdmaBuf"
  have p: "bytes_at (nth_buffer cs x (rbuf t ! c)) \<subseteq> {?p..<?p + kPerCoroRdmaBuf}"
    using nth_buffer_within a by blast
  have q: "bytes_at (nth_buffer ds y (rbuf u ! d)) \<subseteq> {?q..<?q + kPerCoroRdmaBuf}"
    using nth_buffer_within b by blast
  have apart: "?p + kPerCoroRdmaBuf \<le> ?q \<or> ?q + kPerCoroRdmaBuf \<le> ?p" if "(appID g, c) \<noteq> (appID h, d)"
    using that assms(3,4) a b by (cases "appID g" "appID h" rule: linorder_cases) (auto simp: common_defs)
  have tag: "unat (of_nat i + push_bit 32 (of_nat n) + 1 :: u64) = i + n * 2 ^ 32 + 1"
    if "i < MAX_APP_THREAD" "n < 2 ^ 16" for i n
  proof -
    have "push_bit 32 (of_nat n) = (of_nat (n * 2 ^ 32) :: u64)" by (simp add: push_bit_eq_mult)
    then have "of_nat i + push_bit 32 (of_nat n) + 1 = (of_nat (i + n * 2 ^ 32 + 1) :: u64)" by simp
    then show ?thesis using that by (simp only: unat_of_nat) (simp add: common_defs)
  qed
  have "tl_tag t \<noteq> 0" using tag [of "appID g" node] a assms(5) by (metis add_is_0 one_neq_zero unat_0)
  moreover have "tl_tag t = tl_tag u \<longleftrightarrow> appID g + node * 2 ^ 32 + 1 = appID h + node' * 2 ^ 32 + 1"
    using tag [of "appID g" node] tag [of "appID h" node'] a b assms(5,6) by (metis word_unat_eq_iff)
  moreover have "appID g + node * 2 ^ 32 + 1 = appID h + node' * 2 ^ 32 + 1 \<longleftrightarrow> node = node' \<and> appID g = appID h"
    using a b unfolding common_defs by (cases node node' rule: linorder_cases) auto
  moreover have "{?p..<?p + kPerCoroRdmaBuf} \<subseteq> {data..<data + 312 * MB}"
    using assms(3) a by (auto simp: common_defs)
  ultimately show ?thesis using p q apart by fastforce
qed

theorem thread_buffers_disjoint_witness:
  "\<exists>g t h u. registerThread 1 4096 (new_process (\<lambda>_. 7), new_thread) = Inr (g, t)
    \<and> registerThread 1 4096 (g, new_thread) = Inr (h, u)
    \<and> bytes_at (nth_buffer [] PageBuf (rbuf t ! 3)) \<inter> bytes_at (nth_buffer [Cas] RangeBuf (rbuf u ! 3)) = {}
    \<and> tl_tag t \<noteq> tl_tag u"
proof -
  have n: "thread_id new_thread = - 1" "length (rbuf new_thread) = kMaxCoro" by (simp_all add: new_thread_def)
  have g0: "appID (new_process (\<lambda>_. 7)) < MAX_APP_THREAD" by (simp add: new_process_def MAX_APP_THREAD_def)
  obtain g t where g: "registerThread 1 4096 (new_process (\<lambda>_. 7), new_thread) = Inr (g, t)"
    "appID g = appID (new_process (\<lambda>_. 7)) + 1" by (rule registerThread_ok [OF g0 n, of 1 4096])
  have g1: "appID g < MAX_APP_THREAD" using g(2) by (simp add: new_process_def MAX_APP_THREAD_def)
  obtain h u where h: "registerThread 1 4096 (g, new_thread) = Inr (h, u)"
    by (rule registerThread_ok [OF g1 n, of 1 4096])
  have k: "3 < kMaxCoro" "(1 :: nat) < 2 ^ 16" by (simp_all add: kMaxCoro_def)
  from thread_buffers_disjoint [OF g(1) h k(1,1,2,2), of "[]" PageBuf "[Cas]" RangeBuf] g h
  show ?thesis by (auto simp: new_process_def)
qed

lemma slots_disjoint:
  assumes "i \<noteq> j"
  shows "bytes_at (base + sz * i, sz) \<inter> bytes_at (base + sz * j, sz) = {}"
proof -
  have "sz * i + sz \<le> sz * j \<or> sz * j + sz \<le> sz * i"
    using assms mult_le_mono2 [of "Suc i" j sz] mult_le_mono2 [of "Suc j" i sz]
    by (cases i j rule: linorder_cases) simp_all
  then show ?thesis by (auto simp: bytes_at_def)
qed

text \<open>The rings of one coroutine: a buffer of a ring comes back at the eighth call of its
  getter and not before, whatever else was called in between, so that an asynchronous
  operation on it has that long to complete; buffers of different getters never overlap,
  except that the range buffer covers the pages, the siblings and the entry.\<close>

theorem buffer_rings:
  assumes "set_buffer b rb m = Inr (rb', m')"
  shows "(c \<in> {Cas, PageBuf, Sibling} \<longrightarrow> count_list ds c < 7 \<longrightarrow>
      bytes_at (nth_buffer cs c rb') \<inter> bytes_at (nth_buffer (cs @ c # ds) c rb') = {})
    \<and> (c \<in> {Cas, PageBuf, Sibling} \<longrightarrow> count_list ds c = 7 \<longrightarrow>
      nth_buffer (cs @ c # ds) c rb' = nth_buffer cs c rb')
    \<and> (c \<noteq> d \<longrightarrow> c \<noteq> RangeBuf \<longrightarrow> d \<noteq> RangeBuf \<longrightarrow>
      bytes_at (nth_buffer cs c rb') \<inter> bytes_at (nth_buffer ds d rb') = {})"
proof -
  have l: "laid_out b rb'" using assms set_buffer_ok [of b rb m] by auto
  have m: "x mod 8 < 8" for x :: nat by simp
  have ring: "(n + Suc j) mod 8 \<noteq> n mod 8" if "j < 7" for n j :: nat
  proof
    assume "(n + Suc j) mod 8 = n mod 8"
    then have "8 dvd (n + Suc j) - n" by (metis le_add1 mod_eq_dvd_iff_nat)
    with that show False by (auto dest: dvd_imp_le)
  qed
  have "count_list (cs @ c # ds) c + 1 = count_list cs c + 1 + Suc (count_list ds c)" by simp
  then have pos: "cursor c rb' + count_list (cs @ c # ds) c + 1 = (cursor c rb' + count_list cs c + 1) + Suc (count_list ds c)"
    by linarith
  have slot: "\<exists>base sz. \<forall>cs. nth_buffer cs c rb' = (base + sz * ((cursor c rb' + count_list cs c + 1) mod 8), sz)"
    if "c \<in> {Cas, PageBuf, Sibling}"
    using that unfolding nth_buffer_eq [OF l] by auto
  have a: "bytes_at (nth_buffer cs c rb') \<inter> bytes_at (nth_buffer (cs @ c # ds) c rb') = {}"
    if c: "c \<in> {Cas, PageBuf, Sibling}" "count_list ds c < 7"
  proof -
    let ?i = "cursor c rb' + count_list cs c + 1"
    obtain base sz where n: "\<And>cs. nth_buffer cs c rb' = (base + sz * ((cursor c rb' + count_list cs c + 1) mod 8), sz)"
      using slot [OF c(1)] by blast
    have "?i mod 8 \<noteq> (?i + Suc (count_list ds c)) mod 8" using ring [OF c(2), of ?i] by simp
    then show ?thesis unfolding n pos by (rule slots_disjoint)
  qed
  have b: "nth_buffer (cs @ c # ds) c rb' = nth_buffer cs c rb'"
    if c: "c \<in> {Cas, PageBuf, Sibling}" "count_list ds c = 7"
  proof -
    let ?i = "cursor c rb' + count_list cs c + 1"
    obtain base sz where n: "\<And>cs. nth_buffer cs c rb' = (base + sz * ((cursor c rb' + count_list cs c + 1) mod 8), sz)"
      using slot [OF c(1)] by blast
    have "?i + Suc (count_list ds c) = ?i + 8" using c(2) by simp
    then have "(?i + Suc (count_list ds c)) mod 8 = ?i mod 8" by (metis mod_add_self2)
    then show ?thesis unfolding n pos by (rule arg_cong)
  qed
  have "bytes_at (nth_buffer cs c rb') \<inter> bytes_at (nth_buffer ds d rb') = {}"
    if "c \<noteq> d" "c \<noteq> RangeBuf" "d \<noteq> RangeBuf"
    using that m [of "cursor Cas rb' + count_list cs Cas + 1"] m [of "cursor PageBuf rb' + count_list cs PageBuf + 1"]
      m [of "cursor Sibling rb' + count_list cs Sibling + 1"]
      m [of "cursor Cas rb' + count_list ds Cas + 1"] m [of "cursor PageBuf rb' + count_list ds PageBuf + 1"]
      m [of "cursor Sibling rb' + count_list ds Sibling + 1"]
    unfolding bytes_at_def nth_buffer_eq [OF l] by (cases c; cases d) auto
  with a b show ?thesis by blast
qed

theorem buffer_rings_witness:
  "\<exists>rb. set_buffer 4096 zero_RdmaBuffer (\<lambda>_. 7) = Inr (rb, (\<lambda>_. 7)(4168 := 0))
    \<and> bytes_at (nth_buffer [] PageBuf rb) \<inter> bytes_at (nth_buffer ([] @ PageBuf # [Cas, PageBuf, PageBuf]) PageBuf rb) = {}"
proof -
  obtain rb where r: "set_buffer 4096 zero_RdmaBuffer (\<lambda>_. 7) = Inr (rb, (\<lambda>_. 7)(4096 + 72 := 0))"
    using set_buffer_ok by blast
  from buffer_rings [OF r, of PageBuf "[Cas, PageBuf, PageBuf]" "[]"] r show ?thesis by simp
qed

end
