(* ===== verification/WriteReadLock.thy ===== *)
theory WriteReadLock
  imports Prelude
begin

text \<open>
  \<^verbatim>\<open>include/WRLock.h\<close>: a spin lock for one writer or many readers in one 16-bit word. Every
  load, store and compare-and-swap of a thread is one step of the relation \<open>wr_step\<close>; the
  operations of different threads interleave. The word is 1 while a writer holds the lock and
  twice the number of readers otherwise.
\<close>

section \<open>Steps\<close>

text \<open>Where a thread is: outside, in one of the loops (with the value it loaded), or holding
  the lock.\<close>

datatype wr_pc = Outside
  | WLockLoad | WLockCas | TryWLockLoad | TryWLockCas | Writing
  | RLockLoad | RLockCas u16 | TryRLockLoad | TryRLockCas u16 | Reading
  | RUnlockLoad | RUnlockCas u16

record wr_state =
  wr_word :: u16
  wr_pcs :: "nat \<Rightarrow> wr_pc"

definition UNLOCKED :: u16 where "UNLOCKED = 0"
definition LOCKED :: u16 where "LOCKED = 1"

definition wr_init :: wr_state where
  "wr_init = \<lparr>wr_word = UNLOCKED, wr_pcs = (\<lambda>_. Outside)\<rparr>"

definition is_unlock :: "wr_state \<Rightarrow> bool" where
  "is_unlock s \<longleftrightarrow> wr_word s = UNLOCKED"

definition go :: "nat \<Rightarrow> wr_pc \<Rightarrow> wr_state \<Rightarrow> wr_state" where
  "go t p s = s\<lparr>wr_pcs := (wr_pcs s)(t := p)\<rparr>"

text \<open>\<^verbatim>\<open>compare_exchange_strong\<close>: whether it succeeded, and the new state.\<close>

definition wr_cas :: "u16 \<Rightarrow> u16 \<Rightarrow> wr_state \<Rightarrow> bool \<times> wr_state" where
  "wr_cas f b s = (if wr_word s = f then (True, s\<lparr>wr_word := b\<rparr>) else (False, s))"

text \<open>The next state when thread \<open>t\<close> takes its next step; a thread that is outside, or that
  holds the lock, chooses what to call.\<close>

datatype wr_call = Call_wLock | Call_try_wLock | Call_rLock | Call_try_rLock | Call_unlock

fun wr_next :: "wr_call \<Rightarrow> nat \<Rightarrow> wr_pc \<Rightarrow> wr_state \<Rightarrow> wr_state" where
  "wr_next Call_wLock t Outside s = go t WLockLoad s"
| "wr_next Call_try_wLock t Outside s = go t TryWLockLoad s"
| "wr_next Call_rLock t Outside s = go t RLockLoad s"
| "wr_next Call_try_rLock t Outside s = go t TryRLockLoad s"
| "wr_next Call_unlock t Outside s = s"
| "wr_next _ t WLockLoad s = (if wr_word s \<noteq> UNLOCKED then s else go t WLockCas s)"
| "wr_next _ t WLockCas s =
     (case wr_cas UNLOCKED LOCKED s of (ok, s') \<Rightarrow> if ok then go t Writing s' else go t WLockLoad s')"
| "wr_next _ t TryWLockLoad s = (if wr_word s \<noteq> UNLOCKED then go t Outside s else go t TryWLockCas s)"
| "wr_next _ t TryWLockCas s =
     (case wr_cas UNLOCKED LOCKED s of (ok, s') \<Rightarrow> if ok then go t Writing s' else go t Outside s')"
| "wr_next _ t RLockLoad s = (if wr_word s = LOCKED then s else go t (RLockCas (wr_word s)) s)"
| "wr_next _ t (RLockCas v) s =
     (case wr_cas v (v + 2) s of (ok, s') \<Rightarrow> if ok then go t Reading s' else go t RLockLoad s')"
| "wr_next _ t TryRLockLoad s = (if wr_word s = LOCKED then go t Outside s else go t (TryRLockCas (wr_word s)) s)"
| "wr_next _ t (TryRLockCas v) s =
     (case wr_cas v (v + 2) s of (ok, s') \<Rightarrow> if ok then go t Reading s' else go t TryRLockLoad s')"
| "wr_next Call_unlock t Reading s = go t RUnlockLoad s"
| "wr_next _ t Reading s = s"
| "wr_next _ t RUnlockLoad s = go t (RUnlockCas (wr_word s)) s"
| "wr_next _ t (RUnlockCas v) s =
     (case wr_cas v (v - 2) s of (ok, s') \<Rightarrow> if ok then go t Outside s' else go t RUnlockLoad s')"
| "wr_next Call_unlock t Writing s = go t Outside (s\<lparr>wr_word := UNLOCKED\<rparr>)"
| "wr_next _ t Writing s = s"

inductive wr_reach :: "nat \<Rightarrow> wr_state \<Rightarrow> bool" for n where
  wr_start: "wr_reach n wr_init"
| wr_step: "wr_reach n s \<Longrightarrow> t < n \<Longrightarrow> wr_reach n (wr_next c t (wr_pcs s t) s)"

section \<open>Invariant\<close>

definition reading :: "wr_pc \<Rightarrow> bool" where
  "reading p \<longleftrightarrow> p = Reading \<or> p = RUnlockLoad \<or> (\<exists>v. p = RUnlockCas v)"

definition readers :: "wr_state \<Rightarrow> nat set" where "readers s = {t. reading (wr_pcs s t)}"
definition writers :: "wr_state \<Rightarrow> nat set" where "writers s = {t. wr_pcs s t = Writing}"

fun cas_value :: "wr_pc \<Rightarrow> u16 option" where
  "cas_value (RLockCas v) = Some v"
| "cas_value (TryRLockCas v) = Some v"
| "cas_value _ = None"

definition wr_inv :: "nat \<Rightarrow> wr_state \<Rightarrow> bool" where
  "wr_inv n s \<longleftrightarrow> (\<forall>t \<ge> n. wr_pcs s t = Outside) \<and> (\<forall>t. cas_value (wr_pcs s t) \<noteq> Some LOCKED)
     \<and> (wr_word s = LOCKED \<and> readers s = {} \<and> (\<exists>w. writers s = {w})
        \<or> wr_word s = of_nat (2 * card (readers s)) \<and> writers s = {})"

lemma go_simps [simp]:
  "wr_word (go t p s) = wr_word s"
  "wr_pcs (go t p s) u = (if u = t then p else wr_pcs s u)"
  "wr_pcs (s\<lparr>wr_word := x\<rparr>) = wr_pcs s"
  "readers (s\<lparr>wr_word := x\<rparr>) = readers s" "writers (s\<lparr>wr_word := x\<rparr>) = writers s"
  by (simp_all add: go_def readers_def writers_def)

lemma readers_go: "readers (go t p s) = (if reading p then insert t (readers s) else readers s - {t})"
  by (auto simp: readers_def)

lemma writers_go: "writers (go t p s) = (if p = Writing then insert t (writers s) else writers s - {t})"
  by (auto simp: writers_def)

lemma reading_simps [simp]:
  "reading Reading" "reading RUnlockLoad" "reading (RUnlockCas v)" "\<not> reading Outside" "\<not> reading WLockLoad"
  "\<not> reading WLockCas" "\<not> reading TryWLockLoad" "\<not> reading TryWLockCas" "\<not> reading Writing"
  "\<not> reading RLockLoad" "\<not> reading (RLockCas v)" "\<not> reading TryRLockLoad" "\<not> reading (TryRLockCas v)"
  by (simp_all add: reading_def)

lemma wr_inv_finite: "wr_inv n s \<Longrightarrow> finite (readers s) \<and> card (readers s) \<le> n"
proof -
  assume "wr_inv n s"
  then have "readers s \<subseteq> {0..<n}" by (auto simp: wr_inv_def readers_def reading_def) (metis not_less wr_pc.distinct)+
  then show ?thesis using subset_eq_atLeast0_lessThan_card finite_subset by blast
qed

text \<open>A step that changes neither the word nor who holds the lock.\<close>

lemma wr_inv_go:
  assumes "wr_inv n s" "t < n" "reading p \<longleftrightarrow> reading (wr_pcs s t)" "p \<noteq> Writing" "wr_pcs s t \<noteq> Writing"
    and "cas_value p \<noteq> Some LOCKED"
  shows "wr_inv n (go t p s)"
proof -
  have "readers (go t p s) = readers s" using assms(3) by (auto simp: readers_go) (auto simp: readers_def)
  moreover have "writers (go t p s) = writers s" using assms(4,5) by (auto simp: writers_go) (auto simp: writers_def)
  ultimately show ?thesis using assms by (auto simp: wr_inv_def)
qed

lemma even_not_locked: "of_nat (2 * k) \<noteq> LOCKED"
proof
  assume "of_nat (2 * k) = LOCKED"
  then have "bit (of_nat (2 * k) :: u16) 0 = bit (1 :: u16) 0" by (simp add: LOCKED_def)
  then show False by (simp add: bit_0)
qed

lemma even_unlocked: "k < 2 ^ 15 \<Longrightarrow> of_nat (2 * k) = UNLOCKED \<Longrightarrow> k = 0"
proof -
  assume k: "k < 2 ^ 15" and "of_nat (2 * k) = UNLOCKED"
  then have "unat (of_nat (2 * k) :: u16) = 0" by (simp add: UNLOCKED_def)
  moreover have "unat (of_nat (2 * k) :: u16) = 2 * k" using k by (simp only: unat_of_nat) simp
  ultimately show "k = 0" by simp
qed

lemma wr_inv_cas_write:
  assumes inv: "wr_inv n s" and n: "n < 2 ^ 15" and t: "t < n" and w: "wr_word s = UNLOCKED"
    and p: "\<not> reading (wr_pcs s t)"
  shows "wr_inv n (go t Writing (s\<lparr>wr_word := LOCKED\<rparr>))"
proof -
  have "wr_word s = of_nat (2 * card (readers s))" "writers s = {}"
    using inv w by (auto simp: wr_inv_def LOCKED_def UNLOCKED_def)
  moreover have "card (readers s) < 2 ^ 15" using wr_inv_finite [OF inv] n by simp
  ultimately have "card (readers s) = 0" using even_unlocked [of "card (readers s)"] w by simp
  then have "readers s = {}" using wr_inv_finite [OF inv] by simp
  then show ?thesis using inv \<open>writers s = {}\<close> t by (auto simp: wr_inv_def readers_go writers_go)
qed

lemma wr_inv_cas_read:
  assumes inv: "wr_inv n s" and t: "t < n" and v: "wr_word s = v" "v \<noteq> LOCKED" and p: "\<not> reading (wr_pcs s t)"
  shows "wr_inv n (go t Reading (s\<lparr>wr_word := v + 2\<rparr>))"
proof -
  have w: "v = of_nat (2 * card (readers s))" "writers s = {}" using inv v by (auto simp: wr_inv_def)
  have "t \<notin> readers s" using p by (simp add: readers_def)
  then have "card (insert t (readers s)) = Suc (card (readers s))" using wr_inv_finite [OF inv] by simp
  then show ?thesis using inv t w by (auto simp: wr_inv_def readers_go writers_go)
qed

lemma wr_inv_cas_unread:
  assumes inv: "wr_inv n s" and t: "t < n" and v: "wr_word s = v" and p: "reading (wr_pcs s t)"
  shows "wr_inv n (go t Outside (s\<lparr>wr_word := v - 2\<rparr>))"
proof -
  have r: "t \<in> readers s" using p by (simp add: readers_def)
  then have w: "v = of_nat (2 * card (readers s))" "writers s = {}" using inv v by (auto simp: wr_inv_def)
  obtain k where k: "card (readers s) = Suc k" using r wr_inv_finite [OF inv] by (metis card_Suc_Diff1)
  then have "card (readers s - {t}) = k" using r by simp
  then show ?thesis using inv t w k by (auto simp: wr_inv_def readers_go writers_go)
qed

lemma wr_inv_unwrite:
  assumes inv: "wr_inv n s" and t: "wr_pcs s t = Writing"
  shows "wr_inv n (go t Outside (s\<lparr>wr_word := UNLOCKED\<rparr>))"
proof -
  have "t \<in> writers s" using t by (simp add: writers_def)
  then have "readers s = {}" "writers s = {t}" using inv by (auto simp: wr_inv_def)
  then show ?thesis using inv by (auto simp: wr_inv_def readers_go writers_go UNLOCKED_def)
qed

lemma wr_inv_step:
  assumes inv: "wr_inv n s" and n: "n < 2 ^ 15" and t: "t < n"
  shows "wr_inv n (wr_next c t (wr_pcs s t) s)"
proof -
  have ok: "cas_value (wr_pcs s t) \<noteq> Some LOCKED" using inv by (simp add: wr_inv_def)
  note go = wr_inv_go [OF inv t] and wr = wr_inv_cas_write [OF inv n t]
    and rd = wr_inv_cas_read [OF inv t] and un = wr_inv_cas_unread [OF inv t refl]
  show ?thesis
  proof (cases "wr_pcs s t")
    case Outside then show ?thesis by (cases c) (simp_all add: go inv)
  next
    case WLockLoad then show ?thesis by (cases c) (simp_all add: go inv)
  next
    case WLockCas then show ?thesis by (cases c) (simp_all add: wr_cas_def go wr)
  next
    case TryWLockLoad then show ?thesis by (cases c) (simp_all add: go)
  next
    case TryWLockCas then show ?thesis by (cases c) (simp_all add: wr_cas_def go wr)
  next
    case Writing then show ?thesis using wr_inv_unwrite [OF inv Writing] by (cases c) (simp_all add: inv)
  next
    case RLockLoad then show ?thesis by (cases c) (simp_all add: go inv)
  next
    case (RLockCas v) then show ?thesis using ok by (cases c) (simp_all add: wr_cas_def go rd)
  next
    case TryRLockLoad then show ?thesis by (cases c) (simp_all add: go inv)
  next
    case (TryRLockCas v) then show ?thesis using ok by (cases c) (simp_all add: wr_cas_def go rd)
  next
    case Reading then show ?thesis by (cases c) (simp_all add: go inv)
  next
    case RUnlockLoad then show ?thesis by (cases c) (simp_all add: go)
  next
    case (RUnlockCas v)
    have "wr_word s = v \<Longrightarrow> wr_inv n (go t Outside (s\<lparr>wr_word := v - 2\<rparr>))"
      using un RUnlockCas by simp
    with RUnlockCas show ?thesis by (cases c) (simp_all add: wr_cas_def go)
  qed
qed

lemma wr_reach_inv: "wr_reach n s \<Longrightarrow> n < 2 ^ 15 \<Longrightarrow> wr_inv n s"
proof (induction rule: wr_reach.induct)
  case wr_start
  show ?case by (simp add: wr_inv_def wr_init_def readers_def writers_def reading_def UNLOCKED_def)
next
  case (wr_step s t c)
  then show ?case using wr_inv_step by blast
qed

section \<open>Properties\<close>

text \<open>(C28) With fewer than \<open>2 ^ 15\<close> threads, in every interleaving: while a thread holds the lock
  for writing no other thread holds it in any way, readers may share it, the word tells which
  of these is the case, and is zero exactly if nobody holds the lock.\<close>

theorem wr_lock_exclusion:
  assumes "wr_reach n s" "n < 2 ^ 15"
  shows "(t \<in> writers s \<longrightarrow> writers s = {t} \<and> readers s = {} \<and> wr_word s = LOCKED)
    \<and> (t \<in> readers s \<longrightarrow> writers s = {} \<and> wr_word s = of_nat (2 * card (readers s)))
    \<and> (is_unlock s \<longleftrightarrow> writers s = {} \<and> readers s = {})"
proof -
  have inv: "wr_inv n s" by (rule wr_reach_inv [OF assms])
  have card: "finite (readers s)" "card (readers s) < 2 ^ 15" using wr_inv_finite [OF inv] assms(2) by auto
  have un: "is_unlock s \<longleftrightarrow> writers s = {} \<and> readers s = {}"
  proof
    assume u: "is_unlock s"
    then have w: "wr_word s = of_nat (2 * card (readers s))" "writers s = {}"
      using inv by (auto simp: wr_inv_def is_unlock_def LOCKED_def UNLOCKED_def)
    then have "card (readers s) = 0" using even_unlocked [OF card(2)] u by (simp add: is_unlock_def)
    with w card(1) show "writers s = {} \<and> readers s = {}" by simp
  next
    assume "writers s = {} \<and> readers s = {}"
    with inv show "is_unlock s" by (auto simp: wr_inv_def is_unlock_def UNLOCKED_def)
  qed
  show ?thesis using inv un by (auto simp: wr_inv_def)
qed

text \<open>What one thread does on its own.\<close>

lemma wr_reach_steps:
  assumes "wr_reach n s" "t < n" "wr_next c t (wr_pcs s t) s = s'"
  shows "wr_reach n s'"
  using wr_step [OF assms(1,2), of c] assms(3) by simp

theorem wr_lock_exclusion_witness:
  "\<exists>s. wr_reach 3 s \<and> 1 \<in> writers s \<and> writers s = {1} \<and> readers s = {}"
proof -
  have a: "wr_reach 3 (go 1 WLockLoad wr_init)"
    by (rule wr_reach_steps [OF wr_start, of 1 3 Call_wLock]) (simp_all add: wr_init_def)
  have b: "wr_reach 3 (go 1 WLockCas (go 1 WLockLoad wr_init))"
    by (rule wr_reach_steps [OF a, of 1 Call_wLock]) (simp_all add: wr_init_def)
  have c: "wr_reach 3 (go 1 Writing ((go 1 WLockCas (go 1 WLockLoad wr_init))\<lparr>wr_word := LOCKED\<rparr>))"
    by (rule wr_reach_steps [OF b, of 1 Call_wLock]) (simp_all add: wr_init_def wr_cas_def)
  have m: "1 \<in> writers (go 1 Writing ((go 1 WLockCas (go 1 WLockLoad wr_init))\<lparr>wr_word := LOCKED\<rparr>))"
    by (simp add: writers_def)
  from wr_lock_exclusion [OF c, of 1] m c show ?thesis by auto
qed

text \<open>Readers that come one after the other; the word wraps around at \<open>2 ^ 15\<close> of them.\<close>

lemma readers_come:
  "k \<le> n \<Longrightarrow> k \<le> 2 ^ 15 \<Longrightarrow> \<exists>s. wr_reach n s \<and> wr_word s = of_nat (2 * k)
     \<and> (\<forall>t < k. wr_pcs s t = Reading) \<and> (\<forall>t \<ge> k. wr_pcs s t = Outside)"
proof (induction k)
  case 0
  show ?case using wr_start [of n] by (intro exI [of _ wr_init]) (simp add: wr_init_def UNLOCKED_def)
next
  case (Suc k)
  then obtain s where s: "wr_reach n s" "wr_word s = of_nat (2 * k)" "\<forall>t < k. wr_pcs s t = Reading"
    "\<forall>t \<ge> k. wr_pcs s t = Outside" by auto
  have k: "k < n" and nl: "wr_word s \<noteq> LOCKED" using Suc.prems s(2) even_not_locked by auto
  let ?a = "go k RLockLoad s" and ?b = "go k (RLockCas (wr_word s)) (go k RLockLoad s)"
  have a: "wr_reach n ?a" by (rule wr_reach_steps [OF s(1) k, of Call_rLock]) (use s(4) in simp_all)
  have b: "wr_reach n ?b" by (rule wr_reach_steps [OF a k, of Call_rLock]) (use nl in simp_all)
  have "wr_reach n (go k Reading (?b\<lparr>wr_word := wr_word s + 2\<rparr>))"
    by (rule wr_reach_steps [OF b k, of Call_rLock]) (simp_all add: wr_cas_def)
  then show ?case using s by (intro exI conjI) (assumption | auto simp: less_Suc_eq)+
qed

text \<open>The count of the readers is not bounded: with \<open>2 ^ 15\<close> readers inside the 16-bit word is
  back at zero, and a writer gets in while all of them read.\<close>

theorem wr_lock_overflow:
  "\<exists>s. wr_reach (2 ^ 15 + 1) s \<and> 2 ^ 15 \<in> writers s \<and> readers s = {0..<2 ^ 15}"
proof -
  let ?k = "2 ^ 15 :: nat"
  obtain s where s: "wr_reach (?k + 1) s" "wr_word s = of_nat (2 * ?k)" "\<forall>t < ?k. wr_pcs s t = Reading"
    "\<forall>t \<ge> ?k. wr_pcs s t = Outside" using readers_come [of ?k "?k + 1"] by auto
  have z: "wr_word s = UNLOCKED" using s(2) by (simp add: UNLOCKED_def)
  have k: "?k < ?k + 1" by simp
  have a: "wr_reach (?k + 1) (go ?k WLockLoad s)"
    by (rule wr_reach_steps [OF s(1) k, of Call_wLock]) (use s(4) in simp_all)
  have b: "wr_reach (?k + 1) (go ?k WLockCas (go ?k WLockLoad s))"
    by (rule wr_reach_steps [OF a k, of Call_wLock]) (use z in simp_all)
  have c: "wr_reach (?k + 1) (go ?k Writing ((go ?k WLockCas (go ?k WLockLoad s))\<lparr>wr_word := LOCKED\<rparr>))"
    by (rule wr_reach_steps [OF b k, of Call_wLock]) (use z in \<open>simp_all add: wr_cas_def\<close>)
  have "reading (wr_pcs s t) \<longleftrightarrow> t < ?k" for t using s(3,4) by (cases "t < ?k") simp_all
  then have "readers s = {0..<?k}" unfolding readers_def by (simp only: atLeast0LessThan lessThan_def)
  moreover have "A - {x} - {x} - {x} = A" if "x \<notin> A" for A and x :: nat using that by blast
  moreover have "?k \<notin> {0..<?k}" by simp
  ultimately have "readers (go ?k Writing ((go ?k WLockCas (go ?k WLockLoad s))\<lparr>wr_word := LOCKED\<rparr>)) = {0..<?k}"
    unfolding readers_go by (simp only: go_simps readers_go reading_simps if_False)
  moreover have "?k \<in> writers (go ?k Writing ((go ?k WLockCas (go ?k WLockLoad s))\<lparr>wr_word := LOCKED\<rparr>))"
    by (simp add: writers_def)
  ultimately show ?thesis using c by blast
qed

end
