(* ===== verification/TreeCheck.thy ===== *)
theory TreeCheck
  imports Example
begin

text \<open>
  The walk of \<^verbatim>\<open>Tree::print_and_check_tree\<close>: down the leftmost pointers to the leaf level,
  then along the siblings. (The code prints nothing any more; the model returns the addresses that
  were read, which is what the arrays and loops of the code are about.) And
  \<^verbatim>\<open>Tree::lock_bench\<close>, one lock and unlock.
\<close>

section \<open>The walk\<close>

text \<open>\<open>lv\<close> are the addresses stored in the array \<^verbatim>\<open>levels\<close>, which has a place for each level.\<close>

fun walk_down :: "nat \<Rightarrow> GlobalAddress \<Rightarrow> GlobalAddress list \<Rightarrow> World
    \<Rightarrow> err + GlobalAddress list \<times> GlobalAddress" where
  "walk_down 0 p lv w = Inl OutOfFuel"
| "walk_down (Suc fuel) p lv w =
     rbind (read_page p w) (\<lambda>pg.
     rbind (require (length lv < kMaxLevelOfTree) OutOfBounds) (\<lambda>_.
     if level (page_hdr pg) \<noteq> 0 then walk_down fuel (leftmost_ptr (page_hdr pg)) (lv @ [p]) w
     else Inr (lv @ [p], p)))"

fun walk_leaves :: "nat \<Rightarrow> GlobalAddress \<Rightarrow> World \<Rightarrow> err + GlobalAddress list" where
  "walk_leaves 0 leaf_head w = Inl OutOfFuel"
| "walk_leaves (Suc fuel) leaf_head w =
     rbind (read_page leaf_head w) (\<lambda>pg.
     rbind (as_leaf pg) (\<lambda>page.
     if sibling_ptr (lp_hdr page) \<noteq> gaddr_null
     then rbind (walk_leaves fuel (sibling_ptr (lp_hdr page)) w) (\<lambda>rest. Inr (leaf_head # rest))
     else Inr [leaf_head]))"

definition print_and_check_tree ::
  "tree_env \<Rightarrow> nat \<Rightarrow> World \<Rightarrow> err + GlobalAddress list \<times> GlobalAddress list" where
  "print_and_check_tree env fuel w =
     (let root = get_root_ptr env w
      in rbind (walk_down fuel root [] w) (\<lambda>(levels, leaf_head).
         rbind (walk_leaves fuel leaf_head w) (\<lambda>leaves. Inr (levels, leaves))))"

definition lock_bench :: "tree_env \<Rightarrow> key \<Rightarrow> World \<Rightarrow> err + World" where
  "lock_bench env k w =
     (let lock_index = unat (city_hash64 env k) mod kNumOfLock;
          lock_addr = \<lparr>nodeID = 0, offset = of_nat (lock_index * 8)\<rparr>
      in rbind (try_lock_addr lock_addr 1 w) (\<lambda>w1. Inr (unlock_addr lock_addr w1)))"

section \<open>The leftmost pages\<close>

lemma level_head:
  assumes "blink m ts" "l < length ts"
  obtains pg where "m (hd (ts ! l)) = Some pg" "page_ok l pg" "lowest (page_hdr pg) = kKeyMin"
    "hd (ts ! l) \<in> set (ts ! l)"
proof -
  have c: "level_chain m l (ts ! l)" using assms by (simp add: blink_def)
  then obtain a as where ts: "ts ! l = a # as" by (cases "ts ! l") (auto simp: level_chain_def)
  with c that show thesis by (auto simp: level_chain_def)
qed

text \<open>A page that starts where its level starts is the first one.\<close>

lemma level_first:
  assumes "blink m ts" "l < length ts" "a \<in> set (ts ! l)" "low m a = kKeyMin"
  shows "a = hd (ts ! l)"
proof -
  have c: "level_chain m l (ts ! l)" using assms by (simp add: blink_def)
  then obtain b as where ts: "ts ! l = b # as" by (cases "ts ! l") (auto simp: level_chain_def)
  show ?thesis
  proof (rule ccontr)
    assume "a \<noteq> hd (ts ! l)"
    then have a: "a \<in> set as" using assms(3) ts by simp
    obtain pg where pg: "page_ok l pg" "seg m l (highest (page_hdr pg)) (sibling_ptr (page_hdr pg)) as kKeyMax gaddr_null"
      using c ts by (auto simp: level_chain_def)
    from seg_bounds [OF pg(2) a] obtain pg' where "m a = Some pg'" "highest (page_hdr pg) \<le> lowest (page_hdr pg')"
      by metis
    then have "highest (page_hdr pg) \<le> kKeyMin" using assms(4) by (simp add: low_def hdr_at_def)
    with page_ok_range [OF pg(1)] show False by (simp add: kKeyMin_def)
  qed
qed

lemma leftmost_head:
  assumes "blink m ts" "Suc l < length ts" "m (hd (ts ! Suc l)) = Some pg"
  shows "leftmost_ptr (page_hdr pg) = hd (ts ! l)"
proof -
  obtain pg' where pg': "m (hd (ts ! Suc l)) = Some pg'" "lowest (page_hdr pg') = kKeyMin" "hd (ts ! Suc l) \<in> set (ts ! Suc l)"
    using level_head [OF assms(1,2)] by metis
  obtain p where p: "m (hd (ts ! Suc l)) = Some (InternalP p)" "kids_ok m (ts ! l) p"
    using blink_kids [OF assms(1,2) pg'(3)] by metis
  then have "pg = InternalP p" "lowest (ip_hdr p) = kKeyMin" using pg' assms(3) by auto
  moreover have "leftmost_ptr (ip_hdr p) \<in> set (ts ! l)" "low m (leftmost_ptr (ip_hdr p)) = lowest (ip_hdr p)"
    using p(2) by (auto simp: kids_ok_def kids_def)
  ultimately show ?thesis using level_first [OF assms(1) Suc_lessD [OF assms(2)]] by simp
qed

lemma page_level_zero: "page_ok l pg \<Longrightarrow> level (page_hdr pg) \<noteq> 0 \<longleftrightarrow> 0 < l"
  by (cases pg) (auto simp: unat_eq_zero [symmetric])

lemma walk_down_heads:
  assumes "blink (mem w) ts"
  shows "l < length ts \<Longrightarrow> l < fuel \<Longrightarrow> length lv + l < kMaxLevelOfTree \<Longrightarrow>
    walk_down fuel (hd (ts ! l)) lv w = Inr (lv @ map (\<lambda>i. hd (ts ! i)) (rev [0..<Suc l]), hd (ts ! 0))"
proof (induction l arbitrary: fuel lv)
  case 0
  obtain n where fuel: "fuel = Suc n" using 0(2) by (cases fuel) auto
  obtain pg where pg: "mem w (hd (ts ! 0)) = Some pg" "page_ok 0 pg" using level_head [OF assms 0(1)] by metis
  with 0(3) page_level_zero [OF pg(2)] show ?case by (simp add: fuel read_page_def require_def)
next
  case (Suc l)
  obtain n where fuel: "fuel = Suc n" using Suc(3) by (cases fuel) auto
  obtain pg where pg: "mem w (hd (ts ! Suc l)) = Some pg" "page_ok (Suc l) pg"
    using level_head [OF assms Suc(2)] by metis
  have "leftmost_ptr (page_hdr pg) = hd (ts ! l)" by (rule leftmost_head [OF assms Suc(2) pg(1)])
  then show ?case using Suc.IH [of n "lv @ [hd (ts ! Suc l)]"] Suc.prems pg page_level_zero [OF pg(2)]
    by (simp add: fuel read_page_def require_def)
qed

lemma walk_leaves_chain:
  "seg (mem w) 0 lo p as hi gaddr_null \<Longrightarrow> as \<noteq> [] \<Longrightarrow> gaddr_null \<notin> set as \<Longrightarrow> length as \<le> fuel \<Longrightarrow>
    walk_leaves fuel p w = Inr as"
proof (induction as arbitrary: lo p fuel)
  case (Cons a as)
  obtain n where fuel: "fuel = Suc n" using Cons.prems(4) by (cases fuel) auto
  obtain pg where pg: "p = a" "mem w a = Some pg" "page_ok 0 pg"
    "seg (mem w) 0 (highest (page_hdr pg)) (sibling_ptr (page_hdr pg)) as hi gaddr_null"
    using Cons.prems(1) by auto
  obtain q where q: "pg = LeafP q" using pg(3) by (cases pg) auto
  show ?case
  proof (cases as)
    case Nil
    then show ?thesis using pg q by (simp add: fuel read_page_def as_leaf_def)
  next
    case two: (Cons b bs)
    then have "sibling_ptr (page_hdr pg) = b" "b \<noteq> gaddr_null" using pg(4) Cons.prems(3) by (auto simp: two)
    then show ?thesis using Cons.IH [OF pg(4)] Cons.prems(3,4) pg q two
      by (simp add: fuel read_page_def as_leaf_def)
  qed
qed simp

text \<open>(C31) The walk returns on a well-formed tree: it goes down by the first page of every
  level, from the root that the node knows, and then reads every leaf exactly once, from left to right;
  the array of levels is large enough.\<close>

theorem check_walk_reads_leaves:
  assumes "sys_ok env ts w" "length (ts ! 0) \<le> fuel" "kMaxLevelOfTree \<le> fuel"
  shows "\<exists>l < length ts. print_and_check_tree env fuel w = Inr (map (\<lambda>i. hd (ts ! i)) (rev [0..<Suc l]), ts ! 0)
    \<and> get_root_ptr env w = hd (ts ! l) \<and> distinct (ts ! 0)"
proof -
  have b: "blink (mem w) ts" and len: "length ts \<le> kMaxLevelOfTree"
    using sys_okD(1) [OF assms(1)] by (auto simp: winv_def)
  obtain l where l: "l < length ts" "get_root_ptr env w = hd (ts ! l)" by (rule root_of_node [OF assms(1)])
  have "walk_down fuel (hd (ts ! l)) [] w = Inr (map (\<lambda>i. hd (ts ! i)) (rev [0..<Suc l]), hd (ts ! 0))"
    using walk_down_heads [OF b l(1), of fuel "[]"] l(1) len assms(3) by simp
  moreover have t0: "0 < length ts" using l(1) by linarith
  then have c: "level_chain (mem w) 0 (ts ! 0)" using b by (simp add: blink_def)
  then have "walk_leaves fuel (hd (ts ! 0)) w = Inr (ts ! 0)"
    using walk_leaves_chain [OF _ _ blink_not_null [OF b t0] assms(2)] unfolding level_chain_def by blast
  moreover have "distinct (ts ! 0)" using c seg_distinct by (auto simp: level_chain_def)
  ultimately show ?thesis using l by (auto simp: print_and_check_tree_def simp del: upt_Suc)
qed

theorem check_walk_reads_leaves_witness:
  "\<exists>a w. sys_ok ex_env [[a]] w \<and> print_and_check_tree ex_env 7 w = Inr ([a], [a])"
proof -
  obtain a w where t: "sys_ok ex_env [[a]] w" by (rule ex_tree)
  from check_walk_reads_leaves [OF t, of 7] t show ?thesis by (auto simp: kMaxLevelOfTree_def)
qed

end
