(* ===== verification/Coroutines.thy ===== *)
theory Coroutines
  imports DsmClaims
begin

text \<open>
  The coroutines of a client thread (\<^verbatim>\<open>Tree::run_coroutine\<close>, \<^verbatim>\<open>Tree::coro_worker\<close>,
  \<^verbatim>\<open>Tree::coro_master\<close>): each worker runs requests; when an operation waits for the
  network, or for its turn at a local lock, it yields to the master, which resumes the worker
  whose completion it polled, and the first one of \<^verbatim>\<open>hot_wait_queue\<close>. The operations appear
  as what they do from one yield to the next; the completions are those of theory \<open>DsmClaims\<close>.
\<close>

section \<open>Workers\<close>

definition LATENCY_WINDOWS :: u64 where "LATENCY_WINDOWS = 1000000"

record Request =
  is_search :: bool
  rq_k :: key
  rq_v :: val

text \<open>How an operation gives control away: it posted a signaled request under its number and
  waits for the completion, it entered itself in the queue of the waiting, or it returned.\<close>

datatype 'o yielding = YieldNet 'o | YieldQueue 'o | Returned

text \<open>A worker that has not started, or where it is suspended, with the time its request began.\<close>

datatype 'o worker = Fresh | Suspended "'o yielding" u64

text \<open>The parameters: the generator of requests, the tree operations cut at their yields
  (\<open>'o\<close> is what is left of one), and the clock in nanoseconds.\<close>

record ('g, 'o, 'w) coro_env =
  gen_next :: "nat \<Rightarrow> 'g \<Rightarrow> Request \<times> 'g"
  begin_search :: "nat \<Rightarrow> key \<Rightarrow> 'o"
  begin_insert :: "nat \<Rightarrow> key \<Rightarrow> val \<Rightarrow> 'o"
  run_on :: "nat \<Rightarrow> 'o \<Rightarrow> 'w \<Rightarrow> 'o yielding \<times> 'w"
  now_ns :: "'w \<Rightarrow> u64"
  cnet :: "'w dsm_net"
  coro_fuel :: nat

record ('g, 'o, 'w) sched =
  gens :: "nat \<Rightarrow> 'g"
  workers :: "nat \<Rightarrow> 'o worker"
  hot_wait_queue :: "nat list"
  latency :: "nat \<Rightarrow> u64"
  rest :: 'w
  resumed :: "nat list"  \<comment> \<open>the calls \<^verbatim>\<open>yield(worker[id])\<close> so far\<close>

text \<open>The end of a request: its time in tenths of microseconds is counted in a histogram.\<close>

definition count_latency :: "('g, 'o, 'w) coro_env \<Rightarrow> u64 \<Rightarrow> ('g, 'o, 'w) sched \<Rightarrow> ('g, 'o, 'w) sched" where
  "count_latency env t s =
     (let us_10 = (now_ns env (rest s) - t) div 100;
          us = (if us_10 \<ge> LATENCY_WINDOWS then LATENCY_WINDOWS - 1 else us_10)
      in s\<lparr>latency := (latency s)(unat us := latency s (unat us) + 1)\<rparr>)"

text \<open>The worker goes on with its operation; when it returns the next request starts, without
  a yield in between.\<close>

fun coro_worker ::
  "('g, 'o, 'w) coro_env \<Rightarrow> nat \<Rightarrow> nat \<Rightarrow> 'o option \<Rightarrow> u64 \<Rightarrow> ('g, 'o, 'w) sched \<Rightarrow> err + ('g, 'o, 'w) sched"
  where
  "coro_worker env 0 i cur t s = Inl OutOfFuel"
| "coro_worker env (Suc fuel) i None t s =
     (case gen_next env i (gens s i) of (r, g) \<Rightarrow>
        let s1 = s\<lparr>gens := (gens s)(i := g)\<rparr>;
            t1 = now_ns env (rest s1)
        in coro_worker env fuel i
             (Some (if is_search r then begin_search env i (rq_k r) else begin_insert env i (rq_k r) (rq_v r))) t1 s1)"
| "coro_worker env (Suc fuel) i (Some cur) t s =
     (case run_on env i cur (rest s) of
        (YieldNet next, w) \<Rightarrow> Inr (s\<lparr>rest := w, workers := (workers s)(i := Suspended (YieldNet next) t)\<rparr>)
      | (YieldQueue next, w) \<Rightarrow> Inr (s\<lparr>rest := w, hot_wait_queue := hot_wait_queue s @ [i],
          workers := (workers s)(i := Suspended (YieldQueue next) t)\<rparr>)
      | (Returned, w) \<Rightarrow> coro_worker env fuel i None t (count_latency env t (s\<lparr>rest := w\<rparr>)))"

text \<open>\<^verbatim>\<open>yield(worker[id])\<close>: there are \<^verbatim>\<open>kMaxCoro\<close> workers.\<close>

definition resume :: "('g, 'o, 'w) coro_env \<Rightarrow> nat \<Rightarrow> ('g, 'o, 'w) sched \<Rightarrow> err + ('g, 'o, 'w) sched" where
  "resume env i s =
     rbind (require (i < kMaxCoro) OutOfBounds) (\<lambda>_.
       let s1 = s\<lparr>resumed := resumed s @ [i]\<rparr>
       in case workers s1 i of
            Fresh \<Rightarrow> coro_worker env (coro_fuel env) i None 0 s1
          | Suspended (YieldNet cur) t \<Rightarrow> coro_worker env (coro_fuel env) i (Some cur) t s1
          | Suspended (YieldQueue cur) t \<Rightarrow> coro_worker env (coro_fuel env) i (Some cur) t s1
          | Suspended Returned t \<Rightarrow> Inl WildAccess)"

section \<open>The master\<close>

fun resume_all :: "('g, 'o, 'w) coro_env \<Rightarrow> nat list \<Rightarrow> ('g, 'o, 'w) sched \<Rightarrow> err + ('g, 'o, 'w) sched" where
  "resume_all env [] s = Inr s"
| "resume_all env (i # is) s = rbind (resume env i s) (resume_all env is)"

text \<open>One turn of the loop that never ends.\<close>

definition master_round :: "('g, 'o, 'w) coro_env \<Rightarrow> ('g, 'o, 'w) sched \<Rightarrow> err + ('g, 'o, 'w) sched" where
  "master_round env s =
     (case poll_rdma_cq_once (cnet env) (rest s) of (ok, next_coro_id, w) \<Rightarrow>
        let s1 = s\<lparr>rest := w\<rparr>
        in rbind (if ok then resume env (unat next_coro_id) s1 else Inr s1) (\<lambda>s2.
           case hot_wait_queue s2 of
             [] \<Rightarrow> Inr s2
           | i # q \<Rightarrow> resume env i (s2\<lparr>hot_wait_queue := q\<rparr>)))"

fun master_rounds :: "('g, 'o, 'w) coro_env \<Rightarrow> nat \<Rightarrow> ('g, 'o, 'w) sched \<Rightarrow> err + ('g, 'o, 'w) sched" where
  "master_rounds env 0 s = Inr s"
| "master_rounds env (Suc k) s = rbind (master_round env s) (master_rounds env k)"

definition coro_master :: "('g, 'o, 'w) coro_env \<Rightarrow> nat \<Rightarrow> nat \<Rightarrow> ('g, 'o, 'w) sched \<Rightarrow> err + ('g, 'o, 'w) sched" where
  "coro_master env coro_cnt k s = rbind (resume_all env [0..<coro_cnt] s) (master_rounds env k)"

text \<open>\<open>k\<close> turns after the start; \<open>func\<close> makes the generators.\<close>

definition run_coroutine ::
  "('g, 'o, 'w) coro_env \<Rightarrow> (nat \<Rightarrow> 'g) \<Rightarrow> nat \<Rightarrow> nat \<Rightarrow> 'w \<Rightarrow> err + ('g, 'o, 'w) sched" where
  "run_coroutine env func coro_cnt k w =
     rbind (assert_that (coro_cnt \<le> kMaxCoro) ''coro_cnt <= kMaxCoro'') (\<lambda>_.
       coro_master env coro_cnt k
         \<lparr>gens = func, workers = (\<lambda>_. Fresh), hot_wait_queue = [], latency = (\<lambda>_. 0), rest = w, resumed = []\<rparr>)"

section \<open>What the master relies on\<close>

text \<open>The device is reliable; a segment of an operation that waits for the network has posted one
  signaled request, under the number of its coroutine, and other segments none; what is
  outstanding does not arrive later because of it; and every operation yields before it
  returns, since it reads a page or takes a lock at least.\<close>

definition coro_ok :: "('g, 'o, 'w) coro_env \<Rightarrow> ('w \<Rightarrow> u64 list) \<Rightarrow> ('w \<Rightarrow> nat) \<Rightarrow> bool" where
  "coro_ok env cq delay \<longleftrightarrow> reliable (cnet env) cq delay \<and> 4 \<le> coro_fuel env
     \<and> (\<forall>i cur w. cq (snd (run_on env i cur w)) = cq w @
          (case fst (run_on env i cur w) of YieldNet _ \<Rightarrow> [of_nat i] | _ \<Rightarrow> []))
     \<and> (\<forall>i cur w. cq w \<noteq> [] \<longrightarrow> delay (snd (run_on env i cur w)) \<le> delay w)
     \<and> (\<forall>i k v w. fst (run_on env i (begin_search env i k) w) \<noteq> Returned
          \<and> fst (run_on env i (begin_insert env i k v) w) \<noteq> Returned)"

lemma coro_okD:
  assumes "coro_ok env cq delay"
  shows "reliable (cnet env) cq delay" "4 \<le> coro_fuel env"
    "cq (snd (run_on env i cur w)) = cq w @ (case fst (run_on env i cur w) of YieldNet _ \<Rightarrow> [of_nat i] | _ \<Rightarrow> [])"
    "cq w \<noteq> [] \<Longrightarrow> delay (snd (run_on env i cur w)) \<le> delay w"
    "fst (run_on env i (begin_search env i k) w) \<noteq> Returned"
    "fst (run_on env i (begin_insert env i k v) w) \<noteq> Returned"
  using assms unfolding coro_ok_def by blast+

text \<open>Every worker waits in exactly one place, the one that its last yield names.\<close>

definition waiting :: "('w \<Rightarrow> u64 list) \<Rightarrow> ('g, 'o, 'w) sched \<Rightarrow> nat list" where
  "waiting cq s = map unat (cq (rest s)) @ hot_wait_queue s"

definition where_suspended :: "('w \<Rightarrow> u64 list) \<Rightarrow> ('g, 'o, 'w) sched \<Rightarrow> bool" where
  "where_suspended cq s \<longleftrightarrow>
     (\<forall>i \<in> set (map unat (cq (rest s))). \<exists>cur t. workers s i = Suspended (YieldNet cur) t)
     \<and> (\<forall>i \<in> set (hot_wait_queue s). \<exists>cur t. workers s i = Suspended (YieldQueue cur) t)"

definition coro_inv :: "('w \<Rightarrow> u64 list) \<Rightarrow> nat set \<Rightarrow> ('g, 'o, 'w) sched \<Rightarrow> bool" where
  "coro_inv cq A s \<longleftrightarrow> distinct (waiting cq s) \<and> set (waiting cq s) = A \<and> where_suspended cq s"

section \<open>One resumption\<close>

text \<open>What changes when worker \<open>i\<close> runs up to its next yield.\<close>

definition yielded :: "('w \<Rightarrow> u64 list) \<Rightarrow> ('w \<Rightarrow> nat) \<Rightarrow> nat \<Rightarrow> ('g, 'o, 'w) sched \<Rightarrow> ('g, 'o, 'w) sched \<Rightarrow> bool"
  where
  "yielded cq delay i s s' \<longleftrightarrow>
     (cq (rest s') = cq (rest s) @ [of_nat i] \<and> hot_wait_queue s' = hot_wait_queue s
        \<and> (\<exists>cur t. workers s' = (workers s)(i := Suspended (YieldNet cur) t))
      \<or> cq (rest s') = cq (rest s) \<and> hot_wait_queue s' = hot_wait_queue s @ [i]
        \<and> (\<exists>cur t. workers s' = (workers s)(i := Suspended (YieldQueue cur) t)))
     \<and> (cq (rest s) \<noteq> [] \<longrightarrow> delay (rest s') \<le> delay (rest s))"

lemma yielded_cong:
  "hot_wait_queue s1 = hot_wait_queue s \<Longrightarrow> workers s1 = workers s \<Longrightarrow> cq (rest s1) = cq (rest s) \<Longrightarrow>
   (cq (rest s) \<noteq> [] \<longrightarrow> delay (rest s1) \<le> delay (rest s)) \<Longrightarrow> yielded cq delay i s1 s' \<Longrightarrow> yielded cq delay i s s'"
  unfolding yielded_def by auto

lemma count_latency_simps [simp]:
  "gens (count_latency env t s) = gens s" "workers (count_latency env t s) = workers s"
  "hot_wait_queue (count_latency env t s) = hot_wait_queue s" "rest (count_latency env t s) = rest s"
  "resumed (count_latency env t s) = resumed s"
  by (simp_all add: count_latency_def Let_def)

lemma worker_yields:
  assumes ok: "coro_ok env cq delay" and run: "fst (run_on env i cur (rest s)) \<noteq> Returned"
  shows "\<exists>s'. coro_worker env (Suc n) i (Some cur) t s = Inr s' \<and> yielded cq delay i s s' \<and> resumed s' = resumed s"
proof -
  obtain y w where r: "run_on env i cur (rest s) = (y, w)" by (cases "run_on env i cur (rest s)")
  note d = coro_okD(3) [OF ok, of i cur "rest s"] coro_okD(4) [OF ok, of "rest s" i cur]
  show ?thesis
  proof (cases y)
    case (YieldNet left)
    then show ?thesis using r d by (auto simp: yielded_def)
  next
    case (YieldQueue left)
    then show ?thesis using r d by (auto simp: yielded_def)
  qed (use run r in simp)
qed

lemma worker_starts:
  assumes ok: "coro_ok env cq delay"
  shows "\<exists>s'. coro_worker env (Suc (Suc n)) i None t s = Inr s' \<and> yielded cq delay i s s' \<and> resumed s' = resumed s"
proof -
  obtain r g where r: "gen_next env i (gens s i) = (r, g)" by (cases "gen_next env i (gens s i)")
  let ?s = "s\<lparr>gens := (gens s)(i := g)\<rparr>"
  let ?op = "if is_search r then begin_search env i (rq_k r) else begin_insert env i (rq_k r) (rq_v r)"
  have "fst (run_on env i ?op (rest ?s)) \<noteq> Returned" using coro_okD(5,6) [OF ok] by simp
  from worker_yields [OF ok this, of n "now_ns env (rest ?s)"] obtain s' where
    "coro_worker env (Suc n) i (Some ?op) (now_ns env (rest ?s)) ?s = Inr s'" "yielded cq delay i ?s s'" "resumed s' = resumed s"
    by auto
  then show ?thesis using r by (auto simp: yielded_def)
qed

lemma worker_goes_on:
  assumes ok: "coro_ok env cq delay"
  shows "\<exists>s'. coro_worker env (Suc (Suc (Suc n))) i (Some cur) t s = Inr s' \<and> yielded cq delay i s s'
    \<and> resumed s' = resumed s"
proof (cases "fst (run_on env i cur (rest s)) = Returned")
  case False
  then show ?thesis by (rule worker_yields [OF ok])
next
  case True
  then obtain w where r: "run_on env i cur (rest s) = (Returned, w)" by (cases "run_on env i cur (rest s)") auto
  let ?s = "count_latency env t (s\<lparr>rest := w\<rparr>)"
  obtain s' where s': "coro_worker env (Suc (Suc n)) i None t ?s = Inr s'" "yielded cq delay i ?s s'"
    "resumed s' = resumed s" using worker_starts [OF ok, of n i t ?s] by auto
  have "yielded cq delay i s s'"
    by (rule yielded_cong [OF _ _ _ _ s'(2)])
      (use coro_okD(3) [OF ok, of i cur "rest s"] coro_okD(4) [OF ok, of "rest s" i cur] r in simp_all)
  then show ?thesis using r s' by auto
qed

definition resumable :: "('g, 'o, 'w) sched \<Rightarrow> nat \<Rightarrow> bool" where
  "resumable s i \<longleftrightarrow> i < kMaxCoro \<and> (\<forall>t. workers s i \<noteq> Suspended Returned t)"

lemma resume_ok:
  assumes ok: "coro_ok env cq delay" and i: "resumable s i"
  shows "\<exists>s'. resume env i s = Inr s' \<and> yielded cq delay i s s' \<and> resumed s' = resumed s @ [i]"
proof -
  obtain n where n: "coro_fuel env = Suc (Suc (Suc n))"
  proof -
    have "coro_fuel env = Suc (Suc (Suc (coro_fuel env - 3)))" using coro_okD(2) [OF ok] by simp
    then show thesis by (rule that)
  qed
  let ?s = "s\<lparr>resumed := resumed s @ [i]\<rparr>"
  have same: "yielded cq delay i ?s s' \<Longrightarrow> yielded cq delay i s s'" for s'
    by (simp add: yielded_def)
  show ?thesis
  proof (cases "workers s i")
    case Fresh
    obtain s' where "coro_worker env (coro_fuel env) i None 0 ?s = Inr s'" "yielded cq delay i ?s s'"
      "resumed s' = resumed ?s" using worker_starts [OF ok, of "Suc n" i 0 ?s] n by auto
    with i Fresh same show ?thesis by (auto simp: resume_def resumable_def require_def)
  next
    case (Suspended y t)
    obtain cur where y: "y = YieldNet cur \<or> y = YieldQueue cur"
      using i Suspended by (cases y) (auto simp: resumable_def)
    obtain s' where "coro_worker env (coro_fuel env) i (Some cur) t ?s = Inr s'" "yielded cq delay i ?s s'"
      "resumed s' = resumed ?s" using worker_goes_on [OF ok, of n i cur t ?s] n by auto
    with i Suspended y same show ?thesis by (auto simp: resume_def resumable_def require_def)
  qed
qed

text \<open>The invariant comes back when a worker that was taken out yields again.\<close>

lemma unat_coro: "i < kMaxCoro \<Longrightarrow> unat (of_nat i :: u64) = i"
  by (simp add: kMaxCoro_def unat_of_nat)

lemma yielded_inv:
  assumes inv: "coro_inv cq A s" and y: "yielded cq delay i s s'" and i: "i \<notin> A" "i < kMaxCoro"
  shows "coro_inv cq (insert i A) s'"
proof -
  have other: "j \<noteq> i" if "j \<in> set (waiting cq s)" for j using that inv i(1) by (auto simp: coro_inv_def)
  note u = unat_coro [OF i(2)]
  show ?thesis using y unfolding yielded_def
  proof (elim conjE disjE exE)
    fix cur t
    assume "cq (rest s') = cq (rest s) @ [of_nat i]" "hot_wait_queue s' = hot_wait_queue s"
      "workers s' = (workers s)(i := Suspended (YieldNet cur) t)"
    then show ?thesis using inv i other u by (auto simp: coro_inv_def waiting_def where_suspended_def)
  next
    fix cur t
    assume "cq (rest s') = cq (rest s)" "hot_wait_queue s' = hot_wait_queue s @ [i]"
      "workers s' = (workers s)(i := Suspended (YieldQueue cur) t)"
    then show ?thesis using inv i other u by (auto simp: coro_inv_def waiting_def where_suspended_def)
  qed
qed

section \<open>One turn of the master\<close>

lemma poll_once_cases:
  assumes "reliable net cq delay"
  obtains (none) w x where "poll_rdma_cq_once net q = (False, x, w)" "cq w = cq q" "cq q = [] \<or> delay w < delay q"
  | (some) w x where "poll_rdma_cq_once net q = (True, x, w)" "cq q = x # cq w"
proof -
  obtain c e w where p: "net_poll net q = (c, e, w)" by (metis prod_cases3)
  from reliableD(3) [OF assms p] show thesis
  proof
    assume "c = 0 \<and> cq w = cq q \<and> (cq q = [] \<or> delay w < delay q)"
    with p show thesis by (intro none [of "wc_wr_id e" w]) (simp_all add: poll_rdma_cq_once_def pollOnce_def)
  next
    assume "c = 1 \<and> wc_success e \<and> cq q = wc_wr_id e # cq w"
    with p show thesis by (intro some [of "wc_wr_id e" w]) (simp_all add: poll_rdma_cq_once_def pollOnce_def)
  qed
qed

lemma take_completion:
  assumes "coro_inv cq A s" "cq (rest s) = x # cq w"
  shows "coro_inv cq (A - {unat x}) (s\<lparr>rest := w\<rparr>)" "unat x \<in> A"
    "\<exists>cur t. workers s (unat x) = Suspended (YieldNet cur) t"
  using assms by (auto simp: coro_inv_def waiting_def where_suspended_def)

lemma take_queued:
  assumes "coro_inv cq A s" "hot_wait_queue s = i # q"
  shows "coro_inv cq (A - {i}) (s\<lparr>hot_wait_queue := q\<rparr>)" "i \<in> A"
    "\<exists>cur t. workers s i = Suspended (YieldQueue cur) t"
  using assms by (auto simp: coro_inv_def waiting_def where_suspended_def)

text \<open>Where worker \<open>i\<close> stands: \<open>p\<close> others are before it in the queue, or the completions before
  it and the polls that may find nothing add up to \<open>p\<close>.\<close>

definition in_queue :: "('g, 'o, 'w) sched \<Rightarrow> nat \<Rightarrow> nat \<Rightarrow> bool" where
  "in_queue s i p \<longleftrightarrow> (\<exists>xs ys. hot_wait_queue s = xs @ i # ys \<and> length xs = p)"

definition in_flight ::
  "('w \<Rightarrow> u64 list) \<Rightarrow> ('w \<Rightarrow> nat) \<Rightarrow> nat \<Rightarrow> ('g, 'o, 'w) sched \<Rightarrow> nat \<Rightarrow> nat \<Rightarrow> bool" where
  "in_flight cq delay F s i p \<longleftrightarrow>
     (\<exists>xs ys. map unat (cq (rest s)) = xs @ i # ys \<and> length xs * F + delay (rest s) \<le> p)"

lemma yielded_place:
  assumes "yielded cq delay j s s'"
  shows "in_queue s i p \<Longrightarrow> in_queue s' i p" "in_flight cq delay F s i p \<Longrightarrow> in_flight cq delay F s' i p"
proof -
  show "in_queue s' i p" if q: "in_queue s i p"
  proof -
    obtain xs ys where xs: "hot_wait_queue s = xs @ i # ys" "length xs = p" using q by (auto simp: in_queue_def)
    then have "\<exists>zs. hot_wait_queue s' = xs @ i # zs" using assms unfolding yielded_def by auto
    then show ?thesis using xs(2) by (auto simp: in_queue_def)
  qed
  show "in_flight cq delay F s' i p" if fl: "in_flight cq delay F s i p"
  proof -
    obtain xs ys where xs: "map unat (cq (rest s)) = xs @ i # ys" "length xs * F + delay (rest s) \<le> p"
      using fl by (auto simp: in_flight_def)
    have "delay (rest s') \<le> delay (rest s)" using assms xs(1) by (auto simp: yielded_def)
    moreover have "\<exists>zs. map unat (cq (rest s')) = xs @ i # zs" using assms xs(1) unfolding yielded_def by auto
    ultimately show ?thesis using xs(2) by (auto simp: in_flight_def)
  qed
qed

lemma round_first_half:
  assumes ok: "coro_ok env cq delay" and inv: "coro_inv cq A s" and A: "A \<subseteq> {0..<kMaxCoro}"
    and p: "poll_rdma_cq_once (cnet env) (rest s) = (b, x, w)"
  shows "\<exists>s2 js. (if b then resume env (unat x) (s\<lparr>rest := w\<rparr>) else Inr (s\<lparr>rest := w\<rparr>)) = Inr s2
    \<and> coro_inv cq A s2 \<and> resumed s2 = resumed s @ js
    \<and> (\<forall>i p. in_queue s i p \<longrightarrow> in_queue s2 i p)
    \<and> (\<forall>i p. in_flight cq delay (net_fuel (cnet env)) s i p \<longrightarrow>
        i \<in> set js \<or> 0 < p \<and> in_flight cq delay (net_fuel (cnet env)) s2 i (p - 1))"
proof (rule poll_once_cases [OF coro_okD(1) [OF ok], of "rest s"])
  fix w' x' assume n: "poll_rdma_cq_once (cnet env) (rest s) = (False, x', w')" "cq w' = cq (rest s)"
    "cq (rest s) = [] \<or> delay w' < delay (rest s)"
  then have "coro_inv cq A (s\<lparr>rest := w'\<rparr>)" using inv by (simp add: coro_inv_def waiting_def where_suspended_def)
  moreover have "0 < p \<and> in_flight cq delay F (s\<lparr>rest := w'\<rparr>) i (p - 1)" if fl: "in_flight cq delay F s i p" for F i p
  proof -
    obtain xs ys where xs: "map unat (cq (rest s)) = xs @ i # ys" "length xs * F + delay (rest s) \<le> p"
      using fl by (auto simp: in_flight_def)
    then have "length xs * F + delay w' < p" using n(3) by auto
    then show ?thesis using xs(1) n(2) by (auto simp: in_flight_def)
  qed
  ultimately show ?thesis using n(1) p by (intro exI [of _ "s\<lparr>rest := w'\<rparr>"] exI [of _ "[]"]) (simp add: in_queue_def)
next
  fix w' x' assume c: "poll_rdma_cq_once (cnet env) (rest s) = (True, x', w')" "cq (rest s) = x' # cq w'"
  let ?j = "unat x'" and ?s = "s\<lparr>rest := w'\<rparr>" and ?F = "net_fuel (cnet env)"
  note t = take_completion [OF inv c(2)]
  have "resumable ?s ?j" using t(2,3) A by (auto simp: resumable_def)
  from resume_ok [OF ok this] obtain s2 where s2: "resume env ?j ?s = Inr s2" "yielded cq delay ?j ?s s2"
    "resumed s2 = resumed s @ [?j]" by auto
  have inv2: "coro_inv cq A s2"
    using yielded_inv [OF t(1) s2(2)] t(2) A by (auto simp: insert_absorb)
  have q: "in_queue s2 i p" if "in_queue s i p" for i p
    by (rule yielded_place(1) [OF s2(2)]) (use that in \<open>simp add: in_queue_def\<close>)
  have "i \<in> set [?j] \<or> 0 < p \<and> in_flight cq delay ?F s2 i (p - 1)" if fl: "in_flight cq delay ?F s i p" for i p
  proof (cases "i = ?j")
    case False
    obtain xs ys where xs: "map unat (cq (rest s)) = xs @ i # ys" "length xs * ?F + delay (rest s) \<le> p"
      using fl by (auto simp: in_flight_def)
    obtain zs where zs: "xs = ?j # zs" "map unat (cq w') = zs @ i # ys" using xs(1) c(2) False by (cases xs) auto
    have "delay w' < ?F" using reliableD(2) [OF coro_okD(1) [OF ok]] by blast
    then have "length zs * ?F + delay w' < p" using xs(2) zs(1) by simp
    then have "0 < p \<and> in_flight cq delay ?F ?s i (p - 1)" using zs(2) by (auto simp: in_flight_def)
    then show ?thesis using yielded_place(2) [OF s2(2)] by blast
  qed simp
  then show ?thesis using s2 inv2 q c(1) p by (intro exI [of _ s2] exI [of _ "[?j]"]) simp
qed

lemma round_ok:
  assumes ok: "coro_ok env cq delay" and inv: "coro_inv cq A s" and A: "A \<subseteq> {0..<kMaxCoro}"
  shows "\<exists>s' js. master_round env s = Inr s' \<and> coro_inv cq A s' \<and> resumed s' = resumed s @ js
    \<and> (\<forall>i p. in_queue s i p \<longrightarrow> i \<in> set js \<or> 0 < p \<and> in_queue s' i (p - 1))
    \<and> (\<forall>i p. in_flight cq delay (net_fuel (cnet env)) s i p \<longrightarrow>
        i \<in> set js \<or> 0 < p \<and> in_flight cq delay (net_fuel (cnet env)) s' i (p - 1))"
proof -
  let ?F = "net_fuel (cnet env)"
  obtain b x w where p: "poll_rdma_cq_once (cnet env) (rest s) = (b, x, w)" by (metis prod_cases3)
  obtain s2 js where s2: "(if b then resume env (unat x) (s\<lparr>rest := w\<rparr>) else Inr (s\<lparr>rest := w\<rparr>)) = Inr s2"
    and inv2: "coro_inv cq A s2" and js: "resumed s2 = resumed s @ js"
    and q2: "\<And>i p. in_queue s i p \<Longrightarrow> in_queue s2 i p"
    and f2: "\<And>i p. in_flight cq delay ?F s i p \<Longrightarrow> i \<in> set js \<or> 0 < p \<and> in_flight cq delay ?F s2 i (p - 1)"
    using round_first_half [OF ok inv A p] by blast
  show ?thesis
  proof (cases "hot_wait_queue s2")
    case Nil
    then have "master_round env s = Inr s2" using p s2 by (simp add: master_round_def Let_def)
    moreover have "\<not> in_queue s i p" for i p using q2 [of i p] Nil by (auto simp: in_queue_def)
    ultimately show ?thesis using inv2 js f2 by blast
  next
    case (Cons j q)
    let ?s = "s2\<lparr>hot_wait_queue := q\<rparr>"
    note t = take_queued [OF inv2 Cons]
    have "resumable ?s j" using t(2,3) A by (auto simp: resumable_def)
    from resume_ok [OF ok this] obtain s3 where s3: "resume env j ?s = Inr s3" "yielded cq delay j ?s s3"
      "resumed s3 = resumed s2 @ [j]" by auto
    have "master_round env s = Inr s3" using p s2 s3(1) Cons by (simp add: master_round_def Let_def)
    moreover have "coro_inv cq A s3" using yielded_inv [OF t(1) s3(2)] t(2) A by (auto simp: insert_absorb)
    moreover have "resumed s3 = resumed s @ (js @ [j])" using s3(3) js by simp
    moreover have "i \<in> set (js @ [j]) \<or> 0 < p \<and> in_queue s3 i (p - 1)" if iq: "in_queue s i p" for i p
    proof (cases "i = j")
      case False
      obtain xs ys where xs: "hot_wait_queue s2 = xs @ i # ys" "length xs = p"
        using q2 [OF iq] by (auto simp: in_queue_def)
      then obtain zs where "xs = j # zs" "q = zs @ i # ys" using Cons False by (cases xs) auto
      then have "0 < p" "in_queue ?s i (p - 1)" using xs(2) by (auto simp: in_queue_def)
      then show ?thesis using yielded_place(1) [OF s3(2)] by blast
    qed simp
    moreover have "i \<in> set (js @ [j]) \<or> 0 < p \<and> in_flight cq delay ?F s3 i (p - 1)" if "in_flight cq delay ?F s i p" for i p
      using f2 [OF that] yielded_place(2) [OF s3(2), of ?F i "p - 1"] by (auto simp: in_flight_def)
    ultimately show ?thesis by blast
  qed
qed

end
