(* ===== verification/CoroClaims.thy ===== *)
theory CoroClaims
  imports Coroutines
begin

text \<open>
  The coroutines as properties: every worker waits in one place at any time and is resumed for
  its own completion or its own turn, no worker starves, and what a failing completion does.
\<close>

section \<open>From the start\<close>

lemma resume_all_ok:
  assumes ok: "coro_ok env cq delay"
  shows "coro_inv cq A s \<Longrightarrow> distinct is \<Longrightarrow> set is \<inter> A = {} \<Longrightarrow> set is \<subseteq> {0..<kMaxCoro}
      \<Longrightarrow> \<forall>i \<in> set is. workers s i = Fresh
    \<Longrightarrow> \<exists>s'. resume_all env is s = Inr s' \<and> coro_inv cq (A \<union> set is) s'"
proof (induction "is" arbitrary: s A)
  case (Cons i "is")
  have i: "resumable s i" "i \<notin> A" "i < kMaxCoro" using Cons.prems by (auto simp: resumable_def)
  obtain s1 where s1: "resume env i s = Inr s1" "yielded cq delay i s s1" using resume_ok [OF ok i(1)] by blast
  have "coro_inv cq (insert i A) s1" by (rule yielded_inv [OF Cons.prems(1) s1(2) i(2,3)])
  moreover have "workers s1 j = Fresh" if "j \<in> set is" for j
  proof -
    have "j \<noteq> i" "workers s j = Fresh" using Cons.prems(2,5) that by auto
    then show ?thesis using s1(2) unfolding yielded_def by (metis fun_upd_other)
  qed
  ultimately show ?case using Cons.IH [of "insert i A" s1] Cons.prems s1(1) by auto
qed simp

lemma rounds_ok:
  assumes ok: "coro_ok env cq delay" and A: "A \<subseteq> {0..<kMaxCoro}"
  shows "coro_inv cq A s \<Longrightarrow> \<exists>s' js. master_rounds env k s = Inr s' \<and> coro_inv cq A s' \<and> resumed s' = resumed s @ js
    \<and> (\<forall>i p. p < k \<longrightarrow> in_queue s i p \<or> in_flight cq delay (net_fuel (cnet env)) s i p \<longrightarrow> i \<in> set js)"
proof (induction k arbitrary: s)
  case (Suc k)
  let ?F = "net_fuel (cnet env)"
  obtain s1 js where 1: "master_round env s = Inr s1" "coro_inv cq A s1" "resumed s1 = resumed s @ js"
    "\<And>i p. in_queue s i p \<Longrightarrow> i \<in> set js \<or> 0 < p \<and> in_queue s1 i (p - 1)"
    "\<And>i p. in_flight cq delay ?F s i p \<Longrightarrow> i \<in> set js \<or> 0 < p \<and> in_flight cq delay ?F s1 i (p - 1)"
    using round_ok [OF ok Suc.prems A] by blast
  obtain s2 ls where 2: "master_rounds env k s1 = Inr s2" "coro_inv cq A s2" "resumed s2 = resumed s1 @ ls"
    "\<And>i p. p < k \<Longrightarrow> in_queue s1 i p \<or> in_flight cq delay ?F s1 i p \<Longrightarrow> i \<in> set ls"
    using Suc.IH [OF 1(2)] by blast
  have "i \<in> set (js @ ls)" if "p < Suc k" "in_queue s i p \<or> in_flight cq delay ?F s i p" for i p
  proof -
    have "i \<in> set js \<or> 0 < p \<and> (in_queue s1 i (p - 1) \<or> in_flight cq delay ?F s1 i (p - 1))"
      using that(2) 1(4,5) by blast
    moreover have "p - 1 < k" if "0 < p" using that \<open>p < Suc k\<close> by linarith
    ultimately show ?thesis using 2(4) [of "p - 1" i] by auto
  qed
  moreover have "master_rounds env (Suc k) s = Inr s2" "resumed s2 = resumed s @ (js @ ls)" using 1 2 by simp_all
  ultimately show ?case using 2(2) by blast
qed simp

lemma master_rounds_add: "master_rounds env (j + k) = (\<lambda>s. rbind (master_rounds env j s) (master_rounds env k))"
proof (induction j)
  case (Suc j)
  show ?case by (rule ext) (simp add: Suc rbind_assoc)
qed (simp add: fun_eq_iff)

lemma run_coroutine_inv:
  assumes ok: "coro_ok env cq delay" and n: "n \<le> kMaxCoro" and w: "cq w = []"
  shows "\<exists>s. run_coroutine env func n k w = Inr s \<and> coro_inv cq {0..<n} s"
    "run_coroutine env func n (k + j) w = rbind (run_coroutine env func n k w) (master_rounds env j)"
proof -
  let ?s = "\<lparr>gens = func, workers = (\<lambda>_. Fresh), hot_wait_queue = [], latency = (\<lambda>_. 0), rest = w, resumed = []\<rparr>"
  have "coro_inv cq {} ?s" using w by (simp add: coro_inv_def waiting_def where_suspended_def)
  then obtain s1 where s1: "resume_all env [0..<n] ?s = Inr s1" "coro_inv cq {0..<n} s1"
    using resume_all_ok [OF ok, of "{}" ?s "[0..<n]"] n by auto
  have A: "{0..<n} \<subseteq> {0..<kMaxCoro}" using n by auto
  show "\<exists>s. run_coroutine env func n k w = Inr s \<and> coro_inv cq {0..<n} s"
    using rounds_ok [OF ok A s1(2), of k] s1(1) n by (auto simp: run_coroutine_def coro_master_def require_def)
  show "run_coroutine env func n (k + j) w = rbind (run_coroutine env func n k w) (master_rounds env j)"
    using n by (simp add: run_coroutine_def coro_master_def require_def master_rounds_add rbind_assoc)
qed

section \<open>Properties\<close>

text \<open>(C32) Coroutines, safety: after the start and any number of turns of the master each of the
  workers waits in exactly one place, either for a completion that is outstanding under its number,
  or in the queue; and where it is suspended agrees with that, so that the master resumes a worker
  that waits for the network only with its own completion, and one that waits for a lock only from the queue.\<close>

theorem coro_waits_in_one_place:
  assumes "coro_ok env cq delay" "n \<le> kMaxCoro" "cq w = []"
  shows "\<exists>s. run_coroutine env func n k w = Inr s
    \<and> distinct (map unat (cq (rest s)) @ hot_wait_queue s)
    \<and> set (map unat (cq (rest s))) \<union> set (hot_wait_queue s) = {0..<n}
    \<and> (\<forall>i < n. (i \<in> set (map unat (cq (rest s))) \<longleftrightarrow> (\<exists>cur t. workers s i = Suspended (YieldNet cur) t))
      \<and> (i \<in> set (hot_wait_queue s) \<longleftrightarrow> (\<exists>cur t. workers s i = Suspended (YieldQueue cur) t)))"
proof -
  obtain s where s: "run_coroutine env func n k w = Inr s" "coro_inv cq {0..<n} s"
    using run_coroutine_inv(1) [OF assms] by blast
  have all: "set (map unat (cq (rest s))) \<union> set (hot_wait_queue s) = {0..<n}"
    and at: "\<And>i. i \<in> set (map unat (cq (rest s))) \<Longrightarrow> \<exists>cur t. workers s i = Suspended (YieldNet cur) t"
      "\<And>i. i \<in> set (hot_wait_queue s) \<Longrightarrow> \<exists>cur t. workers s i = Suspended (YieldQueue cur) t"
    using s(2) by (auto simp: coro_inv_def waiting_def where_suspended_def)
  have "(i \<in> set (map unat (cq (rest s))) \<longleftrightarrow> (\<exists>cur t. workers s i = Suspended (YieldNet cur) t))
      \<and> (i \<in> set (hot_wait_queue s) \<longleftrightarrow> (\<exists>cur t. workers s i = Suspended (YieldQueue cur) t))" if "i < n" for i
  proof -
    have "i \<in> set (map unat (cq (rest s))) \<or> i \<in> set (hot_wait_queue s)" using all that by auto
    then show ?thesis using at [of i] by (metis worker.inject yielding.distinct(1))
  qed
  then show ?thesis using s all by (auto simp: coro_inv_def waiting_def)
qed

text \<open>A small instance: a search reads two pages, an insert waits for its turn first.\<close>

definition ex_coro :: "(nat, nat, u64 list) coro_env" where
  "ex_coro = \<lparr>gen_next = (\<lambda>i g. (\<lparr>is_search = even g, rq_k = of_nat i, rq_v = 1\<rparr>, Suc g)),
     begin_search = (\<lambda>i k. 2), begin_insert = (\<lambda>i k v. 3),
     run_on = (\<lambda>i cur w. if cur = 0 then (Returned, w) else if cur = 3 then (YieldQueue 2, w)
       else (YieldNet (cur - 1), snd (rdmaRead (net_post prompt_net 0) 0 0 1024 0 0 True (of_nat i) w))),
     now_ns = (\<lambda>_. 0), cnet = prompt_net, coro_fuel = 4\<rparr>"

lemma ex_coro_ok: "coro_ok ex_coro (\<lambda>w. w) (\<lambda>_. 0)"
  using prompt_net_reliable issue_cq(1) [OF prompt_net_reliable] by (simp add: coro_ok_def ex_coro_def)

theorem coro_waits_in_one_place_witness:
  "\<exists>s. run_coroutine ex_coro (\<lambda>_. 0) 8 100 [] = Inr s \<and> set (map unat (rest s)) \<union> set (hot_wait_queue s) = {0..<8}"
  using coro_waits_in_one_place [OF ex_coro_ok, of 8 "[]" "\<lambda>_. 0" 100] by (auto simp: kMaxCoro_def)



text \<open>A completion with an error status is dropped: the master takes it from the queue and resumes
  nobody, so that when the device only gives such completions (or none) every worker that waits
  for the network stays suspended for ever.\<close>

theorem coro_failure_hangs:
  assumes "\<forall>q. case net_poll (cnet env) q of (c, e, q') \<Rightarrow> c \<le> 0 \<or> c = 1 \<and> \<not> wc_success e"
    and "hot_wait_queue s = []"
  shows "\<exists>s'. master_rounds env k s = Inr s' \<and> resumed s' = resumed s \<and> workers s' = workers s"
  using assms(2)
proof (induction k arbitrary: s)
  case (Suc k)
  obtain c e w where p: "net_poll (cnet env) (rest s) = (c, e, w)" by (metis prod_cases3)
  have "c \<le> 0 \<or> c = 1 \<and> \<not> wc_success e" using spec [OF assms(1), of "rest s"] p by simp
  then have "poll_rdma_cq_once (cnet env) (rest s) = (False, wc_wr_id e, w)"
    using p by (auto simp: poll_rdma_cq_once_def pollOnce_def)
  then have "master_round env s = Inr (s\<lparr>rest := w\<rparr>)" using Suc.prems by (simp add: master_round_def Let_def)
  with Suc.IH [of "s\<lparr>rest := w\<rparr>"] Suc.prems show ?case by simp
qed simp

definition failing_coro :: "(nat, nat, u64 list) coro_env" where
  "failing_coro = ex_coro\<lparr>cnet := prompt_net\<lparr>net_poll := (\<lambda>q. case q of
       [] \<Rightarrow> (0, \<lparr>wc_success = True, wc_wr_id = 0\<rparr>, [])
     | x # xs \<Rightarrow> (1, \<lparr>wc_success = False, wc_wr_id = x\<rparr>, xs))\<rparr>\<rparr>"

theorem coro_failure_hangs_witness:
  "\<exists>s'. master_rounds failing_coro 1000 \<lparr>gens = (\<lambda>_. 0), workers = (\<lambda>_. Suspended (YieldNet 1) 0),
      hot_wait_queue = [], latency = (\<lambda>_. 0), rest = [0], resumed = [0]\<rparr> = Inr s' \<and> resumed s' = [0]"
proof -
  have poll: "\<forall>q. case net_poll (cnet failing_coro) q of (c, e, q') \<Rightarrow> c \<le> 0 \<or> c = 1 \<and> \<not> wc_success e"
    by (simp add: failing_coro_def split: list.split)
  from coro_failure_hangs [OF poll, of "\<lparr>gens = (\<lambda>_. 0), workers = (\<lambda>_. Suspended (YieldNet 1) 0),
      hot_wait_queue = [], latency = (\<lambda>_. 0), rest = [0], resumed = [0]\<rparr>" 1000]
  show ?thesis by auto
qed

end
