(* ===== verification/QueuePairs.thy ===== *)
theory QueuePairs
  imports Verbs
begin

text \<open>
  \<^verbatim>\<open>src/rdma/StateTrans.cpp\<close>: the attributes with which each kind of queue pair is taken
  through its states, and the address attributes of \<^verbatim>\<open>fillAhAttr\<close>. The call
  \<^verbatim>\<open>ibv_modify_qp\<close> is the parameter \<open>modify\<close>; what the verbs library documents about it (which
  attributes each transition takes) is the hypothesis \<open>modifies_qps\<close>.
\<close>

section \<open>Attributes\<close>

definition PSN :: u32 where "PSN = 3185"
definition DCT_ACCESS_KEY :: u64 where "DCT_ACCESS_KEY = 3185"

datatype qp_type = QPT_RC | QPT_UC | QPT_UD | QPT_RAW_PACKET | EXP_QPT_DC_INI

datatype qp_state = QPS_RESET | QPS_INIT | QPS_RTR | QPS_RTS

datatype access = ACCESS_LOCAL_WRITE | ACCESS_REMOTE_WRITE | ACCESS_REMOTE_READ | ACCESS_REMOTE_ATOMIC

datatype qp_mask = QP_STATE | QP_PKEY_INDEX | QP_PORT | QP_ACCESS_FLAGS | QP_QKEY | QP_AV | QP_PATH_MTU
  | QP_DEST_QPN | QP_RQ_PSN | QP_MAX_DEST_RD_ATOMIC | QP_MIN_RNR_TIMER | QP_SQ_PSN | QP_TIMEOUT
  | QP_RETRY_CNT | QP_RNR_RETRY | QP_MAX_QP_RD_ATOMIC | QP_DC_KEY

type_synonym gid = "u8 list"

text \<open>\<^verbatim>\<open>RdmaContext\<close>: an opened device with a protection domain; null pointers are \<open>None\<close>.\<close>

record RdmaContext =
  rc_devIndex :: u8
  rc_port :: u8
  rc_gidIndex :: int
  rc_ctx :: "nat option"
  rc_pd :: "nat option"
  rc_lid :: u16
  rc_gid :: gid

record ah_attr =
  dlid :: u16
  sl :: u8
  src_path_bits :: u8
  ah_port_num :: u8
  is_global :: bool
  dgid :: gid
  flow_label :: u32
  hop_limit :: u8
  sgid_index :: u8
  traffic_class :: u8

definition zero_ah :: ah_attr where
  "zero_ah = \<lparr>dlid = 0, sl = 0, src_path_bits = 0, ah_port_num = 0, is_global = False,
     dgid = replicate 16 0, flow_label = 0, hop_limit = 0, sgid_index = 0, traffic_class = 0\<rparr>"

definition fillAhAttr :: "u32 \<Rightarrow> gid \<Rightarrow> RdmaContext \<Rightarrow> ah_attr" where
  "fillAhAttr remoteLid remoteGid context =
     zero_ah\<lparr>dlid := ucast remoteLid, sl := 0, src_path_bits := 0, ah_port_num := rc_port context,
       is_global := True, dgid := take 16 remoteGid, flow_label := 0, hop_limit := 1,
       sgid_index := of_int (rc_gidIndex context), traffic_class := 0\<rparr>"

record qp_attr =
  at_state :: qp_state
  at_port_num :: u8
  at_pkey_index :: u16
  at_access :: "access set"
  at_qkey :: u32
  at_path_mtu :: nat
  at_dest_qp_num :: u32
  at_rq_psn :: u32
  at_sq_psn :: u32
  at_ah :: ah_attr
  at_max_dest_rd_atomic :: u8
  at_min_rnr_timer :: u8
  at_timeout :: u8
  at_retry_cnt :: u8
  at_rnr_retry :: u8
  at_max_rd_atomic :: u8
  at_dct_key :: u64

definition zero_attr :: qp_attr where
  "zero_attr = \<lparr>at_state = QPS_RESET, at_port_num = 0, at_pkey_index = 0, at_access = {}, at_qkey = 0,
     at_path_mtu = 0, at_dest_qp_num = 0, at_rq_psn = 0, at_sq_psn = 0, at_ah = zero_ah,
     at_max_dest_rd_atomic = 0, at_min_rnr_timer = 0, at_timeout = 0, at_retry_cnt = 0,
     at_rnr_retry = 0, at_max_rd_atomic = 0, at_dct_key = 0\<rparr>"

record ibv_qp =
  qp_num :: u32
  qp_type :: qp_type

type_synonym 'd qp_modifier = "ibv_qp \<Rightarrow> qp_attr \<Rightarrow> qp_mask set \<Rightarrow> 'd \<Rightarrow> int \<times> 'd"

text \<open>One call; it answers whether it was accepted.\<close>

definition modify_qp :: "'d qp_modifier \<Rightarrow> ibv_qp \<Rightarrow> qp_attr \<Rightarrow> qp_mask set \<Rightarrow> 'd \<Rightarrow> bool \<times> 'd" where
  "modify_qp modify qp attr flags d = (case modify qp attr flags d of (rc, d') \<Rightarrow> (rc = 0, d'))"

section \<open>Transitions\<close>

definition modifyQPtoInit :: "'d qp_modifier \<Rightarrow> ibv_qp \<Rightarrow> RdmaContext \<Rightarrow> 'd \<Rightarrow> bool \<times> 'd" where
  "modifyQPtoInit modify qp context d =
     (let attr = zero_attr\<lparr>at_state := QPS_INIT, at_port_num := rc_port context, at_pkey_index := 0\<rparr>;
          attr1 = (case qp_type qp of
              QPT_RC \<Rightarrow> attr\<lparr>at_access := {ACCESS_REMOTE_READ, ACCESS_REMOTE_WRITE, ACCESS_REMOTE_ATOMIC}\<rparr>
            | QPT_UC \<Rightarrow> attr\<lparr>at_access := {ACCESS_REMOTE_WRITE}\<rparr>
            | _ \<Rightarrow> attr)
      in modify_qp modify qp attr1 {QP_STATE, QP_PKEY_INDEX, QP_PORT, QP_ACCESS_FLAGS} d)"

definition modifyQPtoRTR ::
  "'d qp_modifier \<Rightarrow> ibv_qp \<Rightarrow> u32 \<Rightarrow> u16 \<Rightarrow> gid \<Rightarrow> RdmaContext \<Rightarrow> 'd \<Rightarrow> bool \<times> 'd" where
  "modifyQPtoRTR modify qp remoteQPN remoteLid remoteGid context d =
     (let attr = zero_attr\<lparr>at_state := QPS_RTR, at_path_mtu := 4096, at_dest_qp_num := remoteQPN,
            at_rq_psn := PSN, at_ah := fillAhAttr (ucast remoteLid) remoteGid context\<rparr>;
          flags = {QP_STATE, QP_AV, QP_PATH_MTU, QP_DEST_QPN, QP_RQ_PSN}
      in if qp_type qp = QPT_RC
         then modify_qp modify qp (attr\<lparr>at_max_dest_rd_atomic := 16, at_min_rnr_timer := 12\<rparr>)
                (flags \<union> {QP_MAX_DEST_RD_ATOMIC, QP_MIN_RNR_TIMER}) d
         else modify_qp modify qp attr flags d)"

definition modifyQPtoRTS :: "'d qp_modifier \<Rightarrow> ibv_qp \<Rightarrow> 'd \<Rightarrow> bool \<times> 'd" where
  "modifyQPtoRTS modify qp d =
     (let attr = zero_attr\<lparr>at_state := QPS_RTS, at_sq_psn := PSN\<rparr>;
          flags = {QP_STATE, QP_SQ_PSN}
      in if qp_type qp = QPT_RC
         then modify_qp modify qp
                (attr\<lparr>at_timeout := 14, at_retry_cnt := 7, at_rnr_retry := 7, at_max_rd_atomic := 16\<rparr>)
                (flags \<union> {QP_TIMEOUT, QP_RETRY_CNT, QP_RNR_RETRY, QP_MAX_QP_RD_ATOMIC}) d
         else modify_qp modify qp attr flags d)"

text \<open>The next call only when the one before was accepted.\<close>

definition and_then :: "bool \<times> 'd \<Rightarrow> ('d \<Rightarrow> bool \<times> 'd) \<Rightarrow> bool \<times> 'd" where
  "and_then r f = (case r of (ok, d) \<Rightarrow> if ok then f d else (False, d))"

definition modifyUDtoRTS :: "'d qp_modifier \<Rightarrow> ibv_qp \<Rightarrow> RdmaContext \<Rightarrow> 'd \<Rightarrow> bool \<times> 'd" where
  "modifyUDtoRTS modify qp context d =
     and_then (modify_qp modify qp
         (zero_attr\<lparr>at_state := QPS_INIT, at_pkey_index := 0, at_port_num := rc_port context, at_qkey := UD_PKEY\<rparr>)
         (if qp_type qp = QPT_UD then {QP_STATE, QP_PKEY_INDEX, QP_PORT, QP_QKEY} else {QP_STATE, QP_PORT}) d) (\<lambda>d1.
     and_then (modify_qp modify qp (zero_attr\<lparr>at_state := QPS_RTR\<rparr>) {QP_STATE} d1) (\<lambda>d2.
     and_then (modify_qp modify qp (zero_attr\<lparr>at_state := QPS_RTS, at_sq_psn := PSN\<rparr>)
         (if qp_type qp = QPT_UD then {QP_STATE, QP_SQ_PSN} else {QP_STATE}) d2) (\<lambda>d3. (True, d3))))"

text \<open>The attributes are not cleared in between.\<close>

definition modifyDCtoRTS ::
  "'d qp_modifier \<Rightarrow> ibv_qp \<Rightarrow> u16 \<Rightarrow> gid \<Rightarrow> RdmaContext \<Rightarrow> 'd \<Rightarrow> bool \<times> 'd" where
  "modifyDCtoRTS modify qp remoteLid remoteGid context d =
     (let attr = zero_attr\<lparr>at_state := QPS_INIT, at_pkey_index := 0, at_port_num := rc_port context,
            at_access := {}, at_dct_key := DCT_ACCESS_KEY\<rparr>;
          attr1 = attr\<lparr>at_state := QPS_RTR, at_path_mtu := 4096, at_ah := fillAhAttr (ucast remoteLid) remoteGid context\<rparr>;
          attr2 = attr1\<lparr>at_state := QPS_RTS, at_timeout := 14, at_retry_cnt := 7, at_rnr_retry := 7, at_max_rd_atomic := 16\<rparr>
      in and_then (modify_qp modify qp attr {QP_STATE, QP_PKEY_INDEX, QP_PORT, QP_DC_KEY} d) (\<lambda>d1.
         and_then (modify_qp modify qp attr1 {QP_STATE, QP_PATH_MTU, QP_AV} d1) (\<lambda>d2.
         and_then (modify_qp modify qp attr2
             {QP_STATE, QP_TIMEOUT, QP_RETRY_CNT, QP_RNR_RETRY, QP_MAX_QP_RD_ATOMIC} d2) (\<lambda>d3. (True, d3)))))"

section \<open>What the library documents\<close>

text \<open>The transitions of each type and the attributes that each takes.\<close>

fun qp_table :: "qp_type \<Rightarrow> qp_state \<Rightarrow> qp_state \<Rightarrow> qp_mask set option" where
  "qp_table QPT_RC QPS_RESET QPS_INIT = Some {QP_STATE, QP_PKEY_INDEX, QP_PORT, QP_ACCESS_FLAGS}"
| "qp_table QPT_RC QPS_INIT QPS_RTR = Some {QP_STATE, QP_AV, QP_PATH_MTU, QP_DEST_QPN, QP_RQ_PSN,
     QP_MAX_DEST_RD_ATOMIC, QP_MIN_RNR_TIMER}"
| "qp_table QPT_RC QPS_RTR QPS_RTS = Some {QP_STATE, QP_SQ_PSN, QP_MAX_QP_RD_ATOMIC, QP_RETRY_CNT,
     QP_RNR_RETRY, QP_TIMEOUT}"
| "qp_table QPT_UC QPS_RESET QPS_INIT = Some {QP_STATE, QP_PKEY_INDEX, QP_PORT, QP_ACCESS_FLAGS}"
| "qp_table QPT_UC QPS_INIT QPS_RTR = Some {QP_STATE, QP_AV, QP_PATH_MTU, QP_DEST_QPN, QP_RQ_PSN}"
| "qp_table QPT_UC QPS_RTR QPS_RTS = Some {QP_STATE, QP_SQ_PSN}"
| "qp_table QPT_UD QPS_RESET QPS_INIT = Some {QP_STATE, QP_PKEY_INDEX, QP_PORT, QP_QKEY}"
| "qp_table QPT_UD QPS_INIT QPS_RTR = Some {QP_STATE}"
| "qp_table QPT_UD QPS_RTR QPS_RTS = Some {QP_STATE, QP_SQ_PSN}"
| "qp_table QPT_RAW_PACKET QPS_RESET QPS_INIT = Some {QP_STATE, QP_PORT}"
| "qp_table QPT_RAW_PACKET QPS_INIT QPS_RTR = Some {QP_STATE}"
| "qp_table QPT_RAW_PACKET QPS_RTR QPS_RTS = Some {QP_STATE}"
| "qp_table EXP_QPT_DC_INI QPS_RESET QPS_INIT = Some {QP_STATE, QP_PKEY_INDEX, QP_PORT, QP_DC_KEY}"
| "qp_table EXP_QPT_DC_INI QPS_INIT QPS_RTR = Some {QP_STATE, QP_AV, QP_PATH_MTU}"
| "qp_table EXP_QPT_DC_INI QPS_RTR QPS_RTS = Some {QP_STATE, QP_MAX_QP_RD_ATOMIC, QP_RETRY_CNT,
     QP_RNR_RETRY, QP_TIMEOUT}"
| "qp_table _ _ _ = None"

text \<open>The state of a queue pair in the device: the attributes it was given last.\<close>

definition set_attrs :: "qp_mask set \<Rightarrow> qp_attr \<Rightarrow> qp_attr \<Rightarrow> qp_attr" where
  "set_attrs m a old = \<lparr>at_state = (if QP_STATE \<in> m then at_state a else at_state old),
     at_port_num = (if QP_PORT \<in> m then at_port_num a else at_port_num old),
     at_pkey_index = (if QP_PKEY_INDEX \<in> m then at_pkey_index a else at_pkey_index old),
     at_access = (if QP_ACCESS_FLAGS \<in> m then at_access a else at_access old),
     at_qkey = (if QP_QKEY \<in> m then at_qkey a else at_qkey old),
     at_path_mtu = (if QP_PATH_MTU \<in> m then at_path_mtu a else at_path_mtu old),
     at_dest_qp_num = (if QP_DEST_QPN \<in> m then at_dest_qp_num a else at_dest_qp_num old),
     at_rq_psn = (if QP_RQ_PSN \<in> m then at_rq_psn a else at_rq_psn old),
     at_sq_psn = (if QP_SQ_PSN \<in> m then at_sq_psn a else at_sq_psn old),
     at_ah = (if QP_AV \<in> m then at_ah a else at_ah old),
     at_max_dest_rd_atomic = (if QP_MAX_DEST_RD_ATOMIC \<in> m then at_max_dest_rd_atomic a else at_max_dest_rd_atomic old),
     at_min_rnr_timer = (if QP_MIN_RNR_TIMER \<in> m then at_min_rnr_timer a else at_min_rnr_timer old),
     at_timeout = (if QP_TIMEOUT \<in> m then at_timeout a else at_timeout old),
     at_retry_cnt = (if QP_RETRY_CNT \<in> m then at_retry_cnt a else at_retry_cnt old),
     at_rnr_retry = (if QP_RNR_RETRY \<in> m then at_rnr_retry a else at_rnr_retry old),
     at_max_rd_atomic = (if QP_MAX_QP_RD_ATOMIC \<in> m then at_max_rd_atomic a else at_max_rd_atomic old),
     at_dct_key = (if QP_DC_KEY \<in> m then at_dct_key a else at_dct_key old)\<rparr>"

definition modifies_qps :: "'d qp_modifier \<Rightarrow> ('d \<Rightarrow> u32 \<Rightarrow> qp_attr) \<Rightarrow> bool" where
  "modifies_qps modify st \<longleftrightarrow> (\<forall>qp a m d.
     (qp_table (qp_type qp) (at_state (st d (qp_num qp))) (at_state a) = Some m \<longrightarrow>
        fst (modify qp a m d) = 0
        \<and> st (snd (modify qp a m d)) = (st d)(qp_num qp := set_attrs m a (st d (qp_num qp))))
     \<and> ((case qp_table (qp_type qp) (at_state (st d (qp_num qp))) (at_state a) of
           None \<Rightarrow> True | Some req \<Rightarrow> \<not> req \<subseteq> m) \<longrightarrow>
        fst (modify qp a m d) \<noteq> 0 \<and> st (snd (modify qp a m d)) = st d))"

lemma modify_qp_ok:
  assumes "modifies_qps modify st" "qp_table (qp_type qp) (at_state (st d (qp_num qp))) (at_state a) = Some m"
  shows "fst (modify_qp modify qp a m d)"
    "st (snd (modify_qp modify qp a m d)) = (st d)(qp_num qp := set_attrs m a (st d (qp_num qp)))"
  using assms unfolding modifies_qps_def modify_qp_def by (simp_all add: case_prod_unfold)

lemma modify_qp_refused:
  assumes "modifies_qps modify st" "qp_table (qp_type qp) (at_state (st d (qp_num qp))) (at_state a) = None"
  shows "\<not> fst (modify_qp modify qp a m d)"
  using assms unfolding modifies_qps_def modify_qp_def by (simp add: case_prod_unfold)

lemma modify_qp_step:
  assumes "modifies_qps modify st" "qp_table (qp_type qp) (at_state (st d (qp_num qp))) (at_state a) = Some m"
  obtains d' where "modify_qp modify qp a m d = (True, d')"
    "st d' = (st d)(qp_num qp := set_attrs m a (st d (qp_num qp)))"
  using modify_qp_ok [OF assms] by (metis prod.collapse)

lemma qp_table_from:
  "s \<noteq> QPS_RESET \<Longrightarrow> qp_table t s QPS_INIT = None" "s \<noteq> QPS_INIT \<Longrightarrow> qp_table t s QPS_RTR = None"
  "s \<noteq> QPS_RTR \<Longrightarrow> qp_table t s QPS_RTS = None"
  by (cases t; cases s; simp)+

lemma ucast_u16_u32: "ucast (ucast (x :: u16) :: u32) = x"
  by transfer simp

lemma and_then_simps [simp]: "and_then (True, d) f = f d" "and_then (False, d) f = (False, d)"
  by (simp_all add: and_then_def)

section \<open>Ready to send\<close>

text \<open>What a reliable connection must be in both ends.\<close>

definition rc_ready :: "u32 \<Rightarrow> u16 \<Rightarrow> gid \<Rightarrow> RdmaContext \<Rightarrow> qp_attr \<Rightarrow> bool" where
  "rc_ready remoteQPN remoteLid remoteGid context a \<longleftrightarrow> at_state a = QPS_RTS
     \<and> at_dest_qp_num a = remoteQPN \<and> at_rq_psn a = at_sq_psn a \<and> at_port_num a = rc_port context
     \<and> at_access a = {ACCESS_REMOTE_READ, ACCESS_REMOTE_WRITE, ACCESS_REMOTE_ATOMIC}
     \<and> dlid (at_ah a) = remoteLid \<and> dgid (at_ah a) = take 16 remoteGid
     \<and> at_max_dest_rd_atomic a = at_max_rd_atomic a"

lemma toInit_ok:
  assumes m: "modifies_qps modify st" and qp: "qp_type qp = QPT_RC" "at_state (st d (qp_num qp)) = QPS_RESET"
  obtains d1 a where "modifyQPtoInit modify qp context d = (True, d1)" "st d1 = (st d)(qp_num qp := a)"
    "at_state a = QPS_INIT" "at_port_num a = rc_port context"
    "at_access a = {ACCESS_REMOTE_READ, ACCESS_REMOTE_WRITE, ACCESS_REMOTE_ATOMIC}"
proof -
  let ?a = "zero_attr\<lparr>at_state := QPS_INIT, at_port_num := rc_port context, at_pkey_index := 0,
    at_access := {ACCESS_REMOTE_READ, ACCESS_REMOTE_WRITE, ACCESS_REMOTE_ATOMIC}\<rparr>"
    and ?m = "{QP_STATE, QP_PKEY_INDEX, QP_PORT, QP_ACCESS_FLAGS}"
  have e: "modifyQPtoInit modify qp context d = modify_qp modify qp ?a ?m d"
    using qp(1) by (simp add: modifyQPtoInit_def)
  have t: "qp_table (qp_type qp) (at_state (st d (qp_num qp))) (at_state ?a) = Some ?m" using qp by simp
  show thesis
    by (rule that [OF _ modify_qp_ok(2) [OF m t]], unfold e) (use modify_qp_ok(1) [OF m t] in
        \<open>simp_all add: prod_eq_iff set_attrs_def\<close>)
qed

lemma toRTR_ok:
  assumes m: "modifies_qps modify st" and qp: "qp_type qp = QPT_RC" "at_state (st d (qp_num qp)) = QPS_INIT"
  obtains d1 a where "modifyQPtoRTR modify qp remoteQPN remoteLid remoteGid context d = (True, d1)"
    "st d1 = (st d)(qp_num qp := a)" "at_state a = QPS_RTR" "at_port_num a = at_port_num (st d (qp_num qp))"
    "at_access a = at_access (st d (qp_num qp))" "at_dest_qp_num a = remoteQPN" "at_rq_psn a = PSN"
    "at_ah a = fillAhAttr (ucast remoteLid) remoteGid context" "at_max_dest_rd_atomic a = 16"
proof -
  let ?a = "zero_attr\<lparr>at_state := QPS_RTR, at_path_mtu := 4096, at_dest_qp_num := remoteQPN,
      at_rq_psn := PSN, at_ah := fillAhAttr (ucast remoteLid) remoteGid context,
      at_max_dest_rd_atomic := 16, at_min_rnr_timer := 12\<rparr>"
    and ?m = "{QP_STATE, QP_AV, QP_PATH_MTU, QP_DEST_QPN, QP_RQ_PSN} \<union> {QP_MAX_DEST_RD_ATOMIC, QP_MIN_RNR_TIMER}"
  have e: "modifyQPtoRTR modify qp remoteQPN remoteLid remoteGid context d = modify_qp modify qp ?a ?m d"
    using qp(1) by (simp add: modifyQPtoRTR_def)
  have t: "qp_table (qp_type qp) (at_state (st d (qp_num qp))) (at_state ?a) = Some ?m" using qp by auto
  show thesis
    by (rule that [OF _ modify_qp_ok(2) [OF m t]], unfold e) (use modify_qp_ok(1) [OF m t] in
        \<open>simp_all add: prod_eq_iff set_attrs_def\<close>)
qed

lemma toRTS_ok:
  assumes m: "modifies_qps modify st" and qp: "qp_type qp = QPT_RC" "at_state (st d (qp_num qp)) = QPS_RTR"
  obtains d1 a where "modifyQPtoRTS modify qp d = (True, d1)" "st d1 = (st d)(qp_num qp := a)"
    "at_state a = QPS_RTS" "at_sq_psn a = PSN" "at_max_rd_atomic a = 16"
    "at_port_num a = at_port_num (st d (qp_num qp))" "at_access a = at_access (st d (qp_num qp))"
    "at_dest_qp_num a = at_dest_qp_num (st d (qp_num qp))" "at_rq_psn a = at_rq_psn (st d (qp_num qp))"
    "at_ah a = at_ah (st d (qp_num qp))" "at_max_dest_rd_atomic a = at_max_dest_rd_atomic (st d (qp_num qp))"
proof -
  let ?a = "zero_attr\<lparr>at_state := QPS_RTS, at_sq_psn := PSN, at_timeout := 14, at_retry_cnt := 7, at_rnr_retry := 7,
      at_max_rd_atomic := 16\<rparr>"
    and ?m = "{QP_STATE, QP_SQ_PSN} \<union> {QP_TIMEOUT, QP_RETRY_CNT, QP_RNR_RETRY, QP_MAX_QP_RD_ATOMIC}"
  have e: "modifyQPtoRTS modify qp d = modify_qp modify qp ?a ?m d"
    using qp(1) by (simp add: modifyQPtoRTS_def)
  have t: "qp_table (qp_type qp) (at_state (st d (qp_num qp))) (at_state ?a) = Some ?m" using qp by auto
  show thesis
    by (rule that [OF _ modify_qp_ok(2) [OF m t]], unfold e) (use modify_qp_ok(1) [OF m t] in
        \<open>simp_all add: prod_eq_iff set_attrs_def\<close>)
qed

lemma rc_connects:
  assumes m: "modifies_qps modify st" and qp: "qp_type qp = QPT_RC" "at_state (st d (qp_num qp)) = QPS_RESET"
  obtains d1 d2 d3 a where "modifyQPtoInit modify qp context d = (True, d1)"
    "modifyQPtoRTR modify qp remoteQPN remoteLid remoteGid context d1 = (True, d2)"
    "modifyQPtoRTS modify qp d2 = (True, d3)"
    "st d3 = (st d)(qp_num qp := a)" "rc_ready remoteQPN remoteLid remoteGid context a"
proof -
  obtain d1 a1 where 1: "modifyQPtoInit modify qp context d = (True, d1)" "st d1 = (st d)(qp_num qp := a1)"
    "at_state a1 = QPS_INIT" "at_port_num a1 = rc_port context"
    "at_access a1 = {ACCESS_REMOTE_READ, ACCESS_REMOTE_WRITE, ACCESS_REMOTE_ATOMIC}"
    by (rule toInit_ok [OF m qp])
  have s1: "at_state (st d1 (qp_num qp)) = QPS_INIT" using 1 by simp
  obtain d2 a2 where 2: "modifyQPtoRTR modify qp remoteQPN remoteLid remoteGid context d1 = (True, d2)"
    "st d2 = (st d1)(qp_num qp := a2)" "at_state a2 = QPS_RTR" "at_port_num a2 = at_port_num (st d1 (qp_num qp))"
    "at_access a2 = at_access (st d1 (qp_num qp))" "at_dest_qp_num a2 = remoteQPN" "at_rq_psn a2 = PSN"
    "at_ah a2 = fillAhAttr (ucast remoteLid) remoteGid context" "at_max_dest_rd_atomic a2 = 16"
    by (rule toRTR_ok [OF m qp(1) s1])
  have s2: "at_state (st d2 (qp_num qp)) = QPS_RTR" using 2 by simp
  obtain d3 a3 where 3: "modifyQPtoRTS modify qp d2 = (True, d3)" "st d3 = (st d2)(qp_num qp := a3)"
    "at_state a3 = QPS_RTS" "at_sq_psn a3 = PSN" "at_max_rd_atomic a3 = 16"
    "at_port_num a3 = at_port_num (st d2 (qp_num qp))" "at_access a3 = at_access (st d2 (qp_num qp))"
    "at_dest_qp_num a3 = at_dest_qp_num (st d2 (qp_num qp))" "at_rq_psn a3 = at_rq_psn (st d2 (qp_num qp))"
    "at_ah a3 = at_ah (st d2 (qp_num qp))" "at_max_dest_rd_atomic a3 = at_max_dest_rd_atomic (st d2 (qp_num qp))"
    by (rule toRTS_ok [OF m qp(1) s2])
  have "rc_ready remoteQPN remoteLid remoteGid context a3"
    using 1(2-) 2(2-) 3(3-) by (simp add: rc_ready_def fillAhAttr_def ucast_u16_u32)
  then show thesis using that [OF 1(1) 2(1) 3(1)] 1(2) 2(2) 3(2) by simp
qed

lemma ud_ready:
  assumes m: "modifies_qps modify st" and qp: "qp_type qp = QPT_UD" "at_state (st d (qp_num qp)) = QPS_RESET"
  shows "\<exists>d' a. modifyUDtoRTS modify qp context d = (True, d') \<and> st d' = (st d)(qp_num qp := a)
    \<and> at_state a = QPS_RTS \<and> at_qkey a = UD_PKEY"
proof -
  let ?a = "zero_attr\<lparr>at_state := QPS_INIT, at_pkey_index := 0, at_port_num := rc_port context, at_qkey := UD_PKEY\<rparr>"
    and ?m = "{QP_STATE, QP_PKEY_INDEX, QP_PORT, QP_QKEY}"
  have t: "qp_table (qp_type qp) (at_state (st d (qp_num qp))) (at_state ?a) = Some ?m" using qp by simp
  obtain d1 where 1: "modify_qp modify qp ?a ?m d = (True, d1)"
    "st d1 = (st d)(qp_num qp := set_attrs ?m ?a (st d (qp_num qp)))" by (rule modify_qp_step [OF m t])
  let ?b = "zero_attr\<lparr>at_state := QPS_RTR\<rparr>"
  have t: "qp_table (qp_type qp) (at_state (st d1 (qp_num qp))) (at_state ?b) = Some {QP_STATE}"
    using qp 1(2) by (simp add: set_attrs_def)
  obtain d2 where 2: "modify_qp modify qp ?b {QP_STATE} d1 = (True, d2)"
    "st d2 = (st d1)(qp_num qp := set_attrs {QP_STATE} ?b (st d1 (qp_num qp)))" by (rule modify_qp_step [OF m t])
  let ?c = "zero_attr\<lparr>at_state := QPS_RTS, at_sq_psn := PSN\<rparr>" and ?n = "{QP_STATE, QP_SQ_PSN}"
  have t: "qp_table (qp_type qp) (at_state (st d2 (qp_num qp))) (at_state ?c) = Some ?n"
    using qp 2(2) by (simp add: set_attrs_def)
  obtain d3 where 3: "modify_qp modify qp ?c ?n d2 = (True, d3)"
    "st d3 = (st d2)(qp_num qp := set_attrs ?n ?c (st d2 (qp_num qp)))" by (rule modify_qp_step [OF m t])
  have "modifyUDtoRTS modify qp context d = (True, d3)" using qp(1) 1(1) 2(1) 3(1) by (simp add: modifyUDtoRTS_def)
  moreover have "st d3 = (st d)(qp_num qp := st d3 (qp_num qp))" using 1(2) 2(2) 3(2) by simp
  moreover have "at_state (st d3 (qp_num qp)) = QPS_RTS" "at_qkey (st d3 (qp_num qp)) = UD_PKEY"
    using 1(2) 2(2) 3(2) by (simp_all add: set_attrs_def)
  ultimately show ?thesis by blast
qed

lemma dc_ready:
  assumes m: "modifies_qps modify st" and qp: "qp_type qp = EXP_QPT_DC_INI" "at_state (st d (qp_num qp)) = QPS_RESET"
  shows "\<exists>d'. modifyDCtoRTS modify qp remoteLid remoteGid context d = (True, d')
    \<and> at_state (st d' (qp_num qp)) = QPS_RTS \<and> dlid (at_ah (st d' (qp_num qp))) = remoteLid"
proof -
  let ?a = "zero_attr\<lparr>at_state := QPS_INIT, at_pkey_index := 0, at_port_num := rc_port context,
    at_access := {}, at_dct_key := DCT_ACCESS_KEY\<rparr>" and ?m = "{QP_STATE, QP_PKEY_INDEX, QP_PORT, QP_DC_KEY}"
  have t: "qp_table (qp_type qp) (at_state (st d (qp_num qp))) (at_state ?a) = Some ?m" using qp by simp
  obtain d1 where 1: "modify_qp modify qp ?a ?m d = (True, d1)"
    "st d1 = (st d)(qp_num qp := set_attrs ?m ?a (st d (qp_num qp)))" by (rule modify_qp_step [OF m t])
  let ?b = "?a\<lparr>at_state := QPS_RTR, at_path_mtu := 4096, at_ah := fillAhAttr (ucast remoteLid) remoteGid context\<rparr>"
    and ?n = "{QP_STATE, QP_PATH_MTU, QP_AV}"
  have t: "qp_table (qp_type qp) (at_state (st d1 (qp_num qp))) (at_state ?b) = Some ?n"
    using qp 1(2) by (auto simp: set_attrs_def)
  obtain d2 where 2: "modify_qp modify qp ?b ?n d1 = (True, d2)"
    "st d2 = (st d1)(qp_num qp := set_attrs ?n ?b (st d1 (qp_num qp)))" by (rule modify_qp_step [OF m t])
  let ?c = "?b\<lparr>at_state := QPS_RTS, at_timeout := 14, at_retry_cnt := 7, at_rnr_retry := 7, at_max_rd_atomic := 16\<rparr>"
    and ?k = "{QP_STATE, QP_TIMEOUT, QP_RETRY_CNT, QP_RNR_RETRY, QP_MAX_QP_RD_ATOMIC}"
  have t: "qp_table (qp_type qp) (at_state (st d2 (qp_num qp))) (at_state ?c) = Some ?k"
    using qp 2(2) by (auto simp: set_attrs_def)
  obtain d3 where 3: "modify_qp modify qp ?c ?k d2 = (True, d3)"
    "st d3 = (st d2)(qp_num qp := set_attrs ?k ?c (st d2 (qp_num qp)))" by (rule modify_qp_step [OF m t])
  have "modifyDCtoRTS modify qp remoteLid remoteGid context d = (True, d3)"
    unfolding modifyDCtoRTS_def Let_def by (simp only: 1(1) 2(1) 3(1) and_then_simps)
  moreover have "at_state (st d3 (qp_num qp)) = QPS_RTS" "dlid (at_ah (st d3 (qp_num qp))) = remoteLid"
    using 2(2) 3(2) by (simp_all add: set_attrs_def fillAhAttr_def ucast_u16_u32)
  ultimately show ?thesis by blast
qed

lemma refused:
  assumes m: "modifies_qps modify st"
  shows "at_state (st d (qp_num qp)) \<noteq> QPS_RESET \<Longrightarrow>
      \<not> fst (modifyQPtoInit modify qp context d) \<and> \<not> fst (modifyUDtoRTS modify qp context d)
      \<and> \<not> fst (modifyDCtoRTS modify qp remoteLid remoteGid context d)"
    "at_state (st d (qp_num qp)) \<noteq> QPS_INIT \<Longrightarrow>
      \<not> fst (modifyQPtoRTR modify qp remoteQPN remoteLid remoteGid context d)"
    "at_state (st d (qp_num qp)) \<noteq> QPS_RTR \<Longrightarrow> \<not> fst (modifyQPtoRTS modify qp d)"
proof -
  have no: "\<not> fst (and_then (modify_qp modify qp a fl d) f)" if "\<not> fst (modify_qp modify qp a fl d)" for a fl f
    using that by (auto simp: and_then_def split: prod.splits)
  assume s: "at_state (st d (qp_num qp)) \<noteq> QPS_RESET"
  have r: "\<not> fst (modify_qp modify qp a fl d)" if "at_state a = QPS_INIT" for a fl
    by (rule modify_qp_refused [OF m]) (use that qp_table_from(1) [OF s] in simp)
  show "\<not> fst (modifyQPtoInit modify qp context d) \<and> \<not> fst (modifyUDtoRTS modify qp context d)
      \<and> \<not> fst (modifyDCtoRTS modify qp remoteLid remoteGid context d)"
    unfolding modifyQPtoInit_def modifyUDtoRTS_def modifyDCtoRTS_def Let_def
    by (intro conjI no r) (simp_all split: qp_type.split)
next
  assume s: "at_state (st d (qp_num qp)) \<noteq> QPS_INIT"
  have "\<not> fst (modify_qp modify qp a fl d)" if "at_state a = QPS_RTR" for a fl
    by (rule modify_qp_refused [OF m]) (use that qp_table_from(2) [OF s] in simp)
  then show "\<not> fst (modifyQPtoRTR modify qp remoteQPN remoteLid remoteGid context d)"
    by (simp add: modifyQPtoRTR_def Let_def)
next
  assume s: "at_state (st d (qp_num qp)) \<noteq> QPS_RTR"
  have "\<not> fst (modify_qp modify qp a fl d)" if "at_state a = QPS_RTS" for a fl
    by (rule modify_qp_refused [OF m]) (use that qp_table_from(3) [OF s] in simp)
  then show "\<not> fst (modifyQPtoRTS modify qp d)" by (simp add: modifyQPtoRTS_def Let_def)
qed


text \<open>A device that does just what is documented.\<close>

definition table_modify :: "(u32 \<Rightarrow> qp_attr) qp_modifier" where
  "table_modify qp a m d =
     (if qp_table (qp_type qp) (at_state (d (qp_num qp))) (at_state a) = Some m
      then (0, d(qp_num qp := set_attrs m a (d (qp_num qp)))) else (22, d))"

lemma table_modify_ok: "modifies_qps table_modify (\<lambda>d. d)"
  by (simp add: modifies_qps_def table_modify_def split: option.splits)

definition ex_context :: RdmaContext where
  "ex_context = \<lparr>rc_devIndex = 0, rc_port = 1, rc_gidIndex = 3, rc_ctx = Some 0, rc_pd = Some 0, rc_lid = 4,
     rc_gid = replicate 16 0\<rparr>"


end
