(* ===== verification/Resources.thy ===== *)
theory Resources
  imports QueuePairs
begin

text \<open>
  \<^verbatim>\<open>src/rdma/Resource.cpp\<close> and \<^verbatim>\<open>checkDMSupported\<close> of \<^verbatim>\<open>src/rdma/Utility.cpp\<close>: opening a
  device, registering memory, creating queue pairs. The verbs library is the parameter \<open>lib\<close>:
  what each call answers may depend on all calls made before, so that any of them can fail at
  any time. The calls are recorded in a log, from which one sees what was acquired and what was
  given back.
\<close>

section \<open>Calls\<close>

record mem_region =
  mr_lkey :: u32
  mr_rkey :: u32

record qp_init_attr =
  qi_type :: qp_type
  qi_sq_sig_all :: nat
  qi_send_cq :: "nat option"
  qi_recv_cq :: "nat option"
  qi_pd :: "nat option"
  qi_create_flags :: bool
  qi_atomics_arg :: bool
  qi_max_atomic_arg :: nat
  qi_max_send_wr :: u32
  qi_max_recv_wr :: u32
  qi_max_send_sge :: nat
  qi_max_recv_sge :: nat
  qi_max_inline_data :: u32

record dct_attr =
  dct_pd :: "nat option"
  dct_cq :: "nat option"
  dct_srq :: "nat option"
  dct_dc_key :: u64
  dct_port :: u8
  dct_access :: "access set"
  dct_min_rnr_timer :: nat
  dct_mtu :: nat
  dct_hop_limit :: nat
  dct_inline_size :: u32

text \<open>The flag tells whether the call succeeded.\<close>

datatype verbs_call = GetDeviceList bool | FreeDeviceList | OpenDevice nat bool | CloseDevice bool
  | QueryPort u8 bool | AllocPd bool | DeallocPd bool | QueryGid u8 int bool | QueryDevice bool
  | RegMr u64 u64 "access set" bool | AllocDm u64 bool | RegMrDm u64 u64 "access set" bool | MemcpyDm u64
  | CreateCq nat bool | CreateQp qp_init_attr bool | CreateSrq u32 nat bool | CreateDct dct_attr bool

type_synonym call_log = "verbs_call list"

text \<open>The answers: the names of the devices, the number of a port, the identifier of the port; of a query
  of the device whether it succeeded, whether the mask of the answer has the bit for device memory, and the
  size that the record holds then; keys and numbers of what was created.\<close>

record verbs_lib =
  lib_devices :: "call_log \<Rightarrow> string list option"
  lib_open :: "call_log \<Rightarrow> nat \<Rightarrow> bool"
  lib_close :: "call_log \<Rightarrow> bool"
  lib_port :: "call_log \<Rightarrow> u8 \<Rightarrow> u16 option"
  lib_alloc_pd :: "call_log \<Rightarrow> bool"
  lib_dealloc_pd :: "call_log \<Rightarrow> bool"
  lib_gid :: "call_log \<Rightarrow> u8 \<Rightarrow> int \<Rightarrow> gid option"
  lib_query_device :: "call_log \<Rightarrow> bool \<times> bool \<times> u64"
  lib_reg_mr :: "call_log \<Rightarrow> mem_region option"
  lib_alloc_dm :: "call_log \<Rightarrow> bool"
  lib_create_cq :: "call_log \<Rightarrow> bool"
  lib_create_qp :: "call_log \<Rightarrow> u32 option"
  lib_create_srq :: "call_log \<Rightarrow> bool"
  lib_create_dct :: "call_log \<Rightarrow> bool"

section \<open>Opening a device\<close>

text \<open>The first device whose sixth character is 0 is taken, if there is one. Names are
  terminated, so the sixth character of a name of five is the terminator.\<close>

fun find_device :: "string list \<Rightarrow> nat \<Rightarrow> u8 \<Rightarrow> err + u8" where
  "find_device [] i devIndex = Inr devIndex"
| "find_device (name # names) i devIndex =
     rbind (require (5 \<le> length name) OutOfBounds) (\<lambda>_.
       if 5 < length name \<and> name ! 5 = CHR ''0'' then Inr (of_nat i)
       else find_device names (Suc i) devIndex)"

text \<open>The label \<^verbatim>\<open>CreateResourcesExit\<close>: what is held is given back.\<close>

definition cleanup :: "verbs_lib \<Rightarrow> bool \<Rightarrow> bool \<Rightarrow> bool \<Rightarrow> call_log \<Rightarrow> call_log" where
  "cleanup lib pd ctx deviceList l0 =
     (let l1 = (if pd then l0 @ [DeallocPd (lib_dealloc_pd lib l0)] else l0);
          l2 = (if ctx then l1 @ [CloseDevice (lib_close lib l1)] else l1)
      in if deviceList then l2 @ [FreeDeviceList] else l2)"

text \<open>\<open>kmax\<close> is the global \<^verbatim>\<open>kMaxDeviceMemorySize\<close>; leaving the program is an error.\<close>

definition checkDMSupported :: "verbs_lib \<Rightarrow> int \<Rightarrow> call_log \<Rightarrow> err + int \<times> call_log" where
  "checkDMSupported lib kmax l =
     (case lib_query_device lib l of (ok, has_dm, max_dm_size) \<Rightarrow>
        if \<not> has_dm then Inl (AssertFail ''Can not support device memory!'')
        else if max_dm_size = 0 then Inr (kmax, l @ [QueryDevice ok])
        else Inr (sint (ucast max_dm_size :: u32), l @ [QueryDevice ok]))"

text \<open>Handles are the place of the call in the log.\<close>

definition createContext ::
  "verbs_lib \<Rightarrow> u8 \<Rightarrow> int \<Rightarrow> u8 \<Rightarrow> RdmaContext \<Rightarrow> int \<times> call_log \<Rightarrow> err + bool \<times> RdmaContext \<times> int \<times> call_log" where
  "createContext lib port gidIndex devIndex0 context s =
     (case s of (kmax, l0) \<Rightarrow>
      case lib_devices lib l0 of
        None \<Rightarrow> Inr (False, context, kmax, cleanup lib False False False (l0 @ [GetDeviceList False]))
      | Some names \<Rightarrow>
        let l1 = l0 @ [GetDeviceList True] in
        if names = [] then Inr (False, context, kmax, cleanup lib False False True l1)
        else rbind (find_device names 0 devIndex0) (\<lambda>devIndex.
          if unat devIndex \<ge> length names then Inr (False, context, kmax, cleanup lib False False True l1)
          else if \<not> lib_open lib l1 (unat devIndex)
          then Inr (False, context, kmax, cleanup lib False False True (l1 @ [OpenDevice (unat devIndex) False]))
          else
            let l2 = l1 @ [OpenDevice (unat devIndex) True, FreeDeviceList] in
            case lib_port lib l2 port of
              None \<Rightarrow> Inr (False, context, kmax, cleanup lib False True False (l2 @ [QueryPort port False]))
            | Some lid \<Rightarrow>
              let l3 = l2 @ [QueryPort port True] in
              if \<not> lib_alloc_pd lib l3
              then Inr (False, context, kmax, cleanup lib False True False (l3 @ [AllocPd False]))
              else
                let l4 = l3 @ [AllocPd True] in
                case lib_gid lib l4 port gidIndex of
                  None \<Rightarrow> Inr (False, context, kmax, cleanup lib True True False (l4 @ [QueryGid port gidIndex False]))
                | Some g \<Rightarrow>
                  let l5 = l4 @ [QueryGid port gidIndex True];
                      c = \<lparr>rc_devIndex = devIndex, rc_port = port, rc_gidIndex = gidIndex, rc_ctx = Some (length l1),
                           rc_pd = Some (length l3), rc_lid = lid, rc_gid = g\<rparr>
                  in if kmax = 0 then rbind (checkDMSupported lib kmax l5) (\<lambda>(k, l6). Inr (True, c, k, l6))
                     else Inr (True, c, kmax, l5)))"

definition destoryContext :: "verbs_lib \<Rightarrow> RdmaContext \<Rightarrow> call_log \<Rightarrow> bool \<times> call_log" where
  "destoryContext lib context l0 =
     (let (r1, l1) = (if rc_pd context \<noteq> None then (lib_dealloc_pd lib l0, l0 @ [DeallocPd (lib_dealloc_pd lib l0)])
                      else (True, l0))
      in if rc_ctx context \<noteq> None then (r1 \<and> lib_close lib l1, l1 @ [CloseDevice (lib_close lib l1)]) else (r1, l1))"

section \<open>Memory and queue pairs\<close>

definition region_access :: "access set" where
  "region_access = {ACCESS_LOCAL_WRITE, ACCESS_REMOTE_READ, ACCESS_REMOTE_WRITE, ACCESS_REMOTE_ATOMIC}"

definition createMemoryRegion :: "verbs_lib \<Rightarrow> u64 \<Rightarrow> u64 \<Rightarrow> call_log \<Rightarrow> mem_region option \<times> call_log" where
  "createMemoryRegion lib mm mmSize l =
     (lib_reg_mr lib l, l @ [RegMr mm mmSize region_access (lib_reg_mr lib l \<noteq> None)])"

definition createMemoryRegionOnChip :: "verbs_lib \<Rightarrow> u64 \<Rightarrow> u64 \<Rightarrow> call_log \<Rightarrow> mem_region option \<times> call_log" where
  "createMemoryRegionOnChip lib mm mmSize l0 =
     (if \<not> lib_alloc_dm lib l0 then (None, l0 @ [AllocDm mmSize False])
      else
        let l1 = l0 @ [AllocDm mmSize True] in
        case lib_reg_mr lib l1 of
          None \<Rightarrow> (None, l1 @ [RegMrDm mm mmSize region_access False])
        | Some mr \<Rightarrow> (Some mr, l1 @ [RegMrDm mm mmSize region_access True, MemcpyDm mmSize]))"

text \<open>The queue pair is written through the pointer also when it is null.\<close>

definition createQueuePair2 ::
  "verbs_lib \<Rightarrow> qp_type \<Rightarrow> nat option \<Rightarrow> nat option \<Rightarrow> RdmaContext \<Rightarrow> u32 \<Rightarrow> u32 \<Rightarrow> call_log
    \<Rightarrow> bool \<times> ibv_qp option \<times> call_log" where
  "createQueuePair2 lib mode send_cq recv_cq context qpsMaxDepth maxInlineData l =
     (let attr = \<lparr>qi_type = mode, qi_sq_sig_all = 0, qi_send_cq = send_cq, qi_recv_cq = recv_cq,
            qi_pd = rc_pd context, qi_create_flags = (mode = QPT_RC), qi_atomics_arg = (mode = QPT_RC),
            qi_max_atomic_arg = (if mode = QPT_RC then 32 else 0), qi_max_send_wr = qpsMaxDepth,
            qi_max_recv_wr = qpsMaxDepth, qi_max_send_sge = 1, qi_max_recv_sge = 1,
            qi_max_inline_data = maxInlineData\<rparr>
      in case lib_create_qp lib l of
           None \<Rightarrow> (False, None, l @ [CreateQp attr False])
         | Some n \<Rightarrow> (True, Some \<lparr>qp_num = n, qp_type = mode\<rparr>, l @ [CreateQp attr True]))"

definition createQueuePair ::
  "verbs_lib \<Rightarrow> qp_type \<Rightarrow> nat option \<Rightarrow> RdmaContext \<Rightarrow> u32 \<Rightarrow> u32 \<Rightarrow> call_log \<Rightarrow> bool \<times> ibv_qp option \<times> call_log" where
  "createQueuePair lib mode cq context qpsMaxDepth maxInlineData l =
     createQueuePair2 lib mode cq cq context qpsMaxDepth maxInlineData l"

text \<open>The test after the call is on the pointer that the caller gave, which is not null.\<close>

definition createDCTarget ::
  "verbs_lib \<Rightarrow> nat option \<Rightarrow> RdmaContext \<Rightarrow> u32 \<Rightarrow> u32 \<Rightarrow> call_log \<Rightarrow> bool \<times> nat option \<times> call_log" where
  "createDCTarget lib cq context qpsMaxDepth maxInlineData l0 =
     (let l1 = l0 @ [CreateSrq qpsMaxDepth 1 (lib_create_srq lib l0)];
          attr = \<lparr>dct_pd = rc_pd context, dct_cq = cq,
            dct_srq = (if lib_create_srq lib l0 then Some (length l0) else None), dct_dc_key = DCT_ACCESS_KEY,
            dct_port = rc_port context, dct_access = {ACCESS_REMOTE_READ, ACCESS_REMOTE_READ, ACCESS_REMOTE_ATOMIC},
            dct_min_rnr_timer = 2, dct_mtu = 4096, dct_hop_limit = 1, dct_inline_size = maxInlineData\<rparr>;
          ok = lib_create_dct lib l1
      in (True, (if ok then Some (length l1) else None), l1 @ [CreateDct attr ok]))"

section \<open>What is held\<close>

datatype resource = Res_DeviceList | Res_Context | Res_Pd | Res_Mr | Res_Dm | Res_Cq | Res_Qp | Res_Srq | Res_Dct

fun acquires :: "verbs_call \<Rightarrow> resource option" where
  "acquires (GetDeviceList ok) = (if ok then Some Res_DeviceList else None)"
| "acquires (OpenDevice _ ok) = (if ok then Some Res_Context else None)"
| "acquires (AllocPd ok) = (if ok then Some Res_Pd else None)"
| "acquires (RegMr _ _ _ ok) = (if ok then Some Res_Mr else None)"
| "acquires (RegMrDm _ _ _ ok) = (if ok then Some Res_Mr else None)"
| "acquires (AllocDm _ ok) = (if ok then Some Res_Dm else None)"
| "acquires (CreateCq _ ok) = (if ok then Some Res_Cq else None)"
| "acquires (CreateQp _ ok) = (if ok then Some Res_Qp else None)"
| "acquires (CreateSrq _ _ ok) = (if ok then Some Res_Srq else None)"
| "acquires (CreateDct _ ok) = (if ok then Some Res_Dct else None)"
| "acquires _ = None"

fun releases :: "verbs_call \<Rightarrow> resource option" where
  "releases FreeDeviceList = Some Res_DeviceList"
| "releases (CloseDevice _) = Some Res_Context"
| "releases (DeallocPd _) = Some Res_Pd"
| "releases _ = None"

definition effect :: "resource \<Rightarrow> verbs_call \<Rightarrow> int" where
  "effect r c = (if acquires c = Some r then 1 else 0) - (if releases c = Some r then 1 else 0)"

definition held :: "resource \<Rightarrow> call_log \<Rightarrow> int" where
  "held r l = sum_list (map (effect r) l)"

lemma held_append [simp]: "held r (xs @ ys) = held r xs + held r ys"
  by (simp add: held_def)

lemma held_simps [simp]: "held r [] = 0" "held r (c # l) = effect r c + held r l"
  by (simp_all add: held_def)

lemma held_cleanup: "held r (cleanup lib pd ctx dl l) = held r l
    - (if pd \<and> r = Res_Pd then 1 else 0) - (if ctx \<and> r = Res_Context then 1 else 0)
    - (if dl \<and> r = Res_DeviceList then 1 else 0)"
  by (auto simp: cleanup_def Let_def effect_def)

text \<open>(C35) Opening a device leaks nothing: whatever the library answers, when \<^verbatim>\<open>createContext\<close>
  fails it has given back everything that it had acquired, the device list, the device and the
  protection domain, and left the context as it was; when it succeeds it holds one more device and one
  more protection domain, those that the context names, and nothing else; and \<^verbatim>\<open>destoryContext\<close>
  gives these back.\<close>

theorem create_context_balanced:
  assumes "createContext lib port gidIndex devIndex context (kmax, l) = Inr (ok, c, k, l')"
  shows "(\<not> ok \<longrightarrow> c = context \<and> k = kmax \<and> (\<forall>r. held r l' = held r l))
    \<and> (ok \<longrightarrow> rc_ctx c \<noteq> None \<and> rc_pd c \<noteq> None \<and> rc_port c = port \<and> rc_gidIndex c = gidIndex
        \<and> (\<forall>r. held r l' = held r l + (if r \<in> {Res_Context, Res_Pd} then 1 else 0))
        \<and> (\<forall>r. held r (snd (destoryContext lib c l')) = held r l))"
proof -
  have free: "held r (snd (destoryContext lib c l')) = held r l' - (if r \<in> {Res_Context, Res_Pd} then 1 else 0)"
    if "rc_ctx c \<noteq> None" "rc_pd c \<noteq> None" for r
    using that by (auto simp: destoryContext_def Let_def effect_def)
  have chk: "held r x = held r y" if "checkDMSupported lib n y = Inr (m, x)" for n m r x y
    using that by (auto simp: checkDMSupported_def effect_def split: prod.splits if_splits)
  show ?thesis
    using assms free chk
    by (auto simp: createContext_def held_cleanup effect_def rbind_Inr_iff Let_def
        split: option.splits if_splits prod.splits)
qed

text \<open>A library that grants everything, for two devices.\<close>

definition kind_lib :: verbs_lib where
  "kind_lib = \<lparr>lib_devices = (\<lambda>_. Some [''mlx5_1'', ''mlx5_0'']), lib_open = (\<lambda>_ _. True), lib_close = (\<lambda>_. True),
     lib_port = (\<lambda>_ _. Some 4), lib_alloc_pd = (\<lambda>_. True), lib_dealloc_pd = (\<lambda>_. True),
     lib_gid = (\<lambda>_ _ _. Some (replicate 16 0)), lib_query_device = (\<lambda>_. (True, True, 262144)),
     lib_reg_mr = (\<lambda>l. Some \<lparr>mr_lkey = of_nat (length l), mr_rkey = of_nat (length l)\<rparr>),
     lib_alloc_dm = (\<lambda>_. True), lib_create_cq = (\<lambda>_. True), lib_create_qp = (\<lambda>l. Some (of_nat (length l))),
     lib_create_srq = (\<lambda>_. True), lib_create_dct = (\<lambda>_. True)\<rparr>"

definition no_context :: RdmaContext where
  "no_context = \<lparr>rc_devIndex = 0, rc_port = 0, rc_gidIndex = 0, rc_ctx = None, rc_pd = None, rc_lid = 0,
     rc_gid = replicate 16 0\<rparr>"

lemma kind_devices: "find_device [''mlx5_1'', ''mlx5_0''] 0 0 = Inr 1"
  by (simp add: require_def)

lemma kind_open: "createContext kind_lib 1 3 0 no_context (0, []) = Inr (True,
    \<lparr>rc_devIndex = 1, rc_port = 1, rc_gidIndex = 3, rc_ctx = Some 1, rc_pd = Some 4, rc_lid = 4, rc_gid = replicate 16 0\<rparr>,
    262144, [GetDeviceList True, OpenDevice 1 True, FreeDeviceList, QueryPort 1 True, AllocPd True, QueryGid 1 3 True,
      QueryDevice True])"
  unfolding createContext_def prod.case kind_lib_def verbs_lib.simps option.case Let_def
  by (simp add: kind_devices checkDMSupported_def)

theorem create_context_balanced_witness:
  "\<exists>c l. createContext kind_lib 1 3 0 no_context (0, []) = Inr (True, c, 262144, l)
    \<and> rc_devIndex c = 1 \<and> held Res_Context l = 1 \<and> held Res_DeviceList l = 0
    \<and> held Res_Pd (snd (destoryContext kind_lib c l)) = 0"
  using create_context_balanced [OF kind_open] kind_open by simp

text \<open>Failures that are not handled: when the registration of on-chip memory fails the
  function answers null and keeps the device memory that it allocated; and \<^verbatim>\<open>createDCTarget\<close> answers
  true also when the target, or its receive queue, could not be created, and never grants remote writes.\<close>

theorem resource_failures:
  "(lib_alloc_dm lib l \<longrightarrow> lib_reg_mr lib (l @ [AllocDm n True]) = None \<longrightarrow>
      fst (createMemoryRegionOnChip lib mm n l) = None
      \<and> held Res_Dm (snd (createMemoryRegionOnChip lib mm n l)) = held Res_Dm l + 1)
    \<and> (\<exists>dct l' attr ok. createDCTarget lib cq context depth inl l = (True, dct, l')
        \<and> last l' = CreateDct attr ok \<and> (dct = None \<longleftrightarrow> \<not> ok) \<and> ACCESS_REMOTE_WRITE \<notin> dct_access attr)"
  by (simp add: createMemoryRegionOnChip_def createDCTarget_def effect_def Let_def)

theorem resource_failures_witness:
  "held Res_Dm (snd (createMemoryRegionOnChip (kind_lib\<lparr>lib_reg_mr := (\<lambda>_. None)\<rparr>) 0 262144 [])) = 1"
  using resource_failures [of "kind_lib\<lparr>lib_reg_mr := (\<lambda>_. None)\<rparr>" "[]" 262144 0] by (simp add: kind_lib_def)

end
