(* ===== verification/Connections.thy ===== *)
theory Connections
  imports Resources Messages
begin

text \<open>
  How a server sets up its connections: the constructors of \<^verbatim>\<open>src/AbstractMessageConnection.cpp\<close>,
  \<^verbatim>\<open>src/RawMessageConnection.cpp\<close>, \<^verbatim>\<open>src/ThreadConnection.cpp\<close> and
  \<^verbatim>\<open>src/DirectoryConnection.cpp\<close>, and \<^verbatim>\<open>DSM::initRDMAConnection\<close> up to the keeper. The verbs
  library and the allocation of huge pages are the parameter \<open>env\<close>. Most answers are not looked at;
  a null pointer is noticed when it is followed, which is the error \<open>WildAccess\<close>.
\<close>

definition RAW_RECV_CQ_COUNT :: nat where "RAW_RECV_CQ_COUNT = 128"
definition kLockStartAddr :: u64 where "kLockStartAddr = 0"

section \<open>The library and the device\<close>

text \<open>The global \<^verbatim>\<open>kMaxDeviceMemorySize\<close>, the calls made so far, and the state of queue pairs and
  memory.\<close>

record 'd nic =
  nic_kmax :: int
  nic_log :: call_log
  nic_dev :: 'd

record 'd verbs_env =
  ve_lib :: verbs_lib
  ve_modify :: "'d qp_modifier"
  ve_recv :: "ibv_qp \<Rightarrow> 'd recv_poster"
  ve_mmap :: "nat \<Rightarrow> 'd \<Rightarrow> u64 \<times> 'd"
  ve_create_ah :: "nat option \<Rightarrow> ah_attr \<Rightarrow> 'd \<Rightarrow> nat option \<times> 'd"

definition follow :: "'a option \<Rightarrow> err + 'a" where
  "follow p = (case p of None \<Rightarrow> Inl WildAccess | Some x \<Rightarrow> Inr x)"

lemma follow_simps [simp]: "follow None = Inl WildAccess" "follow (Some x) = Inr x"
  by (simp_all add: follow_def)

lemma follow_Inr_iff: "follow p = Inr x \<longleftrightarrow> p = Some x"
  by (cases p) simp_all

text \<open>A completion queue of an opened device.\<close>

definition create_cq :: "verbs_lib \<Rightarrow> RdmaContext \<Rightarrow> nat \<Rightarrow> call_log \<Rightarrow> err + nat option \<times> call_log" where
  "create_cq lib c depth l = rbind (follow (rc_ctx c)) (\<lambda>_.
     Inr (if lib_create_cq lib l then Some (length l) else None, l @ [CreateCq depth (lib_create_cq lib l)]))"

text \<open>A context before \<^verbatim>\<open>createContext\<close>; only the pointers are initialised.\<close>

definition new_RdmaContext :: RdmaContext where
  "new_RdmaContext = \<lparr>rc_devIndex = 0, rc_port = 0, rc_gidIndex = 0, rc_ctx = None, rc_pd = None, rc_lid = 0,
     rc_gid = replicate 16 0\<rparr>"

section \<open>Message connections\<close>

record message_link =
  ml_qp :: ibv_qp
  ml_send_cq :: "nat option"
  ml_mr :: mem_region
  ml_conn :: message_conn

definition AbstractMessageConnection ::
  "'d verbs_env \<Rightarrow> qp_type \<Rightarrow> nat \<Rightarrow> nat \<Rightarrow> RdmaContext \<Rightarrow> nat option \<Rightarrow> nat \<Rightarrow> 'd nic \<Rightarrow> err + message_link \<times> 'd nic" where
  "AbstractMessageConnection env type sp rp c cq nr s =
     rbind (assert_that (nr mod kBatchCount = 0) ''messageNR % kBatchCount == 0'') (\<lambda>_.
     rbind (create_cq (ve_lib env) c 128 (nic_log s)) (\<lambda>(send_cq, l1).
     case createQueuePair2 (ve_lib env) type send_cq cq c 128 0 l1 of (_, message, l2) \<Rightarrow>
     rbind (follow message) (\<lambda>qp.
     case modifyUDtoRTS (ve_modify env) qp c (nic_dev s) of (_, d1) \<Rightarrow>
     case ve_mmap env (2 * nr * MESSAGE_SIZE) d1 of (pool, d2) \<Rightarrow>
     case createMemoryRegion (ve_lib env) pool (of_nat (2 * nr * MESSAGE_SIZE)) l2 of (messageMR, l3) \<Rightarrow>
     rbind (follow messageMR) (\<lambda>mr.
     rbind (new_AbstractMessageConnection sp rp nr pool (mr_lkey mr)) (\<lambda>mc.
       Inr (\<lparr>ml_qp = qp, ml_send_cq = send_cq, ml_mr = mr, ml_conn = mc\<rparr>,
            s\<lparr>nic_log := l3, nic_dev := d2\<rparr>))))))"

definition RawMessageConnection ::
  "'d verbs_env \<Rightarrow> RdmaContext \<Rightarrow> nat option \<Rightarrow> nat \<Rightarrow> 'd nic \<Rightarrow> err + message_link \<times> 'd nic" where
  "RawMessageConnection env c cq nr s = AbstractMessageConnection env QPT_UD 0 40 c cq nr s"

definition getQPN :: "message_link \<Rightarrow> u32" where "getQPN ml = qp_num (ml_qp ml)"

section \<open>Queue pairs of one side\<close>

text \<open>One for every server; the answers are not looked at.\<close>

fun qp_row :: "verbs_lib \<Rightarrow> nat option \<Rightarrow> RdmaContext \<Rightarrow> nat \<Rightarrow> call_log \<Rightarrow> ibv_qp option list \<times> call_log" where
  "qp_row lib cq c 0 l = ([], l)"
| "qp_row lib cq c (Suc machineNR) l =
     (case createQueuePair lib QPT_RC cq c 128 0 l of (_, qp, l1) \<Rightarrow>
      case qp_row lib cq c machineNR l1 of (qps, l2) \<Rightarrow> (qp # qps, l2))"

fun qp_rows :: "verbs_lib \<Rightarrow> nat option \<Rightarrow> RdmaContext \<Rightarrow> nat \<Rightarrow> nat \<Rightarrow> call_log \<Rightarrow> ibv_qp option list list \<times> call_log" where
  "qp_rows lib cq c machineNR 0 l = ([], l)"
| "qp_rows lib cq c machineNR (Suc n) l =
     (case qp_row lib cq c machineNR l of (row, l1) \<Rightarrow>
      case qp_rows lib cq c machineNR n l1 of (rows, l2) \<Rightarrow> (row # rows, l2))"

section \<open>Application threads and directories\<close>

record thread_con =
  tc_threadID :: u16
  tc_ctx :: RdmaContext
  tc_cq :: "nat option"
  tc_rpc_cq :: "nat option"
  tc_message :: message_link
  tc_data :: "ibv_qp option list list"
  tc_cacheMR :: mem_region
  tc_cachePool :: u64
  tc_cacheLKey :: u32

definition ThreadConnection ::
  "'d verbs_env \<Rightarrow> u16 \<Rightarrow> u64 \<Rightarrow> u64 \<Rightarrow> nat \<Rightarrow> 'd nic \<Rightarrow> err + thread_con \<times> 'd nic" where
  "ThreadConnection env threadID cachePool cacheSize machineNR s =
     rbind (createContext (ve_lib env) 1 3 0 new_RdmaContext (nic_kmax s, nic_log s)) (\<lambda>(_, c, k, l0).
     rbind (create_cq (ve_lib env) c RAW_RECV_CQ_COUNT l0) (\<lambda>(cq, l1).
     rbind (create_cq (ve_lib env) c RAW_RECV_CQ_COUNT l1) (\<lambda>(rpc_cq, l2).
     rbind (RawMessageConnection env c rpc_cq APP_MESSAGE_NR (s\<lparr>nic_kmax := k, nic_log := l2\<rparr>)) (\<lambda>(message, s3).
     case createMemoryRegion (ve_lib env) cachePool cacheSize (nic_log s3) of (cacheMR, l4) \<Rightarrow>
     rbind (follow cacheMR) (\<lambda>mr.
     case qp_rows (ve_lib env) cq c machineNR NR_DIRECTORY l4 of (data, l5) \<Rightarrow>
       Inr (\<lparr>tc_threadID = threadID, tc_ctx = c, tc_cq = cq, tc_rpc_cq = rpc_cq, tc_message = message, tc_data = data,
              tc_cacheMR = mr, tc_cachePool = cachePool, tc_cacheLKey = mr_lkey mr\<rparr>, s3\<lparr>nic_log := l5\<rparr>))))))"

text \<open>Only directory 0 has the lock memory; in the others these fields are not initialised.\<close>

record dir_con =
  dc_dirID :: u16
  dc_ctx :: RdmaContext
  dc_cq :: "nat option"
  dc_message :: message_link
  dc_data2app :: "ibv_qp option list list"
  dc_dsmMR :: mem_region
  dc_dsmPool :: u64
  dc_dsmSize :: u64
  dc_dsmLKey :: u32
  dc_lockMR :: "mem_region option"
  dc_lockPool :: u64
  dc_lockSize :: u64
  dc_lockLKey :: u32

definition DirectoryConnection ::
  "'d verbs_env \<Rightarrow> u16 \<Rightarrow> u64 \<Rightarrow> u64 \<Rightarrow> nat \<Rightarrow> 'd nic \<Rightarrow> err + dir_con \<times> 'd nic" where
  "DirectoryConnection env dirID dsmPool dsmSize machineNR s =
     rbind (createContext (ve_lib env) 1 3 0 new_RdmaContext (nic_kmax s, nic_log s)) (\<lambda>(_, c, k, l0).
     rbind (create_cq (ve_lib env) c RAW_RECV_CQ_COUNT l0) (\<lambda>(cq, l1).
     rbind (RawMessageConnection env c cq DIR_MESSAGE_NR (s\<lparr>nic_kmax := k, nic_log := l1\<rparr>)) (\<lambda>(message, s2).
     case initRecv (ve_recv env (ml_qp message)) (ml_conn message) (nic_dev s2) of (mc, d3) \<Rightarrow>
     case createMemoryRegion (ve_lib env) dsmPool dsmSize (nic_log s2) of (dsmMR, l3) \<Rightarrow>
     rbind (follow dsmMR) (\<lambda>mr.
     let (lockMR, l4) = (if dirID = 0
           then createMemoryRegionOnChip (ve_lib env) kLockStartAddr (of_nat kLockChipMemSize) l3 else (None, l3)) in
     rbind (if dirID = 0 then rbind (follow lockMR) (\<lambda>m. Inr (mr_lkey m)) else Inr 0) (\<lambda>lockLKey.
     case qp_rows (ve_lib env) cq c machineNR MAX_APP_THREAD l4 of (data2app, l5) \<Rightarrow>
       Inr (\<lparr>dc_dirID = dirID, dc_ctx = c, dc_cq = cq, dc_message = message\<lparr>ml_conn := mc\<rparr>, dc_data2app = data2app,
              dc_dsmMR = mr, dc_dsmPool = dsmPool, dc_dsmSize = dsmSize, dc_dsmLKey = mr_lkey mr,
              dc_lockMR = lockMR, dc_lockPool = (if dirID = 0 then kLockStartAddr else 0),
              dc_lockSize = (if dirID = 0 then of_nat kLockChipMemSize else 0), dc_lockLKey = lockLKey\<rparr>,
            s2\<lparr>nic_log := l5, nic_dev := d3\<rparr>))))))"

section \<open>All of a server\<close>

fun collect :: "('i \<Rightarrow> 's \<Rightarrow> err + 'a \<times> 's) \<Rightarrow> 'i list \<Rightarrow> 's \<Rightarrow> err + 'a list \<times> 's" where
  "collect f [] s = Inr ([], s)"
| "collect f (i # is) s = rbind (f i s) (\<lambda>(x, s1). rbind (collect f is s1) (\<lambda>(xs, s2). Inr (x # xs, s2)))"

definition initRDMAConnection ::
  "'d verbs_env \<Rightarrow> u64 \<Rightarrow> u64 \<Rightarrow> u64 \<Rightarrow> u64 \<Rightarrow> nat \<Rightarrow> 'd nic \<Rightarrow> err + (thread_con list \<times> dir_con list) \<times> 'd nic" where
  "initRDMAConnection env cacheData cacheSize baseAddr dsmSize machineNR s =
     rbind (collect (\<lambda>i. ThreadConnection env (of_nat i) cacheData (cacheSize * of_nat GB) machineNR)
         [0..<MAX_APP_THREAD] s) (\<lambda>(thCon, s1).
     rbind (collect (\<lambda>i. DirectoryConnection env (of_nat i) baseAddr (dsmSize * of_nat GB) machineNR)
         [0..<NR_DIRECTORY] s1) (\<lambda>(dirCon, s2).
       Inr ((thCon, dirCon), s2)))"

end
