(* ===== verification/Keeper.thy ===== *)
theory Keeper
  imports Prelude
begin

text \<open>
  \<^verbatim>\<open>src/Keeper.cpp\<close> and the barrier and the sum of \<^verbatim>\<open>src/DSMKeeper.cpp\<close>: how the servers
  agree through memcached. The service is a parameter (\<open>memc\<close>) whose calls may fail at any
  time; the hypothesis \<open>memcached\<close> is what its documentation says of calls that succeed. Every call is
  one atomic step; in the interleavings below each server makes one call at a time.
\<close>

section \<open>Numbers as text\<close>

definition digit :: "nat \<Rightarrow> char" where "digit d = char_of (48 + d)"

fun to_string :: "nat \<Rightarrow> string" where
  "to_string n = (if n < 10 then [digit n] else to_string (n div 10) @ [digit (n mod 10)])"

declare to_string.simps [simp del]

definition is_digit :: "char \<Rightarrow> bool" where "is_digit c \<longleftrightarrow> 48 \<le> (of_char c :: nat) \<and> (of_char c :: nat) \<le> 57"

definition digits_val :: "string \<Rightarrow> nat" where
  "digits_val s = foldl (\<lambda>v c. v * 10 + (of_char c - 48)) 0 s"

text \<open>White space, a sign, digits.\<close>

definition is_space :: "char \<Rightarrow> bool" where
  "is_space c \<longleftrightarrow> (of_char c :: nat) = 32 \<or> 9 \<le> (of_char c :: nat) \<and> (of_char c :: nat) \<le> 13"

definition read_number :: "string \<Rightarrow> bool \<times> string" where
  "read_number s = (case dropWhile is_space s of
       [] \<Rightarrow> (False, [])
     | c # t \<Rightarrow> if c = CHR ''-'' then (True, takeWhile is_digit t)
               else if c = CHR ''+'' then (False, takeWhile is_digit t)
               else (False, takeWhile is_digit (c # t)))"

text \<open>\<^verbatim>\<open>std::stoull\<close> and \<^verbatim>\<open>std::stoi\<close> throw when there is no digit or when the value does not
  fit; the former takes a negative number modulo \<open>2 ^ 64\<close>. \<^verbatim>\<open>atoi\<close> gives 0 for text that is no
  number.\<close>

definition stoull :: "string \<Rightarrow> err + nat" where
  "stoull s = (case read_number s of (neg, ds) \<Rightarrow>
     if ds = [] then Inl (AssertFail ''std::invalid_argument'')
     else if digits_val ds \<ge> 2 ^ 64 then Inl (AssertFail ''std::out_of_range'')
     else Inr (if neg then (2 ^ 64 - digits_val ds) mod 2 ^ 64 else digits_val ds))"

definition atoi :: "string \<Rightarrow> int" where
  "atoi s = (case read_number s of (neg, ds) \<Rightarrow> if neg then - int (digits_val ds) else int (digits_val ds))"

definition stoi :: "string \<Rightarrow> err + int" where
  "stoi s = (if snd (read_number s) = [] then Inl (AssertFail ''std::invalid_argument'')
     else if atoi s < - (2 ^ 31) \<or> 2 ^ 31 \<le> atoi s then Inl (AssertFail ''std::out_of_range'')
     else Inr (atoi s))"

lemma digit_simps: "d < 10 \<Longrightarrow> is_digit (digit d)" "d < 10 \<Longrightarrow> of_char (digit d) - 48 = (d :: nat)"
proof -
  assume "d < 10"
  then have c: "of_char (digit d) = 48 + d" by (simp add: digit_def of_char_of)
  then show "is_digit (digit d)" "of_char (digit d) - 48 = d" using \<open>d < 10\<close> by (simp_all add: is_digit_def)
qed

lemma to_string_digits: "\<forall>c \<in> set (to_string n). is_digit c" "to_string n \<noteq> []" "digits_val (to_string n) = n"
proof (induction n rule: to_string.induct)
  case (1 n)
  { case 1
    show ?case using "1.IH"(1) digit_simps(1) by (subst to_string.simps) auto }
  { case 2
    show ?case by (subst to_string.simps) simp }
  { case 3
    show ?case using "1.IH"(3) digit_simps(2) by (subst to_string.simps) (simp add: digits_val_def) }
qed

lemma is_digit_simps: "is_digit c \<Longrightarrow> \<not> is_space c" "is_digit c \<Longrightarrow> c \<noteq> CHR ''-''" "is_digit c \<Longrightarrow> c \<noteq> CHR ''+''"
  by (auto simp: is_digit_def is_space_def)

lemma read_digits: "\<forall>c \<in> set s. is_digit c \<Longrightarrow> read_number s = (False, s)"
  using is_digit_simps by (cases s) (auto simp: read_number_def takeWhile_eq_all_conv)

lemma read_to_string: "n < 2 ^ 64 \<Longrightarrow> stoull (to_string n) = Inr n" "atoi (to_string n) = int n"
  by (simp_all add: stoull_def atoi_def read_digits to_string_digits)

lemma to_string_inject: "to_string m = to_string n \<longleftrightarrow> m = n"
  by (metis to_string_digits(3))

section \<open>The service\<close>

text \<open>A value is text, the bytes of a number, or the bytes of a record; bytes that were written as one of
  these are read as the same.\<close>

datatype 'x mc_value = Text string | Word u64 | Blob 'x

record ('x, 'm) memc =
  mc_set :: "string \<Rightarrow> 'x mc_value \<Rightarrow> 'm \<Rightarrow> bool \<times> 'm"
  mc_get :: "string \<Rightarrow> 'm \<Rightarrow> 'x mc_value option \<times> 'm"
  mc_incr :: "string \<Rightarrow> 'm \<Rightarrow> nat option \<times> 'm"

definition as_text :: "'x mc_value \<Rightarrow> err + string" where
  "as_text v = (case v of Text s \<Rightarrow> Inr s | _ \<Rightarrow> Inl WildAccess)"

definition as_word :: "'x mc_value \<Rightarrow> err + u64" where
  "as_word v = (case v of Word w \<Rightarrow> Inr w | _ \<Rightarrow> Inl WildAccess)"

text \<open>A call that succeeds does what it says, one that fails does nothing; only text of digits can be
  incremented.\<close>

definition memcached :: "('x, 'm) memc \<Rightarrow> ('m \<Rightarrow> string \<Rightarrow> 'x mc_value option) \<Rightarrow> bool" where
  "memcached mc store \<longleftrightarrow>
     (\<forall>k v m. store (snd (mc_set mc k v m)) = (if fst (mc_set mc k v m) then (store m)(k \<mapsto> v) else store m))
     \<and> (\<forall>k m. store (snd (mc_get mc k m)) = store m \<and> (\<forall>v. fst (mc_get mc k m) = Some v \<longrightarrow> store m k = Some v))
     \<and> (\<forall>k m. case fst (mc_incr mc k m) of
          None \<Rightarrow> store (snd (mc_incr mc k m)) = store m
        | Some n \<Rightarrow> (\<exists>s. store m k = Some (Text s) \<and> s \<noteq> [] \<and> (\<forall>c \<in> set s. is_digit c)
            \<and> n = (digits_val s + 1) mod 2 ^ 64 \<and> store (snd (mc_incr mc k m)) = (store m)(k \<mapsto> Text (to_string n))))"

text \<open>A service that answers every call that it can.\<close>

definition responsive :: "('x, 'm) memc \<Rightarrow> ('m \<Rightarrow> string \<Rightarrow> 'x mc_value option) \<Rightarrow> bool" where
  "responsive mc store \<longleftrightarrow>
     (\<forall>k v m. fst (mc_set mc k v m)) \<and> (\<forall>k m. store m k \<noteq> None \<longrightarrow> fst (mc_get mc k m) \<noteq> None)
     \<and> (\<forall>k m n. store m k = Some (Text (to_string n)) \<longrightarrow> fst (mc_incr mc k m) \<noteq> None)"

lemma memcached_set:
  assumes "memcached mc store" "mc_set mc k v m = (ok, m')"
  shows "store m' = (if ok then (store m)(k \<mapsto> v) else store m)"
  using assms unfolding memcached_def by (metis fst_conv snd_conv)

lemma memcached_get:
  assumes "memcached mc store" "mc_get mc k m = (r, m')"
  shows "store m' = store m" "r = Some v \<Longrightarrow> store m k = Some v"
  using assms unfolding memcached_def by (metis fst_conv snd_conv)+

lemma memcached_incr:
  assumes "memcached mc store" "mc_incr mc k m = (r, m')"
  shows "r = None \<Longrightarrow> store m' = store m"
    "r = Some n \<Longrightarrow> store m k = Some (Text (to_string j)) \<Longrightarrow> n = (j + 1) mod 2 ^ 64
      \<and> store m' = (store m)(k \<mapsto> Text (to_string n))"
    "r = Some n \<Longrightarrow> store m k \<noteq> None"
proof -
  have "case fst (mc_incr mc k m) of None \<Rightarrow> store (snd (mc_incr mc k m)) = store m
      | Some n \<Rightarrow> (\<exists>s. store m k = Some (Text s) \<and> s \<noteq> [] \<and> (\<forall>c \<in> set s. is_digit c)
          \<and> n = (digits_val s + 1) mod 2 ^ 64 \<and> store (snd (mc_incr mc k m)) = (store m)(k \<mapsto> Text (to_string n)))"
    using assms(1) unfolding memcached_def by (elim conjE allE)
  then have i: "case r of None \<Rightarrow> store m' = store m
      | Some n \<Rightarrow> (\<exists>s. store m k = Some (Text s) \<and> s \<noteq> [] \<and> (\<forall>c \<in> set s. is_digit c)
          \<and> n = (digits_val s + 1) mod 2 ^ 64 \<and> store m' = (store m)(k \<mapsto> Text (to_string n)))"
    unfolding assms(2) fst_conv snd_conv .
  show "r = None \<Longrightarrow> store m' = store m" using i by simp
  show "r = Some n \<Longrightarrow> store m k = Some (Text (to_string j)) \<Longrightarrow> n = (j + 1) mod 2 ^ 64
      \<and> store m' = (store m)(k \<mapsto> Text (to_string n))" using i by (auto simp: to_string_digits)
  show "r = Some n \<Longrightarrow> store m k \<noteq> None" using i by auto
qed

lemma responsiveD:
  assumes "responsive mc store"
  shows "mc_set mc k v m = (ok, m') \<Longrightarrow> ok" "mc_get mc k m = (None, m') \<Longrightarrow> store m k = None"
    "mc_incr mc k m = (None, m') \<Longrightarrow> store m k \<noteq> Some (Text (to_string n))"
  using assms unfolding responsive_def by (metis fst_conv)+

section \<open>Calls that are repeated until they succeed\<close>

fun memSet :: "('x, 'm) memc \<Rightarrow> nat \<Rightarrow> string \<Rightarrow> 'x mc_value \<Rightarrow> 'm \<Rightarrow> err + 'm" where
  "memSet mc 0 k v m = Inl OutOfFuel"
| "memSet mc (Suc fuel) k v m =
     (case mc_set mc k v m of (ok, m') \<Rightarrow> if ok then Inr m' else memSet mc fuel k v m')"

fun memGet :: "('x, 'm) memc \<Rightarrow> nat \<Rightarrow> string \<Rightarrow> 'm \<Rightarrow> err + 'x mc_value \<times> 'm" where
  "memGet mc 0 k m = Inl OutOfFuel"
| "memGet mc (Suc fuel) k m =
     (case mc_get mc k m of (None, m') \<Rightarrow> memGet mc fuel k m' | (Some v, m') \<Rightarrow> Inr (v, m'))"

fun memFetchAndAdd :: "('x, 'm) memc \<Rightarrow> nat \<Rightarrow> string \<Rightarrow> 'm \<Rightarrow> err + nat \<times> 'm" where
  "memFetchAndAdd mc 0 k m = Inl OutOfFuel"
| "memFetchAndAdd mc (Suc fuel) k m =
     (case mc_incr mc k m of (None, m') \<Rightarrow> memFetchAndAdd mc fuel k m' | (Some n, m') \<Rightarrow> Inr (n, m'))"

section \<open>Finding the service\<close>

definition trim :: "string \<Rightarrow> string" where
  "trim s = rev (dropWhile (\<lambda>c. c = CHR '' '') (rev (dropWhile (\<lambda>c. c = CHR '' '') s)))"

text \<open>\<open>conf\<close> are the lines of \<^verbatim>\<open>memcached.conf\<close>, if there is such a file; a line that is not there is
  read as empty. \<open>push\<close> is the answer of the library.\<close>

definition connectMemcached :: "string list option \<Rightarrow> (string \<Rightarrow> int \<Rightarrow> bool) \<Rightarrow> err + bool" where
  "connectMemcached conf push = (case conf of
       None \<Rightarrow> Inr False
     | Some ls \<Rightarrow>
         let addr = (case ls of [] \<Rightarrow> [] | a # _ \<Rightarrow> a);
             port = (case ls of _ # p # _ \<Rightarrow> p | _ \<Rightarrow> [])
         in rbind (stoi (trim port)) (\<lambda>p. Inr (push (trim addr) p)))"

section \<open>Entering the cluster\<close>

definition SERVER_NUM_KEY :: string where "SERVER_NUM_KEY = ''serverNum''"

text \<open>The identity that the server takes has 16 bits.\<close>

fun serverEnter :: "('x, 'm) memc \<Rightarrow> nat \<Rightarrow> 'm \<Rightarrow> err + u16 \<times> 'm" where
  "serverEnter mc 0 m = Inl OutOfFuel"
| "serverEnter mc (Suc fuel) m =
     (case mc_incr mc SERVER_NUM_KEY m of
        (Some serverNum, m') \<Rightarrow> Inr (of_nat serverNum - 1, m')
      | (None, m') \<Rightarrow> serverEnter mc fuel m')"

text \<open>\<open>connect\<close> is the virtual \<^verbatim>\<open>connectNode\<close>, on the server's own state and the service; its answer is
  not looked at.\<close>

fun connect_from :: "(nat \<Rightarrow> 'n \<times> 'm \<Rightarrow> err + 'n \<times> 'm) \<Rightarrow> u16 \<Rightarrow> nat list \<Rightarrow> 'n \<times> 'm \<Rightarrow> err + 'n \<times> 'm" where
  "connect_from connect me [] s = Inr s"
| "connect_from connect me (k # ks) s =
     rbind (if k \<noteq> unat me then connect k s else Inr s) (connect_from connect me ks)"

fun serverConnect ::
  "('x, 'm) memc \<Rightarrow> (nat \<Rightarrow> 'n \<times> 'm \<Rightarrow> err + 'n \<times> 'm) \<Rightarrow> nat \<Rightarrow> u16 \<Rightarrow> u32 \<Rightarrow> u16 \<Rightarrow> 'n \<times> 'm
    \<Rightarrow> err + u16 \<times> 'n \<times> 'm" where
  "serverConnect mc connect 0 me maxServer curServer s = Inl OutOfFuel"
| "serverConnect mc connect (Suc fuel) me maxServer curServer s =
     (if unat curServer < unat maxServer then
        (case mc_get mc SERVER_NUM_KEY (snd s) of
           (None, m') \<Rightarrow> serverConnect mc connect fuel me maxServer curServer (fst s, m')
         | (Some v, m') \<Rightarrow>
             rbind (as_text v) (\<lambda>serverNumStr.
             let serverNum = (of_int (atoi serverNumStr) :: u32) in
             rbind (connect_from connect me [unat curServer..<unat serverNum] (fst s, m')) (\<lambda>s'.
               serverConnect mc connect fuel me maxServer (ucast serverNum) s')))
      else Inr (curServer, s))"

section \<open>Schedules\<close>

text \<open>A schedule, over which \<open>for_each\<close> runs, says which server makes the next call.\<close>

text \<open>A property of each server that its own call brings about, and that no call of another destroys,
  holds of all after each has made a call.\<close>

lemma for_each_all:
  assumes step: "\<And>pcs m i. good (pcs, m) \<Longrightarrow> i < n \<Longrightarrow> \<exists>pc m'. step i (pcs, m) = Inr (pcs(i := pc), m')
      \<and> good (pcs(i := pc), m') \<and> P pc"
  shows "good s \<Longrightarrow> set is \<subseteq> {0..<n} \<Longrightarrow> \<exists>s'. for_each step is s = Inr s' \<and> good s'
    \<and> (\<forall>j < n. j \<in> set is \<or> P (fst s j) \<longrightarrow> P (fst s' j))"
proof (induction "is" arbitrary: s)
  case (Cons i "is")
  obtain pcs m where s: "s = (pcs, m)" by (cases s)
  obtain pc m' where 1: "step i s = Inr (pcs(i := pc), m')" "good (pcs(i := pc), m')" "P pc"
    using step [of pcs m i] Cons.prems s by auto
  obtain s' where 2: "for_each step is (pcs(i := pc), m') = Inr s'" "good s'"
    "\<forall>j < n. j \<in> set is \<or> P ((pcs(i := pc)) j) \<longrightarrow> P (fst s' j)"
    using Cons.IH [OF 1(2)] Cons.prems(2) by auto
  have "\<forall>j < n. j \<in> set (i # is) \<or> P (fst s j) \<longrightarrow> P (fst s' j)" using 2(3) 1(3) s by auto
  with 1(1) 2(1,2) show ?case by auto
qed simp

section \<open>The barrier\<close>

definition barrier_key :: "string \<Rightarrow> string" where "barrier_key k = ''barrier-'' @ k"

fun barrier_wait :: "('x, 'm) memc \<Rightarrow> nat \<Rightarrow> nat \<Rightarrow> string \<Rightarrow> 'm \<Rightarrow> err + 'm" where
  "barrier_wait mc 0 serverNR key m = Inl OutOfFuel"
| "barrier_wait mc (Suc fuel) serverNR key m =
     rbind (memGet mc (Suc fuel) key m) (\<lambda>(v, m').
     rbind (as_text v) (\<lambda>s. rbind (stoull s) (\<lambda>n.
       if n = serverNR then Inr m' else barrier_wait mc fuel serverNR key m')))"

definition barrier :: "('x, 'm) memc \<Rightarrow> nat \<Rightarrow> nat \<Rightarrow> nat \<Rightarrow> string \<Rightarrow> 'm \<Rightarrow> err + 'm" where
  "barrier mc fuel myNodeID serverNR barrierKey m =
     (let key = barrier_key barrierKey
      in rbind (if myNodeID = 0 then memSet mc fuel key (Text ''0'') m else Inr m) (\<lambda>m1.
         rbind (memFetchAndAdd mc fuel key m1) (\<lambda>(_, m2). barrier_wait mc fuel serverNR key m2)))"

text \<open>The same, one call at a time: where a server is and what its next call does.\<close>

datatype barrier_pc = BSet | BAdd | BWait | BDone

definition barrier_start :: "nat \<Rightarrow> barrier_pc" where
  "barrier_start i = (if i = 0 then BSet else BAdd)"

fun barrier_next :: "('x, 'm) memc \<Rightarrow> nat \<Rightarrow> string \<Rightarrow> barrier_pc \<Rightarrow> 'm \<Rightarrow> err + barrier_pc \<times> 'm" where
  "barrier_next mc serverNR key BSet m =
     (case mc_set mc key (Text ''0'') m of (ok, m') \<Rightarrow> Inr (if ok then BAdd else BSet, m'))"
| "barrier_next mc serverNR key BAdd m =
     (case mc_incr mc key m of (r, m') \<Rightarrow> Inr (if r = None then BAdd else BWait, m'))"
| "barrier_next mc serverNR key BWait m =
     (case mc_get mc key m of
        (None, m') \<Rightarrow> Inr (BWait, m')
      | (Some v, m') \<Rightarrow> rbind (as_text v) (\<lambda>s. rbind (stoull s) (\<lambda>n.
          Inr (if n = serverNR then BDone else BWait, m'))))"
| "barrier_next mc serverNR key BDone m = Inr (BDone, m)"

definition barrier_step ::
  "('x, 'm) memc \<Rightarrow> nat \<Rightarrow> string \<Rightarrow> nat \<Rightarrow> (nat \<Rightarrow> barrier_pc) \<times> 'm \<Rightarrow> err + (nat \<Rightarrow> barrier_pc) \<times> 'm" where
  "barrier_step mc serverNR key i s =
     rbind (barrier_next mc serverNR key (fst s i) (snd s)) (\<lambda>(pc, m). Inr ((fst s)(i := pc), m))"

abbreviation barrier_run ::
  "('x, 'm) memc \<Rightarrow> nat \<Rightarrow> string \<Rightarrow> nat list \<Rightarrow> (nat \<Rightarrow> barrier_pc) \<times> 'm \<Rightarrow> err + (nat \<Rightarrow> barrier_pc) \<times> 'm" where
  "barrier_run mc serverNR key \<equiv> for_each (barrier_step mc serverNR key)"

section \<open>The sum\<close>

definition sum_prefix :: "string \<Rightarrow> string" where "sum_prefix sum_key = ''sum-'' @ sum_key"

fun sum_from :: "('x, 'm) memc \<Rightarrow> nat \<Rightarrow> string \<Rightarrow> nat list \<Rightarrow> u64 \<Rightarrow> 'm \<Rightarrow> err + u64 \<times> 'm" where
  "sum_from mc fuel key_prefix [] ret m = Inr (ret, m)"
| "sum_from mc fuel key_prefix (i # is) ret m =
     rbind (memGet mc fuel (key_prefix @ to_string i) m) (\<lambda>(v, m'). rbind (as_word v) (\<lambda>w.
       sum_from mc fuel key_prefix is (ret + w) m'))"

definition keeper_sum :: "('x, 'm) memc \<Rightarrow> nat \<Rightarrow> nat \<Rightarrow> nat \<Rightarrow> string \<Rightarrow> u64 \<Rightarrow> 'm \<Rightarrow> err + u64 \<times> 'm" where
  "keeper_sum mc fuel myNodeID serverNR sum_key value m =
     (let key_prefix = sum_prefix sum_key
      in rbind (memSet mc fuel (key_prefix @ to_string myNodeID) (Word value) m) (\<lambda>m1.
         sum_from mc fuel key_prefix [0..<serverNR] 0 m1))"

text \<open>\<^verbatim>\<open>DSM::sum\<close> numbers its calls.\<close>

definition dsm_sum_key :: "nat \<Rightarrow> string" where "dsm_sum_key count = ''sum-'' @ to_string count"

definition dsm_sum ::
  "('x, 'm) memc \<Rightarrow> nat \<Rightarrow> nat \<Rightarrow> nat \<Rightarrow> u64 \<Rightarrow> nat \<times> 'm \<Rightarrow> err + u64 \<times> nat \<times> 'm" where
  "dsm_sum mc fuel myNodeID serverNR value s =
     (case s of (count, m) \<Rightarrow>
        rbind (keeper_sum mc fuel myNodeID serverNR (dsm_sum_key count) value m) (\<lambda>(r, m'). Inr (r, Suc count, m')))"

text \<open>One call at a time.\<close>

datatype sum_pc = SSet | SGet nat u64 | SDone u64

fun sum_next :: "('x, 'm) memc \<Rightarrow> nat \<Rightarrow> string \<Rightarrow> nat \<Rightarrow> u64 \<Rightarrow> sum_pc \<Rightarrow> 'm \<Rightarrow> err + sum_pc \<times> 'm" where
  "sum_next mc serverNR key_prefix i value SSet m =
     (case mc_set mc (key_prefix @ to_string i) (Word value) m of (ok, m') \<Rightarrow>
        Inr (if \<not> ok then SSet else if serverNR = 0 then SDone 0 else SGet 0 0, m'))"
| "sum_next mc serverNR key_prefix i value (SGet j ret) m =
     (case mc_get mc (key_prefix @ to_string j) m of
        (None, m') \<Rightarrow> Inr (SGet j ret, m')
      | (Some v, m') \<Rightarrow> rbind (as_word v) (\<lambda>w.
          Inr (if Suc j < serverNR then SGet (Suc j) (ret + w) else SDone (ret + w), m')))"
| "sum_next mc serverNR key_prefix i value (SDone ret) m = Inr (SDone ret, m)"

definition sum_step :: "('x, 'm) memc \<Rightarrow> nat \<Rightarrow> string \<Rightarrow> (nat \<Rightarrow> u64) \<Rightarrow> nat \<Rightarrow> (nat \<Rightarrow> sum_pc) \<times> 'm
    \<Rightarrow> err + (nat \<Rightarrow> sum_pc) \<times> 'm" where
  "sum_step mc serverNR key_prefix val i s =
     rbind (sum_next mc serverNR key_prefix i (val i) (fst s i) (snd s)) (\<lambda>(pc, m). Inr ((fst s)(i := pc), m))"

abbreviation sum_run :: "('x, 'm) memc \<Rightarrow> nat \<Rightarrow> string \<Rightarrow> (nat \<Rightarrow> u64) \<Rightarrow> nat list \<Rightarrow> (nat \<Rightarrow> sum_pc) \<times> 'm
    \<Rightarrow> err + (nat \<Rightarrow> sum_pc) \<times> 'm" where
  "sum_run mc serverNR key_prefix val \<equiv> for_each (sum_step mc serverNR key_prefix val)"

end
