(* ===== verification/Exchange.thy ===== *)
theory Exchange
  imports Connections Keeper
begin

text \<open>
  \<^verbatim>\<open>src/DSMKeeper.cpp\<close>: how two servers exchange the numbers of their queue pairs through
  memcached and connect them. Each server publishes, for each other one, a record under a key of the two
  numbers, waits for the record that the other has published for it, and takes its queue pairs towards
  the other through their states. The verbs library is the parameter \<open>env\<close> and memcached \<open>mc\<close>, as before.
\<close>

section \<open>What is exchanged\<close>

record ExPerThread =
  ex_lid :: u16
  ex_gid :: gid
  ex_rKey :: u32
  ex_lock_rkey :: u32

record ExchangeMeta =
  em_dsmBase :: u64
  em_cacheBase :: u64
  em_lockBase :: u64
  em_appTh :: "ExPerThread list"
  em_dirTh :: "ExPerThread list"
  em_appUdQpn :: "u32 list"
  em_dirUdQpn :: "u32 list"
  em_appRcQpn2dir :: "u32 list list"
  em_dirRcQpn2app :: "u32 list list"

text \<open>What a server keeps of another one.\<close>

record RemoteConnection =
  ri_dsmBase :: u64
  ri_dsmRKey :: "u32 list"
  ri_dirMessageQPN :: "u32 list"
  ri_appToDirAh :: "nat list list"
  ri_cacheBase :: u64
  ri_lockBase :: u64
  ri_lockRKey :: "u32 list"
  ri_appRKey :: "u32 list"
  ri_appMessageQPN :: "u32 list"
  ri_dirToAppAh :: "nat list list"

text \<open>The keeper of a server, with the state of its device; an entry of \<open>kp_remoteCon\<close> that was not
  filled yet is \<open>None\<close>.\<close>

record 'd keeper =
  kp_thCon :: "thread_con list"
  kp_dirCon :: "dir_con list"
  kp_remoteCon :: "RemoteConnection option list"
  kp_meta :: ExchangeMeta
  kp_myNodeID :: u16
  kp_dev :: 'd

section \<open>Arrays\<close>

definition elem_at :: "'a list \<Rightarrow> nat \<Rightarrow> err + 'a" where
  "elem_at xs i = rbind (require (i < length xs) OutOfBounds) (\<lambda>_. Inr (xs ! i))"

fun rmap :: "('i \<Rightarrow> err + 'a) \<Rightarrow> 'i list \<Rightarrow> err + 'a list" where
  "rmap f [] = Inr []"
| "rmap f (i # is) = rbind (f i) (\<lambda>x. rbind (rmap f is) (\<lambda>xs. Inr (x # xs)))"

text \<open>The queue pair \<^verbatim>\<open>table[k][remoteID]\<close>, whose fields are read.\<close>

definition rc_at :: "ibv_qp option list list \<Rightarrow> nat \<Rightarrow> nat \<Rightarrow> err + ibv_qp" where
  "rc_at table k remoteID = rbind (elem_at table k) (\<lambda>row. rbind (elem_at row remoteID) follow)"

section \<open>The record of a server\<close>

text \<open>The lock key of an application thread is not written and not read.\<close>

definition app_meta :: "thread_con \<Rightarrow> ExPerThread" where
  "app_meta c = \<lparr>ex_lid = rc_lid (tc_ctx c), ex_gid = take 16 (rc_gid (tc_ctx c)), ex_rKey = mr_rkey (tc_cacheMR c),
     ex_lock_rkey = 0\<rparr>"

definition dir_meta :: "dir_con \<Rightarrow> err + ExPerThread" where
  "dir_meta c = rbind (follow (dc_lockMR c)) (\<lambda>lockMR.
     Inr \<lparr>ex_lid = rc_lid (dc_ctx c), ex_gid = take 16 (rc_gid (dc_ctx c)), ex_rKey = mr_rkey (dc_dsmMR c),
       ex_lock_rkey = mr_rkey lockMR\<rparr>)"

definition initLocalMeta :: "'d keeper \<Rightarrow> err + 'd keeper" where
  "initLocalMeta kp =
     rbind (elem_at (kp_dirCon kp) 0) (\<lambda>dir0.
     rbind (elem_at (kp_thCon kp) 0) (\<lambda>th0.
     rbind (rmap (elem_at (kp_thCon kp)) [0..<MAX_APP_THREAD]) (\<lambda>ths.
     rbind (rmap (elem_at (kp_dirCon kp)) [0..<NR_DIRECTORY]) (\<lambda>dirs.
     rbind (rmap dir_meta dirs) (\<lambda>dirTh.
       Inr (kp\<lparr>kp_meta := (kp_meta kp)\<lparr>em_dsmBase := dc_dsmPool dir0, em_lockBase := dc_lockPool dir0,
              em_cacheBase := tc_cachePool th0, em_appTh := map app_meta ths,
              em_appUdQpn := map (\<lambda>c. getQPN (tc_message c)) ths, em_dirTh := dirTh,
              em_dirUdQpn := map (\<lambda>c. getQPN (dc_message c)) dirs\<rparr>\<rparr>))))))"

definition setDataToRemote :: "nat \<Rightarrow> 'd keeper \<Rightarrow> err + 'd keeper" where
  "setDataToRemote remoteID kp =
     rbind (rmap (\<lambda>i. rbind (elem_at (kp_dirCon kp) i) (\<lambda>c.
         rmap (\<lambda>k. rbind (rc_at (dc_data2app c) k remoteID) (\<lambda>qp. Inr (qp_num qp))) [0..<MAX_APP_THREAD]))
       [0..<NR_DIRECTORY]) (\<lambda>dir2app.
     rbind (rmap (\<lambda>i. rbind (elem_at (kp_thCon kp) i) (\<lambda>c.
         rmap (\<lambda>k. rbind (rc_at (tc_data c) k remoteID) (\<lambda>qp. Inr (qp_num qp))) [0..<NR_DIRECTORY]))
       [0..<MAX_APP_THREAD]) (\<lambda>app2dir.
       Inr (kp\<lparr>kp_meta := (kp_meta kp)\<lparr>em_dirRcQpn2app := dir2app, em_appRcQpn2dir := app2dir\<rparr>\<rparr>)))"

section \<open>Connecting\<close>

text \<open>The answers of the three calls are not looked at.\<close>

definition connect_qp :: "'d verbs_env \<Rightarrow> ibv_qp \<Rightarrow> u32 \<Rightarrow> ExPerThread \<Rightarrow> RdmaContext \<Rightarrow> 'd \<Rightarrow> err + 'd" where
  "connect_qp env qp remoteQPN x c d =
     rbind (assert_that (qp_type qp = QPT_RC) ''qp->qp_type == IBV_QPT_RC'') (\<lambda>_.
     case modifyQPtoInit (ve_modify env) qp c d of (_, d1) \<Rightarrow>
     case modifyQPtoRTR (ve_modify env) qp remoteQPN (ex_lid x) (ex_gid x) c d1 of (_, d2) \<Rightarrow>
     case modifyQPtoRTS (ve_modify env) qp d2 of (_, d3) \<Rightarrow> Inr d3)"

definition connect_dir_qp ::
  "'d verbs_env \<Rightarrow> 'd keeper \<Rightarrow> nat \<Rightarrow> ExchangeMeta \<Rightarrow> nat \<Rightarrow> nat \<Rightarrow> 'd \<Rightarrow> err + 'd" where
  "connect_dir_qp env kp remoteID m i k d =
     rbind (elem_at (kp_dirCon kp) i) (\<lambda>c. rbind (rc_at (dc_data2app c) k remoteID) (\<lambda>qp.
     rbind (rbind (elem_at (em_appRcQpn2dir m) k) (\<lambda>row. elem_at row i)) (\<lambda>n.
     rbind (elem_at (em_appTh m) k) (\<lambda>x. connect_qp env qp n x (dc_ctx c) d))))"

definition connect_app_qp ::
  "'d verbs_env \<Rightarrow> 'd keeper \<Rightarrow> nat \<Rightarrow> ExchangeMeta \<Rightarrow> nat \<Rightarrow> nat \<Rightarrow> 'd \<Rightarrow> err + 'd" where
  "connect_app_qp env kp remoteID m i k d =
     rbind (elem_at (kp_thCon kp) i) (\<lambda>c. rbind (rc_at (tc_data c) k remoteID) (\<lambda>qp.
     rbind (rbind (elem_at (em_dirRcQpn2app m) k) (\<lambda>row. elem_at row i)) (\<lambda>n.
     rbind (elem_at (em_dirTh m) k) (\<lambda>x. connect_qp env qp n x (tc_ctx c) d))))"

definition create_ah :: "'d verbs_env \<Rightarrow> ExPerThread \<Rightarrow> RdmaContext \<Rightarrow> 'd \<Rightarrow> err + nat \<times> 'd" where
  "create_ah env x c d =
     (case ve_create_ah env (rc_pd c) (fillAhAttr (ucast (ex_lid x)) (ex_gid x) c) d of (ah, d') \<Rightarrow>
        rbind (assert_that (ah \<noteq> None) ''ibv_create_ah'') (\<lambda>_. Inr (the ah, d')))"

text \<open>The handles come in the order of the loops and are stored with the indices exchanged.\<close>

definition exchanged :: "nat \<Rightarrow> nat \<Rightarrow> 'a list list \<Rightarrow> 'a list list" where
  "exchanged n m rows = map (\<lambda>k. map (\<lambda>i. rows ! i ! k) [0..<n]) [0..<m]"

definition setDataFromRemote :: "'d verbs_env \<Rightarrow> nat \<Rightarrow> ExchangeMeta \<Rightarrow> 'd keeper \<Rightarrow> err + 'd keeper" where
  "setDataFromRemote env remoteID m kp =
     rbind (for_each (\<lambda>i. for_each (connect_dir_qp env kp remoteID m i) [0..<MAX_APP_THREAD]) [0..<NR_DIRECTORY] (kp_dev kp)) (\<lambda>d1.
     rbind (for_each (\<lambda>i. for_each (connect_app_qp env kp remoteID m i) [0..<NR_DIRECTORY]) [0..<MAX_APP_THREAD] d1) (\<lambda>d2.
     rbind (require (remoteID < length (kp_remoteCon kp)) OutOfBounds) (\<lambda>_.
     rbind (collect (\<lambda>i. collect (\<lambda>k d.
         rbind (elem_at (em_dirTh m) i) (\<lambda>x. rbind (elem_at (kp_thCon kp) k) (\<lambda>c. create_ah env x (tc_ctx c) d)))
       [0..<MAX_APP_THREAD]) [0..<NR_DIRECTORY] d2) (\<lambda>(ahs, d3).
     rbind (collect (\<lambda>i. collect (\<lambda>k d.
         rbind (elem_at (em_appTh m) i) (\<lambda>x. rbind (elem_at (kp_dirCon kp) k) (\<lambda>c. create_ah env x (dc_ctx c) d)))
       [0..<NR_DIRECTORY]) [0..<MAX_APP_THREAD] d3) (\<lambda>(bhs, d4).
       Inr (kp\<lparr>kp_dev := d4, kp_remoteCon := (kp_remoteCon kp)[remoteID := Some
          \<lparr>ri_dsmBase = em_dsmBase m, ri_dsmRKey = map ex_rKey (em_dirTh m), ri_dirMessageQPN = em_dirUdQpn m,
           ri_appToDirAh = exchanged NR_DIRECTORY MAX_APP_THREAD ahs, ri_cacheBase = em_cacheBase m,
           ri_lockBase = em_lockBase m, ri_lockRKey = map ex_lock_rkey (em_dirTh m),
           ri_appRKey = map ex_rKey (em_appTh m), ri_appMessageQPN = em_appUdQpn m,
           ri_dirToAppAh = exchanged MAX_APP_THREAD NR_DIRECTORY bhs\<rparr>]\<rparr>))))))"

section \<open>The keeper\<close>

definition setKey :: "u16 \<Rightarrow> nat \<Rightarrow> string" where
  "setKey me remoteID = to_string (unat me) @ ''-'' @ to_string remoteID"

definition getKey :: "u16 \<Rightarrow> nat \<Rightarrow> string" where
  "getKey me remoteID = to_string remoteID @ ''-'' @ to_string (unat me)"

definition as_blob :: "'x mc_value \<Rightarrow> err + 'x" where
  "as_blob v = (case v of Blob x \<Rightarrow> Inr x | _ \<Rightarrow> Inl WildAccess)"

text \<open>The number of the other server is cut to 16 bits.\<close>

definition connectNode ::
  "(ExchangeMeta, 'm) memc \<Rightarrow> 'd verbs_env \<Rightarrow> nat \<Rightarrow> nat \<Rightarrow> 'd keeper \<times> 'm \<Rightarrow> err + 'd keeper \<times> 'm" where
  "connectNode mc env fuel k s =
     (case s of (kp, m) \<Rightarrow>
      let remoteID = unat (of_nat k :: u16) in
      rbind (setDataToRemote remoteID kp) (\<lambda>kp1.
      rbind (memSet mc fuel (setKey (kp_myNodeID kp1) remoteID) (Blob (kp_meta kp1)) m) (\<lambda>m1.
      rbind (memGet mc fuel (getKey (kp_myNodeID kp1) remoteID) m1) (\<lambda>(v, m2).
      rbind (as_blob v) (\<lambda>remoteMeta.
      rbind (setDataFromRemote env remoteID remoteMeta kp1) (\<lambda>kp2. Inr (kp2, m2)))))))"

definition connectMySelf :: "'d verbs_env \<Rightarrow> 'd keeper \<Rightarrow> err + 'd keeper" where
  "connectMySelf env kp =
     rbind (setDataToRemote (unat (kp_myNodeID kp)) kp) (\<lambda>kp1.
       setDataFromRemote env (unat (kp_myNodeID kp1)) (kp_meta kp1) kp1)"

text \<open>The address that is written is never set: it is the empty text.\<close>

definition ServerPrefix :: string where "ServerPrefix = ''SPre''"

definition initRouteRule :: "('x, 'm) memc \<Rightarrow> nat \<Rightarrow> 'd keeper \<Rightarrow> 'm \<Rightarrow> err + 'm" where
  "initRouteRule mc fuel kp m = memSet mc fuel (ServerPrefix @ to_string (unat (kp_myNodeID kp))) (Text []) m"

text \<open>When the service cannot be found the constructor returns early; the flag says which it was.\<close>

definition new_DSMKeeper ::
  "(ExchangeMeta, 'm) memc \<Rightarrow> 'd verbs_env \<Rightarrow> nat \<Rightarrow> string list option \<Rightarrow> (string \<Rightarrow> int \<Rightarrow> bool) \<Rightarrow> u32
    \<Rightarrow> 'd keeper \<times> 'm \<Rightarrow> err + bool \<times> 'd keeper \<times> 'm" where
  "new_DSMKeeper mc env fuel conf push maxServer s =
     (case s of (kp, m) \<Rightarrow>
      rbind (initLocalMeta kp) (\<lambda>kp1.
      rbind (connectMemcached conf push) (\<lambda>connected.
      if \<not> connected then Inr (False, kp1, m)
      else
        rbind (serverEnter mc fuel m) (\<lambda>(myID, m1).
        rbind (serverConnect mc (connectNode mc env fuel) fuel myID maxServer 0 (kp1\<lparr>kp_myNodeID := myID\<rparr>, m1)) (\<lambda>(_, kp2, m2).
        rbind (connectMySelf env kp2) (\<lambda>kp3.
        rbind (initRouteRule mc fuel kp3 m2) (\<lambda>m3. Inr (True, kp3, m3))))))))"

text \<open>The loop of \<^verbatim>\<open>serverConnect\<close> one call of memcached at a time: the servers that are still to be
  connected, whether the record for the first of them is published, and the keeper.\<close>

definition peers :: "nat \<Rightarrow> nat \<Rightarrow> nat list" where
  "peers n me = filter (\<lambda>k. k \<noteq> me) [0..<n]"

type_synonym 'd conn_state = "nat list \<times> bool \<times> 'd keeper"

fun conn_next :: "(ExchangeMeta, 'm) memc \<Rightarrow> 'd verbs_env \<Rightarrow> 'd conn_state \<Rightarrow> 'm \<Rightarrow> err + 'd conn_state \<times> 'm" where
  "conn_next mc env ([], pub, kp) m = Inr (([], pub, kp), m)"
| "conn_next mc env (k # ks, False, kp) m =
     rbind (setDataToRemote k kp) (\<lambda>kp1.
       case mc_set mc (setKey (kp_myNodeID kp1) k) (Blob (kp_meta kp1)) m of (ok, m') \<Rightarrow> Inr ((k # ks, ok, kp1), m'))"
| "conn_next mc env (k # ks, True, kp) m =
     (case mc_get mc (getKey (kp_myNodeID kp) k) m of
        (None, m') \<Rightarrow> Inr ((k # ks, True, kp), m')
      | (Some v, m') \<Rightarrow> rbind (as_blob v) (\<lambda>remoteMeta.
          rbind (setDataFromRemote env k remoteMeta kp) (\<lambda>kp2. Inr ((ks, False, kp2), m'))))"

definition conn_step :: "(ExchangeMeta, 'm) memc \<Rightarrow> 'd verbs_env \<Rightarrow> nat \<Rightarrow> (nat \<Rightarrow> 'd conn_state) \<times> 'm
    \<Rightarrow> err + (nat \<Rightarrow> 'd conn_state) \<times> 'm" where
  "conn_step mc env i s =
     rbind (conn_next mc env (fst s i) (snd s)) (\<lambda>(pc, m). Inr ((fst s)(i := pc), m))"

end
