(* ===== verification/ConnClaims.thy ===== *)
theory ConnClaims
  imports Connections "HOL-Library.Multiset"
begin

text \<open>
  What the constructors of the connections leave behind when the verbs library grants what they ask for:
  tables of the right shape, full of reliable queue pairs that all differ and are still in the reset
  state, while the queue pairs for messages are ready.
\<close>

section \<open>Numbers of created queue pairs\<close>

fun created :: "verbs_lib \<Rightarrow> call_log \<Rightarrow> call_log \<Rightarrow> u32 list" where
  "created lib l [] = []"
| "created lib l (c # cs) =
     (case c of CreateQp a True \<Rightarrow> (case lib_create_qp lib l of Some n \<Rightarrow> [n] | None \<Rightarrow> []) | _ \<Rightarrow> [])
       @ created lib (l @ [c]) cs"

lemma created_append: "created lib l (xs @ ys) = created lib l xs @ created lib (l @ xs) ys"
  by (induction xs arbitrary: l) simp_all

text \<open>No number is given twice.\<close>

definition fresh_numbers :: "verbs_lib \<Rightarrow> bool" where
  "fresh_numbers lib \<longleftrightarrow> (\<forall>l x l' m n. lib_create_qp lib l = Some m \<longrightarrow> lib_create_qp lib (l @ x # l') = Some n \<longrightarrow> m \<noteq> n)"

lemma created_sub: "n \<in> set (created lib l xs) \<Longrightarrow> \<exists>ys. lib_create_qp lib (l @ ys) = Some n"
proof (induction xs arbitrary: l)
  case (Cons c cs)
  then consider "lib_create_qp lib l = Some n" | "n \<in> set (created lib (l @ [c]) cs)"
    by (auto split: verbs_call.splits bool.splits option.splits)
  then show ?case
  proof cases
    case 1
    then show ?thesis by (intro exI [of _ "[]"]) simp
  next
    case 2
    from Cons.IH [OF this] obtain ys where "lib_create_qp lib ((l @ [c]) @ ys) = Some n" ..
    then show ?thesis by (intro exI [of _ "c # ys"]) simp
  qed
qed simp

lemma created_distinct: "fresh_numbers lib \<Longrightarrow> distinct (created lib l xs)"
proof (induction xs arbitrary: l)
  case (Cons c cs)
  have "n \<notin> set (created lib (l @ [c]) cs)" if n: "lib_create_qp lib l = Some n" for n
  proof
    assume "n \<in> set (created lib (l @ [c]) cs)"
    from created_sub [OF this] obtain ys where "lib_create_qp lib (l @ c # ys) = Some n" by auto
    then show False using Cons.prems n unfolding fresh_numbers_def by blast
  qed
  then show ?case using Cons by (auto split: verbs_call.split bool.split option.split)
qed simp

text \<open>A log that grew, by at most \<open>k\<close> calls.\<close>

definition ext :: "verbs_lib \<Rightarrow> call_log \<Rightarrow> call_log \<Rightarrow> u32 list \<Rightarrow> nat \<Rightarrow> bool" where
  "ext lib l l' ns k \<longleftrightarrow> (\<exists>xs. l' = l @ xs \<and> created lib l xs = ns \<and> length xs \<le> k)"

lemma ext_refl: "ext lib l l [] 0"
  by (simp add: ext_def)

lemma ext_trans: "ext lib l l1 ns k \<Longrightarrow> ext lib l1 l2 ms j \<Longrightarrow> ext lib l l2 (ns @ ms) (k + j)"
proof -
  assume "ext lib l l1 ns k" "ext lib l1 l2 ms j"
  then obtain xs ys where "l1 = l @ xs" "created lib l xs = ns" "length xs \<le> k"
    "l2 = l1 @ ys" "created lib l1 ys = ms" "length ys \<le> j" unfolding ext_def by blast
  then show ?thesis unfolding ext_def by (intro exI [of _ "xs @ ys"]) (simp add: created_append)
qed

lemma ext_length: "ext lib l l' ns k \<Longrightarrow> length l' \<le> length l + k"
  by (auto simp: ext_def)

lemma ext_distinct: "ext lib l l' ns k \<Longrightarrow> fresh_numbers lib \<Longrightarrow> distinct ns"
  by (auto simp: ext_def created_distinct)

lemma ext_calls:
  assumes "l' = l @ xs" "list_all (\<lambda>c. \<forall>a. c \<noteq> CreateQp a True) xs" "length xs \<le> k"
  shows "ext lib l l' [] k"
proof -
  have "created lib l xs = []" using assms(2)
    by (induction xs arbitrary: l) (auto split: verbs_call.split bool.split)
  then show ?thesis using assms by (auto simp: ext_def)
qed

lemma ext_call: "\<forall>a. c \<noteq> CreateQp a True \<Longrightarrow> ext lib l (l @ [c]) [] 1"
  by (rule ext_calls [where xs = "[c]"]) simp_all

lemma ext_qp: "lib_create_qp lib l = Some n \<Longrightarrow> ext lib l (l @ [CreateQp a True]) [n] 1"
  by (simp add: ext_def)

section \<open>A library that grants what is asked for\<close>

text \<open>Up to a number of calls, since the numbers of queue pairs are finite.\<close>

definition grants :: "verbs_lib \<Rightarrow> nat \<Rightarrow> bool" where
  "grants lib B \<longleftrightarrow> (\<forall>l. length l < B \<longrightarrow>
     (\<exists>names. lib_devices lib l = Some names \<and> names \<noteq> [] \<and> list_all (\<lambda>n. 5 \<le> length n) names)
     \<and> (\<forall>i. lib_open lib l i) \<and> (\<forall>p. lib_port lib l p \<noteq> None) \<and> lib_alloc_pd lib l \<and> (\<forall>p g. lib_gid lib l p g \<noteq> None)
     \<and> fst (snd (lib_query_device lib l)) \<and> lib_reg_mr lib l \<noteq> None \<and> lib_alloc_dm lib l \<and> lib_create_cq lib l
     \<and> lib_create_qp lib l \<noteq> None)"

lemma grantsD:
  assumes "grants lib B" "length l < B"
  obtains names where "lib_devices lib l = Some names" "names \<noteq> []" "list_all (\<lambda>n. 5 \<le> length n) names"
  using assms unfolding grants_def by blast

lemma grants_simps:
  assumes "grants lib B" "length l < B"
  shows "lib_open lib l i" "lib_port lib l p \<noteq> None" "lib_alloc_pd lib l" "lib_gid lib l p g \<noteq> None"
    "fst (snd (lib_query_device lib l))" "lib_reg_mr lib l \<noteq> None" "lib_alloc_dm lib l" "lib_create_cq lib l"
    "lib_create_qp lib l \<noteq> None"
  using assms unfolding grants_def by blast+

lemma find_device_ok:
  "list_all (\<lambda>n. 5 \<le> length n) names \<Longrightarrow> unat d < i + length names \<Longrightarrow>
   \<exists>d'. find_device names i d = Inr d' \<and> unat d' < i + length names"
proof (induction names arbitrary: i)
  case (Cons n ns)
  show ?case
  proof (cases "5 < length n \<and> n ! 5 = CHR ''0''")
    case True
    have "unat (of_nat i :: u8) \<le> i" by (simp add: unat_of_nat)
    then show ?thesis using True Cons.prems(1) by auto
  next
    case False
    have "list_all (\<lambda>n. 5 \<le> length n) ns" "unat d < Suc i + length ns" using Cons.prems by simp_all
    from Cons.IH [OF this] obtain d' where "find_device ns (Suc i) d = Inr d'" "unat d' < Suc i + length ns" by blast
    then show ?thesis using False Cons.prems(1) by (intro exI [of _ d']) auto
  qed
qed simp

lemma createContext_granted:
  assumes g: "grants lib B" and B: "length l + 7 \<le> B"
  obtains c k l' where "createContext lib p i 0 new_RdmaContext (kmax, l) = Inr (True, c, k, l')"
    "rc_ctx c \<noteq> None" "ext lib l l' [] 7"
proof -
  obtain names where n: "lib_devices lib l = Some names" "names \<noteq> []" "list_all (\<lambda>n. 5 \<le> length n) names"
    using grantsD [OF g] B by (metis add_leD1 less_le_trans not_add_less1 le_neq_implies_less add_cancel_right_right zero_neq_numeral)
  obtain d where d: "find_device names 0 0 = Inr d" "unat d < length names"
    using find_device_ok [OF n(3), of 0 0] n(2) by auto
  let ?l1 = "l @ [GetDeviceList True]"
  let ?l2 = "?l1 @ [OpenDevice (unat d) True, FreeDeviceList]"
  let ?l3 = "?l2 @ [QueryPort p True]"
  let ?l4 = "?l3 @ [AllocPd True]"
  let ?l5 = "?l4 @ [QueryGid p i True]"
  have o: "lib_open lib ?l1 (unat d)" "lib_alloc_pd lib ?l3" using grants_simps [OF g] B by simp_all
  obtain lid where lid: "lib_port lib ?l2 p = Some lid" using grants_simps(2) [OF g, of ?l2 p] B by auto
  obtain gid where gid: "lib_gid lib ?l4 p i = Some gid" using grants_simps(4) [OF g, of ?l4 p i] B by auto
  obtain ok dm where q: "lib_query_device lib ?l5 = (ok, True, dm)"
    using grants_simps(5) [OF g, of ?l5] B by (cases "lib_query_device lib ?l5") auto
  let ?c = "\<lparr>rc_devIndex = d, rc_port = p, rc_gidIndex = i, rc_ctx = Some (length ?l1),
      rc_pd = Some (length ?l3), rc_lid = lid, rc_gid = gid\<rparr>"
  have "\<exists>k l'. createContext lib p i 0 new_RdmaContext (kmax, l) = Inr (True, ?c, k, l')
      \<and> (l' = ?l5 \<or> l' = ?l5 @ [QueryDevice ok])"
    using n d o lid gid q
    by (cases "kmax = 0"; cases "dm = 0") (simp_all add: createContext_def Let_def checkDMSupported_def)
  then obtain k l' where c: "createContext lib p i 0 new_RdmaContext (kmax, l) = Inr (True, ?c, k, l')"
    "l' = ?l5 \<or> l' = ?l5 @ [QueryDevice ok]" by blast
  have "ext lib l l' [] 7" using c(2)
  proof
    assume "l' = ?l5"
    then show ?thesis by (intro ext_calls [where xs = "drop (length l) ?l5"]) simp_all
  next
    assume "l' = ?l5 @ [QueryDevice ok]"
    then show ?thesis by (intro ext_calls [where xs = "drop (length l) (?l5 @ [QueryDevice ok])"]) simp_all
  qed
  then show thesis using that c(1) by simp
qed

section \<open>Queue pairs of one side\<close>

definition row_nums :: "ibv_qp option list \<Rightarrow> u32 list" where
  "row_nums row = concat (map (\<lambda>q. case q of None \<Rightarrow> [] | Some q \<Rightarrow> [qp_num q]) row)"

definition rows_nums :: "ibv_qp option list list \<Rightarrow> u32 list" where
  "rows_nums rows = concat (map row_nums rows)"

definition is_rc :: "ibv_qp option \<Rightarrow> bool" where
  "is_rc q \<longleftrightarrow> (case q of None \<Rightarrow> False | Some q \<Rightarrow> qp_type q = QPT_RC)"

definition rc_table :: "nat \<Rightarrow> nat \<Rightarrow> ibv_qp option list list \<Rightarrow> bool" where
  "rc_table n m rows \<longleftrightarrow> length rows = n \<and> list_all (\<lambda>row. length row = m \<and> list_all is_rc row) rows"

lemma is_rc_simps [simp]: "is_rc (Some q) \<longleftrightarrow> qp_type q = QPT_RC" "\<not> is_rc None"
  by (simp_all add: is_rc_def)

lemma nums_simps [simp]:
  "row_nums [] = []" "row_nums (None # row) = row_nums row" "row_nums (Some q # row) = qp_num q # row_nums row"
  "rows_nums [] = []" "rows_nums (row # rows) = row_nums row @ rows_nums rows"
  by (simp_all add: row_nums_def rows_nums_def)

lemma qp_row_granted:
  assumes g: "grants lib B"
  shows "length l + n \<le> B \<Longrightarrow> \<exists>row l'. qp_row lib cq c n l = (row, l') \<and> ext lib l l' (row_nums row) n
    \<and> length row = n \<and> list_all is_rc row"
proof (induction n arbitrary: l)
  case (Suc n)
  obtain x where x: "lib_create_qp lib l = Some x" using grants_simps(9) [OF g, of l] Suc.prems by auto
  obtain a where qp: "createQueuePair lib QPT_RC cq c 128 0 l
      = (True, Some \<lparr>qp_num = x, qp_type = QPT_RC\<rparr>, l @ [CreateQp a True])"
    using x by (simp add: createQueuePair_def createQueuePair2_def Let_def)
  have "length (l @ [CreateQp a True]) + n \<le> B" using Suc.prems by simp
  from Suc.IH [OF this] obtain row l' where r: "qp_row lib cq c n (l @ [CreateQp a True]) = (row, l')"
    "ext lib (l @ [CreateQp a True]) l' (row_nums row) n" "length row = n" "list_all is_rc row" by blast
  have "ext lib l l' ([x] @ row_nums row) (1 + n)" by (rule ext_trans [OF ext_qp [OF x] r(2)])
  then show ?case using qp r by simp
qed (simp add: ext_refl)

lemma qp_rows_granted:
  assumes g: "grants lib B"
  shows "length l + n * m \<le> B \<Longrightarrow> \<exists>rows l'. qp_rows lib cq c m n l = (rows, l')
    \<and> ext lib l l' (rows_nums rows) (n * m) \<and> rc_table n m rows"
proof (induction n arbitrary: l)
  case (Suc n)
  have "length l + m \<le> B" using Suc.prems by simp
  from qp_row_granted [OF g this, of cq c] obtain row l1 where r: "qp_row lib cq c m l = (row, l1)"
    "ext lib l l1 (row_nums row) m" "length row = m" "list_all is_rc row" by blast
  have "length l1 + n * m \<le> B" using Suc.prems ext_length [OF r(2)] by simp
  from Suc.IH [OF this] obtain rows l2 where q: "qp_rows lib cq c m n l1 = (rows, l2)"
    "ext lib l1 l2 (rows_nums rows) (n * m)" "rc_table n m rows" by blast
  show ?case using r q ext_trans [OF r(2) q(2)] by (simp add: rc_table_def)
qed (simp add: ext_refl rc_table_def)

section \<open>The connections\<close>

text \<open>What the parameters do: queue pairs follow the documented transitions and get fresh numbers, and
  allocating memory or posting receives does not change their state.\<close>

definition good_env :: "'d verbs_env \<Rightarrow> ('d \<Rightarrow> u32 \<Rightarrow> qp_attr) \<Rightarrow> bool" where
  "good_env env st \<longleftrightarrow> modifies_qps (ve_modify env) st \<and> fresh_numbers (ve_lib env)
     \<and> (\<forall>n d. st (snd (ve_mmap env n d)) = st d) \<and> (\<forall>qp b d. st (snd (ve_recv env qp b d)) = st d)"

lemma good_envD:
  assumes "good_env env st"
  shows "modifies_qps (ve_modify env) st" "fresh_numbers (ve_lib env)"
    "ve_mmap env n d = (p, d') \<Longrightarrow> st d' = st d" "st (snd (ve_recv env qp b d)) = st d"
  using assms unfolding good_env_def by (metis snd_conv)+

text \<open>The invariant while a server sets up: \<open>us\<close> are the numbers of the queue pairs for messages made so
  far, \<open>rs\<close> those of the reliable ones; only the former have left the reset state.\<close>

definition setup_inv ::
  "verbs_lib \<Rightarrow> ('d \<Rightarrow> u32 \<Rightarrow> qp_attr) \<Rightarrow> call_log \<Rightarrow> u32 list \<Rightarrow> u32 list \<Rightarrow> nat \<Rightarrow> 'd nic \<Rightarrow> bool" where
  "setup_inv lib st l0 us rs j s \<longleftrightarrow> (\<exists>ns. ext lib l0 (nic_log s) ns j \<and> mset ns = mset (us @ rs))
     \<and> (\<forall>n. n \<notin> set us \<longrightarrow> at_state (st (nic_dev s) n) = QPS_RESET)"

lemma setup_inv_length: "setup_inv lib st l0 us rs j s \<Longrightarrow> length (nic_log s) \<le> length l0 + j"
  by (auto simp: setup_inv_def dest: ext_length)

lemma setup_inv_distinct: "setup_inv lib st l0 us rs j s \<Longrightarrow> fresh_numbers lib \<Longrightarrow> distinct (us @ rs)"
  unfolding setup_inv_def by (metis ext_distinct mset_eq_imp_distinct_iff)

lemma setup_inv_log:
  assumes "setup_inv lib st l0 us rs j s" "ext lib (nic_log s) l ns k" "st (nic_dev s') = st (nic_dev s)" "nic_log s' = l"
  shows "setup_inv lib st l0 us (rs @ ns) (j + k) s'"
proof -
  obtain ms where m: "ext lib l0 (nic_log s) ms j" "mset ms = mset (us @ rs)"
    using assms(1) unfolding setup_inv_def by blast
  have "ext lib l0 l (ms @ ns) (j + k)" by (rule ext_trans [OF m(1) assms(2)])
  moreover have "mset (ms @ ns) = mset (us @ rs @ ns)" using m(2) by simp
  ultimately show ?thesis using assms unfolding setup_inv_def by auto
qed

lemma create_cq_granted:
  assumes "grants lib B" "length l < B" "rc_ctx c \<noteq> None"
  shows "create_cq lib c depth l = Inr (Some (length l), l @ [CreateCq depth True])"
  using assms grants_simps(8) [OF assms(1,2)] by (auto simp: create_cq_def)

lemma createMemoryRegion_granted:
  assumes "grants lib B" "length l < B"
  shows "\<exists>mr. createMemoryRegion lib mm n l = (Some mr, l @ [RegMr mm n region_access True])"
  using grants_simps(6) [OF assms] by (simp add: createMemoryRegion_def)

lemma setup_inv_ud:
  assumes env: "good_env env st" and inv: "setup_inv (ve_lib env) st l0 us rs j s"
    and u: "lib_create_qp (ve_lib env) (nic_log s) = Some u"
  obtains d where "modifyUDtoRTS (ve_modify env) \<lparr>qp_num = u, qp_type = QPT_UD\<rparr> c (nic_dev s) = (True, d)"
    "\<And>a d' k. st d' = st d \<Longrightarrow> setup_inv (ve_lib env) st l0 (us @ [u]) rs (j + 1)
       \<lparr>nic_kmax = k, nic_log = nic_log s @ [CreateQp a True], nic_dev = d'\<rparr>"
proof -
  obtain ns where ns: "ext (ve_lib env) l0 (nic_log s) ns j" "mset ns = mset (us @ rs)"
    and reset: "\<And>n. n \<notin> set us \<Longrightarrow> at_state (st (nic_dev s) n) = QPS_RESET"
    using inv unfolding setup_inv_def by blast
  have e: "ext (ve_lib env) l0 (nic_log s @ [CreateQp a True]) (ns @ [u]) (j + 1)" for a
    by (rule ext_trans [OF ns(1) ext_qp [OF u]])
  have "distinct (ns @ [u])" by (rule ext_distinct [OF e good_envD(2) [OF env]])
  then have "u \<notin> set ns" by simp
  moreover have "set ns = set (us @ rs)" using ns(2) by (metis set_mset_mset)
  ultimately have "u \<notin> set us" by simp
  then have r: "at_state (st (nic_dev s) (qp_num \<lparr>qp_num = u, qp_type = QPT_UD\<rparr>)) = QPS_RESET" by (simp add: reset)
  have t: "qp_type \<lparr>qp_num = u, qp_type = QPT_UD\<rparr> = QPT_UD" by simp
  from ud_ready [OF good_envD(1) [OF env] t r, of c] obtain d a0 where
    d: "modifyUDtoRTS (ve_modify env) \<lparr>qp_num = u, qp_type = QPT_UD\<rparr> c (nic_dev s) = (True, d)"
    "st d = (st (nic_dev s))(u := a0)" by auto
  have m: "mset (ns @ [u]) = mset ((us @ [u]) @ rs)" using ns(2) by simp
  show thesis
  proof (rule that [OF d(1)])
    fix a d' k assume "st d' = st d"
    then show "setup_inv (ve_lib env) st l0 (us @ [u]) rs (j + 1)
       \<lparr>nic_kmax = k, nic_log = nic_log s @ [CreateQp a True], nic_dev = d'\<rparr>"
      using e [of a] m d(2) reset unfolding setup_inv_def by auto
  qed
qed

lemma message_granted:
  assumes env: "good_env env st" and g: "grants (ve_lib env) B" and inv: "setup_inv (ve_lib env) st l0 us rs j s"
    and c: "rc_ctx c \<noteq> None" and B: "length l0 + (j + 3) \<le> B" and nr: "nr mod kBatchCount = 0"
  shows "\<exists>ml s' u. RawMessageConnection env c cq nr s = Inr (ml, s') \<and> setup_inv (ve_lib env) st l0 (us @ [u]) rs (j + 3) s'"
proof -
  let ?lib = "ve_lib env"
  let ?l1 = "nic_log s @ [CreateCq 128 True]"
  have len: "length (nic_log s) \<le> length l0 + j" by (rule setup_inv_length [OF inv])
  obtain cq' where q: "create_cq ?lib c 128 (nic_log s) = Inr (cq', ?l1)"
    using create_cq_granted [OF g _ c] len B by simp
  let ?s1 = "s\<lparr>nic_log := ?l1\<rparr>"
  have "ext ?lib (nic_log s) ?l1 [] 1" by (rule ext_call) simp
  then have inv1: "setup_inv ?lib st l0 us rs (j + 1) ?s1"
    using setup_inv_log [OF inv, of ?l1 "[]" 1 ?s1] by simp
  obtain u where u: "lib_create_qp ?lib ?l1 = Some u" using grants_simps(9) [OF g, of ?l1] len B by auto
  obtain a where qp: "createQueuePair2 ?lib QPT_UD cq' cq c 128 0 ?l1
      = (True, Some \<lparr>qp_num = u, qp_type = QPT_UD\<rparr>, ?l1 @ [CreateQp a True])"
    using u by (simp add: createQueuePair2_def Let_def)
  obtain d where d: "modifyUDtoRTS (ve_modify env) \<lparr>qp_num = u, qp_type = QPT_UD\<rparr> c (nic_dev s) = (True, d)"
    "\<And>a d' k. st d' = st d \<Longrightarrow> setup_inv ?lib st l0 (us @ [u]) rs (j + 1 + 1)
       \<lparr>nic_kmax = k, nic_log = ?l1 @ [CreateQp a True], nic_dev = d'\<rparr>"
    using setup_inv_ud [OF env inv1, of u c] u by auto
  obtain pool d2 where p: "ve_mmap env (2 * nr * MESSAGE_SIZE) d = (pool, d2)" by (cases "ve_mmap env (2 * nr * MESSAGE_SIZE) d")
  let ?l2 = "?l1 @ [CreateQp a True]"
  obtain mr where mr: "createMemoryRegion ?lib pool (of_nat (2 * nr * MESSAGE_SIZE)) ?l2
      = (Some mr, ?l2 @ [RegMr pool (of_nat (2 * nr * MESSAGE_SIZE)) region_access True])"
    using createMemoryRegion_granted [OF g, of ?l2] len B by auto
  let ?s' = "s\<lparr>nic_log := ?l2 @ [RegMr pool (of_nat (2 * nr * MESSAGE_SIZE)) region_access True], nic_dev := d2\<rparr>"
  have "setup_inv ?lib st l0 (us @ [u]) (rs @ []) (j + 1 + 1 + 1) ?s'"
  proof (rule setup_inv_log [OF d(2) [OF good_envD(3) [OF env p], of "nic_kmax s" a]])
    show "ext ?lib (nic_log \<lparr>nic_kmax = nic_kmax s, nic_log = ?l2, nic_dev = d2\<rparr>) (nic_log ?s') [] 1"
      by (simp add: ext_def)
  qed simp_all
  moreover obtain mc where "new_AbstractMessageConnection 0 40 nr pool (mr_lkey mr) = Inr mc"
    using nr by (simp add: new_AbstractMessageConnection_def)
  ultimately show ?thesis using q qp d(1) p mr nr
    by (auto simp: RawMessageConnection_def AbstractMessageConnection_def numeral_3_eq_3)
qed

text \<open>What the constructors of a thread and of a directory leave behind.\<close>

definition thread_ok :: "nat \<Rightarrow> thread_con \<Rightarrow> bool" where
  "thread_ok machineNR t \<longleftrightarrow> rc_table NR_DIRECTORY machineNR (tc_data t)"

definition dir_ok :: "nat \<Rightarrow> dir_con \<Rightarrow> bool" where
  "dir_ok machineNR c \<longleftrightarrow> rc_table MAX_APP_THREAD machineNR (dc_data2app c) \<and> (dc_dirID c = 0 \<longrightarrow> dc_lockMR c \<noteq> None)"

lemma ext_one: "ext lib l l1 ns k \<Longrightarrow> \<forall>a. c \<noteq> CreateQp a True \<Longrightarrow> ext lib l (l1 @ [c]) ns (Suc k)"
  using ext_trans [OF _ ext_call, of lib l l1 ns k c] by simp

lemma thread_granted:
  assumes env: "good_env env st" and g: "grants (ve_lib env) B" and inv: "setup_inv (ve_lib env) st l0 us rs j s"
    and B: "length l0 + (j + (13 + NR_DIRECTORY * m)) \<le> B"
  shows "\<exists>t s' u. ThreadConnection env i pool sz m s = Inr (t, s') \<and> thread_ok m t
    \<and> setup_inv (ve_lib env) st l0 (us @ [u]) (rs @ rows_nums (tc_data t)) (j + (13 + NR_DIRECTORY * m)) s'"
proof -
  let ?lib = "ve_lib env"
  have len: "length (nic_log s) \<le> length l0 + j" by (rule setup_inv_length [OF inv])
  have "length (nic_log s) + 7 \<le> B" using len B by simp
  then obtain c k l1 where c: "createContext ?lib 1 3 0 new_RdmaContext (nic_kmax s, nic_log s) = Inr (True, c, k, l1)"
    "rc_ctx c \<noteq> None" "ext ?lib (nic_log s) l1 [] 7"
    by (rule createContext_granted [OF g])
  let ?l2 = "l1 @ [CreateCq RAW_RECV_CQ_COUNT True]"
  let ?l3 = "?l2 @ [CreateCq RAW_RECV_CQ_COUNT True]"
  have l1: "length l1 \<le> length l0 + (j + 7)" using ext_length [OF c(3)] len by simp
  have cqs: "create_cq ?lib c RAW_RECV_CQ_COUNT l1 = Inr (Some (length l1), ?l2)"
    "create_cq ?lib c RAW_RECV_CQ_COUNT ?l2 = Inr (Some (length ?l2), ?l3)"
    by (rule create_cq_granted [OF g _ c(2)], use l1 B in simp)+
  let ?s3 = "s\<lparr>nic_kmax := k, nic_log := ?l3\<rparr>"
  have "ext ?lib (nic_log s) ?l3 [] 9" using ext_one [OF ext_one [OF c(3)]] by simp
  then have inv3: "setup_inv ?lib st l0 us rs (j + 9) ?s3"
    using setup_inv_log [OF inv, of ?l3 "[]" 9 ?s3] by simp
  have B3: "length l0 + (j + 9 + 3) \<le> B" using B by simp
  obtain ml s4 u where m: "RawMessageConnection env c (Some (length ?l2)) APP_MESSAGE_NR ?s3 = Inr (ml, s4)"
    "setup_inv ?lib st l0 (us @ [u]) rs (j + 9 + 3) s4"
    using message_granted [OF env g inv3 c(2) B3, of APP_MESSAGE_NR "Some (length ?l2)"]
    by (auto simp: APP_MESSAGE_NR_def kBatchCount_def)
  have l4: "length (nic_log s4) \<le> length l0 + (j + 12)" using setup_inv_length [OF m(2)] by simp
  obtain mr where mr: "createMemoryRegion ?lib pool sz (nic_log s4) = (Some mr, nic_log s4 @ [RegMr pool sz region_access True])"
    using createMemoryRegion_granted [OF g, of "nic_log s4"] l4 B by auto
  let ?l5 = "nic_log s4 @ [RegMr pool sz region_access True]"
  have "length ?l5 + NR_DIRECTORY * m \<le> B" using l4 B by simp
  from qp_rows_granted [OF g this, of "Some (length l1)" c] obtain rows l6 where
    r: "qp_rows ?lib (Some (length l1)) c m NR_DIRECTORY ?l5 = (rows, l6)"
    "ext ?lib ?l5 l6 (rows_nums rows) (NR_DIRECTORY * m)" "rc_table NR_DIRECTORY m rows" by blast
  have "ext ?lib (nic_log s4) l6 ([] @ rows_nums rows) (1 + NR_DIRECTORY * m)"
    by (rule ext_trans [OF ext_call r(2)]) simp
  then have "setup_inv ?lib st l0 (us @ [u]) (rs @ rows_nums rows) (j + 9 + 3 + (1 + NR_DIRECTORY * m)) (s4\<lparr>nic_log := l6\<rparr>)"
    by (intro setup_inv_log [OF m(2)]) simp_all
  then show ?thesis using c(1) cqs m(1) mr r(1,3)
    by (simp add: ThreadConnection_def thread_ok_def del: One_nat_def) (auto simp: algebra_simps)
qed

lemma onchip_granted:
  assumes "grants lib B" "length l + 2 < B"
  shows "\<exists>mr l'. createMemoryRegionOnChip lib mm n l = (Some mr, l') \<and> ext lib l l' [] 3"
proof -
  let ?l1 = "l @ [AllocDm n True]"
  obtain mr where "lib_alloc_dm lib l" "lib_reg_mr lib ?l1 = Some mr"
    using grants_simps(6,7) [OF assms(1)] assms(2) by fastforce
  then show ?thesis by (simp add: createMemoryRegionOnChip_def ext_def)
qed

lemma dir_granted:
  assumes env: "good_env env st" and g: "grants (ve_lib env) B" and inv: "setup_inv (ve_lib env) st l0 us rs j s"
    and B: "length l0 + (j + (15 + MAX_APP_THREAD * m)) \<le> B"
  shows "\<exists>t s' u. DirectoryConnection env i pool sz m s = Inr (t, s') \<and> dir_ok m t \<and> dc_dirID t = i \<and> dc_dsmPool t = pool \<and> dc_dsmSize t = sz
    \<and> setup_inv (ve_lib env) st l0 (us @ [u]) (rs @ rows_nums (dc_data2app t)) (j + (15 + MAX_APP_THREAD * m)) s'"
proof -
  let ?lib = "ve_lib env"
  have len: "length (nic_log s) \<le> length l0 + j" by (rule setup_inv_length [OF inv])
  have "length (nic_log s) + 7 \<le> B" using len B by simp
  then obtain c k l1 where c: "createContext ?lib 1 3 0 new_RdmaContext (nic_kmax s, nic_log s) = Inr (True, c, k, l1)"
    "rc_ctx c \<noteq> None" "ext ?lib (nic_log s) l1 [] 7"
    by (rule createContext_granted [OF g])
  let ?l2 = "l1 @ [CreateCq RAW_RECV_CQ_COUNT True]"
  have l1: "length l1 \<le> length l0 + (j + 7)" using ext_length [OF c(3)] len by simp
  have cq: "create_cq ?lib c RAW_RECV_CQ_COUNT l1 = Inr (Some (length l1), ?l2)"
    by (rule create_cq_granted [OF g _ c(2)]) (use l1 B in simp)
  let ?s2 = "s\<lparr>nic_kmax := k, nic_log := ?l2\<rparr>"
  have "ext ?lib (nic_log s) ?l2 [] 8" using ext_one [OF c(3)] by simp
  then have inv2: "setup_inv ?lib st l0 us rs (j + 8) ?s2"
    using setup_inv_log [OF inv, of ?l2 "[]" 8 ?s2] by simp
  have B2: "length l0 + (j + 8 + 3) \<le> B" using B by simp
  obtain ml s3 u where m: "RawMessageConnection env c (Some (length l1)) DIR_MESSAGE_NR ?s2 = Inr (ml, s3)"
    "setup_inv ?lib st l0 (us @ [u]) rs (j + 8 + 3) s3"
    using message_granted [OF env g inv2 c(2) B2, of DIR_MESSAGE_NR "Some (length l1)"]
    by (auto simp: DIR_MESSAGE_NR_def kBatchCount_def)
  have l3: "length (nic_log s3) \<le> length l0 + (j + 11)" using setup_inv_length [OF m(2)] by simp
  have post: "st (post_batches (ve_recv env q) bs d) = st d" for q bs d
    by (induction bs arbitrary: d) (simp_all add: good_envD(4) [OF env])
  obtain mc d3 where rv: "initRecv (ve_recv env (ml_qp ml)) (ml_conn ml) (nic_dev s3) = (mc, d3)" "st d3 = st (nic_dev s3)"
    by (simp add: initRecv_def Let_def post)
  obtain mr where mr: "createMemoryRegion ?lib pool sz (nic_log s3) = (Some mr, nic_log s3 @ [RegMr pool sz region_access True])"
    using createMemoryRegion_granted [OF g, of "nic_log s3"] l3 B by auto
  let ?l4 = "nic_log s3 @ [RegMr pool sz region_access True]"
  have e4: "ext ?lib (nic_log s3) ?l4 [] 1" by (rule ext_call) simp
  obtain lock l5 where lk: "(if i = 0 then createMemoryRegionOnChip ?lib kLockStartAddr (of_nat kLockChipMemSize) ?l4
      else (None, ?l4)) = (lock, l5)" "i = 0 \<Longrightarrow> lock \<noteq> None" "ext ?lib ?l4 l5 [] 3"
  proof (cases "i = 0")
    case True
    have "length ?l4 + 2 < B" using l3 B by simp
    from onchip_granted [OF g this] obtain mr' l' where
      "createMemoryRegionOnChip ?lib kLockStartAddr (of_nat kLockChipMemSize) ?l4 = (Some mr', l')" "ext ?lib ?l4 l' [] 3"
      by blast
    then show thesis using that True by simp
  next
    case False
    have "ext ?lib ?l4 ?l4 [] 3" by (simp add: ext_def)
    then show thesis using that False by simp
  qed
  have "length l5 + MAX_APP_THREAD * m \<le> B" using ext_length [OF lk(3)] l3 B by simp
  from qp_rows_granted [OF g this, of "Some (length l1)" c] obtain rows l6 where
    r: "qp_rows ?lib (Some (length l1)) c m MAX_APP_THREAD l5 = (rows, l6)"
    "ext ?lib l5 l6 (rows_nums rows) (MAX_APP_THREAD * m)" "rc_table MAX_APP_THREAD m rows" by blast
  have "ext ?lib (nic_log s3) l6 (([] @ []) @ rows_nums rows) (1 + 3 + MAX_APP_THREAD * m)"
    by (rule ext_trans [OF ext_trans [OF e4 lk(3)] r(2)])
  then have "setup_inv ?lib st l0 (us @ [u]) (rs @ rows_nums rows) (j + 8 + 3 + (1 + 3 + MAX_APP_THREAD * m))
      (s3\<lparr>nic_log := l6, nic_dev := d3\<rparr>)"
    using rv(2) by (intro setup_inv_log [OF m(2)]) simp_all
  moreover have "\<exists>key. (if i = 0 then rbind (follow lock) (\<lambda>m. Inr (mr_lkey m)) else Inr 0) = Inr key"
    using lk(2) by (cases lock; cases "i = 0") auto
  ultimately show ?thesis using c(1) cq m(1) rv(1) mr lk(1,2) r(1,3)
    by (simp add: DirectoryConnection_def dir_ok_def Let_def del: One_nat_def split del: if_split) (auto simp: algebra_simps)
qed

lemma collect_granted:
  assumes step: "\<And>i s us rs j. setup_inv lib st l0 us rs j s \<Longrightarrow> length l0 + (j + k) \<le> B \<Longrightarrow>
      \<exists>x s' u. f i s = Inr (x, s') \<and> P i x \<and> setup_inv lib st l0 (us @ [u]) (rs @ nums x) (j + k) s'"
  shows "setup_inv lib st l0 us rs j s \<Longrightarrow> length l0 + (j + length is * k) \<le> B \<Longrightarrow>
    \<exists>xs s' us'. collect f is s = Inr (xs, s') \<and> list_all2 P is xs
      \<and> setup_inv lib st l0 us' (rs @ concat (map nums xs)) (j + length is * k) s'"
proof (induction "is" arbitrary: us rs j s)
  case (Cons i "is")
  have "length l0 + (j + k) \<le> B" using Cons.prems(2) by simp
  from step [OF Cons.prems(1) this, of i] obtain x s1 u where 1: "f i s = Inr (x, s1)" "P i x"
    "setup_inv lib st l0 (us @ [u]) (rs @ nums x) (j + k) s1" by blast
  have "length l0 + (j + k + length is * k) \<le> B" using Cons.prems(2) by simp
  from Cons.IH [OF 1(3) this] obtain xs s2 us' where 2: "collect f is s1 = Inr (xs, s2)" "list_all2 P is xs"
    "setup_inv lib st l0 us' ((rs @ nums x) @ concat (map nums xs)) (j + k + length is * k) s2" by blast
  show ?case using 1 2 by (auto simp: add.assoc)
qed auto

section \<open>A server that is set up\<close>

definition rc_numbers :: "thread_con list \<Rightarrow> dir_con list \<Rightarrow> u32 list" where
  "rc_numbers th dir = concat (map (\<lambda>t. rows_nums (tc_data t)) th) @ concat (map (\<lambda>c. rows_nums (dc_data2app c)) dir)"

definition server_shape :: "nat \<Rightarrow> thread_con list \<Rightarrow> dir_con list \<Rightarrow> bool" where
  "server_shape machineNR th dir \<longleftrightarrow> length th = MAX_APP_THREAD \<and> length dir = NR_DIRECTORY
     \<and> list_all (thread_ok machineNR) th \<and> list_all (dir_ok machineNR) dir \<and> (\<forall>i < NR_DIRECTORY. dc_dirID (dir ! i) = of_nat i)
     \<and> distinct (rc_numbers th dir)"

definition server_set_up :: "nat \<Rightarrow> (u32 \<Rightarrow> qp_attr) \<Rightarrow> thread_con list \<Rightarrow> dir_con list \<Rightarrow> bool" where
  "server_set_up machineNR st th dir \<longleftrightarrow> server_shape machineNR th dir
     \<and> list_all (\<lambda>n. at_state (st n) = QPS_RESET) (rc_numbers th dir)"

definition setup_calls :: "nat \<Rightarrow> nat" where
  "setup_calls m = MAX_APP_THREAD * (13 + NR_DIRECTORY * m) + NR_DIRECTORY * (15 + MAX_APP_THREAD * m)"

lemma connections_set_up_lemma:
  assumes "good_env env st" "grants (ve_lib env) B" "length (nic_log s) + setup_calls machineNR \<le> B"
    "\<forall>n. at_state (st (nic_dev s) n) = QPS_RESET"
  shows "\<exists>th dir s'. initRDMAConnection env cacheData cacheSize baseAddr dsmSize machineNR s = Inr ((th, dir), s')
    \<and> server_set_up machineNR (st (nic_dev s')) th dir
    \<and> list_all (\<lambda>c. dc_dsmPool c = baseAddr \<and> dc_dsmSize c = dsmSize * of_nat GB) dir"
proof -
  let ?lib = "ve_lib env" and ?l0 = "nic_log s"
  have inv: "setup_inv ?lib st ?l0 [] [] 0 s" using assms(4) by (auto simp: setup_inv_def intro: ext_refl)
  have B1: "length ?l0 + (0 + length [0..<MAX_APP_THREAD] * (13 + NR_DIRECTORY * machineNR)) \<le> B"
    and B2: "length ?l0 + (0 + length [0..<MAX_APP_THREAD] * (13 + NR_DIRECTORY * machineNR)
      + length [0..<NR_DIRECTORY] * (15 + MAX_APP_THREAD * machineNR)) \<le> B"
    using assms(3) by (simp_all add: setup_calls_def)
  have "\<exists>xs s' us'. collect (\<lambda>i. ThreadConnection env (of_nat i) cacheData (cacheSize * of_nat GB) machineNR)
      [0..<MAX_APP_THREAD] s = Inr (xs, s') \<and> list_all2 (\<lambda>_. thread_ok machineNR) [0..<MAX_APP_THREAD] xs
      \<and> setup_inv ?lib st ?l0 us' ([] @ concat (map (\<lambda>t. rows_nums (tc_data t)) xs))
          (0 + length [0..<MAX_APP_THREAD] * (13 + NR_DIRECTORY * machineNR)) s'"
    by (rule collect_granted [OF _ inv B1]) (rule thread_granted [OF assms(1,2)])
  then obtain th s1 us where 1: "collect (\<lambda>i. ThreadConnection env (of_nat i) cacheData (cacheSize * of_nat GB) machineNR)
      [0..<MAX_APP_THREAD] s = Inr (th, s1)" "list_all2 (\<lambda>_. thread_ok machineNR) [0..<MAX_APP_THREAD] th"
    and inv1: "setup_inv ?lib st ?l0 us ([] @ concat (map (\<lambda>t. rows_nums (tc_data t)) th))
          (0 + length [0..<MAX_APP_THREAD] * (13 + NR_DIRECTORY * machineNR)) s1" by blast
  have "\<exists>xs s' us'. collect (\<lambda>i. DirectoryConnection env (of_nat i) baseAddr (dsmSize * of_nat GB) machineNR)
      [0..<NR_DIRECTORY] s1 = Inr (xs, s') \<and> list_all2 (\<lambda>i x. dir_ok machineNR x \<and> dc_dirID x = of_nat i \<and> dc_dsmPool x = baseAddr \<and> dc_dsmSize x = dsmSize * of_nat GB) [0..<NR_DIRECTORY] xs
      \<and> setup_inv ?lib st ?l0 us' (([] @ concat (map (\<lambda>t. rows_nums (tc_data t)) th)) @ concat (map (\<lambda>c. rows_nums (dc_data2app c)) xs))
          (0 + length [0..<MAX_APP_THREAD] * (13 + NR_DIRECTORY * machineNR)
           + length [0..<NR_DIRECTORY] * (15 + MAX_APP_THREAD * machineNR)) s'"
    by (rule collect_granted [OF _ inv1 B2]) (use dir_granted [OF assms(1,2)] in blast)
  then obtain dir s2 vs where 2: "collect (\<lambda>i. DirectoryConnection env (of_nat i) baseAddr (dsmSize * of_nat GB) machineNR)
      [0..<NR_DIRECTORY] s1 = Inr (dir, s2)"
    "list_all2 (\<lambda>i x. dir_ok machineNR x \<and> dc_dirID x = of_nat i \<and> dc_dsmPool x = baseAddr \<and> dc_dsmSize x = dsmSize * of_nat GB) [0..<NR_DIRECTORY] dir"
    and inv2: "setup_inv ?lib st ?l0 vs (rc_numbers th dir) (0 + length [0..<MAX_APP_THREAD] * (13 + NR_DIRECTORY * machineNR)
           + length [0..<NR_DIRECTORY] * (15 + MAX_APP_THREAD * machineNR)) s2"
    unfolding rc_numbers_def by auto
  have d: "distinct (vs @ rc_numbers th dir)" by (rule setup_inv_distinct [OF inv2 good_envD(2) [OF assms(1)]])
  moreover have "\<forall>n. n \<notin> set vs \<longrightarrow> at_state (st (nic_dev s2) n) = QPS_RESET" using inv2 by (simp add: setup_inv_def)
  ultimately have "list_all (\<lambda>n. at_state (st (nic_dev s2) n) = QPS_RESET) (rc_numbers th dir)"
    by (auto simp: list_all_iff)
  moreover have "length th = MAX_APP_THREAD" "length dir = NR_DIRECTORY"
    using list_all2_lengthD [OF 1(2)] list_all2_lengthD [OF 2(2)] by simp_all
  ultimately have "server_set_up machineNR (st (nic_dev s2)) th dir"
    using d 1(2) 2(2) by (auto simp: server_set_up_def server_shape_def list_all2_conv_all_nth list_all_length)
  moreover have "list_all (\<lambda>c. dc_dsmPool c = baseAddr \<and> dc_dsmSize c = dsmSize * of_nat GB) dir"
    using 2(2) by (auto simp: list_all2_conv_all_nth list_all_length)
  ultimately show ?thesis using 1(1) 2(1) by (simp add: initRDMAConnection_def)
qed


text \<open>A library and a device for which this holds: queue pairs are numbered by the calls.\<close>

definition kind_env :: "(u32 \<Rightarrow> qp_attr) verbs_env" where
  "kind_env = \<lparr>ve_lib = kind_lib\<lparr>lib_create_qp := (\<lambda>l. if length l < 2 ^ 32 then Some (of_nat (length l)) else None)\<rparr>,
     ve_modify = table_modify, ve_recv = (\<lambda>qp b d. (0, d)), ve_mmap = (\<lambda>n d. (4096, d)),
     ve_create_ah = (\<lambda>pd a d. (Some 1, d))\<rparr>"

lemma of_nat_u32_eq: "m < 2 ^ 32 \<Longrightarrow> n < 2 ^ 32 \<Longrightarrow> (of_nat m :: u32) = of_nat n \<longleftrightarrow> m = n"
  by (simp add: word_of_nat_eq_iff take_bit_nat_eq_self)

lemma kind_env_ok: "good_env kind_env (\<lambda>d. d)" "grants (ve_lib kind_env) (2 ^ 32)"
proof -
  have "fresh_numbers (ve_lib kind_env)" unfolding fresh_numbers_def
  proof (intro allI impI)
    fix l x l' m n assume a: "lib_create_qp (ve_lib kind_env) l = Some m" "lib_create_qp (ve_lib kind_env) (l @ x # l') = Some n"
    then have "m = of_nat (length l)" "n = of_nat (length (l @ x # l'))"
      and l: "length l < 2 ^ 32" "length (l @ x # l') < 2 ^ 32" by (simp_all add: kind_env_def split: if_splits)
    then show "m \<noteq> n" by (simp only: of_nat_u32_eq [OF l]) simp
  qed
  then show "good_env kind_env (\<lambda>d. d)" by (simp add: good_env_def) (simp add: kind_env_def table_modify_ok)
  show "grants (ve_lib kind_env) (2 ^ 32)"
    by (simp add: grants_def kind_env_def kind_lib_def)
qed

definition kind_nic :: "(u32 \<Rightarrow> qp_attr) nic" where
  "kind_nic = \<lparr>nic_kmax = 0, nic_log = [], nic_dev = (\<lambda>_. zero_attr)\<rparr>"


end
