(* ===== verification/ExchangeProps.thy ===== *)
theory ExchangeProps
  imports Exchange ConnClaims
begin

text \<open>
  What one server publishes and what another makes of it: the queue pairs of a server all differ, the
  record that is published names them, and a server that takes the record of another connects each of
  its queue pairs to the one that will be connected back to it.
\<close>

section \<open>Arrays\<close>

lemma elem_at_simps [simp]: "i < length xs \<Longrightarrow> elem_at xs i = Inr (xs ! i)"
  by (simp add: elem_at_def)

lemma rmap_Inr: "(\<And>i. i \<in> set is \<Longrightarrow> f i = Inr (g i)) \<Longrightarrow> rmap f is = Inr (map g is)"
  by (induction "is") simp_all

lemma rmap_elem_at: "n = length xs \<Longrightarrow> rmap (elem_at xs) [0..<n] = Inr xs"
  using rmap_Inr [of "[0..<n]" "elem_at xs" "\<lambda>i. xs ! i"] by (simp add: map_nth)

lemma distinct_concat_nth:
  "distinct (concat xss) \<Longrightarrow> a < length xss \<Longrightarrow> b < length xss \<Longrightarrow> x \<in> set (xss ! a) \<Longrightarrow> x \<in> set (xss ! b) \<Longrightarrow> a = b"
proof (induction xss arbitrary: a b)
  case (Cons xs xss)
  have "x \<notin> set xs" if "c < length xss" "x \<in> set (xss ! c)" for c
    using Cons.prems(1) that by (auto dest: nth_mem)
  then show ?case using Cons by (cases a; cases b) auto
qed simp

section \<open>Tables of queue pairs\<close>

lemma row_nums_rc: "list_all is_rc row \<Longrightarrow> row_nums row = map (\<lambda>q. qp_num (the q)) row"
  by (induction row) (auto simp: is_rc_def split: option.splits)

lemma table_rows: "rc_table n m rows \<Longrightarrow> i < n \<Longrightarrow> length (rows ! i) = m \<and> list_all is_rc (rows ! i)"
  by (auto simp: rc_table_def list_all_length)

lemma table_at:
  assumes "rc_table n m rows" "i < n" "r < m"
  shows "rc_at rows i r = Inr (the (rows ! i ! r))" "qp_type (the (rows ! i ! r)) = QPT_RC"
    "qp_num (the (rows ! i ! r)) \<in> set (rows_nums rows)"
proof -
  have l: "i < length rows" "length (rows ! i) = m" "list_all is_rc (rows ! i)"
    using assms table_rows [OF assms(1,2)] by (simp_all add: rc_table_def)
  then obtain q where q: "rows ! i ! r = Some q" "qp_type q = QPT_RC"
    using assms(3) by (auto simp: list_all_length is_rc_def split: option.splits)
  then show "rc_at rows i r = Inr (the (rows ! i ! r))" "qp_type (the (rows ! i ! r)) = QPT_RC"
    using l assms(3) by (simp_all add: rc_at_def)
  have "row_nums (rows ! i) \<in> set (map row_nums rows)" using l(1) by simp
  moreover have "qp_num q \<in> set (row_nums (rows ! i))"
    using row_nums_rc [OF l(3)] q(1) assms(3) l(2) by (metis in_set_conv_nth length_map nth_map option.sel)
  ultimately show "qp_num (the (rows ! i ! r)) \<in> set (rows_nums rows)" using q(1) by (auto simp: rows_nums_def)
qed

lemma table_inj:
  assumes t: "rc_table n m rows" and d: "distinct (rows_nums rows)" and i: "i < n" "r < m" and j: "j < n" "s < m"
    and e: "qp_num (the (rows ! i ! r)) = qp_num (the (rows ! j ! s))"
  shows "i = j \<and> r = s"
proof -
  have row: "row_nums (rows ! a) = map (\<lambda>q. qp_num (the q)) (rows ! a)" "length (rows ! a) = m" if "a < n" for a
    using table_rows [OF t that] row_nums_rc by auto
  have len: "length (map row_nums rows) = n" using t by (simp add: rc_table_def)
  have mem: "qp_num (the (rows ! a ! b)) \<in> set (map row_nums rows ! a)" if "a < n" "b < m" for a b
    using row [OF that(1)] that len by simp
  have "i = j"
  proof (rule distinct_concat_nth)
    show "distinct (concat (map row_nums rows))" using d by (simp add: rows_nums_def)
    show "qp_num (the (rows ! i ! r)) \<in> set (map row_nums rows ! i)" by (rule mem [OF i])
    show "qp_num (the (rows ! i ! r)) \<in> set (map row_nums rows ! j)" unfolding e by (rule mem [OF j])
  qed (use i j len in simp_all)
  moreover have "distinct (row_nums (rows ! i))"
    using d i(1) len by (auto simp: rows_nums_def distinct_concat_iff)
  then have "r = s" using row [OF i(1)] i j e calculation by (simp add: distinct_conv_nth) blast
  ultimately show ?thesis by simp
qed

section \<open>The queue pairs of a server\<close>

text \<open>Of thread \<open>k\<close> to directory \<open>i\<close> of server \<open>r\<close>, and of directory \<open>i\<close> to thread \<open>k\<close> of server \<open>r\<close>.\<close>

definition app_qp :: "'d keeper \<Rightarrow> nat \<Rightarrow> nat \<Rightarrow> nat \<Rightarrow> ibv_qp" where
  "app_qp X k i r = the (tc_data (kp_thCon X ! k) ! i ! r)"

definition dir_qp :: "'d keeper \<Rightarrow> nat \<Rightarrow> nat \<Rightarrow> nat \<Rightarrow> ibv_qp" where
  "dir_qp X i k r = the (dc_data2app (kp_dirCon X ! i) ! k ! r)"

abbreviation shaped :: "nat \<Rightarrow> 'd keeper \<Rightarrow> bool" where
  "shaped m X \<equiv> server_shape m (kp_thCon X) (kp_dirCon X)"

lemma shapedD:
  assumes "shaped m X"
  shows "length (kp_thCon X) = MAX_APP_THREAD" "length (kp_dirCon X) = NR_DIRECTORY"
    "k < MAX_APP_THREAD \<Longrightarrow> rc_table NR_DIRECTORY m (tc_data (kp_thCon X ! k))"
    "i < NR_DIRECTORY \<Longrightarrow> rc_table MAX_APP_THREAD m (dc_data2app (kp_dirCon X ! i))"
    "i < NR_DIRECTORY \<Longrightarrow> dc_lockMR (kp_dirCon X ! i) \<noteq> None"
    "distinct (concat (map (\<lambda>t. rows_nums (tc_data t)) (kp_thCon X)))"
    "distinct (concat (map (\<lambda>c. rows_nums (dc_data2app c)) (kp_dirCon X)))"
    "set (concat (map (\<lambda>t. rows_nums (tc_data t)) (kp_thCon X)))
       \<inter> set (concat (map (\<lambda>c. rows_nums (dc_data2app c)) (kp_dirCon X))) = {}"
proof -
  have a: "length (kp_thCon X) = MAX_APP_THREAD" "length (kp_dirCon X) = NR_DIRECTORY"
    "list_all (thread_ok m) (kp_thCon X)" "list_all (dir_ok m) (kp_dirCon X)"
    "\<forall>i < NR_DIRECTORY. dc_dirID (kp_dirCon X ! i) = of_nat i" "distinct (rc_numbers (kp_thCon X) (kp_dirCon X))"
    using assms by (auto simp: server_shape_def)
  then show "length (kp_thCon X) = MAX_APP_THREAD" "length (kp_dirCon X) = NR_DIRECTORY"
    "k < MAX_APP_THREAD \<Longrightarrow> rc_table NR_DIRECTORY m (tc_data (kp_thCon X ! k))"
    "i < NR_DIRECTORY \<Longrightarrow> rc_table MAX_APP_THREAD m (dc_data2app (kp_dirCon X ! i))"
    "distinct (concat (map (\<lambda>t. rows_nums (tc_data t)) (kp_thCon X)))"
    "distinct (concat (map (\<lambda>c. rows_nums (dc_data2app c)) (kp_dirCon X)))"
    "set (concat (map (\<lambda>t. rows_nums (tc_data t)) (kp_thCon X)))
       \<inter> set (concat (map (\<lambda>c. rows_nums (dc_data2app c)) (kp_dirCon X))) = {}"
    by (simp_all add: list_all_length thread_ok_def dir_ok_def rc_numbers_def)
  show "dc_lockMR (kp_dirCon X ! i) \<noteq> None" if "i < NR_DIRECTORY"
    using a(2,4,5) that by (auto simp: list_all_length dir_ok_def NR_DIRECTORY_def)
qed

lemma app_qp_at:
  assumes "shaped m X" "k < MAX_APP_THREAD" "i < NR_DIRECTORY" "r < m"
  shows "rc_at (tc_data (kp_thCon X ! k)) i r = Inr (app_qp X k i r)" "qp_type (app_qp X k i r) = QPT_RC"
    "qp_num (app_qp X k i r) \<in> set (rows_nums (tc_data (kp_thCon X ! k)))"
  using table_at [OF shapedD(3) [OF assms(1,2)] assms(3,4)] by (simp_all add: app_qp_def)

lemma dir_qp_at:
  assumes "shaped m X" "k < MAX_APP_THREAD" "i < NR_DIRECTORY" "r < m"
  shows "rc_at (dc_data2app (kp_dirCon X ! i)) k r = Inr (dir_qp X i k r)" "qp_type (dir_qp X i k r) = QPT_RC"
    "qp_num (dir_qp X i k r) \<in> set (rows_nums (dc_data2app (kp_dirCon X ! i)))"
  using table_at [OF shapedD(4) [OF assms(1,3)] assms(2,4)] by (simp_all add: dir_qp_def)

lemma app_qp_inj:
  assumes s: "shaped m X" and a: "k < MAX_APP_THREAD" "i < NR_DIRECTORY" "r < m" and b: "k' < MAX_APP_THREAD" "i' < NR_DIRECTORY" "r' < m"
    and e: "qp_num (app_qp X k i r) = qp_num (app_qp X k' i' r')"
  shows "k = k' \<and> i = i' \<and> r = r'"
proof -
  have k: "k = k'"
    by (rule distinct_concat_nth [OF shapedD(6) [OF s], of _ _ "qp_num (app_qp X k i r)"])
      (use a b app_qp_at(3) [OF s a] app_qp_at(3) [OF s b] e shapedD(1) [OF s] in simp_all)
  have "rows_nums (tc_data (kp_thCon X ! k)) \<in> set (map (\<lambda>t. rows_nums (tc_data t)) (kp_thCon X))"
    using a shapedD(1) [OF s] by simp
  then have "distinct (rows_nums (tc_data (kp_thCon X ! k)))"
    using shapedD(6) [OF s] by (simp only: distinct_concat_iff)
  then show ?thesis using table_inj [OF shapedD(3) [OF s a(1)] _ a(2,3) b(2,3)] e k by (simp add: app_qp_def)
qed

lemma dir_qp_inj:
  assumes s: "shaped m X" and a: "k < MAX_APP_THREAD" "i < NR_DIRECTORY" "r < m" and b: "k' < MAX_APP_THREAD" "i' < NR_DIRECTORY" "r' < m"
    and e: "qp_num (dir_qp X i k r) = qp_num (dir_qp X i' k' r')"
  shows "k = k' \<and> i = i' \<and> r = r'"
proof -
  have i: "i = i'"
    by (rule distinct_concat_nth [OF shapedD(7) [OF s], of _ _ "qp_num (dir_qp X i k r)"])
      (use a b dir_qp_at(3) [OF s a] dir_qp_at(3) [OF s b] e shapedD(2) [OF s] in simp_all)
  have "rows_nums (dc_data2app (kp_dirCon X ! i)) \<in> set (map (\<lambda>c. rows_nums (dc_data2app c)) (kp_dirCon X))"
    using a shapedD(2) [OF s] by simp
  then have "distinct (rows_nums (dc_data2app (kp_dirCon X ! i)))"
    using shapedD(7) [OF s] by (simp only: distinct_concat_iff)
  then show ?thesis using table_inj [OF shapedD(4) [OF s a(2)] _ a(1,3) b(1,3)] e i by (simp add: dir_qp_def)
qed

lemma app_dir_qp:
  assumes s: "shaped m X" and a: "k < MAX_APP_THREAD" "i < NR_DIRECTORY" "r < m" and b: "k' < MAX_APP_THREAD" "i' < NR_DIRECTORY" "r' < m"
  shows "qp_num (app_qp X k i r) \<noteq> qp_num (dir_qp X i' k' r')"
proof -
  have "qp_num (app_qp X k i r) \<in> set (concat (map (\<lambda>t. rows_nums (tc_data t)) (kp_thCon X)))"
    using app_qp_at(3) [OF s a] a(1) shapedD(1) [OF s] by auto
  moreover have "qp_num (dir_qp X i' k' r') \<in> set (concat (map (\<lambda>c. rows_nums (dc_data2app c)) (kp_dirCon X)))"
    using dir_qp_at(3) [OF s b] b(2) shapedD(2) [OF s] by auto
  ultimately show ?thesis using shapedD(8) [OF s] by (metis IntI empty_iff)
qed

section \<open>Connecting\<close>

lemma connect_qp_ok:
  assumes "modifies_qps (ve_modify env) st" "qp_type qp = QPT_RC" "at_state (st d (qp_num qp)) = QPS_RESET"
  shows "\<exists>d' a. connect_qp env qp n x c d = Inr d' \<and> st d' = (st d)(qp_num qp := a) \<and> rc_ready n (ex_lid x) (ex_gid x) c a"
proof -
  obtain d1 d2 d3 a where "modifyQPtoInit (ve_modify env) qp c d = (True, d1)"
    "modifyQPtoRTR (ve_modify env) qp n (ex_lid x) (ex_gid x) c d1 = (True, d2)"
    "modifyQPtoRTS (ve_modify env) qp d2 = (True, d3)"
    "st d3 = (st d)(qp_num qp := a)" "rc_ready n (ex_lid x) (ex_gid x) c a"
    by (rule rc_connects [OF assms, of c n "ex_lid x" "ex_gid x"])
  then show ?thesis using assms(2) by (auto simp: connect_qp_def)
qed

text \<open>A loop that connects different queue pairs.\<close>

lemma connect_all:
  assumes mod: "modifies_qps (ve_modify env) st"
    and f: "\<And>j d. j \<in> set js \<Longrightarrow> f j d = connect_qp env (qp j) (n j) (x j) (c j) d"
    and rc: "\<And>j. j \<in> set js \<Longrightarrow> qp_type (qp j) = QPT_RC"
  shows "distinct js \<Longrightarrow> inj_on (\<lambda>j. qp_num (qp j)) (set js) \<Longrightarrow>
    (\<And>j. j \<in> set js \<Longrightarrow> at_state (st d (qp_num (qp j))) = QPS_RESET) \<Longrightarrow>
    \<exists>d'. for_each f js d = Inr d'
      \<and> (\<forall>j \<in> set js. rc_ready (n j) (ex_lid (x j)) (ex_gid (x j)) (c j) (st d' (qp_num (qp j))))
      \<and> (\<forall>y. y \<notin> (\<lambda>j. qp_num (qp j)) ` set js \<longrightarrow> st d' y = st d y)"
  using f rc
proof (induction js arbitrary: d)
  case (Cons j js)
  have "at_state (st d (qp_num (qp j))) = QPS_RESET" "qp_type (qp j) = QPT_RC" using Cons.prems by simp_all
  from connect_qp_ok [OF mod this(2,1), of "n j" "x j" "c j"] obtain d1 a where
    1: "connect_qp env (qp j) (n j) (x j) (c j) d = Inr d1" "st d1 = (st d)(qp_num (qp j) := a)"
    "rc_ready (n j) (ex_lid (x j)) (ex_gid (x j)) (c j) a" by blast
  have ne: "i \<in> set js \<Longrightarrow> qp_num (qp i) \<noteq> qp_num (qp j)" for i
    using Cons.prems(1,2) by (auto simp: inj_on_def)
  have "\<exists>d'. for_each f js d1 = Inr d'
      \<and> (\<forall>j \<in> set js. rc_ready (n j) (ex_lid (x j)) (ex_gid (x j)) (c j) (st d' (qp_num (qp j))))
      \<and> (\<forall>y. y \<notin> (\<lambda>j. qp_num (qp j)) ` set js \<longrightarrow> st d' y = st d1 y)"
  proof (rule Cons.IH)
    show "at_state (st d1 (qp_num (qp i))) = QPS_RESET" if "i \<in> set js" for i
      using that ne [OF that] Cons.prems(3) [of i] 1(2) by simp
  qed (use Cons.prems in \<open>auto simp: inj_on_def\<close>)
  then obtain d2 where 2: "for_each f js d1 = Inr d2"
    "\<forall>j \<in> set js. rc_ready (n j) (ex_lid (x j)) (ex_gid (x j)) (c j) (st d2 (qp_num (qp j)))"
    "\<forall>y. y \<notin> (\<lambda>j. qp_num (qp j)) ` set js \<longrightarrow> st d2 y = st d1 y" by blast
  have "qp_num (qp j) \<notin> (\<lambda>j. qp_num (qp j)) ` set js" using ne by fastforce
  then have "st d2 (qp_num (qp j)) = a" using 2(3) 1(2) by simp
  then show ?case using 1 2 Cons.prems(4) by (intro exI [of _ d2]) auto
qed simp

section \<open>What a server publishes\<close>

definition dir_record :: "dir_con \<Rightarrow> ExPerThread" where
  "dir_record c = \<lparr>ex_lid = rc_lid (dc_ctx c), ex_gid = take 16 (rc_gid (dc_ctx c)), ex_rKey = mr_rkey (dc_dsmMR c),
     ex_lock_rkey = mr_rkey (the (dc_lockMR c))\<rparr>"

definition publication :: "'d keeper \<Rightarrow> nat \<Rightarrow> ExchangeMeta" where
  "publication X r = \<lparr>em_dsmBase = dc_dsmPool (kp_dirCon X ! 0), em_cacheBase = tc_cachePool (kp_thCon X ! 0),
     em_lockBase = dc_lockPool (kp_dirCon X ! 0), em_appTh = map app_meta (kp_thCon X),
     em_dirTh = map dir_record (kp_dirCon X), em_appUdQpn = map (\<lambda>c. getQPN (tc_message c)) (kp_thCon X),
     em_dirUdQpn = map (\<lambda>c. getQPN (dc_message c)) (kp_dirCon X),
     em_appRcQpn2dir = map (\<lambda>k. map (\<lambda>i. qp_num (app_qp X k i r)) [0..<NR_DIRECTORY]) [0..<MAX_APP_THREAD],
     em_dirRcQpn2app = map (\<lambda>i. map (\<lambda>k. qp_num (dir_qp X i k r)) [0..<MAX_APP_THREAD]) [0..<NR_DIRECTORY]\<rparr>"

text \<open>The part that does not depend on the other server was written by \<^verbatim>\<open>initLocalMeta\<close>.\<close>

definition local_meta :: "'d keeper \<Rightarrow> bool" where
  "local_meta X \<longleftrightarrow> kp_meta X = (publication X 0)\<lparr>em_appRcQpn2dir := em_appRcQpn2dir (kp_meta X),
     em_dirRcQpn2app := em_dirRcQpn2app (kp_meta X)\<rparr>"

lemma initLocalMeta_ok:
  assumes "shaped m X"
  shows "\<exists>e. initLocalMeta X = Inr (X\<lparr>kp_meta := e\<rparr>) \<and> local_meta (X\<lparr>kp_meta := e\<rparr>)"
proof -
  note l = shapedD(1,2) [OF assms]
  have "rmap dir_meta (kp_dirCon X) = Inr (map dir_record (kp_dirCon X))"
  proof (rule rmap_Inr)
    fix c assume "c \<in> set (kp_dirCon X)"
    then obtain i where "i < NR_DIRECTORY" "c = kp_dirCon X ! i" using l(2) by (auto simp: in_set_conv_nth)
    then have "dc_lockMR c \<noteq> None" using shapedD(5) [OF assms] by simp
    then show "dir_meta c = Inr (dir_record c)" by (auto simp: dir_meta_def dir_record_def)
  qed
  moreover have "0 < length (kp_dirCon X)" "0 < length (kp_thCon X)"
    using l by (simp_all add: MAX_APP_THREAD_def NR_DIRECTORY_def)
  ultimately have "initLocalMeta X = Inr (X\<lparr>kp_meta := (publication X 0)\<lparr>em_appRcQpn2dir := em_appRcQpn2dir (kp_meta X),
      em_dirRcQpn2app := em_dirRcQpn2app (kp_meta X)\<rparr>\<rparr>)"
    using l by (cases "kp_meta X") (simp add: initLocalMeta_def rmap_elem_at publication_def)
  then show ?thesis by (auto simp: local_meta_def publication_def app_qp_def dir_qp_def)
qed

lemma setDataToRemote_ok:
  assumes s: "shaped m X" and meta: "local_meta X" and r: "r < m"
  shows "setDataToRemote r X = Inr (X\<lparr>kp_meta := publication X r\<rparr>)"
proof -
  note l = shapedD(1,2) [OF s]
  have "rmap (\<lambda>i. rbind (elem_at (kp_dirCon X) i) (\<lambda>c.
         rmap (\<lambda>k. rbind (rc_at (dc_data2app c) k r) (\<lambda>qp. Inr (qp_num qp))) [0..<MAX_APP_THREAD])) [0..<NR_DIRECTORY]
      = Inr (em_dirRcQpn2app (publication X r))"
    unfolding publication_def ExchangeMeta.simps
    by (rule rmap_Inr) (use l in \<open>auto intro!: rmap_Inr simp: dir_qp_at(1) [OF s _ _ r]\<close>)
  moreover have "rmap (\<lambda>i. rbind (elem_at (kp_thCon X) i) (\<lambda>c.
         rmap (\<lambda>k. rbind (rc_at (tc_data c) k r) (\<lambda>qp. Inr (qp_num qp))) [0..<NR_DIRECTORY])) [0..<MAX_APP_THREAD]
      = Inr (em_appRcQpn2dir (publication X r))"
    unfolding publication_def ExchangeMeta.simps
    by (rule rmap_Inr) (use l in \<open>auto intro!: rmap_Inr simp: app_qp_at(1) [OF s _ _ r]\<close>)
  moreover have "(kp_meta X)\<lparr>em_dirRcQpn2app := em_dirRcQpn2app (publication X r),
      em_appRcQpn2dir := em_appRcQpn2dir (publication X r)\<rparr> = publication X r"
    using meta unfolding local_meta_def by (cases "kp_meta X") (simp add: publication_def)
  ultimately show ?thesis by (simp add: setDataToRemote_def)
qed

section \<open>Taking what the other server has published\<close>

text \<open>Address handles are created, which does not touch the queue pairs.\<close>

definition makes_handles :: "'d verbs_env \<Rightarrow> ('d \<Rightarrow> u32 \<Rightarrow> qp_attr) \<Rightarrow> bool" where
  "makes_handles env st \<longleftrightarrow> (\<forall>pd a d. fst (ve_create_ah env pd a d) \<noteq> None \<and> st (snd (ve_create_ah env pd a d)) = st d)"

lemma create_ah_ok:
  assumes "makes_handles env st"
  shows "\<exists>h d'. create_ah env x c d = Inr (h, d') \<and> st d' = st d"
proof -
  obtain ah d' where a: "ve_create_ah env (rc_pd c) (fillAhAttr (ucast (ex_lid x)) (ex_gid x) c) d = (ah, d')" by force
  then have "ah \<noteq> None" "st d' = st d" using assms unfolding makes_handles_def by (metis fst_conv, metis snd_conv)
  with a show ?thesis by (auto simp: create_ah_def)
qed

lemma collect_same:
  assumes "\<And>i d. i \<in> set is \<Longrightarrow> \<exists>x d'. f i d = Inr (x, d') \<and> st d' = st d"
  shows "\<exists>xs d'. collect f is d = Inr (xs, d') \<and> st d' = st d"
  using assms
proof (induction "is" arbitrary: d)
  case (Cons i "is")
  obtain x d1 where 1: "f i d = Inr (x, d1)" "st d1 = st d" using Cons.prems [of i d] by auto
  have "\<exists>xs d'. collect f is d1 = Inr (xs, d') \<and> st d' = st d1" by (rule Cons.IH) (use Cons.prems in simp)
  with 1 show ?case by auto
qed simp

lemma handles_ok:
  assumes "makes_handles env st" "\<And>i. i \<in> set is \<Longrightarrow> i < length xs" "\<And>k. k \<in> set ks \<Longrightarrow> k < length cs"
  shows "\<exists>hs d'. collect (\<lambda>i. collect (\<lambda>k d. rbind (elem_at xs i) (\<lambda>x. rbind (elem_at cs k) (\<lambda>c. create_ah env x (g c) d)))
      ks) is d = Inr (hs, d') \<and> st d' = st d"
  by (rule collect_same, rule collect_same) (use assms create_ah_ok [OF assms(1)] in simp)

text \<open>The queue pairs of \<open>X\<close> towards \<open>Y\<close> are ready and name those of \<open>Y\<close> towards \<open>X\<close>.\<close>

definition linked :: "('d \<Rightarrow> u32 \<Rightarrow> qp_attr) \<Rightarrow> 'd keeper \<Rightarrow> 'd keeper \<Rightarrow> nat \<Rightarrow> nat \<Rightarrow> bool" where
  "linked st X Y x y \<longleftrightarrow> (\<forall>k < MAX_APP_THREAD. \<forall>i < NR_DIRECTORY.
     rc_ready (qp_num (dir_qp Y i k x)) (rc_lid (dc_ctx (kp_dirCon Y ! i))) (take 16 (rc_gid (dc_ctx (kp_dirCon Y ! i))))
       (tc_ctx (kp_thCon X ! k)) (st (kp_dev X) (qp_num (app_qp X k i y)))
     \<and> rc_ready (qp_num (app_qp Y k i x)) (rc_lid (tc_ctx (kp_thCon Y ! k))) (take 16 (rc_gid (tc_ctx (kp_thCon Y ! k))))
       (dc_ctx (kp_dirCon X ! i)) (st (kp_dev X) (qp_num (dir_qp X i k y))))"

text \<open>What \<open>X\<close> has noted of \<open>Y\<close> is so.\<close>

definition knows :: "'d keeper \<Rightarrow> 'd keeper \<Rightarrow> nat \<Rightarrow> bool" where
  "knows X Y y \<longleftrightarrow> (case kp_remoteCon X ! y of None \<Rightarrow> False | Some info \<Rightarrow>
     ri_dsmBase info = dc_dsmPool (kp_dirCon Y ! 0) \<and> ri_lockBase info = dc_lockPool (kp_dirCon Y ! 0)
     \<and> ri_cacheBase info = tc_cachePool (kp_thCon Y ! 0)
     \<and> ri_dsmRKey info = map (\<lambda>c. mr_rkey (dc_dsmMR c)) (kp_dirCon Y)
     \<and> ri_lockRKey info = map (\<lambda>c. mr_rkey (the (dc_lockMR c))) (kp_dirCon Y)
     \<and> ri_dirMessageQPN info = map (\<lambda>c. qp_num (ml_qp (dc_message c))) (kp_dirCon Y)
     \<and> ri_appRKey info = map (\<lambda>c. mr_rkey (tc_cacheMR c)) (kp_thCon Y)
     \<and> ri_appMessageQPN info = map (\<lambda>c. qp_num (ml_qp (tc_message c))) (kp_thCon Y))"

text \<open>The queue pairs of \<open>X\<close> towards \<open>y\<close> have not been connected.\<close>

definition towards :: "'d keeper \<Rightarrow> nat \<Rightarrow> u32 set" where
  "towards X y = {n. \<exists>k < MAX_APP_THREAD. \<exists>i < NR_DIRECTORY. n = qp_num (app_qp X k i y) \<or> n = qp_num (dir_qp X i k y)}"

definition unconnected :: "('d \<Rightarrow> u32 \<Rightarrow> qp_attr) \<Rightarrow> 'd keeper \<Rightarrow> nat \<Rightarrow> bool" where
  "unconnected st X y \<longleftrightarrow> (\<forall>n \<in> towards X y. at_state (st (kp_dev X) n) = QPS_RESET)"

lemma connect_dir_qps:
  assumes mod: "modifies_qps (ve_modify env) st" and X: "shaped m X" and Y: "shaped m Y" and xy: "x < m" "y < m"
    and reset: "\<And>k i. k < MAX_APP_THREAD \<Longrightarrow> i < NR_DIRECTORY \<Longrightarrow> at_state (st d (qp_num (dir_qp X i k y))) = QPS_RESET"
  shows "\<exists>d'. for_each (\<lambda>i. for_each (connect_dir_qp env X y (publication Y x) i) [0..<MAX_APP_THREAD]) [0..<NR_DIRECTORY] d = Inr d'
    \<and> (\<forall>k < MAX_APP_THREAD. \<forall>i < NR_DIRECTORY. rc_ready (qp_num (app_qp Y k i x)) (rc_lid (tc_ctx (kp_thCon Y ! k)))
         (take 16 (rc_gid (tc_ctx (kp_thCon Y ! k)))) (dc_ctx (kp_dirCon X ! i)) (st d' (qp_num (dir_qp X i k y))))
    \<and> (\<forall>n. (\<forall>k < MAX_APP_THREAD. \<forall>i < NR_DIRECTORY. n \<noteq> qp_num (dir_qp X i k y)) \<longrightarrow> st d' n = st d n)"
proof -
  let ?js = "List.product [0..<NR_DIRECTORY] [0..<MAX_APP_THREAD]"
  let ?qp = "\<lambda>(i, k). dir_qp X i k y" and ?n = "\<lambda>(i, k). qp_num (app_qp Y k i x)"
    and ?x = "\<lambda>(i, k). app_meta (kp_thCon Y ! k)" and ?c = "\<lambda>(i, k). dc_ctx (kp_dirCon X ! i)"
  note l = shapedD(1,2) [OF X] shapedD(1,2) [OF Y]
  have "\<exists>d'. for_each (\<lambda>(i, k). connect_dir_qp env X y (publication Y x) i k) ?js d = Inr d'
      \<and> (\<forall>j \<in> set ?js. rc_ready (?n j) (ex_lid (?x j)) (ex_gid (?x j)) (?c j) (st d' (qp_num (?qp j))))
      \<and> (\<forall>z. z \<notin> (\<lambda>j. qp_num (?qp j)) ` set ?js \<longrightarrow> st d' z = st d z)"
  proof (rule connect_all [OF mod])
    show "(case j of (i, k) \<Rightarrow> connect_dir_qp env X y (publication Y x) i k) d = connect_qp env (?qp j) (?n j) (?x j) (?c j) d"
      if "j \<in> set ?js" for j d
      using that l by (auto simp: connect_dir_qp_def dir_qp_at(1) [OF X _ _ xy(2)] publication_def)
    show "qp_type (?qp j) = QPT_RC" if "j \<in> set ?js" for j
      using that by (auto simp: dir_qp_at(2) [OF X _ _ xy(2)])
    show "distinct ?js" by (simp add: distinct_product)
    show "inj_on (\<lambda>j. qp_num (?qp j)) (set ?js)"
      by (auto intro!: inj_onI dest: dir_qp_inj [OF X _ _ xy(2) _ _ xy(2)])
    show "at_state (st d (qp_num (?qp j))) = QPS_RESET" if "j \<in> set ?js" for j
      using that reset by auto
  qed
  then show ?thesis unfolding for_each_nested by (auto simp: app_meta_def image_iff)
qed

lemma connect_app_qps:
  assumes mod: "modifies_qps (ve_modify env) st" and X: "shaped m X" and Y: "shaped m Y" and xy: "x < m" "y < m"
    and reset: "\<And>k i. k < MAX_APP_THREAD \<Longrightarrow> i < NR_DIRECTORY \<Longrightarrow> at_state (st d (qp_num (app_qp X k i y))) = QPS_RESET"
  shows "\<exists>d'. for_each (\<lambda>i. for_each (connect_app_qp env X y (publication Y x) i) [0..<NR_DIRECTORY]) [0..<MAX_APP_THREAD] d = Inr d'
    \<and> (\<forall>k < MAX_APP_THREAD. \<forall>i < NR_DIRECTORY. rc_ready (qp_num (dir_qp Y i k x)) (rc_lid (dc_ctx (kp_dirCon Y ! i)))
         (take 16 (rc_gid (dc_ctx (kp_dirCon Y ! i)))) (tc_ctx (kp_thCon X ! k)) (st d' (qp_num (app_qp X k i y))))
    \<and> (\<forall>n. (\<forall>k < MAX_APP_THREAD. \<forall>i < NR_DIRECTORY. n \<noteq> qp_num (app_qp X k i y)) \<longrightarrow> st d' n = st d n)"
proof -
  let ?js = "List.product [0..<MAX_APP_THREAD] [0..<NR_DIRECTORY]"
  let ?qp = "\<lambda>(k, i). app_qp X k i y" and ?n = "\<lambda>(k, i). qp_num (dir_qp Y i k x)"
    and ?x = "\<lambda>(k, i). dir_record (kp_dirCon Y ! i)" and ?c = "\<lambda>(k, i). tc_ctx (kp_thCon X ! k)"
  note l = shapedD(1,2) [OF X] shapedD(1,2) [OF Y]
  have "\<exists>d'. for_each (\<lambda>(k, i). connect_app_qp env X y (publication Y x) k i) ?js d = Inr d'
      \<and> (\<forall>j \<in> set ?js. rc_ready (?n j) (ex_lid (?x j)) (ex_gid (?x j)) (?c j) (st d' (qp_num (?qp j))))
      \<and> (\<forall>z. z \<notin> (\<lambda>j. qp_num (?qp j)) ` set ?js \<longrightarrow> st d' z = st d z)"
  proof (rule connect_all [OF mod])
    show "(case j of (k, i) \<Rightarrow> connect_app_qp env X y (publication Y x) k i) d = connect_qp env (?qp j) (?n j) (?x j) (?c j) d"
      if "j \<in> set ?js" for j d
      using that l by (auto simp: connect_app_qp_def app_qp_at(1) [OF X _ _ xy(2)] publication_def)
    show "qp_type (?qp j) = QPT_RC" if "j \<in> set ?js" for j
      using that by (auto simp: app_qp_at(2) [OF X _ _ xy(2)])
    show "distinct ?js" by (simp add: distinct_product)
    show "inj_on (\<lambda>j. qp_num (?qp j)) (set ?js)"
      by (auto intro!: inj_onI dest: app_qp_inj [OF X _ _ xy(2) _ _ xy(2)])
    show "at_state (st d (qp_num (?qp j))) = QPS_RESET" if "j \<in> set ?js" for j
      using that reset by auto
  qed
  then show ?thesis unfolding for_each_nested by (auto simp: dir_record_def image_iff)
qed

lemma setDataFromRemote_ok:
  assumes mod: "modifies_qps (ve_modify env) st" and ah: "makes_handles env st"
    and X: "shaped m X" and Y: "shaped m Y" and xy: "x < m" "y < m"
    and len: "length (kp_remoteCon X) = m" and un: "unconnected st X y"
  shows "\<exists>X'. setDataFromRemote env y (publication Y x) X = Inr X'
    \<and> kp_thCon X' = kp_thCon X \<and> kp_dirCon X' = kp_dirCon X \<and> kp_myNodeID X' = kp_myNodeID X \<and> kp_meta X' = kp_meta X
    \<and> length (kp_remoteCon X') = m \<and> (\<forall>z. z \<noteq> y \<longrightarrow> kp_remoteCon X' ! z = kp_remoteCon X ! z)
    \<and> linked st X' Y x y \<and> knows X' Y y \<and> (\<forall>n. n \<notin> towards X y \<longrightarrow> st (kp_dev X') n = st (kp_dev X) n)"
proof -
  let ?M = "publication Y x"
  note l = shapedD(1,2) [OF X] shapedD(1,2) [OF Y]
  have r: "at_state (st (kp_dev X) (qp_num (dir_qp X i k y))) = QPS_RESET"
    "at_state (st (kp_dev X) (qp_num (app_qp X k i y))) = QPS_RESET" if "k < MAX_APP_THREAD" "i < NR_DIRECTORY" for k i
    using un that unfolding unconnected_def towards_def by blast+
  obtain d1 where 1: "for_each (\<lambda>i. for_each (connect_dir_qp env X y ?M i) [0..<MAX_APP_THREAD]) [0..<NR_DIRECTORY] (kp_dev X) = Inr d1"
    and dirs: "\<forall>k < MAX_APP_THREAD. \<forall>i < NR_DIRECTORY. rc_ready (qp_num (app_qp Y k i x)) (rc_lid (tc_ctx (kp_thCon Y ! k)))
         (take 16 (rc_gid (tc_ctx (kp_thCon Y ! k)))) (dc_ctx (kp_dirCon X ! i)) (st d1 (qp_num (dir_qp X i k y)))"
    and same1: "\<And>n. (\<forall>k < MAX_APP_THREAD. \<forall>i < NR_DIRECTORY. n \<noteq> qp_num (dir_qp X i k y)) \<Longrightarrow> st d1 n = st (kp_dev X) n"
    using connect_dir_qps [OF mod X Y xy, of "kp_dev X"] r(1) by blast
  have app1: "st d1 (qp_num (app_qp X k i y)) = st (kp_dev X) (qp_num (app_qp X k i y))"
    if "k < MAX_APP_THREAD" "i < NR_DIRECTORY" for k i
    by (rule same1) (use app_dir_qp [OF X that xy(2) _ _ xy(2)] in blast)
  obtain d2 where 2: "for_each (\<lambda>i. for_each (connect_app_qp env X y ?M i) [0..<NR_DIRECTORY]) [0..<MAX_APP_THREAD] d1 = Inr d2"
    and apps: "\<forall>k < MAX_APP_THREAD. \<forall>i < NR_DIRECTORY. rc_ready (qp_num (dir_qp Y i k x)) (rc_lid (dc_ctx (kp_dirCon Y ! i)))
         (take 16 (rc_gid (dc_ctx (kp_dirCon Y ! i)))) (tc_ctx (kp_thCon X ! k)) (st d2 (qp_num (app_qp X k i y)))"
    and same2: "\<And>n. (\<forall>k < MAX_APP_THREAD. \<forall>i < NR_DIRECTORY. n \<noteq> qp_num (app_qp X k i y)) \<Longrightarrow> st d2 n = st d1 n"
    using connect_app_qps [OF mod X Y xy, of d1] r(2) app1 by metis
  have dir2: "st d2 (qp_num (dir_qp X i k y)) = st d1 (qp_num (dir_qp X i k y))"
    if "k < MAX_APP_THREAD" "i < NR_DIRECTORY" for k i
    by (rule same2) (use app_dir_qp [OF X _ _ xy(2) that xy(2)] in metis)
  have ml: "length (em_dirTh ?M) = NR_DIRECTORY" "length (em_appTh ?M) = MAX_APP_THREAD"
    using l by (simp_all add: publication_def)
  obtain hs d3 where 3: "collect (\<lambda>i. collect (\<lambda>k d. rbind (elem_at (em_dirTh ?M) i) (\<lambda>x. rbind (elem_at (kp_thCon X) k)
      (\<lambda>c. create_ah env x (tc_ctx c) d))) [0..<MAX_APP_THREAD]) [0..<NR_DIRECTORY] d2 = Inr (hs, d3)" "st d3 = st d2"
    using handles_ok [OF ah, of "[0..<NR_DIRECTORY]" "em_dirTh ?M" "[0..<MAX_APP_THREAD]" "kp_thCon X" tc_ctx d2] ml l by auto
  obtain gs d4 where 4: "collect (\<lambda>i. collect (\<lambda>k d. rbind (elem_at (em_appTh ?M) i) (\<lambda>x. rbind (elem_at (kp_dirCon X) k)
      (\<lambda>c. create_ah env x (dc_ctx c) d))) [0..<NR_DIRECTORY]) [0..<MAX_APP_THREAD] d3 = Inr (gs, d4)" "st d4 = st d3"
    using handles_ok [OF ah, of "[0..<MAX_APP_THREAD]" "em_appTh ?M" "[0..<NR_DIRECTORY]" "kp_dirCon X" dc_ctx d3] ml l by auto
  obtain info where info: "info = \<lparr>ri_dsmBase = em_dsmBase ?M, ri_dsmRKey = map ex_rKey (em_dirTh ?M), ri_dirMessageQPN = em_dirUdQpn ?M,
           ri_appToDirAh = exchanged NR_DIRECTORY MAX_APP_THREAD hs, ri_cacheBase = em_cacheBase ?M,
           ri_lockBase = em_lockBase ?M, ri_lockRKey = map ex_lock_rkey (em_dirTh ?M),
           ri_appRKey = map ex_rKey (em_appTh ?M), ri_appMessageQPN = em_appUdQpn ?M,
           ri_dirToAppAh = exchanged MAX_APP_THREAD NR_DIRECTORY gs\<rparr>" by blast
  let ?X = "X\<lparr>kp_dev := d4, kp_remoteCon := (kp_remoteCon X)[y := Some info]\<rparr>"
  have "setDataFromRemote env y ?M X = Inr ?X"
    using 1 2 3(1) 4(1) len xy(2) by (simp add: setDataFromRemote_def info)
  moreover have "linked st ?X Y x y"
    using apps dirs dir2 3(2) 4(2) by (simp add: linked_def app_qp_def dir_qp_def)
  moreover have "knows ?X Y y"
    using len xy(2) by (simp add: knows_def info publication_def getQPN_def dir_record_def app_meta_def comp_def)
  moreover have "st (kp_dev ?X) n = st (kp_dev X) n" if "n \<notin> towards X y" for n
    using that same1 [of n] same2 [of n] 3(2) 4(2) by (simp add: towards_def)
  ultimately show ?thesis using len by auto
qed

end
