(* ===== verification/KeeperClaims.thy ===== *)
theory KeeperClaims
  imports Keeper
begin

text \<open>
  The barrier and the sum as properties of every interleaving of the servers' calls: nobody passes a
  barrier before everybody has entered it, and on a service that answers all pass; what happens when
  a key is used again; and that a sum adds up what each server gave.
\<close>

section \<open>Invariant of the barrier\<close>

definition entered :: "nat \<Rightarrow> (nat \<Rightarrow> barrier_pc) \<Rightarrow> nat set" where
  "entered n pcs = {i. i < n \<and> pcs i \<in> {BWait, BDone}}"

definition barrier_inv ::
  "('m \<Rightarrow> string \<Rightarrow> 'x mc_value option) \<Rightarrow> nat \<Rightarrow> string \<Rightarrow> (nat \<Rightarrow> barrier_pc) \<times> 'm \<Rightarrow> bool" where
  "barrier_inv store n key s \<longleftrightarrow> (case s of (pcs, m) \<Rightarrow>
     (\<forall>i < n. 0 < i \<longrightarrow> pcs i \<noteq> BSet)
     \<and> (if pcs 0 = BSet then store m key = None \<and> entered n pcs = {}
        else store m key = Some (Text (to_string (card (entered n pcs)))))
     \<and> ((\<exists>i < n. pcs i = BDone) \<longrightarrow> card (entered n pcs) = n))"

lemma entered_upd: "i < n \<Longrightarrow> entered n (pcs(i := pc)) =
    (if pc \<in> {BWait, BDone} then insert i (entered n pcs) else entered n pcs - {i})"
  by (auto simp: entered_def)

lemma entered_card: "card (entered n pcs) \<le> n" "finite (entered n pcs)"
proof -
  have "entered n pcs \<subseteq> {0..<n}" by (auto simp: entered_def)
  then show "card (entered n pcs) \<le> n" "finite (entered n pcs)"
    using card_mono [of "{0..<n}"] finite_subset by fastforce+
qed

text \<open>One call: it does not fail, keeps the invariant, and the place of the server moves on only.\<close>

definition ahead :: "barrier_pc \<Rightarrow> nat" where
  "ahead pc = (case pc of BSet \<Rightarrow> 0 | BAdd \<Rightarrow> 1 | BWait \<Rightarrow> 2 | BDone \<Rightarrow> 3)"

lemma barrier_step_inv:
  assumes mc: "memcached mc store" and inv: "barrier_inv store n key (pcs, m)" and i: "i < n" and n: "n < 2 ^ 64"
  obtains pc m' where "barrier_step mc n key i (pcs, m) = Inr (pcs(i := pc), m')"
    "barrier_inv store n key (pcs(i := pc), m')" "ahead (pcs i) \<le> ahead pc"
    "responsive mc store \<Longrightarrow> pcs i = BSet \<Longrightarrow> pc = BAdd"
    "responsive mc store \<Longrightarrow> pcs 0 \<noteq> BSet \<Longrightarrow> pcs i = BAdd \<Longrightarrow> pc = BWait"
    "responsive mc store \<Longrightarrow> card (entered n pcs) = n \<Longrightarrow> pcs i = BWait \<Longrightarrow> pc = BDone"
proof -
  have nz: "pcs 0 = BSet \<Longrightarrow> store m key = None \<and> entered n pcs = {}"
    and st: "pcs 0 \<noteq> BSet \<Longrightarrow> store m key = Some (Text (to_string (card (entered n pcs))))"
    and pos: "\<And>j. j < n \<Longrightarrow> 0 < j \<Longrightarrow> pcs j \<noteq> BSet"
    and fin: "\<And>j. j < n \<Longrightarrow> pcs j = BDone \<Longrightarrow> card (entered n pcs) = n"
    using inv by (auto simp: barrier_inv_def split: if_splits)
  show thesis
  proof (cases "pcs i")
    case BSet
    then have i0: "i = 0" using pos i by (cases "i = 0") auto
    obtain ok m' where s: "mc_set mc key (Text ''0'') m = (ok, m')" by (cases "mc_set mc key (Text ''0'') m")
    let ?p = "pcs(0 := if ok then BAdd else BSet)"
    have e: "entered n ?p = {}" using nz BSet i0 i entered_upd [of 0 n pcs] by auto
    have "to_string 0 = ''0''" by (simp add: to_string.simps digit_def char_of_def bit_0)
    then have "if ?p 0 = BSet then store m' key = None else store m' key = Some (Text (to_string (card (entered n ?p))))"
      using memcached_set [OF mc s] nz BSet i0 e by simp
    moreover have "\<forall>j < n. 0 < j \<longrightarrow> ?p j \<noteq> BSet" using pos by simp
    moreover have "\<forall>j < n. ?p j \<noteq> BDone" using e unfolding entered_def by blast
    ultimately have "barrier_inv store n key (?p, m')" using e unfolding barrier_inv_def prod.case by metis
    moreover have "responsive mc store \<Longrightarrow> ok" by (rule responsiveD(1) [OF _ s])
    ultimately show thesis using that [of "if ok then BAdd else BSet" m'] s BSet i0
      by (auto simp: barrier_step_def ahead_def)
  next
    case BAdd
    obtain r m' where s: "mc_incr mc key m = (r, m')" by (cases "mc_incr mc key m")
    show thesis
    proof (cases r)
      case None
      have "barrier_inv store n key (pcs, m')"
        using inv memcached_incr(1) [OF mc s None] by (simp add: barrier_inv_def)
      moreover have "pcs(i := BAdd) = pcs" using BAdd by auto
      moreover have "\<not> responsive mc store" if "pcs 0 \<noteq> BSet"
        using responsiveD(3) [of mc store key m m'] st [OF that] s None by auto
      ultimately show thesis using that [of BAdd m'] s BAdd None by (auto simp: barrier_step_def)
    next
      case (Some c)
      have p0: "pcs 0 \<noteq> BSet" using memcached_incr(3) [OF mc s Some] nz by auto
      let ?k = "card (entered n pcs)"
      have c: "c = (?k + 1) mod 2 ^ 64" "store m' = (store m)(key \<mapsto> Text (to_string c))"
        using memcached_incr(2) [OF mc s Some st [OF p0]] by auto
      have notin: "i \<notin> entered n pcs" using BAdd by (auto simp: entered_def)
      then have k: "card (entered n (pcs(i := BWait))) = ?k + 1"
        using i entered_card(2) by (simp add: entered_upd)
      then have "?k + 1 < 2 ^ 64" using entered_card(1) [of n "pcs(i := BWait)"] n by simp
      then have "store m' key = Some (Text (to_string (card (entered n (pcs(i := BWait))))))" using c k by simp
      moreover have "j < n \<Longrightarrow> pcs j \<noteq> BDone" for j
        using fin [of j] k entered_card(1) [of n "pcs(i := BWait)"] by auto
      ultimately have "barrier_inv store n key (pcs(i := BWait), m')"
        using p0 pos i by (auto simp: barrier_inv_def)
      then show thesis using that [of BWait m'] s BAdd Some by (auto simp: barrier_step_def ahead_def)
    qed
  next
    case BWait
    then have p0: "pcs 0 \<noteq> BSet" using nz i by (auto simp: entered_def)
    obtain r m' where s: "mc_get mc key m = (r, m')" by (cases "mc_get mc key m")
    note g = memcached_get [OF mc s]
    show thesis
    proof (cases r)
      case None
      have "barrier_inv store n key (pcs, m')" using inv g(1) by (simp add: barrier_inv_def)
      moreover have "pcs(i := BWait) = pcs" using BWait by auto
      moreover have "\<not> responsive mc store"
        using responsiveD(2) [of mc store key m m'] st [OF p0] s None by auto
      ultimately show thesis using that [of BWait m'] s BWait None by (auto simp: barrier_step_def)
    next
      case (Some v)
      let ?k = "card (entered n pcs)"
      have v: "v = Text (to_string ?k)" using g(2) [OF Some] st [OF p0] by simp
      have k: "stoull (to_string ?k) = Inr ?k"
        using entered_card(1) [of n pcs] n by (intro read_to_string) simp
      let ?pc = "if ?k = n then BDone else BWait"
      have e: "entered n (pcs(i := ?pc)) = entered n pcs" using i BWait by (auto simp: entered_def)
      have "barrier_inv store n key (pcs(i := ?pc), m')"
        using g(1) st [OF p0] p0 pos i e by (auto simp: barrier_inv_def dest: fin)
      then show thesis using that [of ?pc m'] s BWait Some v k
        by (auto simp: barrier_step_def ahead_def as_text_def)
    qed
  next
    case BDone
    then have "pcs(i := BDone) = pcs" by auto
    then show thesis using that [of BDone m] BDone inv by (simp add: barrier_step_def)
  qed
qed

lemma barrier_step_answered:
  assumes "memcached mc store" "responsive mc store" "barrier_inv store n key (pcs, m)" "i < n" "n < 2 ^ 64"
  shows "\<exists>pc m'. barrier_step mc n key i (pcs, m) = Inr (pcs(i := pc), m') \<and> barrier_inv store n key (pcs(i := pc), m')
    \<and> ahead (pcs i) \<le> ahead pc \<and> (pcs i = BSet \<longrightarrow> pc = BAdd) \<and> (pcs 0 \<noteq> BSet \<longrightarrow> pcs i = BAdd \<longrightarrow> pc = BWait)
    \<and> (card (entered n pcs) = n \<longrightarrow> pcs i = BWait \<longrightarrow> pc = BDone)"
  by (rule barrier_step_inv [OF assms(1,3,4,5)]) (use assms(2) in blast)

lemma barrier_run_inv:
  assumes "memcached mc store" "n < 2 ^ 64" "barrier_inv store n key s" "set is \<subseteq> {0..<n}"
  obtains s' where "barrier_run mc n key is s = Inr s'" "barrier_inv store n key s'"
proof -
  have "\<exists>s'. barrier_run mc n key is s = Inr s' \<and> barrier_inv store n key s'
      \<and> (\<forall>j < n. j \<in> set is \<or> True \<longrightarrow> True)"
  proof (rule for_each_all [where good = "barrier_inv store n key" and P = "\<lambda>_. True", OF _ assms(3,4)])
    fix pcs m i assume "barrier_inv store n key (pcs, m)" "i < n"
    from barrier_step_inv [OF assms(1) this assms(2)]
    show "\<exists>pc m'. barrier_step mc n key i (pcs, m) = Inr (pcs(i := pc), m')
      \<and> barrier_inv store n key (pcs(i := pc), m') \<and> True" by metis
  qed
  then show thesis using that by blast
qed

lemma ahead_simps [simp]: "ahead BSet = 0" "ahead BAdd = 1" "ahead BWait = 2" "ahead BDone = 3"
  by (simp_all add: ahead_def)

lemma ahead_ge: "Suc 0 \<le> ahead pc \<longleftrightarrow> pc \<noteq> BSet" "2 \<le> ahead pc \<longleftrightarrow> pc \<in> {BWait, BDone}" "3 \<le> ahead pc \<longleftrightarrow> pc = BDone"
  by (cases pc; simp)+

lemma entered_all: "card (entered n pcs) = n \<longleftrightarrow> (\<forall>i < n. pcs i \<in> {BWait, BDone})"
proof
  assume c: "card (entered n pcs) = n"
  have e: "entered n pcs = {0..<n}"
  proof (rule card_subset_eq)
    show "entered n pcs \<subseteq> {0..<n}" unfolding entered_def by auto
    show "card (entered n pcs) = card {0..<n}" unfolding c by simp
  qed simp
  show "\<forall>i < n. pcs i \<in> {BWait, BDone}"
  proof (intro allI impI)
    fix i assume "i < n"
    then have "i \<in> entered n pcs" unfolding e by simp
    then show "pcs i \<in> {BWait, BDone}" by (simp add: entered_def)
  qed
next
  assume "\<forall>i < n. pcs i \<in> {BWait, BDone}"
  then have "entered n pcs = {0..<n}" by (auto simp: entered_def)
  then show "card (entered n pcs) = n" by simp
qed

text \<open>Three rounds in which each server makes a call.\<close>

lemma barrier_three_rounds:
  assumes mc: "memcached mc store" and resp: "responsive mc store" and n: "0 < n" "n < 2 ^ 64"
    and inv: "barrier_inv store n key s"
  shows "\<exists>s'. barrier_run mc n key ([0..<n] @ [0..<n] @ [0..<n]) s = Inr s' \<and> (\<forall>i < n. fst s' i = BDone)"
proof -
  let ?inv = "barrier_inv store n key"
  have set: "set [0..<n] \<subseteq> {0..<n}" by simp
  have "\<exists>s1. barrier_run mc n key [0..<n] s = Inr s1 \<and> ?inv s1
      \<and> (\<forall>j < n. j \<in> set [0..<n] \<or> 1 \<le> ahead (fst s j) \<longrightarrow> 1 \<le> ahead (fst s1 j))"
  proof (rule for_each_all [where good = ?inv and P = "\<lambda>pc. 1 \<le> ahead pc", OF _ inv set])
    fix pcs m i assume i: "?inv (pcs, m)" "i < n"
    obtain pc m' where p: "barrier_step mc n key i (pcs, m) = Inr (pcs(i := pc), m')" "?inv (pcs(i := pc), m')"
      "ahead (pcs i) \<le> ahead pc" "pcs i = BSet \<longrightarrow> pc = BAdd"
      using barrier_step_answered [OF mc resp i n(2)] by blast
    have "1 \<le> ahead pc" using p(3,4) by (cases "pcs i") auto
    then show "\<exists>pc m'. barrier_step mc n key i (pcs, m) = Inr (pcs(i := pc), m') \<and> ?inv (pcs(i := pc), m') \<and> 1 \<le> ahead pc"
      using p(1,2) by blast
  qed
  then obtain s1 where 1: "barrier_run mc n key [0..<n] s = Inr s1" "?inv s1" "\<forall>j < n. fst s1 j \<noteq> BSet"
    by (auto simp: ahead_ge)
  let ?g2 = "\<lambda>s. ?inv s \<and> fst s 0 \<noteq> BSet"
  have "\<exists>s2. barrier_run mc n key [0..<n] s1 = Inr s2 \<and> ?g2 s2
      \<and> (\<forall>j < n. j \<in> set [0..<n] \<or> 2 \<le> ahead (fst s1 j) \<longrightarrow> 2 \<le> ahead (fst s2 j))"
  proof (rule for_each_all [where good = ?g2 and P = "\<lambda>pc. 2 \<le> ahead pc", OF _ _ set])
    show "?g2 s1" using 1 n(1) by simp
  next
    fix pcs m i assume i: "?g2 (pcs, m)" "i < n"
    then have inv': "?inv (pcs, m)" and p0: "pcs 0 \<noteq> BSet" by simp_all
    obtain pc m' where p: "barrier_step mc n key i (pcs, m) = Inr (pcs(i := pc), m')" "?inv (pcs(i := pc), m')"
      "ahead (pcs i) \<le> ahead pc" "pcs i = BAdd \<longrightarrow> pc = BWait"
      using barrier_step_answered [OF mc resp inv' i(2) n(2)] p0 by blast
    have "pcs i \<noteq> BSet" using inv' p0 i(2) by (cases "i = 0") (auto simp: barrier_inv_def)
    then have "2 \<le> ahead pc" using p(3,4) by (cases "pcs i") auto
    moreover have "(pcs(i := pc)) 0 \<noteq> BSet" using p0 calculation by (auto simp: ahead_ge)
    ultimately show "\<exists>pc m'. barrier_step mc n key i (pcs, m) = Inr (pcs(i := pc), m') \<and> ?g2 (pcs(i := pc), m') \<and> 2 \<le> ahead pc"
      using p(1,2) by (auto simp del: fun_upd_apply)
  qed
  then obtain s2 where 2: "barrier_run mc n key [0..<n] s1 = Inr s2" "?inv s2" "\<forall>j < n. fst s2 j \<in> {BWait, BDone}"
    by (auto simp: ahead_ge)
  let ?g3 = "\<lambda>s. ?inv s \<and> card (entered n (fst s)) = n"
  have "\<exists>s3. barrier_run mc n key [0..<n] s2 = Inr s3 \<and> ?g3 s3
      \<and> (\<forall>j < n. j \<in> set [0..<n] \<or> 3 \<le> ahead (fst s2 j) \<longrightarrow> 3 \<le> ahead (fst s3 j))"
  proof (rule for_each_all [where good = ?g3 and P = "\<lambda>pc. 3 \<le> ahead pc", OF _ _ set])
    show "?g3 s2" using 2 entered_all by blast
  next
    fix pcs m i assume i: "?g3 (pcs, m)" "i < n"
    then have inv': "?inv (pcs, m)" and c: "card (entered n pcs) = n" by simp_all
    obtain pc m' where p: "barrier_step mc n key i (pcs, m) = Inr (pcs(i := pc), m')" "?inv (pcs(i := pc), m')"
      "ahead (pcs i) \<le> ahead pc" "pcs i = BWait \<longrightarrow> pc = BDone"
      using barrier_step_answered [OF mc resp inv' i(2) n(2)] c by blast
    have "pcs i \<in> {BWait, BDone}" using c i(2) by (simp add: entered_all)
    then have "pc = BDone" using p(3,4) by (auto simp: ahead_ge(3) [symmetric])
    moreover have "card (entered n (pcs(i := BDone))) = n" using c unfolding entered_all by simp
    ultimately show "\<exists>pc m'. barrier_step mc n key i (pcs, m) = Inr (pcs(i := pc), m') \<and> ?g3 (pcs(i := pc), m') \<and> 3 \<le> ahead pc"
      using p(1,2) by (auto simp del: fun_upd_apply)
  qed
  then obtain s3 where 3: "barrier_run mc n key [0..<n] s2 = Inr s3" "\<forall>j < n. fst s3 j = BDone"
    by (auto simp: ahead_ge)
  show ?thesis using 1(1) 2(1) 3 by (simp add: for_each_append)
qed

text \<open>A server whose calls \<^verbatim>\<open>barrier\<close> makes one after the other takes these steps.\<close>

lemma for_each_Cons_exists:
  "step i s = Inr s1 \<Longrightarrow> \<exists>j. for_each step (replicate j i) s1 = Inr s2 \<Longrightarrow> \<exists>j. for_each step (replicate j i) s = Inr s2"
  by (metis rbind_simps(2) replicate_Suc for_each.simps(2))

lemma memSet_steps:
  "memSet mc fuel key (Text ''0'') m = Inr m' \<Longrightarrow> pcs i = BSet \<Longrightarrow>
   \<exists>j. barrier_run mc n key (replicate j i) (pcs, m) = Inr (pcs(i := BAdd), m')"
proof (induction fuel arbitrary: m)
  case (Suc fuel)
  obtain ok m1 where s: "mc_set mc key (Text ''0'') m = (ok, m1)" by (cases "mc_set mc key (Text ''0'') m")
  show ?case
  proof (cases ok)
    case True
    then show ?thesis using Suc.prems s
      by (intro exI [of _ "Suc 0"]) (simp add: barrier_step_def del: fun_upd_apply)
  next
    case False
    have same: "pcs(i := BSet) = pcs" using Suc.prems(2) by auto
    have "barrier_step mc n key i (pcs, m) = Inr (pcs, m1)" using False s Suc.prems(2) same by (simp add: barrier_step_def)
    then show ?thesis by (rule for_each_Cons_exists) (use Suc False s in simp)
  qed
qed simp

lemma memFetchAndAdd_steps:
  "memFetchAndAdd mc fuel key m = Inr (r, m') \<Longrightarrow> pcs i = BAdd \<Longrightarrow>
   \<exists>j. barrier_run mc n key (replicate j i) (pcs, m) = Inr (pcs(i := BWait), m')"
proof (induction fuel arbitrary: m)
  case (Suc fuel)
  obtain c m1 where s: "mc_incr mc key m = (c, m1)" by (cases "mc_incr mc key m")
  show ?case
  proof (cases c)
    case (Some x)
    then show ?thesis using Suc.prems s
      by (intro exI [of _ "Suc 0"]) (simp add: barrier_step_def del: fun_upd_apply)
  next
    case None
    have same: "pcs(i := BAdd) = pcs" using Suc.prems(2) by auto
    have "barrier_step mc n key i (pcs, m) = Inr (pcs, m1)" using None s Suc.prems(2) same by (simp add: barrier_step_def)
    then show ?thesis by (rule for_each_Cons_exists) (use Suc None s in simp)
  qed
qed simp

lemma memGet_steps:
  "memGet mc fuel key m = Inr (v, m') \<Longrightarrow> pcs i = BWait \<Longrightarrow>
   \<exists>j m1. barrier_run mc n key (replicate j i) (pcs, m) = Inr (pcs, m1) \<and> mc_get mc key m1 = (Some v, m')"
proof (induction fuel arbitrary: m)
  case (Suc fuel)
  obtain c m1 where s: "mc_get mc key m = (c, m1)" by (cases "mc_get mc key m")
  show ?case
  proof (cases c)
    case (Some x)
    then show ?thesis using Suc.prems s by (intro exI [of _ 0]) simp
  next
    case None
    have same: "pcs(i := BWait) = pcs" using Suc.prems(2) by auto
    have st: "barrier_step mc n key i (pcs, m) = Inr (pcs, m1)" using None s Suc.prems(2) same by (simp add: barrier_step_def)
    have "memGet mc fuel key m1 = Inr (v, m')" using Suc.prems(1) s None by simp
    from Suc.IH [OF this Suc.prems(2)] obtain j m2 where
      "barrier_run mc n key (replicate j i) (pcs, m1) = Inr (pcs, m2)" and g: "mc_get mc key m2 = (Some v, m')" by blast
    then have "barrier_run mc n key (replicate (Suc j) i) (pcs, m) = Inr (pcs, m2)" using st by simp
    with g show ?thesis by blast
  qed
qed simp

lemma barrier_wait_steps:
  "barrier_wait mc fuel n key m = Inr m' \<Longrightarrow> pcs i = BWait \<Longrightarrow>
   \<exists>j. barrier_run mc n key (replicate j i) (pcs, m) = Inr (pcs(i := BDone), m')"
proof (induction fuel arbitrary: m)
  case (Suc fuel)
  then obtain v m1 t c where g: "memGet mc (Suc fuel) key m = Inr (v, m1)" "as_text v = Inr t" "stoull t = Inr c"
    "(if c = n then Inr m1 else barrier_wait mc fuel n key m1) = Inr m'"
    by (auto simp: rbind_Inr_iff simp del: memGet.simps)
  obtain j m2 where j: "barrier_run mc n key (replicate j i) (pcs, m) = Inr (pcs, m2)" "mc_get mc key m2 = (Some v, m1)"
    using memGet_steps [where pcs = pcs and i = i and n = n, OF g(1) Suc.prems(2)] by blast
  have st: "barrier_step mc n key i (pcs, m2) = Inr (pcs(i := if c = n then BDone else BWait), m1)"
    using j(2) g(2,3) Suc.prems(2) by (simp add: barrier_step_def)
  have "\<exists>k. barrier_run mc n key (replicate k i) (pcs, m2) = Inr (pcs(i := BDone), m')"
  proof (cases "c = n")
    case True
    then show ?thesis using st g(4) by (intro exI [of _ "Suc 0"]) simp
  next
    case False
    have same: "pcs(i := BWait) = pcs" using Suc.prems(2) by auto
    have st': "barrier_step mc n key i (pcs, m2) = Inr (pcs, m1)" using st False same by simp
    show ?thesis by (rule for_each_Cons_exists [where step = "barrier_step mc n key", OF st']) (use Suc.IH Suc.prems(2) g(4) False in \<open>simp del: fun_upd_apply\<close>)
  qed
  then obtain k where "barrier_run mc n key (replicate k i) (pcs, m2) = Inr (pcs(i := BDone), m')" by blast
  then have "barrier_run mc n key (replicate j i @ replicate k i) (pcs, m) = Inr (pcs(i := BDone), m')"
    using j(1) by (simp add: for_each_append)
  then show ?case by (metis replicate_add)
qed simp

lemma barrier_steps:
  assumes "barrier mc fuel i n k m = Inr m'" "pcs i = barrier_start i"
  shows "\<exists>j. barrier_run mc n (barrier_key k) (replicate j i) (pcs, m) = Inr (pcs(i := BDone), m')"
proof -
  let ?run = "\<lambda>j. barrier_run mc n (barrier_key k) (replicate j i)"
  obtain m1 r m2 where b: "(if i = 0 then memSet mc fuel (barrier_key k) (Text ''0'') m else Inr m) = Inr m1"
    "memFetchAndAdd mc fuel (barrier_key k) m1 = Inr (r, m2)" "barrier_wait mc fuel n (barrier_key k) m2 = Inr m'"
    using assms(1) unfolding barrier_def Let_def rbind_Inr_iff by auto
  have "\<exists>j. ?run j (pcs, m) = Inr (pcs(i := BAdd), m1)"
  proof (cases "i = 0")
    case True
    then show ?thesis using memSet_steps [of mc fuel "barrier_key k" m m1 pcs i n] b(1) assms(2) by (simp add: barrier_start_def)
  next
    case False
    then have "pcs(i := BAdd) = pcs" using assms(2) by (auto simp: barrier_start_def)
    then show ?thesis using b(1) False by (intro exI [of _ 0]) simp
  qed
  then obtain j1 where 1: "?run j1 (pcs, m) = Inr (pcs(i := BAdd), m1)" by blast
  obtain j2 where 2: "?run j2 (pcs(i := BAdd), m1) = Inr (pcs(i := BWait), m2)"
    using memFetchAndAdd_steps [OF b(2), of "pcs(i := BAdd)" i n] by auto
  obtain j3 where 3: "?run j3 (pcs(i := BWait), m2) = Inr (pcs(i := BDone), m')"
    using barrier_wait_steps [OF b(3), of "pcs(i := BWait)" i] by auto
  have "?run (j1 + (j2 + j3)) (pcs, m) = Inr (pcs(i := BDone), m')"
    using 1 2 3 by (simp add: replicate_add for_each_append)
  then show ?thesis by blast
qed


text \<open>A service on which the properties are tried: a map that answers always.\<close>

definition map_memc :: "('x, string \<Rightarrow> 'x mc_value option) memc" where
  "map_memc = \<lparr>mc_set = (\<lambda>k v m. (True, m(k \<mapsto> v))), mc_get = (\<lambda>k m. (m k, m)),
     mc_incr = (\<lambda>k m. case m k of
         Some (Text s) \<Rightarrow> if s \<noteq> [] \<and> list_all is_digit s
           then (Some ((digits_val s + 1) mod 2 ^ 64), m(k \<mapsto> Text (to_string ((digits_val s + 1) mod 2 ^ 64)))) else (None, m)
       | _ \<Rightarrow> (None, m))\<rparr>"

lemma map_memc_ok: "memcached map_memc (\<lambda>m. m)" "responsive map_memc (\<lambda>m. m)"
  using to_string_digits
  by (auto simp: memcached_def responsive_def map_memc_def list_all_iff split: option.split mc_value.split)


section \<open>The sum\<close>

definition sum_upto :: "(nat \<Rightarrow> u64) \<Rightarrow> nat \<Rightarrow> u64" where "sum_upto val j = sum_list (map val [0..<j])"

definition sum_inv ::
  "('m \<Rightarrow> string \<Rightarrow> 'x mc_value option) \<Rightarrow> nat \<Rightarrow> string \<Rightarrow> (nat \<Rightarrow> u64) \<Rightarrow> (nat \<Rightarrow> sum_pc) \<times> 'm \<Rightarrow> bool" where
  "sum_inv store n pre val s \<longleftrightarrow> (case s of (pcs, m) \<Rightarrow> \<forall>i < n.
     store m (pre @ to_string i) = (if pcs i = SSet then None else Some (Word (val i)))
     \<and> (\<forall>j ret. pcs i = SGet j ret \<longrightarrow> j < n \<and> ret = sum_upto val j)
     \<and> (\<forall>ret. pcs i = SDone ret \<longrightarrow> ret = sum_upto val n))"

text \<open>How far a server is.\<close>

definition rank :: "nat \<Rightarrow> sum_pc \<Rightarrow> nat" where
  "rank n pc = (case pc of SSet \<Rightarrow> 0 | SGet j _ \<Rightarrow> Suc j | SDone _ \<Rightarrow> Suc n)"

lemma sum_upto_Suc: "sum_upto val (Suc j) = sum_upto val j + val j"
  by (simp add: sum_upto_def)

lemma sum_inv_move:
  assumes "sum_inv store n pre val (pcs, m)" "store m' = store m" "pcs i \<noteq> SSet" "pc \<noteq> SSet"
    "\<And>j ret. pc = SGet j ret \<Longrightarrow> j < n \<and> ret = sum_upto val j" "\<And>ret. pc = SDone ret \<Longrightarrow> ret = sum_upto val n"
  shows "sum_inv store n pre val (pcs(i := pc), m')"
  using assms by (auto simp: sum_inv_def)

lemma sum_step_inv:
  assumes mc: "memcached mc store" and inv: "sum_inv store n pre val (pcs, m)" and i: "i < n"
  shows "\<exists>pc m'. sum_step mc n pre val i (pcs, m) = Inr (pcs(i := pc), m') \<and> sum_inv store n pre val (pcs(i := pc), m')
    \<and> rank n (pcs i) \<le> rank n pc
    \<and> (responsive mc store \<longrightarrow> (\<forall>j < n. k \<le> rank n (pcs j)) \<longrightarrow> k \<le> n \<longrightarrow> Suc k \<le> rank n pc)"
proof -
  have st: "\<And>j. j < n \<Longrightarrow> store m (pre @ to_string j) = (if pcs j = SSet then None else Some (Word (val j)))"
    and get: "\<And>j t ret. j < n \<Longrightarrow> pcs j = SGet t ret \<Longrightarrow> t < n \<and> ret = sum_upto val t"
    and fin: "\<And>j ret. j < n \<Longrightarrow> pcs j = SDone ret \<Longrightarrow> ret = sum_upto val n"
    using inv by (auto simp: sum_inv_def)
  show ?thesis
  proof (cases "pcs i")
    case SSet
    obtain ok m' where s: "mc_set mc (pre @ to_string i) (Word (val i)) m = (ok, m')"
      by (cases "mc_set mc (pre @ to_string i) (Word (val i)) m")
    let ?pc = "if \<not> ok then SSet else SGet 0 0"
    have "sum_inv store n pre val (pcs(i := ?pc), m')"
      using memcached_set [OF mc s] SSet i st get fin by (auto simp: sum_inv_def sum_upto_def to_string_inject)
    moreover have "responsive mc store \<Longrightarrow> ok" by (rule responsiveD(1) [OF _ s])
    moreover have "\<forall>j < n. k \<le> rank n (pcs j) \<Longrightarrow> k = 0" using SSet i by (auto simp: rank_def)
    ultimately show ?thesis using s SSet i by (intro exI [of _ ?pc] exI [of _ m']) (auto simp: sum_step_def rank_def)
  next
    case (SGet t ret)
    obtain r m' where s: "mc_get mc (pre @ to_string t) m = (r, m')" by (cases "mc_get mc (pre @ to_string t) m")
    note g = memcached_get [OF mc s]
    note t = get [OF i SGet]
    show ?thesis
    proof (cases r)
      case None
      have same: "pcs(i := SGet t ret) = pcs" using SGet by auto
      have "sum_inv store n pre val (pcs, m')" using inv g(1) by (simp add: sum_inv_def)
      moreover have "k = 0" if "responsive mc store" "\<forall>j < n. k \<le> rank n (pcs j)"
        using responsiveD(2) [OF that(1)] s None st [of t] t that(2) by (auto simp: rank_def split: if_splits)
      ultimately show ?thesis using s SGet None same
        by (intro exI [of _ "SGet t ret"] exI [of _ m']) (auto simp: sum_step_def rank_def)
    next
      case (Some v)
      have v: "v = Word (val t)" using g(2) [OF Some] st [of t] t by (simp split: if_splits)
      let ?pc = "if Suc t < n then SGet (Suc t) (ret + val t) else SDone (ret + val t)"
      obtain pc where pc: "pc = ?pc" by blast
      have "rank n pc = Suc (Suc t)" using t by (auto simp: rank_def pc)
      moreover have "sum_inv store n pre val (pcs(i := pc), m')"
      proof (rule sum_inv_move [OF inv g(1)])
        show "ret' = sum_upto val n" if "pc = SDone ret'" for ret'
        proof -
          have "n = Suc t" "ret' = ret + val t" using that t by (simp_all add: pc split: if_splits)
          then show ?thesis using t by (simp add: sum_upto_Suc)
        qed
      qed (use SGet t in \<open>auto simp: sum_upto_Suc pc split: if_splits\<close>)
      moreover have "(\<forall>j < n. k \<le> rank n (pcs j)) \<longrightarrow> k \<le> Suc t" using SGet i by (auto simp: rank_def)
      moreover have "sum_step mc n pre val i (pcs, m) = Inr (pcs(i := pc), m')"
        using s SGet Some v by (simp add: sum_step_def as_word_def pc)
      moreover have "rank n (pcs i) = Suc t" using SGet by (simp add: rank_def)
      ultimately show ?thesis by auto
    qed
  next
    case (SDone ret)
    then have "pcs(i := SDone ret) = pcs" by auto
    then show ?thesis using SDone inv
      by (intro exI [of _ "SDone ret"] exI [of _ m]) (auto simp: sum_step_def rank_def)
  qed
qed

lemma sum_rounds:
  assumes mc: "memcached mc store" "responsive mc store" and inv: "sum_inv store n pre val s"
  shows "k \<le> Suc n \<Longrightarrow> \<exists>s'. sum_run mc n pre val (concat (replicate k [0..<n])) s = Inr s' \<and> sum_inv store n pre val s'
    \<and> (\<forall>j < n. k \<le> rank n (fst s' j))"
proof (induction k)
  case (Suc k)
  then obtain s1 where 1: "sum_run mc n pre val (concat (replicate k [0..<n])) s = Inr s1" "sum_inv store n pre val s1"
    "\<forall>j < n. k \<le> rank n (fst s1 j)" by auto
  let ?good = "\<lambda>s. sum_inv store n pre val s \<and> (\<forall>j < n. k \<le> rank n (fst s j))"
  have "\<exists>s2. sum_run mc n pre val [0..<n] s1 = Inr s2 \<and> ?good s2
      \<and> (\<forall>j < n. j \<in> set [0..<n] \<or> Suc k \<le> rank n (fst s1 j) \<longrightarrow> Suc k \<le> rank n (fst s2 j))"
  proof (rule for_each_all [where good = ?good and P = "\<lambda>pc. Suc k \<le> rank n pc"])
    fix pcs m i assume g: "?good (pcs, m)" "i < n"
    then have inv': "sum_inv store n pre val (pcs, m)" and r: "\<forall>j < n. k \<le> rank n (pcs j)" by simp_all
    obtain pc m' where p: "sum_step mc n pre val i (pcs, m) = Inr (pcs(i := pc), m')"
      "sum_inv store n pre val (pcs(i := pc), m')" "Suc k \<le> rank n pc"
      using sum_step_inv [OF mc(1) inv' g(2), of k] mc(2) r Suc.prems by auto
    moreover have "\<forall>j < n. k \<le> rank n ((pcs(i := pc)) j)" using r p(3) by simp
    ultimately show "\<exists>pc m'. sum_step mc n pre val i (pcs, m) = Inr (pcs(i := pc), m')
        \<and> ?good (pcs(i := pc), m') \<and> Suc k \<le> rank n pc" by (metis fst_conv)
  qed (use 1 in simp_all)
  then obtain s2 where "sum_run mc n pre val [0..<n] s1 = Inr s2" "sum_inv store n pre val s2"
    "\<forall>j < n. Suc k \<le> rank n (fst s2 j)" by auto
  moreover have "concat (replicate (Suc k) [0..<n]) = concat (replicate k [0..<n]) @ [0..<n]"
    by (simp add: replicate_append_same [symmetric])
  ultimately show ?case using 1(1) by (simp add: for_each_append del: replicate.simps)
qed (use inv in simp)

text \<open>(C40) The sum: when no server has yet written under the keys of this sum, then however the calls
  interleave and whichever are not answered, every server that is through has the sum of what all
  servers gave, also of those that come late; and on a service that answers all are through when each
  has made \<open>n + 1\<close> more calls.\<close>

theorem sum_correct:
  assumes "memcached mc store" "\<forall>i < n. store m (sum_prefix k @ to_string i) = None" "set sched \<subseteq> {0..<n}"
  shows "\<exists>pcs m'. sum_run mc n (sum_prefix k) val sched (\<lambda>_. SSet, m) = Inr (pcs, m')
    \<and> (\<forall>i < n. \<forall>r. pcs i = SDone r \<longrightarrow> r = sum_list (map val [0..<n]))
    \<and> (responsive mc store \<longrightarrow> (\<exists>s. sum_run mc n (sum_prefix k) val (concat (replicate (Suc n) [0..<n])) (pcs, m') = Inr s
        \<and> (\<forall>i < n. fst s i = SDone (sum_list (map val [0..<n])))))"
proof -
  let ?inv = "sum_inv store n (sum_prefix k) val"
  have "?inv (\<lambda>_. SSet, m)" using assms(2) by (simp add: sum_inv_def)
  then have "\<exists>s'. sum_run mc n (sum_prefix k) val sched (\<lambda>_. SSet, m) = Inr s' \<and> ?inv s' \<and> (\<forall>j < n. j \<in> set sched \<or> True \<longrightarrow> True)"
  proof (rule for_each_all [where good = ?inv and P = "\<lambda>_. True", rotated])
    show "\<exists>pc m'. sum_step mc n (sum_prefix k) val i (pcs, m) = Inr (pcs(i := pc), m') \<and> ?inv (pcs(i := pc), m') \<and> True"
      if "?inv (pcs, m)" "i < n" for pcs m i
      using sum_step_inv [OF assms(1) that, of 0] by blast
  qed (use assms(3) in simp)
  then obtain pcs m' where s: "sum_run mc n (sum_prefix k) val sched (\<lambda>_. SSet, m) = Inr (pcs, m')" "?inv (pcs, m')"
    by auto
  have all: "\<exists>s. sum_run mc n (sum_prefix k) val (concat (replicate (Suc n) [0..<n])) (pcs, m') = Inr s
      \<and> (\<forall>i < n. fst s i = SDone (sum_list (map val [0..<n])))" if r: "responsive mc store"
  proof -
    obtain qs l where q: "sum_run mc n (sum_prefix k) val (concat (replicate (Suc n) [0..<n])) (pcs, m') = Inr (qs, l)"
      "?inv (qs, l)" "\<forall>j < n. Suc n \<le> rank n (qs j)"
      using sum_rounds [OF assms(1) r s(2), of "Suc n"] by auto
    have "qs i = SDone (sum_list (map val [0..<n]))" if "i < n" for i
    proof (cases "qs i")
      case (SGet j ret)
      then have "j < n" using q(2) that by (auto simp: sum_inv_def)
      then show ?thesis using q(3) that SGet by (force simp: rank_def)
    next
      case (SDone ret)
      then show ?thesis using q(2) that by (auto simp: sum_inv_def sum_upto_def)
    qed (use q(3) that in \<open>force simp: rank_def\<close>)
    with q(1) show ?thesis by auto
  qed
  have "\<forall>i < n. \<forall>r. pcs i = SDone r \<longrightarrow> r = sum_list (map val [0..<n])"
    using s(2) by (auto simp: sum_inv_def sum_upto_def)
  with s(1) all show ?thesis by blast
qed

theorem sum_correct_witness:
  "\<exists>pcs m s. sum_run map_memc 3 (sum_prefix (dsm_sum_key 0)) of_nat [2, 2, 0, 2] (\<lambda>_. SSet, Map.empty :: string \<Rightarrow> unit mc_value option) = Inr (pcs, m)
    \<and> sum_run map_memc 3 (sum_prefix (dsm_sum_key 0)) of_nat (concat (replicate (Suc 3) [0..<3])) (pcs, m) = Inr s
    \<and> fst s 2 = SDone 3"
proof -
  have sub: "set [2, 2, 0, 2] \<subseteq> {0..<3 :: nat}" by simp
  have fresh: "\<forall>i < 3. Map.empty (sum_prefix (dsm_sum_key 0) @ to_string i) = (None :: unit mc_value option)" by simp
  obtain pcs m s where "sum_run map_memc 3 (sum_prefix (dsm_sum_key 0)) of_nat [2, 2, 0, 2]
      (\<lambda>_. SSet, Map.empty :: string \<Rightarrow> unit mc_value option) = Inr (pcs, m)"
    "sum_run map_memc 3 (sum_prefix (dsm_sum_key 0)) of_nat (concat (replicate (Suc 3) [0..<3])) (pcs, m) = Inr s"
    "\<forall>i < 3. fst s i = SDone (sum_list (map of_nat [0..<3]))"
    using sum_correct [where m = Map.empty and k = "dsm_sum_key 0" and val = of_nat, OF map_memc_ok(1) fresh sub]
      map_memc_ok(2) by blast
  moreover have "sum_list (map of_nat [0..<3]) = (3 :: u64)" by (simp add: numeral_3_eq_3)
  ultimately show ?thesis by (intro exI [of _ pcs] exI [of _ m] exI [of _ s]) simp
qed

text \<open>The keys of different sums: in a cluster of at most ten servers the keys that the servers write in
  different calls of \<^verbatim>\<open>DSM::sum\<close> all differ, so that each call finds its keys unused; with eleven
  servers the last one writes in call 1 under the key that the first one writes under in call 11.\<close>

theorem sum_keys_distinct:
  "(i < 10 \<longrightarrow> j < 10 \<longrightarrow> sum_prefix (dsm_sum_key c) @ to_string i = sum_prefix (dsm_sum_key d) @ to_string j
      \<longrightarrow> c = d \<and> i = j)
    \<and> sum_prefix (dsm_sum_key 1) @ to_string 10 = sum_prefix (dsm_sum_key 11) @ to_string 0"
proof (intro conjI impI)
  have one: "to_string i = [digit i]" if "i < 10" for i using that by (simp add: to_string.simps)
  assume a: "i < 10" "j < 10" "sum_prefix (dsm_sum_key c) @ to_string i = sum_prefix (dsm_sum_key d) @ to_string j"
  then have "to_string c = to_string d" "to_string i = to_string j"
    by (simp_all add: one sum_prefix_def dsm_sum_key_def)
  then show "c = d" "i = j" by (simp_all add: to_string_inject)
next
  show "sum_prefix (dsm_sum_key 1) @ to_string 10 = sum_prefix (dsm_sum_key 11) @ to_string 0"
    by (simp add: sum_prefix_def dsm_sum_key_def to_string.simps [of 10] to_string.simps [of 11]
        to_string.simps [of 1] to_string.simps [of 0] to_string.simps [of "Suc 0"])
qed

theorem sum_keys_distinct_witness:
  "sum_prefix (dsm_sum_key 5) @ to_string 7 \<noteq> sum_prefix (dsm_sum_key 57) @ to_string 7"
  using sum_keys_distinct [of 7 7 5 57] by auto

end
