(* ===== verification/ClusterClaims.thy ===== *)
theory ClusterClaims
  imports ExchangeProps KeeperClaims
begin

text \<open>
  A cluster that connects: every interleaving of the servers' calls of memcached. The invariant says what
  a server has published and connected; nobody waits for ever, since all go through the servers in the
  same order.
\<close>

section \<open>Keys\<close>

lemma digits_before_dash:
  assumes "xs @ CHR ''-'' # ys = xs' @ CHR ''-'' # ys'" "CHR ''-'' \<notin> set xs" "CHR ''-'' \<notin> set xs'"
  shows "xs = xs' \<and> ys = ys'"
  using assms
proof (induction xs arbitrary: xs')
  case Nil
  then show ?case by (cases xs') auto
next
  case (Cons x xs)
  then show ?case by (cases xs') auto
qed

lemma dash_no_digit: "CHR ''-'' \<notin> set (to_string n)"
proof
  assume "CHR ''-'' \<in> set (to_string n)"
  then have "is_digit CHR ''-''" using to_string_digits(1) by blast
  then show False by (simp add: is_digit_def)
qed

lemma setKey_inject:
  assumes "setKey me r = setKey me' r'"
  shows "me = me' \<and> r = r'"
proof -
  have "to_string (unat me) @ CHR ''-'' # to_string r = to_string (unat me') @ CHR ''-'' # to_string r'"
    using assms by (simp add: setKey_def)
  from digits_before_dash [OF this dash_no_digit dash_no_digit] show ?thesis by (simp add: to_string_inject word_unat_eq_iff)
qed

lemma getKey_setKey: "unat me = r' \<Longrightarrow> unat me' = r \<Longrightarrow> getKey me r = setKey me' r'"
  by (simp add: getKey_def setKey_def)

section \<open>A cluster that connects\<close>

text \<open>What holds of server \<open>i\<close> of \<open>n\<close>, whose keeper was \<open>K i\<close> at the start.\<close>

definition conn_inv ::
  "('m \<Rightarrow> string \<Rightarrow> ExchangeMeta mc_value option) \<Rightarrow> ('d \<Rightarrow> u32 \<Rightarrow> qp_attr) \<Rightarrow> nat \<Rightarrow> (nat \<Rightarrow> 'd keeper) \<Rightarrow> 'm \<Rightarrow> nat
    \<Rightarrow> 'd conn_state \<Rightarrow> bool" where
  "conn_inv store st n K m i s \<longleftrightarrow> (case s of (ks, pub, kp) \<Rightarrow>
     kp_thCon kp = kp_thCon (K i) \<and> kp_dirCon kp = kp_dirCon (K i) \<and> kp_myNodeID kp = of_nat i \<and> local_meta kp
     \<and> length (kp_remoteCon kp) = n
     \<and> sorted ks \<and> distinct ks \<and> set ks \<subseteq> {0..<n} - {i} \<and> (pub \<longrightarrow> ks \<noteq> [])
     \<and> (\<forall>j < n. j \<noteq> i \<longrightarrow> store m (setKey (of_nat i) j)
          = (if j \<notin> set ks \<or> pub \<and> j = hd ks then Some (Blob (publication (K i) j)) else None))
     \<and> (\<forall>j < n. j \<noteq> i \<longrightarrow> j \<notin> set ks \<longrightarrow> linked st kp (K j) i j \<and> knows kp (K j) j)
     \<and> (\<forall>j < n. j = i \<or> j \<in> set ks \<longrightarrow> unconnected st kp j))"

lemma publication_cong:
  "kp_thCon X = kp_thCon Y \<Longrightarrow> kp_dirCon X = kp_dirCon Y \<Longrightarrow> publication X r = publication Y r"
  by (simp add: publication_def app_qp_def dir_qp_def)

lemma towards_cong: "kp_thCon X = kp_thCon Y \<Longrightarrow> kp_dirCon X = kp_dirCon Y \<Longrightarrow> towards X r = towards Y r"
  by (simp add: towards_def app_qp_def dir_qp_def)

lemma towards_disjoint:
  assumes "shaped m X" "r < m" "r' < m" "r \<noteq> r'" "n \<in> towards X r"
  shows "n \<notin> towards X r'"
proof
  assume "n \<in> towards X r'"
  with assms(5) obtain k i k' i' where ki: "k < MAX_APP_THREAD" "i < NR_DIRECTORY" "k' < MAX_APP_THREAD" "i' < NR_DIRECTORY"
    and n: "n = qp_num (app_qp X k i r) \<or> n = qp_num (dir_qp X i k r)" "n = qp_num (app_qp X k' i' r') \<or> n = qp_num (dir_qp X i' k' r')"
    unfolding towards_def by blast
  from n show False
    using app_qp_inj [OF assms(1) ki(1,2) assms(2) ki(3,4) assms(3)] dir_qp_inj [OF assms(1) ki(1,2) assms(2) ki(3,4) assms(3)]
      app_dir_qp [OF assms(1) ki(1,2) assms(2) ki(3,4) assms(3)] app_dir_qp [OF assms(1) ki(3,4) assms(3) ki(1,2) assms(2)]
      assms(4) by metis
qed

text \<open>Links and knowledge are not touched by what happens to the queue pairs of another server.\<close>

lemma linked_kept:
  assumes "linked st X Y x y" "kp_thCon X' = kp_thCon X" "kp_dirCon X' = kp_dirCon X"
    "\<And>n. n \<in> towards X y \<Longrightarrow> st (kp_dev X') n = st (kp_dev X) n"
  shows "linked st X' Y x y"
proof -
  have "st (kp_dev X') (qp_num (app_qp X k i y)) = st (kp_dev X) (qp_num (app_qp X k i y))"
    "st (kp_dev X') (qp_num (dir_qp X i k y)) = st (kp_dev X) (qp_num (dir_qp X i k y))"
    if "k < MAX_APP_THREAD" "i < NR_DIRECTORY" for k i
    by (rule assms(4), use that in \<open>unfold towards_def, blast\<close>)+
  then show ?thesis using assms(1-3) by (simp add: linked_def app_qp_def dir_qp_def)
qed

lemma unconnected_kept:
  assumes "unconnected st X y" "kp_thCon X' = kp_thCon X" "kp_dirCon X' = kp_dirCon X"
    "\<And>n. n \<in> towards X y \<Longrightarrow> st (kp_dev X') n = st (kp_dev X) n"
  shows "unconnected st X' y"
  using assms by (simp add: unconnected_def towards_cong [OF assms(2,3)])

lemma knows_cong:
  "kp_remoteCon X' ! y = kp_remoteCon X ! y \<Longrightarrow> knows X Y y \<Longrightarrow> knows X' Y y"
  by (simp add: knows_def)

lemma local_meta_published: "local_meta (X\<lparr>kp_meta := publication X r\<rparr>)"
  by (simp add: local_meta_def publication_def app_qp_def dir_qp_def)

lemma local_meta_cong:
  "kp_thCon X' = kp_thCon X \<Longrightarrow> kp_dirCon X' = kp_dirCon X \<Longrightarrow> kp_meta X' = kp_meta X \<Longrightarrow> local_meta X' = local_meta X"
  by (simp add: local_meta_def publication_cong [of X' X])

text \<open>What a server has published.\<close>

definition published :: "'d conn_state \<Rightarrow> nat \<Rightarrow> bool" where
  "published s j \<longleftrightarrow> (case s of (ks, pub, kp) \<Rightarrow> j \<notin> set ks \<or> pub \<and> j = hd ks)"

text \<open>How far it is.\<close>

definition conn_rank :: "nat \<Rightarrow> 'd conn_state \<Rightarrow> nat" where
  "conn_rank n s = (case s of (ks, pub, kp) \<Rightarrow> 2 * (n - length ks) + (if pub then 1 else 0))"

lemma conn_inv_store:
  assumes "conn_inv store st n K m i s" "\<And>j. j < n \<Longrightarrow> store m' (setKey (of_nat i) j) = store m (setKey (of_nat i) j)"
  shows "conn_inv store st n K m' i s"
  using assms by (simp add: conn_inv_def split: prod.splits)

lemma conn_inv_length: "conn_inv store st n K m i (ks, pub, kp) \<Longrightarrow> i < n \<Longrightarrow> length ks < n"
proof -
  assume a: "conn_inv store st n K m i (ks, pub, kp)" "i < n"
  then have "length ks = card (set ks)" "set ks \<subseteq> {0..<n} - {i}" by (simp_all add: conn_inv_def distinct_card)
  then have "length ks \<le> card ({0..<n} - {i})" by (simp add: card_mono)
  then show ?thesis using a(2) by simp
qed

lemma u16_eq: "i < 2 ^ 16 \<Longrightarrow> j < 2 ^ 16 \<Longrightarrow> (of_nat i :: u16) = of_nat j \<longleftrightarrow> i = j"
  by (simp add: word_of_nat_eq_iff take_bit_nat_eq_self)

lemma unat_u16: "i < 2 ^ 16 \<Longrightarrow> unat (of_nat i :: u16) = i"
  by (simp add: unat_of_nat take_bit_nat_eq_self)

lemma conn_publish:
  assumes mc: "memcached mc store" and shape: "shaped n (K i)" and n: "n \<le> 2 ^ 16"
    and inv: "conn_inv store st n K m i (k # ks, False, kp)"
  shows "\<exists>ok kp' m'. conn_next mc env (k # ks, False, kp) m = Inr ((k # ks, ok, kp'), m')
    \<and> conn_inv store st n K m' i (k # ks, ok, kp')
    \<and> (\<forall>key. key \<noteq> setKey (of_nat i) k \<longrightarrow> store m' key = store m key) \<and> (responsive mc store \<longrightarrow> ok)"
proof -
  have f: "kp_thCon kp = kp_thCon (K i)" "kp_dirCon kp = kp_dirCon (K i)" "kp_myNodeID kp = of_nat i" "local_meta kp"
    "k < n" "k \<noteq> i" using inv by (simp_all add: conn_inv_def)
  then have "shaped n kp" using shape by simp
  note set = setDataToRemote_ok [OF this f(4,5)]
  let ?kp = "kp\<lparr>kp_meta := publication kp k\<rparr>"
  have pub: "publication kp k = publication (K i) k" by (rule publication_cong [OF f(1,2)])
  obtain ok m' where s: "mc_set mc (setKey (of_nat i) k) (Blob (publication (K i) k)) m = (ok, m')" by force
  note st' = memcached_set [OF mc s]
  have kept: "linked st ?kp (K j) i j = linked st kp (K j) i j" "knows ?kp (K j) j = knows kp (K j) j"
    "unconnected st ?kp j = unconnected st kp j" for j
    by (auto simp: linked_def knows_def unconnected_def towards_def app_qp_def dir_qp_def)
  have "conn_inv store st n K m' i (k # ks, ok, ?kp)"
    using inv st' local_meta_published [of kp k]
    by (auto simp: conn_inv_def kept dest: setKey_inject)
  moreover have "conn_next mc env (k # ks, False, kp) m = Inr ((k # ks, ok, ?kp), m')"
    using set s f(3) pub by simp
  ultimately show ?thesis using st' responsiveD(1) [OF _ s] by (intro exI [of _ ok] exI [of _ ?kp] exI [of _ m']) auto
qed

lemma conn_fetch:
  assumes mc: "memcached mc store" and mod: "modifies_qps (ve_modify env) st" and ah: "makes_handles env st"
    and shape: "shaped n (K i)" "shaped n (K k)" and n: "n \<le> 2 ^ 16" and i: "i < n"
    and inv: "conn_inv store st n K m i (k # ks, True, kp)" and inv_k: "conn_inv store st n K m k s"
  shows "\<exists>pc m'. conn_next mc env (k # ks, True, kp) m = Inr (pc, m') \<and> conn_inv store st n K m' i pc \<and> store m' = store m
    \<and> (pc = (k # ks, True, kp) \<or> (\<exists>kp'. pc = (ks, False, kp')))
    \<and> (responsive mc store \<longrightarrow> published s i \<longrightarrow> (\<exists>kp'. pc = (ks, False, kp')))"
proof -
  have f: "kp_thCon kp = kp_thCon (K i)" "kp_dirCon kp = kp_dirCon (K i)" "kp_myNodeID kp = of_nat i" "local_meta kp"
    "length (kp_remoteCon kp) = n" "k < n" "k \<noteq> i" "unconnected st kp k" "k \<notin> set ks" using inv by (auto simp: conn_inv_def)
  have sh: "shaped n kp" using shape(1) f by simp
  have key: "getKey (kp_myNodeID kp) k = setKey (of_nat k) i"
    unfolding f(3) by (rule getKey_setKey) (use i f(6) n in \<open>simp_all add: unat_u16\<close>)
  have there: "store m (setKey (of_nat k) i) = (if published s i then Some (Blob (publication (K k) i)) else None)"
    using inv_k f(7) i by (auto simp: conn_inv_def published_def split: prod.splits)
  obtain r m' where s: "mc_get mc (setKey (of_nat k) i) m = (r, m')" by force
  note g = memcached_get [OF mc s]
  show ?thesis
  proof (cases r)
    case None
    have "\<not> (responsive mc store \<and> published s i)"
      using responsiveD(2) [of mc store "setKey (of_nat k) i" m m'] s None there by auto
    moreover have "conn_inv store st n K m' i (k # ks, True, kp)" by (rule conn_inv_store [OF inv]) (simp add: g(1))
    ultimately show ?thesis using s None key g(1) by auto
  next
    case (Some v)
    have v: "v = Blob (publication (K k) i)" using g(2) [OF Some] there by (simp split: if_splits)
    obtain kp' where X: "setDataFromRemote env k (publication (K k) i) kp = Inr kp'"
      "kp_thCon kp' = kp_thCon kp" "kp_dirCon kp' = kp_dirCon kp" "kp_myNodeID kp' = kp_myNodeID kp" "kp_meta kp' = kp_meta kp"
      "length (kp_remoteCon kp') = n" "\<forall>z. z \<noteq> k \<longrightarrow> kp_remoteCon kp' ! z = kp_remoteCon kp ! z"
      "linked st kp' (K k) i k" "knows kp' (K k) k" "\<forall>z. z \<notin> towards kp k \<longrightarrow> st (kp_dev kp') z = st (kp_dev kp) z"
      using setDataFromRemote_ok [OF mod ah sh shape(2) i f(6) f(5) f(8)] by blast
    have same: "st (kp_dev kp') z = st (kp_dev kp) z" if "j < n" "j \<noteq> k" "z \<in> towards kp j" for j z
      using X(10) towards_disjoint [OF sh that(1) f(6) that(2,3)] by blast
    have l: "linked st kp' (K j) i j" if "linked st kp (K j) i j" "j < n" "j \<noteq> k" for j
      by (rule linked_kept [OF that(1) X(2,3)]) (rule same [OF that(2,3)])
    have u: "unconnected st kp' j" if "unconnected st kp j" "j < n" "j \<noteq> k" for j
      by (rule unconnected_kept [OF that(1) X(2,3)]) (rule same [OF that(2,3)])
    have kn: "knows kp' (K j) j" if "knows kp (K j) j" "j \<noteq> k" for j
      by (rule knows_cong [OF _ that(1)]) (use X(7) that(2) in blast)
    have "linked st kp' (K j) i j \<and> knows kp' (K j) j" if "j < n" "j \<noteq> i" "j \<notin> set ks" for j
    proof (cases "j = k")
      case True
      then show ?thesis using X(8,9) by simp
    next
      case False
      then have "linked st kp (K j) i j" "knows kp (K j) j" using inv that by (simp_all add: conn_inv_def)
      then show ?thesis using l kn that(1) False by blast
    qed
    moreover have "unconnected st kp' j" if "j < n" "j = i \<or> j \<in> set ks" for j
    proof (rule u [OF _ that(1)])
      show "unconnected st kp j" using inv that by (auto simp: conn_inv_def)
      show "j \<noteq> k" using that(2) f(7,9) by auto
    qed
    ultimately have "conn_inv store st n K m' i (ks, False, kp')"
      using inv X(2-6) g(1) local_meta_cong [OF X(2,3,5)] by (auto simp: conn_inv_def)
    moreover have "conn_next mc env (k # ks, True, kp) m = Inr ((ks, False, kp'), m')"
      using s Some key v X(1) by (simp add: as_blob_def)
    ultimately show ?thesis using g(1) by auto
  qed
qed

text \<open>One call of any server.\<close>

lemma conn_step_inv:
  assumes mc: "memcached mc store" and mod: "modifies_qps (ve_modify env) st" and ah: "makes_handles env st"
    and shape: "\<And>j. j < n \<Longrightarrow> shaped n (K j)" and n: "n \<le> 2 ^ 16" and i: "i < n"
    and inv: "\<And>j. j < n \<Longrightarrow> conn_inv store st n K m j (pcs j)"
  shows "\<exists>pc m'. conn_step mc env i (pcs, m) = Inr (pcs(i := pc), m')
    \<and> (\<forall>j < n. conn_inv store st n K m' j ((pcs(i := pc)) j))
    \<and> conn_rank n (pcs i) \<le> conn_rank n pc \<and> (\<forall>j. published (pcs i) j \<longrightarrow> published pc j)
    \<and> (responsive mc store \<longrightarrow> fst (pcs i) \<noteq> [] \<longrightarrow> (fst (snd (pcs i)) \<longrightarrow> published (pcs (hd (fst (pcs i)))) i) \<longrightarrow>
         conn_rank n (pcs i) < conn_rank n pc)"
proof -
  obtain ks pub kp where p: "pcs i = (ks, pub, kp)" by (cases "pcs i")
  have invi: "conn_inv store st n K m i (ks, pub, kp)" using inv [OF i] p by simp
  show ?thesis
  proof (cases ks)
    case Nil
    then have "pcs(i := ([], pub, kp)) = pcs" using p by auto
    then show ?thesis using p Nil inv by (intro exI [of _ "([], pub, kp)"] exI [of _ m]) (simp add: conn_step_def)
  next
    case (Cons k ks')
    have len: "length ks < n" by (rule conn_inv_length [OF invi i])
    have k: "k < n" "k \<noteq> i" "k \<notin> set ks'" using invi Cons by (auto simp: conn_inv_def)
    show ?thesis
    proof (cases pub)
      case False
      have "conn_inv store st n K m i (k # ks', False, kp)" using invi Cons False by simp
      from conn_publish [OF mc shape [OF i] n this, of env] obtain ok kp' m' where
        1: "conn_next mc env (k # ks', False, kp) m = Inr ((k # ks', ok, kp'), m')"
        "conn_inv store st n K m' i (k # ks', ok, kp')"
        "\<forall>key. key \<noteq> setKey (of_nat i) k \<longrightarrow> store m' key = store m key" "responsive mc store \<longrightarrow> ok" by blast
      let ?pc = "(k # ks', ok, kp')"
      have "conn_inv store st n K m' j (pcs j)" if "j < n" "j \<noteq> i" for j
      proof (rule conn_inv_store [OF inv [OF that(1)]])
        fix x
        have "(of_nat j :: u16) \<noteq> of_nat i" using that i n u16_eq [of j i] by simp
        then show "store m' (setKey (of_nat j) x) = store m (setKey (of_nat j) x)"
          using 1(3) setKey_inject by blast
      qed
      then have "\<forall>j < n. conn_inv store st n K m' j ((pcs(i := ?pc)) j)" using 1(2) by simp
      moreover have "conn_step mc env i (pcs, m) = Inr (pcs(i := ?pc), m')" using p Cons False 1(1) by (simp add: conn_step_def)
      ultimately show ?thesis using p Cons False 1(4)
        by (intro exI [of _ ?pc] exI [of _ m']) (auto simp: conn_rank_def published_def)
    next
      case True
      have "conn_inv store st n K m i (k # ks', True, kp)" using invi Cons True by simp
      from conn_fetch [OF mc mod ah shape [OF i] shape [OF k(1)] n i this inv [OF k(1)]] obtain pc m' where
        1: "conn_next mc env (k # ks', True, kp) m = Inr (pc, m')" "conn_inv store st n K m' i pc" "store m' = store m"
        "pc = (k # ks', True, kp) \<or> (\<exists>kp'. pc = (ks', False, kp'))"
        "responsive mc store \<longrightarrow> published (pcs k) i \<longrightarrow> (\<exists>kp'. pc = (ks', False, kp'))" by blast
      have "conn_inv store st n K m' j (pcs j)" if "j < n" for j
        by (rule conn_inv_store [OF inv [OF that]]) (simp add: 1(3))
      then have "\<forall>j < n. conn_inv store st n K m' j ((pcs(i := pc)) j)" using 1(2) by simp
      moreover have "conn_step mc env i (pcs, m) = Inr (pcs(i := pc), m')" using p Cons True 1(1) by (simp add: conn_step_def)
      moreover have "conn_rank n (pcs i) \<le> conn_rank n pc" "\<forall>j. published (pcs i) j \<longrightarrow> published pc j"
        using 1(4) p Cons True len k(3) by (auto simp: conn_rank_def published_def)
      moreover have "conn_rank n (pcs i) < conn_rank n pc" if "\<exists>kp'. pc = (ks', False, kp')"
        using that p Cons True len by (auto simp: conn_rank_def)
      ultimately show ?thesis using 1(5) p Cons True by (intro exI [of _ pc] exI [of _ m']) auto
    qed
  qed
qed

section \<open>The code takes these steps\<close>

text \<open>A server that runs the loop of \<^verbatim>\<open>serverConnect\<close> alone, to the end, takes steps of \<open>conn_step\<close>.\<close>

lemma setDataToRemote_again: "setDataToRemote r kp = Inr kp1 \<Longrightarrow> setDataToRemote r kp1 = Inr kp1"
  unfolding setDataToRemote_def rbind_Inr_iff by auto

lemma memSet_conn_steps:
  assumes "setDataToRemote k kp = Inr kp1"
  shows "memSet mc fuel (setKey (kp_myNodeID kp1) k) (Blob (kp_meta kp1)) m = Inr m' \<Longrightarrow> setDataToRemote k kp0 = Inr kp1 \<Longrightarrow>
    \<exists>j. for_each (conn_step mc env) (replicate j i) (pcs(i := (k # ks, False, kp0)), m) = Inr (pcs(i := (k # ks, True, kp1)), m')"
proof (induction fuel arbitrary: m kp0)
  case (Suc fuel)
  obtain ok m1 where s: "mc_set mc (setKey (kp_myNodeID kp1) k) (Blob (kp_meta kp1)) m = (ok, m1)" by force
  have st: "conn_step mc env i (pcs(i := (k # ks, False, kp0)), m) = Inr (pcs(i := (k # ks, ok, kp1)), m1)"
    using Suc.prems(2) s by (simp add: conn_step_def)
  show ?case
  proof (cases ok)
    case True
    then have "m' = m1" using Suc.prems(1) s by simp
    then show ?thesis using st True by (intro exI [of _ "Suc 0"]) (simp del: fun_upd_apply)
  next
    case False
    then have "memSet mc fuel (setKey (kp_myNodeID kp1) k) (Blob (kp_meta kp1)) m1 = Inr m'" using Suc.prems(1) s by simp
    from Suc.IH [OF this setDataToRemote_again [OF assms]] obtain j where
      "for_each (conn_step mc env) (replicate j i) (pcs(i := (k # ks, False, kp1)), m1) = Inr (pcs(i := (k # ks, True, kp1)), m')" ..
    then have "for_each (conn_step mc env) (replicate (Suc j) i) (pcs(i := (k # ks, False, kp0)), m) = Inr (pcs(i := (k # ks, True, kp1)), m')"
      using st False by (simp del: fun_upd_apply)
    then show ?thesis ..
  qed
qed simp

lemma memGet_conn_steps:
  "memGet mc fuel (getKey (kp_myNodeID kp) k) m = Inr (v, m') \<Longrightarrow>
   \<exists>j m1. for_each (conn_step mc env) (replicate j i) (pcs(i := (k # ks, True, kp)), m) = Inr (pcs(i := (k # ks, True, kp)), m1)
     \<and> mc_get mc (getKey (kp_myNodeID kp) k) m1 = (Some v, m')"
proof (induction fuel arbitrary: m)
  case (Suc fuel)
  obtain c m1 where s: "mc_get mc (getKey (kp_myNodeID kp) k) m = (c, m1)" by force
  show ?case
  proof (cases c)
    case (Some x)
    then show ?thesis using Suc.prems s by (intro exI [of _ 0] exI [of _ m]) simp
  next
    case None
    have st: "conn_step mc env i (pcs(i := (k # ks, True, kp)), m) = Inr (pcs(i := (k # ks, True, kp)), m1)"
      using None s by (simp add: conn_step_def)
    have "memGet mc fuel (getKey (kp_myNodeID kp) k) m1 = Inr (v, m')" using Suc.prems s None by simp
    from Suc.IH [OF this] obtain j m2 where
      "for_each (conn_step mc env) (replicate j i) (pcs(i := (k # ks, True, kp)), m1) = Inr (pcs(i := (k # ks, True, kp)), m2)"
      and g: "mc_get mc (getKey (kp_myNodeID kp) k) m2 = (Some v, m')" by blast
    then have "for_each (conn_step mc env) (replicate (Suc j) i) (pcs(i := (k # ks, True, kp)), m) = Inr (pcs(i := (k # ks, True, kp)), m2)"
      using st by (simp del: fun_upd_apply)
    with g show ?thesis by blast
  qed
qed simp

lemma connectNode_steps:
  assumes "connectNode mc env fuel k (kp, m) = Inr (kp', m')" "k < 2 ^ 16"
  shows "\<exists>j. for_each (conn_step mc env) (replicate j i) (pcs(i := (k # ks, False, kp)), m) = Inr (pcs(i := (ks, False, kp')), m')"
proof -
  obtain kp1 m1 v m2 meta where c: "setDataToRemote k kp = Inr kp1"
    "memSet mc fuel (setKey (kp_myNodeID kp1) k) (Blob (kp_meta kp1)) m = Inr m1"
    "memGet mc fuel (getKey (kp_myNodeID kp1) k) m1 = Inr (v, m')" "as_blob v = Inr meta"
    "setDataFromRemote env k meta kp1 = Inr kp'"
    using assms by (auto simp: connectNode_def rbind_Inr_iff unat_u16)
  obtain j1 where 1: "for_each (conn_step mc env) (replicate j1 i) (pcs(i := (k # ks, False, kp)), m)
      = Inr (pcs(i := (k # ks, True, kp1)), m1)" using memSet_conn_steps [OF c(1,2,1)] by blast
  obtain j2 m3 where 2: "for_each (conn_step mc env) (replicate j2 i) (pcs(i := (k # ks, True, kp1)), m1)
      = Inr (pcs(i := (k # ks, True, kp1)), m3)" "mc_get mc (getKey (kp_myNodeID kp1) k) m3 = (Some v, m')"
    using memGet_conn_steps [OF c(3)] by blast
  have 3: "conn_step mc env i (pcs(i := (k # ks, True, kp1)), m3) = Inr (pcs(i := (ks, False, kp')), m')"
    using 2(2) c(4,5) by (simp add: conn_step_def)
  have "for_each (conn_step mc env) (replicate j1 i @ replicate j2 i @ replicate 1 i) (pcs(i := (k # ks, False, kp)), m)
      = Inr (pcs(i := (ks, False, kp')), m')"
    using 1 2(1) 3 by (simp add: for_each_append del: fun_upd_apply)
  then show ?thesis unfolding replicate_add [symmetric] by blast
qed

lemma connect_from_steps:
  "connect_from (connectNode mc env fuel) me ks (kp, m) = Inr (kp', m') \<Longrightarrow> list_all (\<lambda>k. k < 2 ^ 16) ks \<Longrightarrow>
   \<exists>j. for_each (conn_step mc env) (replicate j i) (pcs(i := (filter (\<lambda>k. k \<noteq> unat me) ks, False, kp)), m)
     = Inr (pcs(i := ([], False, kp')), m')"
proof (induction ks arbitrary: kp m)
  case Nil
  then show ?case by (intro exI [of _ 0]) simp
next
  case (Cons k ks)
  show ?case
  proof (cases "k = unat me")
    case True
    then show ?thesis using Cons by simp
  next
    case False
    obtain kp1 m1 where 1: "connectNode mc env fuel k (kp, m) = Inr (kp1, m1)"
      "connect_from (connectNode mc env fuel) me ks (kp1, m1) = Inr (kp', m')"
      using Cons.prems(1) False by (auto simp: rbind_Inr_iff)
    have k: "k < 2 ^ 16" "list_all (\<lambda>k. k < 2 ^ 16) ks" using Cons.prems(2) by simp_all
    obtain j1 where "for_each (conn_step mc env) (replicate j1 i) (pcs(i := (k # filter (\<lambda>k. k \<noteq> unat me) ks, False, kp)), m)
        = Inr (pcs(i := (filter (\<lambda>k. k \<noteq> unat me) ks, False, kp1)), m1)"
      using connectNode_steps [OF 1(1) k(1)] by blast
    moreover obtain j2 where "for_each (conn_step mc env) (replicate j2 i) (pcs(i := (filter (\<lambda>k. k \<noteq> unat me) ks, False, kp1)), m1)
        = Inr (pcs(i := ([], False, kp')), m')" using Cons.IH [OF 1(2) k(2)] by blast
    ultimately have "for_each (conn_step mc env) (replicate (j1 + j2) i) (pcs(i := (k # filter (\<lambda>k. k \<noteq> unat me) ks, False, kp)), m)
        = Inr (pcs(i := ([], False, kp')), m')"
      by (simp add: replicate_add for_each_append del: fun_upd_apply)
    then show ?thesis using False by (simp del: fun_upd_apply) blast
  qed
qed

section \<open>Nobody waits for ever\<close>

definition enabled :: "(nat \<Rightarrow> 'd conn_state) \<Rightarrow> nat \<Rightarrow> bool" where
  "enabled pcs i \<longleftrightarrow> fst (pcs i) \<noteq> [] \<and> (fst (snd (pcs i)) \<longrightarrow> published (pcs (hd (fst (pcs i)))) i)"

definition progress :: "nat \<Rightarrow> (nat \<Rightarrow> 'd conn_state) \<Rightarrow> nat" where
  "progress n pcs = (\<Sum>i < n. conn_rank n (pcs i))"

lemma progress_upd: "i < n \<Longrightarrow> progress n (pcs(i := pc)) + conn_rank n (pcs i) = progress n pcs + conn_rank n pc"
  by (simp add: progress_def sum.remove [of "{..<n}" i])

text \<open>Every server goes through the others in the same order. If all that are not done waited, each for the
  first of its list, then the one that \<open>i\<close> waits for would itself wait for a server before \<open>i\<close>, and
  the least server that is not done could not exist.\<close>

lemma some_enabled:
  assumes inv: "\<And>j. j < n \<Longrightarrow> conn_inv store st n K m j (pcs j)" and i: "i < n" "fst (pcs i) \<noteq> []"
  shows "\<exists>i < n. enabled pcs i"
proof (rule ccontr)
  assume no: "\<not> (\<exists>i < n. enabled pcs i)"
  have waits: "\<exists>k' < k. fst (pcs k') \<noteq> [] \<and> k' < n" if k: "k < n" "fst (pcs k) \<noteq> []" for k
  proof -
    have blocked: "fst (snd (pcs a))" "\<not> published (pcs (hd (fst (pcs a)))) a" "hd (fst (pcs a)) < n" "hd (fst (pcs a)) \<in> set (fst (pcs a))"
      if "a < n" "fst (pcs a) \<noteq> []" for a
    proof -
      show "fst (snd (pcs a))" "\<not> published (pcs (hd (fst (pcs a)))) a" using no that by (auto simp: enabled_def)
      show "hd (fst (pcs a)) \<in> set (fst (pcs a))" using that(2) by simp
      then show "hd (fst (pcs a)) < n" using inv [OF that(1)] by (auto simp: conn_inv_def split: prod.splits)
    qed
    let ?j = "hd (fst (pcs k))"
    have j: "?j < n" "k \<in> set (fst (pcs ?j))"
      using blocked [OF k] by (auto simp: published_def split: prod.splits)
    then have ne: "fst (pcs ?j) \<noteq> []" by auto
    let ?c = "hd (fst (pcs ?j))"
    have "?c \<noteq> k" using blocked [OF k] blocked(1) [OF j(1) ne] by (auto simp: published_def split: prod.splits)
    moreover have "sorted (fst (pcs ?j))" using inv [OF j(1)] by (auto simp: conn_inv_def split: prod.splits)
    then have "?c \<le> k" using j(2) ne by (cases "fst (pcs ?j)") auto
    moreover have c: "?c < n" by (rule blocked(3) [OF j(1) ne])
    moreover have "fst (pcs ?c) \<noteq> []"
      using blocked(2) [OF j(1) ne] by (auto simp: published_def split: prod.splits)
    ultimately show ?thesis by (intro exI [of _ ?c]) auto
  qed
  have "\<not> (k < n \<and> fst (pcs k) \<noteq> [])" for k
  proof (induction k rule: less_induct)
    case (less k)
    then show ?case using waits by blast
  qed
  then show False using i by blast
qed

lemma conn_round:
  assumes mc: "memcached mc store" and mod: "modifies_qps (ve_modify env) st" and ah: "makes_handles env st"
    and shape: "\<And>j. j < n \<Longrightarrow> shaped n (K j)" and n: "n \<le> 2 ^ 16"
  shows "\<forall>j < n. conn_inv store st n K m j (pcs j) \<Longrightarrow> set is \<subseteq> {0..<n} \<Longrightarrow>
    \<exists>pcs' m'. for_each (conn_step mc env) is (pcs, m) = Inr (pcs', m') \<and> (\<forall>j < n. conn_inv store st n K m' j (pcs' j))
      \<and> progress n pcs \<le> progress n pcs'
      \<and> (responsive mc store \<longrightarrow> (\<forall>i < n. i \<in> set is \<longrightarrow> enabled pcs i \<longrightarrow> progress n pcs < progress n pcs'))"
proof (induction "is" arbitrary: pcs m)
  case (Cons i "is")
  have i: "i < n" using Cons.prems(2) by simp
  have inv: "conn_inv store st n K m j (pcs j)" if "j < n" for j using Cons.prems(1) that by blast
  from conn_step_inv [OF mc mod ah shape n i inv] obtain pc m1 where
    1: "conn_step mc env i (pcs, m) = Inr (pcs(i := pc), m1)" "\<forall>j < n. conn_inv store st n K m1 j ((pcs(i := pc)) j)"
    "conn_rank n (pcs i) \<le> conn_rank n pc" "\<forall>j. published (pcs i) j \<longrightarrow> published pc j"
    "responsive mc store \<longrightarrow> enabled pcs i \<longrightarrow> conn_rank n (pcs i) < conn_rank n pc"
    unfolding enabled_def by blast
  obtain pcs' m' where 2: "for_each (conn_step mc env) is (pcs(i := pc), m1) = Inr (pcs', m')"
    "\<forall>j < n. conn_inv store st n K m' j (pcs' j)" "progress n (pcs(i := pc)) \<le> progress n pcs'"
    "responsive mc store \<longrightarrow> (\<forall>j < n. j \<in> set is \<longrightarrow> enabled (pcs(i := pc)) j \<longrightarrow> progress n (pcs(i := pc)) < progress n pcs')"
  proof -
    have "set is \<subseteq> {0..<n}" using Cons.prems(2) by simp
    from Cons.IH [OF 1(2) this] show thesis using that by blast
  qed
  note up = progress_upd [OF i, of pcs pc]
  have "enabled (pcs(i := pc)) j" if "enabled pcs j" "j \<noteq> i" for j
    using that 1(4) by (auto simp: enabled_def)
  then have "progress n pcs < progress n pcs'" if "responsive mc store" "j < n" "j \<in> set (i # is)" "enabled pcs j" for j
    using that up 1(3,5) 2(3,4) by (cases "j = i") fastforce+
  then show ?case using 1(1,3) 2(1-3) up by (intro exI [of _ pcs'] exI [of _ m']) auto
qed simp

lemma all_done_stays: "\<forall>i < n. fst (pcs i) = [] \<Longrightarrow> set is \<subseteq> {0..<n} \<Longrightarrow> for_each (conn_step mc env) is (pcs, m) = Inr (pcs, m)"
proof (induction "is")
  case (Cons i "is")
  obtain pub kp where "pcs i = ([], pub, kp)" using Cons.prems by (cases "pcs i") auto
  then have "conn_step mc env i (pcs, m) = Inr (pcs, m)" by (simp add: conn_step_def fun_upd_idem)
  then show ?case using Cons by simp
qed simp

lemma progress_bound:
  assumes "\<forall>j < n. conn_inv store st n K m j (pcs j)"
  shows "progress n pcs \<le> n * (2 * n)"
proof -
  have "conn_rank n (pcs i) \<le> 2 * n" if "i < n" for i
    using assms that by (cases "pcs i") (auto simp: conn_rank_def conn_inv_def neq_Nil_conv)
  then show ?thesis unfolding progress_def using sum_bounded_above [of "{..<n}" "\<lambda>i. conn_rank n (pcs i)" "2 * n"] by simp
qed

lemma conn_rounds:
  assumes mc: "memcached mc store" "responsive mc store" and mod: "modifies_qps (ve_modify env) st" and ah: "makes_handles env st"
    and shape: "\<And>j. j < n \<Longrightarrow> shaped n (K j)" and n: "n \<le> 2 ^ 16"
    and inv: "\<forall>j < n. conn_inv store st n K m j (pcs j)"
  shows "\<exists>pcs' m'. for_each (conn_step mc env) (concat (replicate r [0..<n])) (pcs, m) = Inr (pcs', m')
    \<and> (\<forall>j < n. conn_inv store st n K m' j (pcs' j)) \<and> ((\<forall>i < n. fst (pcs' i) = []) \<or> r \<le> progress n pcs')"
proof (induction r)
  case 0
  then show ?case using inv by simp
next
  case (Suc r)
  then obtain pcs1 m1 where 1: "for_each (conn_step mc env) (concat (replicate r [0..<n])) (pcs, m) = Inr (pcs1, m1)"
    "\<forall>j < n. conn_inv store st n K m1 j (pcs1 j)" "(\<forall>i < n. fst (pcs1 i) = []) \<or> r \<le> progress n pcs1" by blast
  have set: "set [0..<n] \<subseteq> {0..<n}" by simp
  have split: "concat (replicate (Suc r) [0..<n]) = concat (replicate r [0..<n]) @ [0..<n]"
    by (simp add: replicate_append_same [symmetric])
  show ?case
  proof (cases "\<forall>i < n. fst (pcs1 i) = []")
    case True
    have "for_each (conn_step mc env) (concat (replicate (Suc r) [0..<n])) (pcs, m) = Inr (pcs1, m1)"
      unfolding split for_each_append 1(1) rbind_simps by (rule all_done_stays [OF True set])
    then show ?thesis using 1(2) True by blast
  next
    case False
    then obtain i where i: "i < n" "enabled pcs1 i" using some_enabled [of n store st K m1 pcs1] 1(2) by blast
    from conn_round [OF mc(1) mod ah shape n 1(2) set] obtain pcs2 m2 where
      2: "for_each (conn_step mc env) [0..<n] (pcs1, m1) = Inr (pcs2, m2)" "\<forall>j < n. conn_inv store st n K m2 j (pcs2 j)"
      "responsive mc store \<longrightarrow> (\<forall>i < n. i \<in> set [0..<n] \<longrightarrow> enabled pcs1 i \<longrightarrow> progress n pcs1 < progress n pcs2)" by blast
    have "progress n pcs1 < progress n pcs2" using 2(3) mc(2) i by simp
    moreover have "r \<le> progress n pcs1" using 1(3) False by blast
    ultimately have "Suc r \<le> progress n pcs2" by simp
    moreover have "for_each (conn_step mc env) (concat (replicate (Suc r) [0..<n])) (pcs, m) = Inr (pcs2, m2)"
      unfolding split for_each_append 1(1) rbind_simps by (rule 2(1))
    ultimately show ?thesis using 2(2) by blast
  qed
qed

text \<open>The queue pairs of a server towards itself.\<close>

lemma connectMySelf_ok:
  assumes mod: "modifies_qps (ve_modify env) st" and ah: "makes_handles env st" and shape: "shaped n (K i)"
    and n: "n \<le> 2 ^ 16" "i < n" and inv: "conn_inv store st n K m i ([], pub, kp)"
  shows "\<exists>kp'. connectMySelf env kp = Inr kp' \<and> kp_thCon kp' = kp_thCon (K i) \<and> kp_dirCon kp' = kp_dirCon (K i)
    \<and> kp_myNodeID kp' = of_nat i \<and> (\<forall>j < n. linked st kp' (K j) i j \<and> knows kp' (K j) j)"
proof -
  have f: "kp_thCon kp = kp_thCon (K i)" "kp_dirCon kp = kp_dirCon (K i)" "kp_myNodeID kp = of_nat i" "local_meta kp"
    "length (kp_remoteCon kp) = n" "unconnected st kp i" using inv n(2) by (auto simp: conn_inv_def)
  have sh: "shaped n kp" using shape f by simp
  let ?kp = "kp\<lparr>kp_meta := publication kp i\<rparr>"
  have 1: "setDataToRemote i kp = Inr ?kp" by (rule setDataToRemote_ok [OF sh f(4) n(2)])
  have pub: "publication kp i = publication (K i) i" by (rule publication_cong [OF f(1,2)])
  have "unconnected st ?kp i" using f(6) by (simp add: unconnected_def towards_def app_qp_def dir_qp_def)
  moreover have "shaped n ?kp" "length (kp_remoteCon ?kp) = n" using sh f(5) by simp_all
  ultimately obtain kp' where X: "setDataFromRemote env i (publication (K i) i) ?kp = Inr kp'"
    "kp_thCon kp' = kp_thCon ?kp" "kp_dirCon kp' = kp_dirCon ?kp" "kp_myNodeID kp' = kp_myNodeID ?kp" "\<forall>z. z \<noteq> i \<longrightarrow> kp_remoteCon kp' ! z = kp_remoteCon ?kp ! z"
    "linked st kp' (K i) i i" "knows kp' (K i) i" "\<forall>z. z \<notin> towards ?kp i \<longrightarrow> st (kp_dev kp') z = st (kp_dev ?kp) z"
    using setDataFromRemote_ok [OF mod ah _ shape n(2) n(2), of ?kp] by blast
  have "linked st kp' (K j) i j \<and> knows kp' (K j) j" if "j < n" "j \<noteq> i" for j
  proof
    have old: "linked st kp (K j) i j" "knows kp (K j) j" using inv that by (simp_all add: conn_inv_def)
    have "towards ?kp i = towards kp i" by (rule towards_cong) simp_all
    then show "linked st kp' (K j) i j"
      using X(2,3,8) towards_disjoint [OF sh that(1) n(2) that(2)] by (intro linked_kept [OF old(1)]) auto
    show "knows kp' (K j) j" by (rule knows_cong [OF _ old(2)]) (use X(5) that(2) in simp)
  qed
  moreover have "connectMySelf env kp = Inr kp'"
    using 1 X(1) n f(3) by (simp add: connectMySelf_def unat_u16 pub)
  ultimately show ?thesis using X(2-4,6,7) f(1-3) by auto
qed

lemma conn_inv_start:
  assumes up: "server_set_up n (st (kp_dev X)) (kp_thCon X) (kp_dirCon X)"
    and X: "kp_myNodeID X = of_nat i" "length (kp_remoteCon X) = n" "initLocalMeta X = Inr (K i)"
    and i: "i < n" and fresh: "\<And>j. j < n \<Longrightarrow> store m (setKey (of_nat i) j) = None"
  shows "shaped n (K i)" "conn_inv store st n K m i (peers n i, False, K i)"
proof -
  have shape0: "shaped n X" using up by (simp add: server_set_up_def)
  obtain e where e: "K i = X\<lparr>kp_meta := e\<rparr>" "local_meta (K i)" using initLocalMeta_ok [OF shape0] X(3) by auto
  then show shape: "shaped n (K i)" using shape0 by simp
  have reset: "unconnected st (K i) j" if j: "j < n" for j
  proof -
    have "z \<in> set (rc_numbers (kp_thCon (K i)) (kp_dirCon (K i)))" if "z \<in> towards (K i) j" for z
      using that app_qp_at(3) [OF shape _ _ j] dir_qp_at(3) [OF shape _ _ j] shapedD(1,2) [OF shape]
      by (fastforce simp: towards_def rc_numbers_def)
    then show ?thesis using up e(1) by (auto simp: unconnected_def server_set_up_def list_all_iff)
  qed
  show "conn_inv store st n K m i (peers n i, False, K i)"
    using reset e X fresh i by (auto simp: conn_inv_def peers_def sorted_wrt_filter)
qed

text \<open>(C37) Connecting a cluster: \<open>n\<close> servers that are set up go through each other, each in the order of the
  numbers, publishing a record and waiting for that of the other. However their calls of memcached
  interleave, and whichever are not answered, none fails; nobody waits for ever, on a service that answers
  all are through after a bounded number of rounds; and a server that is through, and has connected to
  itself, has all its reliable queue pairs ready to send, each connected to the queue pair of the other
  server that is connected back to it, and knows the memory, the keys and the message queues of all.\<close>

theorem cluster_connects:
  assumes "memcached mc store" "modifies_qps (ve_modify env) st" "makes_handles env st" "n \<le> 2 ^ 16"
    "\<forall>i < n. server_set_up n (st (kp_dev (J i))) (kp_thCon (J i)) (kp_dirCon (J i))"
    "\<forall>i < n. kp_myNodeID (J i) = of_nat i \<and> length (kp_remoteCon (J i)) = n \<and> initLocalMeta (J i) = Inr (K i)"
    "\<forall>i < n. \<forall>j < n. store m (setKey (of_nat i) j) = None" "set sched \<subseteq> {0..<n}"
  shows "\<exists>pcs m'. for_each (conn_step mc env) sched (\<lambda>i. (peers n i, False, K i), m) = Inr (pcs, m')
    \<and> (\<forall>i < n. \<forall>pub kp. pcs i = ([], pub, kp) \<longrightarrow> (\<exists>kp'. connectMySelf env kp = Inr kp'
          \<and> (\<forall>j < n. linked st kp' (K j) i j \<and> knows kp' (K j) j)))
    \<and> (responsive mc store \<longrightarrow> (\<exists>pcs' l. for_each (conn_step mc env) (concat (replicate (2 * n * n + 1) [0..<n])) (pcs, m') = Inr (pcs', l)
          \<and> (\<forall>i < n. fst (pcs' i) = [])))"
proof -
  have shape: "shaped n (K i)" and "conn_inv store st n K m i (peers n i, False, K i)" if "i < n" for i
    using conn_inv_start [of n st "J i" i K store m] assms(5-7) that by simp_all
  then have "\<forall>j < n. conn_inv store st n K m j ((\<lambda>i. (peers n i, False, K i)) j)" by blast
  from conn_round [OF assms(1-3) shape assms(4) this assms(8)] obtain pcs m' where
    s: "for_each (conn_step mc env) sched (\<lambda>i. (peers n i, False, K i), m) = Inr (pcs, m')"
    "\<forall>j < n. conn_inv store st n K m' j (pcs j)" by blast
  have "\<exists>kp'. connectMySelf env kp = Inr kp' \<and> (\<forall>j < n. linked st kp' (K j) i j \<and> knows kp' (K j) j)"
    if "i < n" "pcs i = ([], pub, kp)" for i pub kp
  proof -
    have "conn_inv store st n K m' i ([], pub, kp)" using s(2) that by metis
    from connectMySelf_ok [where K = K, OF assms(2,3) shape [OF that(1)] assms(4) that(1) this] show ?thesis by blast
  qed
  moreover have "\<exists>pcs' l. for_each (conn_step mc env) (concat (replicate (2 * n * n + 1) [0..<n])) (pcs, m') = Inr (pcs', l)
      \<and> (\<forall>i < n. fst (pcs' i) = [])" if resp: "responsive mc store"
  proof -
    obtain pcs' l where r: "for_each (conn_step mc env) (concat (replicate (2 * n * n + 1) [0..<n])) (pcs, m') = Inr (pcs', l)"
      "\<forall>j < n. conn_inv store st n K l j (pcs' j)" "(\<forall>i < n. fst (pcs' i) = []) \<or> 2 * n * n + 1 \<le> progress n pcs'"
      using conn_rounds [OF assms(1) resp assms(2,3) shape assms(4) s(2), of "2 * n * n + 1"] by blast
    moreover have "progress n pcs' \<le> n * (2 * n)" by (rule progress_bound [OF r(2)])
    ultimately show ?thesis by (auto simp: algebra_simps)
  qed
  ultimately show ?thesis using s(1) by blast
qed

text \<open>Two servers that set up by their constructors.\<close>

definition two_keepers :: "thread_con list \<Rightarrow> dir_con list \<Rightarrow> (u32 \<Rightarrow> qp_attr) \<Rightarrow> nat \<Rightarrow> (u32 \<Rightarrow> qp_attr) keeper" where
  "two_keepers th dir d i = \<lparr>kp_thCon = th, kp_dirCon = dir, kp_remoteCon = [None, None],
     kp_meta = \<lparr>em_dsmBase = 0, em_cacheBase = 0, em_lockBase = 0, em_appTh = [], em_dirTh = [], em_appUdQpn = [],
       em_dirUdQpn = [], em_appRcQpn2dir = [], em_dirRcQpn2app = []\<rparr>, kp_myNodeID = of_nat i, kp_dev = d\<rparr>"

definition filled :: "'d keeper \<Rightarrow> 'd keeper" where
  "filled X = (case initLocalMeta X of Inr Y \<Rightarrow> Y | Inl _ \<Rightarrow> X)"

theorem cluster_connects_witness:
  "\<exists>th dir s K pcs m pcs' l. initRDMAConnection kind_env 4096 1 8192 8 2 kind_nic = Inr ((th, dir), s)
    \<and> K = (\<lambda>i. filled (two_keepers th dir (nic_dev s) i))
    \<and> for_each (conn_step map_memc kind_env) [1, 1, 0, 1] (\<lambda>i. (peers 2 i, False, K i), Map.empty) = Inr (pcs, m)
    \<and> for_each (conn_step map_memc kind_env) (concat (replicate (2 * 2 * 2 + 1) [0..<2])) (pcs, m) = Inr (pcs', l)
    \<and> fst (pcs' 1) = []"
proof -
  have calls: "length (nic_log kind_nic) + setup_calls 2 \<le> 2 ^ 32"
    by (simp add: kind_nic_def setup_calls_def MAX_APP_THREAD_def NR_DIRECTORY_def)
  have "\<forall>n. at_state (nic_dev kind_nic n) = QPS_RESET" by (simp add: kind_nic_def zero_attr_def)
  with calls obtain th dir s where
    s: "initRDMAConnection kind_env 4096 1 8192 8 2 kind_nic = Inr ((th, dir), s)" "server_set_up 2 (nic_dev s) th dir"
    using connections_set_up_lemma [OF kind_env_ok, of kind_nic 2 4096 1 8192 8] by auto
  let ?mc = "map_memc :: (ExchangeMeta, string \<Rightarrow> ExchangeMeta mc_value option) memc"
  let ?A = "two_keepers th dir (nic_dev s)"
  obtain K where Kdef: "K = (\<lambda>i. filled (two_keepers th dir (nic_dev s) i))" by blast
  have shape: "shaped 2 (?A i)" for i using s(2) by (simp add: two_keepers_def server_set_up_def)
  have "initLocalMeta (?A i) = Inr (K i)" for i using initLocalMeta_ok [OF shape, of i] by (auto simp: filled_def Kdef)
  then have K: "\<forall>i < 2. kp_myNodeID (?A i) = of_nat i \<and> length (kp_remoteCon (?A i)) = 2 \<and> initLocalMeta (?A i) = Inr (K i)"
    by (simp add: two_keepers_def)
  have up: "\<forall>i < 2. server_set_up 2 (kp_dev (?A i)) (kp_thCon (?A i)) (kp_dirCon (?A i))"
    using s(2) by (simp add: two_keepers_def)
  have env: "modifies_qps (ve_modify kind_env) (\<lambda>d. d)" "makes_handles kind_env (\<lambda>d. d)"
    by (simp_all add: kind_env_def table_modify_ok makes_handles_def)
  have sub: "set [1, 1, 0, 1] \<subseteq> {0..<2 :: nat}" by auto
  have none: "\<forall>i < 2. \<forall>j < 2. Map.empty (setKey (of_nat i) j) = (None :: ExchangeMeta mc_value option)" by simp
  have n: "2 \<le> (2 :: nat) ^ 16" by simp
  have "\<exists>pcs m'. for_each (conn_step ?mc kind_env) [1, 1, 0, 1] (\<lambda>i. (peers 2 i, False, K i), Map.empty) = Inr (pcs, m')
    \<and> (\<forall>i < 2. \<forall>pub kp. pcs i = ([], pub, kp) \<longrightarrow> (\<exists>kp'. connectMySelf kind_env kp = Inr kp'
          \<and> (\<forall>j < 2. linked (\<lambda>d. d) kp' (K j) i j \<and> knows kp' (K j) j)))
    \<and> (responsive ?mc (\<lambda>m. m) \<longrightarrow> (\<exists>pcs' l. for_each (conn_step ?mc kind_env) (concat (replicate (2 * 2 * 2 + 1) [0..<2])) (pcs, m') = Inr (pcs', l)
          \<and> (\<forall>i < 2. fst (pcs' i) = [])))"
    by (rule cluster_connects [where J = ?A and K = K and st = "\<lambda>d. d" and n = 2])
      (use map_memc_ok(1) env n up K none sub in \<open>simp_all only: simp_thms\<close>)
  then obtain pcs m pcs' l where
    "for_each (conn_step ?mc kind_env) [1, 1, 0, 1] (\<lambda>i. (peers 2 i, False, K i), Map.empty) = Inr (pcs, m)"
    "for_each (conn_step ?mc kind_env) (concat (replicate (2 * 2 * 2 + 1) [0..<2])) (pcs, m) = Inr (pcs', l)"
    "\<forall>i < 2. fst (pcs' i) = []" using map_memc_ok(2) by blast
  moreover have "fst (pcs' 1) = []" using calculation(3) by simp
  ultimately show ?thesis using s(1) Kdef by blast
qed

end
