(* ===== verification/DsmInit.thy ===== *)
theory DsmInit
  imports ClusterClaims
begin

text \<open>
  How a server comes up (\<^verbatim>\<open>DSM::DSM\<close> of \<^verbatim>\<open>src/DSM.cpp\<close>, with the cache of \<^verbatim>\<open>src/Cache.cpp\<close>):
  memory, connections, keeper, directories and the barrier, in this order; and the values that
  clients leave for each other in memcached (\<^verbatim>\<open>DSM::Put\<close>, \<^verbatim>\<open>DSM::Get\<close>).
\<close>

section \<open>Memory\<close>

type_synonym ram = "u64 \<Rightarrow> u8"

text \<open>One byte of every page of two megabytes is written; the loop does not end when its last step wraps
  around.\<close>

fun warm_up :: "nat \<Rightarrow> u64 \<Rightarrow> u64 \<Rightarrow> ram \<Rightarrow> err + ram" where
  "warm_up 0 i end_addr mem = Inl OutOfFuel"
| "warm_up (Suc fuel) i end_addr mem =
     (if i < end_addr then warm_up fuel (i + of_nat (2 * MB)) end_addr (mem(i := 0)) else Inr mem)"

definition memset_zero :: "ram \<Rightarrow> u64 \<Rightarrow> nat \<Rightarrow> ram" where
  "memset_zero mem p n = (\<lambda>a. if unat (a - p) < n then 0 else mem a)"

section \<open>A server\<close>

record ('d, 'm) dsm =
  dsm_baseAddr :: u64
  dsm_cache_data :: u64
  dsm_ram :: ram
  dsm_nic :: "'d nic"
  dsm_keeper :: "'d keeper"
  dsm_dirAgent :: "node_state list"
  dsm_memc :: 'm

definition no_meta :: ExchangeMeta where
  "no_meta = \<lparr>em_dsmBase = 0, em_cacheBase = 0, em_lockBase = 0, em_appTh = [], em_dirTh = [], em_appUdQpn = [],
     em_dirUdQpn = [], em_appRcQpn2dir = [], em_dirRcQpn2app = []\<rparr>"

text \<open>Without the service the first call that is repeated until it succeeds, in the barrier, never
  ends.\<close>

definition new_DSM ::
  "(ExchangeMeta, 'm) memc \<Rightarrow> 'd verbs_env \<Rightarrow> nat \<Rightarrow> string list option \<Rightarrow> (string \<Rightarrow> int \<Rightarrow> bool)
    \<Rightarrow> u32 \<Rightarrow> u32 \<Rightarrow> u64 \<Rightarrow> ram \<times> 'd nic \<times> 'm \<Rightarrow> err + ('d, 'm) dsm" where
  "new_DSM mc env fuel conf push cacheSize machineNR dsmSize s =
     (case s of (mem, nic, m) \<Rightarrow>
      case ve_mmap env (unat (ucast cacheSize * of_nat GB :: u64)) (nic_dev nic) of (cache_data, d1) \<Rightarrow>
      case ve_mmap env (unat (dsmSize * of_nat GB)) d1 of (baseAddr, d2) \<Rightarrow>
      rbind (warm_up fuel baseAddr (baseAddr + dsmSize * of_nat GB) mem) (\<lambda>mem1.
      let mem2 = memset_zero mem1 baseAddr kChunkSize in
      rbind (initRDMAConnection env cache_data (ucast cacheSize) baseAddr dsmSize (unat machineNR) (nic\<lparr>nic_dev := d2\<rparr>))
        (\<lambda>((th, dir), nic1).
      rbind (new_DSMKeeper mc env fuel conf push machineNR
          (\<lparr>kp_thCon = th, kp_dirCon = dir, kp_remoteCon = replicate (unat machineNR) None, kp_meta = no_meta,
            kp_myNodeID = 0, kp_dev = nic_dev nic1\<rparr>, m)) (\<lambda>(connected, kp, m1).
      rbind (rmap (\<lambda>i. rbind (elem_at dir i) (\<lambda>c. new_Directory (unat (dc_dsmSize c)) (of_nat i) (kp_myNodeID kp)))
          [0..<NR_DIRECTORY]) (\<lambda>dirs.
      rbind (require connected Blocked) (\<lambda>_.
      rbind (barrier mc fuel (unat (kp_myNodeID kp)) (unat (ucast machineNR :: u16)) ''DSM-init'' m1) (\<lambda>m2.
        Inr \<lparr>dsm_baseAddr = baseAddr, dsm_cache_data = cache_data, dsm_ram = mem2, dsm_nic = nic1\<lparr>nic_dev := kp_dev kp\<rparr>,
             dsm_keeper = kp, dsm_dirAgent = dirs, dsm_memc = m2\<rparr>)))))))"

text \<open>\<^verbatim>\<open>DSM::getInstance\<close>, under its lock: the first configuration is taken, later ones are not
  looked at.\<close>

definition getInstance ::
  "(ExchangeMeta, 'm) memc \<Rightarrow> 'd verbs_env \<Rightarrow> nat \<Rightarrow> string list option \<Rightarrow> (string \<Rightarrow> int \<Rightarrow> bool)
    \<Rightarrow> u32 \<Rightarrow> u32 \<Rightarrow> u64 \<Rightarrow> ram \<times> 'd nic \<times> 'm \<Rightarrow> ('d, 'm) dsm option \<Rightarrow> err + ('d, 'm) dsm" where
  "getInstance mc env fuel conf push cacheSize machineNR dsmSize s instance_of =
     (case instance_of of
        None \<Rightarrow> new_DSM mc env fuel conf push cacheSize machineNR dsmSize s
      | Some dsm \<Rightarrow> Inr dsm)"

section \<open>Values for the others\<close>

definition gam_key :: "u64 \<Rightarrow> string" where "gam_key key = ''gam-'' @ to_string (unat key)"

text \<open>\<open>Put\<close> answers the size that it was given, \<open>Get\<close> the size of what it found.\<close>

definition dsm_Put :: "('x, 'm) memc \<Rightarrow> nat \<Rightarrow> u64 \<Rightarrow> 'x \<Rightarrow> nat \<Rightarrow> 'm \<Rightarrow> err + nat \<times> 'm" where
  "dsm_Put mc fuel key val size_val m = rbind (memSet mc fuel (gam_key key) (Blob val) m) (\<lambda>m'. Inr (size_val, m'))"

definition dsm_Get :: "('x, 'm) memc \<Rightarrow> nat \<Rightarrow> ('x mc_value \<Rightarrow> nat) \<Rightarrow> u64 \<Rightarrow> 'm \<Rightarrow> err + (nat \<times> 'x) \<times> 'm" where
  "dsm_Get mc fuel sz key m = rbind (memGet mc fuel (gam_key key) m) (\<lambda>(v, m').
     rbind (as_blob v) (\<lambda>x. Inr ((sz v, x), m')))"

end
