(* ===== verification/InitClaims.thy ===== *)
theory InitClaims
  imports DsmInit
begin

text \<open>
  A cluster of one server comes up: every step of \<^verbatim>\<open>DSM::DSM\<close> returns; and what is put into
  memcached is found there.
\<close>

section \<open>Calls that are answered\<close>

lemma memSet_ok:
  assumes "memcached mc store" "responsive mc store" "0 < fuel"
  shows "\<exists>m'. memSet mc fuel k v m = Inr m' \<and> store m' = (store m)(k \<mapsto> v)"
proof -
  obtain ok m' where s: "mc_set mc k v m = (ok, m')" by force
  have ok by (rule responsiveD(1) [OF assms(2) s])
  then show ?thesis using memcached_set [OF assms(1) s] s assms(3) by (cases fuel) simp_all
qed

lemma memGet_ok:
  assumes "memcached mc store" "responsive mc store" "0 < fuel" "store m k = Some v"
  shows "\<exists>m'. memGet mc fuel k m = Inr (v, m') \<and> store m' = store m"
proof -
  obtain r m' where s: "mc_get mc k m = (r, m')" by force
  note g = memcached_get [OF assms(1) s]
  have "r \<noteq> None" using responsiveD(2) [OF assms(2), of k m m'] s assms(4) by auto
  then have "r = Some v" using g(2) assms(4) by auto
  then show ?thesis using g(1) s assms(3) by (cases fuel) simp_all
qed

lemma incr_ok:
  assumes "memcached mc store" "responsive mc store" "store m k = Some (Text (to_string n))" "n + 1 < 2 ^ 64"
  shows "\<exists>m'. mc_incr mc k m = (Some (n + 1), m') \<and> store m' = (store m)(k \<mapsto> Text (to_string (n + 1)))"
proof -
  obtain r m' where s: "mc_incr mc k m = (r, m')" by force
  have "r \<noteq> None" using responsiveD(3) [OF assms(2), of k m m'] s assms(3) by auto
  then obtain c where c: "r = Some c" by auto
  have "c = (n + 1) mod 2 ^ 64 \<and> store m' = (store m)(k \<mapsto> Text (to_string c))"
    by (rule memcached_incr(2) [OF assms(1) s c assms(3)])
  then show ?thesis using s c assms(4) by simp
qed

section \<open>Memory\<close>

lemma warm_up_ok:
  "unat e + 2 * MB < 2 ^ 64 \<Longrightarrow> unat e \<le> unat i + fuel * (2 * MB) \<Longrightarrow> \<exists>mem'. warm_up (Suc fuel) i e mem = Inr mem'"
proof (induction fuel arbitrary: i mem)
  case 0
  then show ?case by (simp add: word_less_nat_alt)
next
  case (Suc fuel)
  show ?case
  proof (cases "i < e")
    case True
    have mb: "unat (of_nat (2 * MB) :: u64) = 2 * MB" by (simp add: MB_def)
    have "unat i + 2 * MB < 2 ^ 64" using True Suc.prems(1) by (simp add: word_less_nat_alt)
    then have "unat (i + of_nat (2 * MB)) = unat i + 2 * MB"
      using unat_add_lem [of i "of_nat (2 * MB)"] mb by simp
    then have "unat e \<le> unat (i + of_nat (2 * MB)) + fuel * (2 * MB)" using Suc.prems(2) by simp
    moreover have "warm_up (Suc (Suc fuel)) i e mem = warm_up (Suc fuel) (i + of_nat (2 * MB)) e (mem(i := 0))"
      using True by (subst warm_up.simps(2)) (simp only: if_True)
    ultimately show ?thesis using Suc.IH [OF Suc.prems(1)] by (simp only:)
  qed simp
qed

lemma memset_zero_at: "n < k \<Longrightarrow> k \<le> 2 ^ 64 \<Longrightarrow> memset_zero mem p k (p + of_nat n) = 0"
  by (simp add: memset_zero_def unat_of_nat take_bit_nat_eq_self)

section \<open>One server\<close>

lemma one_serverConnect:
  assumes "memcached mc store" "responsive mc store" "2 \<le> fuel" "store m SERVER_NUM_KEY = Some (Text (to_string 1))"
  shows "\<exists>m'. serverConnect mc connect fuel 0 1 0 (kp, m) = Inr (1, kp, m') \<and> store m' = store m"
proof -
  obtain f where f: "fuel = Suc (Suc f)" using le_Suc_ex [OF assms(3)] by (auto simp: numeral_2_eq_2)
  obtain r m' where s: "mc_get mc SERVER_NUM_KEY m = (r, m')" by force
  note g = memcached_get [OF assms(1) s]
  have "r \<noteq> None" using responsiveD(2) [OF assms(2), of SERVER_NUM_KEY m m'] s assms(4) by auto
  then have r: "r = Some (Text (to_string 1))" using g(2) assms(4) by auto
  have a: "(of_int (atoi (to_string 1)) :: u32) = 1" by (simp add: read_to_string(2) del: One_nat_def)
  have lt: "unat (0 :: u16) < unat (1 :: u32)" "\<not> unat (1 :: u16) < unat (1 :: u32)" "ucast (1 :: u32) = (1 :: u16)" by simp_all
  have c: "connect_from connect 0 [unat (0 :: u16)..<unat (1 :: u32)] (kp, m') = Inr (kp, m')" by simp
  have "serverConnect mc connect fuel 0 1 0 (kp, m) = serverConnect mc connect (Suc f) 0 1 1 (kp, m')"
    unfolding f by (subst serverConnect.simps(2))
      (simp only: lt(1,3) if_True snd_conv fst_conv s r prod.case option.case as_text_def mc_value.case rbind_simps Let_def a c)
  also have "\<dots> = Inr (1, kp, m')" by (subst serverConnect.simps(2)) (simp only: lt(2) if_False)
  finally show ?thesis using g(1) by blast
qed

lemma one_barrier:
  assumes mc: "memcached mc store" "responsive mc store" and fuel: "0 < fuel"
  shows "\<exists>m'. barrier mc fuel 0 1 k m = Inr m' \<and> store m' (barrier_key k) = Some (Text (to_string 1))"
proof -
  let ?k = "barrier_key k"
  obtain f where f: "fuel = Suc f" using fuel by (cases fuel) auto
  have z: "''0'' = to_string 0" by (simp add: to_string.simps digit_def char_of_def bit_0)
  obtain m1 where 1: "memSet mc fuel ?k (Text ''0'') m = Inr m1" "store m1 = (store m)(?k \<mapsto> Text ''0'')"
    using memSet_ok [OF mc fuel] by blast
  obtain m2 where 2: "mc_incr mc ?k m1 = (Some 1, m2)" "store m2 = (store m1)(?k \<mapsto> Text (to_string 1))"
    using incr_ok [OF mc, of m1 ?k 0] 1(2) z by auto
  obtain m3 where 3: "memGet mc fuel ?k m2 = Inr (Text (to_string 1), m3)" "store m3 = store m2"
    using memGet_ok [OF mc fuel, of m2 ?k "Text (to_string 1)"] 2(2) by auto
  have "stoull (to_string 1) = Inr 1" by (rule read_to_string) simp
  then have "barrier_wait mc fuel 1 ?k m2 = Inr m3" using 3(1) f by (simp add: as_text_def del: memGet.simps One_nat_def)
  moreover have "memFetchAndAdd mc fuel ?k m1 = Inr (1, m2)" using 2(1) f by simp
  ultimately show ?thesis using 1(1) 2(2) 3(2) by (simp add: barrier_def del: One_nat_def)
qed

lemma linked_cong: "kp_thCon Y = kp_thCon Y' \<Longrightarrow> kp_dirCon Y = kp_dirCon Y' \<Longrightarrow> linked st X Y x y = linked st X Y' x y"
  by (simp add: linked_def app_qp_def dir_qp_def)

lemma knows_same: "kp_thCon Y = kp_thCon Y' \<Longrightarrow> kp_dirCon Y = kp_dirCon Y' \<Longrightarrow> knows X Y y = knows X Y' y"
  by (simp add: knows_def split: option.split)

text \<open>The keeper of the only server: it takes number 0 and connects to itself.\<close>

lemma one_keeper:
  assumes mc: "memcached mc store" "responsive mc store" and env: "good_env env st" "makes_handles env st"
    and up: "server_set_up 1 (st (kp_dev X)) (kp_thCon X) (kp_dirCon X)" and X: "length (kp_remoteCon X) = 1"
      "kp_myNodeID X = 0"
    and fuel: "2 \<le> fuel" and num: "store m SERVER_NUM_KEY = Some (Text (to_string 0))" and conf: "connectMemcached conf push = Inr True"
    and fresh: "store m (setKey 0 0) = None"
  shows "\<exists>kp m'. new_DSMKeeper mc env fuel conf push 1 (X, m) = Inr (True, kp, m')
    \<and> kp_thCon kp = kp_thCon X \<and> kp_dirCon kp = kp_dirCon X \<and> kp_myNodeID kp = 0 \<and> linked st kp kp 0 0 \<and> knows kp kp 0"
proof -
  have shape: "shaped 1 X" using up by (simp add: server_set_up_def)
  obtain e where e: "initLocalMeta X = Inr (X\<lparr>kp_meta := e\<rparr>)" using initLocalMeta_ok [OF shape] by blast
  let ?X = "X\<lparr>kp_meta := e\<rparr>"
  have "(0 :: u16) = of_nat 0" by simp
  then have inv: "conn_inv store st 1 (\<lambda>_. ?X) m 0 (peers 1 0, False, ?X)" and sh: "shaped 1 ?X"
    using conn_inv_start [of 1 st X 0 "\<lambda>_. ?X" store m] up X e fresh by simp_all
  have "peers 1 0 = []" by (simp add: peers_def)
  with inv have inv: "conn_inv store st 1 (\<lambda>_. ?X) m 0 ([], False, ?X)" by simp
  obtain m1 where 1: "mc_incr mc SERVER_NUM_KEY m = (Some 1, m1)" "store m1 = (store m)(SERVER_NUM_KEY \<mapsto> Text (to_string 1))"
    using incr_ok [OF mc num] by auto
  have enter: "serverEnter mc fuel m = Inr (0, m1)" using 1(1) fuel by (cases fuel) auto
  obtain m2 where 2: "serverConnect mc (connectNode mc env fuel) fuel 0 1 0 (?X, m1) = Inr (1, ?X, m2)"
    using one_serverConnect [OF mc fuel, of m1 "connectNode mc env fuel" ?X] 1(2) by auto
  obtain kp where 3: "connectMySelf env ?X = Inr kp" "kp_thCon kp = kp_thCon ?X" "kp_dirCon kp = kp_dirCon ?X"
    "kp_myNodeID kp = of_nat 0" "linked st kp ?X 0 0" "knows kp ?X 0"
    using connectMySelf_ok [OF good_envD(1) [OF env(1)] env(2), of 1 "\<lambda>_. ?X" 0 store m False ?X] sh inv by auto
  obtain m3 where 4: "initRouteRule mc fuel kp m2 = Inr m3"
    using memSet_ok [OF mc, of fuel _ _ m2] fuel unfolding initRouteRule_def by fastforce
  have "linked st kp kp 0 0" "knows kp kp 0"
    using 3(2,3,5,6) linked_cong [of kp ?X st kp 0 0] knows_same [of kp ?X kp 0] by simp_all
  moreover have "?X\<lparr>kp_myNodeID := 0\<rparr> = ?X" using X(2) by simp
  ultimately show ?thesis using e conf enter 2 3 4
    by (simp add: new_DSMKeeper_def)
qed

text \<open>(C38) A cluster of one server comes up: on a library that grants what is asked for, with a memcached that
  answers and counts from 0, the constructor of \<^verbatim>\<open>DSM\<close> returns. The server has number 0, its first
  32 MB, which hold the root pointer, are zero, its reliable queue pairs are connected to each other and
  it knows its own memory, its directory has all chunks but the first to give away, and the counter of
  the barrier stands at 1.\<close>

theorem one_server_comes_up:
  assumes "good_env env st" "makes_handles env st" "grants (ve_lib env) B" "length (nic_log nic) + setup_calls 1 \<le> B"
    "\<forall>n. at_state (st (nic_dev nic) n) = QPS_RESET" "memcached mc store" "responsive mc store"
    "store m SERVER_NUM_KEY = Some (Text (to_string 0))" "store m (setKey 0 0) = None" "connectMemcached conf push = Inr True"
    "\<forall>d. unat (fst (ve_mmap env (unat dsmSize * GB) d)) + unat dsmSize * GB + 2 * MB < 2 ^ 64" "0 < dsmSize" "unat dsmSize * GB < 2 ^ 64"
    "unat dsmSize * 512 < fuel"
  shows "\<exists>r dir. new_DSM mc env fuel conf push cacheSize 1 dsmSize (mem, nic, m) = Inr r
    \<and> kp_myNodeID (dsm_keeper r) = 0 \<and> linked st (dsm_keeper r) (dsm_keeper r) 0 0 \<and> knows (dsm_keeper r) (dsm_keeper r) 0
    \<and> (\<forall>n < kChunkSize. dsm_ram r (dsm_baseAddr r + of_nat n) = 0)
    \<and> dsm_dirAgent r = [dir] \<and> bitmap_len (chunckAlloc dir) = unat dsmSize * 32 \<and> bitmap_tail (chunckAlloc dir) = 1
    \<and> store (dsm_memc r) (barrier_key ''DSM-init'') = Some (Text (to_string 1))"
proof -
  obtain cache_data d1 where 1: "ve_mmap env (unat (ucast cacheSize * of_nat GB :: u64)) (nic_dev nic) = (cache_data, d1)" by force
  obtain base d2 where 2: "ve_mmap env (unat (dsmSize * of_nat GB)) d1 = (base, d2)" by force
  have st: "st d2 = st (nic_dev nic)" using good_envD(3) [OF assms(1)] 1 2 by metis
  have gb: "unat (of_nat GB :: u64) = GB" by (simp add: GB_def MB_def)
  then have sz: "unat (dsmSize * of_nat GB) = unat dsmSize * GB"
    using assms(13) unat_mult_lem [of dsmSize "of_nat GB"] by simp
  have b: "unat base + unat dsmSize * GB + 2 * MB < 2 ^ 64"
    using assms(11) 2 sz by (metis fst_conv)
  then have e: "unat (base + dsmSize * of_nat GB) = unat base + unat dsmSize * GB"
    using unat_add_lem [of base "dsmSize * of_nat GB"] sz by simp
  obtain f where f: "fuel = Suc f" "unat dsmSize * 512 \<le> f" using assms(14) by (cases fuel) auto
  have "GB = 512 * (2 * MB)" by (simp add: GB_def)
  then have "unat dsmSize * GB = (unat dsmSize * 512) * (2 * MB)" by simp
  also have "\<dots> \<le> f * (2 * MB)" using f(2) by (rule mult_le_mono1)
  finally obtain mem1 where w: "warm_up fuel base (base + dsmSize * of_nat GB) mem = Inr mem1"
    using warm_up_ok [of "base + dsmSize * of_nat GB" base f mem] e b f(1) by auto
  have one: "unat (1 :: u32) = 1" "unat (ucast (1 :: u32) :: u16) = 1" by simp_all
  obtain th dir nic1 where i: "initRDMAConnection env cache_data (ucast cacheSize) base dsmSize 1 (nic\<lparr>nic_dev := d2\<rparr>) = Inr ((th, dir), nic1)"
    "server_set_up 1 (st (nic_dev nic1)) th dir" "list_all (\<lambda>c. dc_dsmPool c = base \<and> dc_dsmSize c = dsmSize * of_nat GB) dir"
    using connections_set_up_lemma [OF assms(1,3), of "nic\<lparr>nic_dev := d2\<rparr>" 1 cache_data "ucast cacheSize" base dsmSize]
      assms(4,5) st by auto
  let ?X = "\<lparr>kp_thCon = th, kp_dirCon = dir, kp_remoteCon = [None], kp_meta = no_meta, kp_myNodeID = 0, kp_dev = nic_dev nic1\<rparr>"
  have fuel: "2 \<le> fuel" using f assms(12) by (simp add: word_less_nat_alt)
  obtain kp m1 where k: "new_DSMKeeper mc env fuel conf push 1 (?X, m) = Inr (True, kp, m1)"
    "kp_myNodeID kp = 0" "linked st kp kp 0 0" "knows kp kp 0"
    using one_keeper [OF assms(6,7,1,2), of ?X fuel m conf push] i(2) fuel assms(8-10) by auto
  obtain c where c: "dir = [c]" "dc_dsmSize c = dsmSize * of_nat GB"
    using i(2,3) by (auto simp: server_set_up_def server_shape_def NR_DIRECTORY_def length_Suc_conv)
  have "unat dsmSize * GB = (unat dsmSize * 32) * kChunkSize" "kChunkSize \<noteq> 0" by (simp_all add: GB_def kChunkSize_def MB_def)
  then have "unat dsmSize * GB div kChunkSize = unat dsmSize * 32" by (metis nonzero_mult_div_cancel_right)
  moreover have "0 < unat dsmSize" using assms(12) by (simp add: word_less_nat_alt)
  ultimately obtain ns where n: "new_Directory (unat (dc_dsmSize c)) 0 0 = Inr ns" "bitmap_len (chunckAlloc ns) = unat dsmSize * 32"
    "bitmap_tail (chunckAlloc ns) = 1"
    by (simp add: new_Directory_def new_GlobalAllocator_def c(2) sz NR_DIRECTORY_def Let_def)
  obtain m2 where m2: "barrier mc fuel 0 1 ''DSM-init'' m1 = Inr m2" "store m2 (barrier_key ''DSM-init'') = Some (Text (to_string 1))"
    using one_barrier [OF assms(6,7), of fuel] fuel by auto
  have "new_DSM mc env fuel conf push cacheSize 1 dsmSize (mem, nic, m) = Inr \<lparr>dsm_baseAddr = base, dsm_cache_data = cache_data,
      dsm_ram = memset_zero mem1 base kChunkSize, dsm_nic = nic1\<lparr>nic_dev := kp_dev kp\<rparr>, dsm_keeper = kp, dsm_dirAgent = [ns], dsm_memc = m2\<rparr>"
    using 1 2 w i(1) k(1,2) c(1) n(1) m2(1) by (simp add: new_DSM_def one NR_DIRECTORY_def Let_def)
  then show ?thesis using k(2-4) n(2,3) m2(2) memset_zero_at [of _ kChunkSize]
    by (simp add: kChunkSize_def MB_def)
qed

theorem one_server_comes_up_witness:
  "\<exists>r dir. new_DSM map_memc kind_env 600 (Some [''10.0.0.1'', ''11211'']) (\<lambda>_ _. True) 1 1 1
        (\<lambda>_. 7, kind_nic, [SERVER_NUM_KEY \<mapsto> Text (to_string 0)]) = Inr r
    \<and> dsm_dirAgent r = [dir] \<and> bitmap_len (chunckAlloc dir) = 32 \<and> dsm_ram r (dsm_baseAddr r + of_nat 5) = 0"
proof -
  let ?mc = "map_memc :: (ExchangeMeta, string \<Rightarrow> ExchangeMeta mc_value option) memc"
  have calls: "length (nic_log kind_nic) + setup_calls 1 \<le> 2 ^ 32"
    by (simp add: kind_nic_def setup_calls_def MAX_APP_THREAD_def NR_DIRECTORY_def)
  have reset: "\<forall>n. at_state (nic_dev kind_nic n) = QPS_RESET" by (simp add: kind_nic_def zero_attr_def)
  have ah: "makes_handles kind_env (\<lambda>d. d)" by (simp add: kind_env_def makes_handles_def)
  have num: "[SERVER_NUM_KEY \<mapsto> Text (to_string 0)] SERVER_NUM_KEY = Some (Text (to_string 0) :: ExchangeMeta mc_value)" by simp
  have fresh: "[SERVER_NUM_KEY \<mapsto> Text (to_string 0)] (setKey 0 0) = (None :: ExchangeMeta mc_value option)"
    by (simp add: setKey_def SERVER_NUM_KEY_def to_string.simps)
  have conf: "connectMemcached (Some [''10.0.0.1'', ''11211'']) (\<lambda>_ _. True) = Inr True" by code_simp
  have map: "\<forall>d. unat (fst (ve_mmap kind_env (unat (1 :: u64) * GB) d)) + unat (1 :: u64) * GB + 2 * MB < 2 ^ 64"
    by (simp add: kind_env_def GB_def MB_def)
  have small: "0 < (1 :: u64)" "unat (1 :: u64) * GB < 2 ^ 64" "unat (1 :: u64) * 512 < 600" by (simp_all add: GB_def MB_def)
  obtain r dir where r: "new_DSM ?mc kind_env 600 (Some [''10.0.0.1'', ''11211'']) (\<lambda>_ _. True) 1 1 1
        (\<lambda>_. 7, kind_nic, [SERVER_NUM_KEY \<mapsto> Text (to_string 0)]) = Inr r"
    "\<forall>n < kChunkSize. dsm_ram r (dsm_baseAddr r + of_nat n) = 0"
    "dsm_dirAgent r = [dir]" "bitmap_len (chunckAlloc dir) = unat (1 :: u64) * 32"
    using one_server_comes_up [where st = "\<lambda>d. d" and store = "\<lambda>m. m" and nic = kind_nic and mem = "\<lambda>_. 7" and cacheSize = 1
        and m = "[SERVER_NUM_KEY \<mapsto> Text (to_string 0)]" and dsmSize = 1 and fuel = 600, OF kind_env_ok(1) ah kind_env_ok(2) calls reset map_memc_ok num fresh conf map small] by blast
  have "5 < kChunkSize" by (simp add: kChunkSize_def MB_def)
  then have "dsm_ram r (dsm_baseAddr r + of_nat 5) = 0" using r(2) by blast
  then show ?thesis using r(1,3,4) by simp
qed

text \<open>What is put is found: a value that one server puts under a key, however often memcached did
  not answer, is what any server gets under it when only other keys were written since.\<close>

theorem put_get_roundtrip:
  assumes "memcached mc store" "dsm_Put mc fuel key val size_val m = Inr (ret, m1)"
    "store m2 (gam_key key) = store m1 (gam_key key)" "dsm_Get mc fuel' sz key m2 = Inr ((l, x), m3)"
  shows "ret = size_val \<and> x = val \<and> l = sz (Blob val) \<and> (gam_key key = gam_key key' \<longrightarrow> key = key')"
proof -
  have set: "memSet mc f k v a = Inr b \<Longrightarrow> store b k = Some v" for f k v a b
  proof (induction f arbitrary: a)
    case (Suc f)
    then show ?case using memcached_set [OF assms(1)] by (cases "mc_set mc k v a") (auto split: if_splits)
  qed simp
  have get: "memGet mc f k a = Inr (v, b) \<Longrightarrow> store a k = Some v" for f k v a b
  proof (induction f arbitrary: a)
    case (Suc f)
    obtain r a1 where s: "mc_get mc k a = (r, a1)" by force
    then show ?case using Suc.IH [of a1] Suc.prems memcached_get [OF assms(1) s] by (cases r) auto
  qed simp
  have "memSet mc fuel (gam_key key) (Blob val) m = Inr m1" "ret = size_val"
    using assms(2) by (auto simp: dsm_Put_def rbind_Inr_iff)
  note put = set [OF this(1)] this(2)
  obtain v a where g: "memGet mc fuel' (gam_key key) m2 = Inr (v, a)" "as_blob v = Inr x" "l = sz v"
    using assms(4) by (auto simp: dsm_Get_def rbind_Inr_iff simp del: memGet.simps)
  have "store m2 (gam_key key) = Some (Blob x)" "l = sz (Blob x)"
    using get [OF g(1)] g(2,3) by (cases v; simp add: as_blob_def)+
  with put show ?thesis using assms(3) by (auto simp: gam_key_def to_string_inject word_unat_eq_iff)
qed

theorem put_get_roundtrip_witness:
  "\<exists>ret m1 l m3. dsm_Put map_memc 1 5 (9 :: nat) 8 (Map.empty :: string \<Rightarrow> nat mc_value option) = Inr (ret, m1)
    \<and> dsm_Get map_memc 1 (\<lambda>_. 8) 5 m1 = Inr ((l, 9), m3) \<and> l = 8 \<and> ret = 8"
proof -
  let ?mc = "map_memc :: (nat, string \<Rightarrow> nat mc_value option) memc"
  have put: "dsm_Put ?mc 1 5 9 8 Map.empty = Inr (8, [gam_key 5 \<mapsto> Blob 9])"
    by (simp add: dsm_Put_def map_memc_def)
  have get: "dsm_Get ?mc 1 (\<lambda>_. 8) 5 [gam_key 5 \<mapsto> Blob 9] = Inr ((8, 9), [gam_key 5 \<mapsto> Blob 9])"
    by (simp add: dsm_Get_def map_memc_def as_blob_def)
  show ?thesis using put_get_roundtrip [OF map_memc_ok(1) put refl get, of 5] put get by blast
qed

end
