(* ===== verification/Spec2Isabelle.thy ===== *)
theory Spec2Isabelle
  imports MapClaims NodeClaims CacheClaims AllocClaims LockClaims DsmClaims RangeClaims MessageClaims RdmaBuf WriteReadLock TreeCheck CoroClaims InitClaims
begin

text \<open>
  Sherman is a B+ tree on disaggregated memory. Every machine is a compute node and a memory
  node: client threads run the operations of the tree (\<^verbatim>\<open>src/Tree.cpp\<close>) and reach the
  pages by one-sided RDMA (\<^verbatim>\<open>src/DSM.cpp\<close>, \<^verbatim>\<open>src/rdma/Operation.cpp\<close>); the only code
  that runs for remote memory is the directory thread (\<^verbatim>\<open>src/Directory.cpp\<close>), which hands
  out 32 MB chunks and takes announcements of new roots. Pages are guarded by a two-tier lock,
  a ticket lock in each compute node (with bounded hand-over) in front of one word in the on-chip
  memory of the page's node; readers take no lock and check versions. Compute nodes cache the
  pages of level 1 (\<^verbatim>\<open>include/IndexCache.h\<close>).

  \<^bold>\<open>Theories and the code they model.\<close>

  \<^item> \<open>Prelude\<close>: machine integers, results (an error or a value: every \<^verbatim>\<open>assert\<close> and
    \<^verbatim>\<open>exit\<close> is a value of \<open>err\<close>), constants of \<^verbatim>\<open>include/Common.h\<close>, lemmas on folds of
    list updates. \<open>GlobalAddr\<close>: \<^verbatim>\<open>include/GlobalAddress.h\<close>.
  \<^item> \<open>Page\<close>: the page types of \<^verbatim>\<open>include/Tree.h\<close> and what \<^verbatim>\<open>src/Tree.cpp\<close> does on
    the local copy of a page (search, store, delete, split). \<open>LeafProps\<close>, \<open>InternalProps\<close>:
    the map that a leaf stands for and the sorted list of children that an internal page stands
    for. \<open>NodeClaims\<close>: the properties of these routines.
  \<^item> \<open>Alloc\<close>, \<open>Directory\<close>, \<open>DsmAlloc\<close>: \<^verbatim>\<open>include/GlobalAllocator.h\<close>,
    \<^verbatim>\<open>include/LocalAllocator.h\<close>, \<^verbatim>\<open>src/Directory.cpp\<close> and \<^verbatim>\<open>DSM::alloc\<close>. The tree uses
    them through the locale \<open>page_allocator\<close>, interpreted on \<^verbatim>\<open>DSM::alloc\<close>.
    \<open>AllocClaims\<close>: disjoint pages, exhaustion, announcements in any order, and two defects.
  \<^item> \<open>CacheEntry\<close>, \<open>IndexCache\<close>: the cache. The vendored skip list is the ordered list that
    it implements, with the source's comparator. \<open>CacheClaims\<close>: hits, misses, capacity.
  \<^item> \<open>Locks\<close>, \<open>LockProto\<close>, \<open>LockClaims\<close>: the two-tier lock. \<open>Locks\<close> holds its
    operations on the 64-bit ticket word; \<open>LockProto\<close> is their interleaving by any number of
    clients (every atomic access is a step, unlocks may be asynchronous), with the invariant;
    \<open>LockClaims\<close> shows mutual exclusion, refinement of an atomic register, order, bounds, progress,
    and what happens when the counter overflows.
  \<^item> \<open>Verbs\<close>, \<open>DsmOps\<close>, \<open>DsmClaims\<close>: the work requests and polling loops of
    \<^verbatim>\<open>src/rdma/Operation.cpp\<close> and the operations of \<^verbatim>\<open>src/DSM.cpp\<close> over a network that
    is a parameter; each operation waits for its own completion only.
  \<^item> \<open>World\<close>, \<open>TreeOps\<close>: the state of a client thread (remote memory, lock words, root cell,
    cache, path stack, messages under way) and the operations of the tree, whole, with every
    early return, assertion and \<^verbatim>\<open>goto\<close>.
  \<^item> \<open>Blink\<close>, \<open>BlinkSteps\<close>: the shape of the tree as a predicate on remote memory, and the
    three steps that change it (rewrite a page, split a page, add a root).
    \<open>StoreSteps\<close>, \<open>WorldProps\<close>, \<open>WorldSteps\<close>, \<open>TreeInv\<close>: these steps taken by the code.
    \<open>InternalStore\<close>, \<open>LeafStore\<close>, \<open>LeafDel\<close>, \<open>TreeWalk\<close>, \<open>TreeDescend\<close>, \<open>TreeRoot\<close>:
    one operation each. \<open>TreeCorrect\<close>, \<open>TreeApi\<close>, \<open>History\<close>, \<open>MapClaims\<close>: the tree as a map,
    for single operations and for histories. \<open>Example\<close>: a concrete cluster for the witnesses.
  \<^item> \<open>RangeQuery\<close>, \<open>RangeClaims\<close>: \<^verbatim>\<open>Tree::range_query\<close>, its batches of reads and what it answers with a
    cache of the present tree and of an outdated one. \<open>TreeCheck\<close>: \<^verbatim>\<open>Tree::print_and_check_tree\<close> and
    \<^verbatim>\<open>Tree::lock_bench\<close>.
  \<^item> \<open>Coroutines\<close>, \<open>CoroClaims\<close>: the scheduler of a client thread (\<^verbatim>\<open>Tree::coro_master\<close>,
    \<^verbatim>\<open>Tree::coro_worker\<close>), the queue of those that wait for a lock, and that nobody starves.
  \<^item> \<open>Messages\<close>, \<open>MessageClaims\<close>: the rings of \<^verbatim>\<open>src/AbstractMessageConnection.cpp\<close> and
    \<^verbatim>\<open>src/RawMessageConnection.cpp\<close>, who sends where, a client's RPC and the directory's turn.
    \<open>RdmaBuf\<close>: \<^verbatim>\<open>include/RdmaBuffer.h\<close> and \<^verbatim>\<open>DSM::registerThread\<close>.
    \<open>WriteReadLock\<close>: \<^verbatim>\<open>include/WRLock.h\<close>, one atomic access at a time.
  \<^item> \<open>QueuePairs\<close>, \<open>Resources\<close>: \<^verbatim>\<open>src/rdma/StateTrans.cpp\<close>, \<^verbatim>\<open>src/rdma/Utility.cpp\<close> and
    \<^verbatim>\<open>src/rdma/Resource.cpp\<close> over the verbs library, a parameter: the states of queue pairs, and what
    is acquired and given back, as a log of calls.
  \<^item> \<open>Connections\<close>, \<open>ConnClaims\<close>: the constructors of the connections
    (\<^verbatim>\<open>src/ThreadConnection.cpp\<close>, \<^verbatim>\<open>src/DirectoryConnection.cpp\<close>) and
    \<^verbatim>\<open>DSM::initRDMAConnection\<close>: every queue pair is there, different from all others and in reset.
  \<^item> \<open>Keeper\<close>, \<open>KeeperClaims\<close>: \<^verbatim>\<open>src/Keeper.cpp\<close> and the barrier and the sum of
    \<^verbatim>\<open>src/DSMKeeper.cpp\<close>, over memcached, a parameter, in all interleavings of its calls.
  \<^item> \<open>Exchange\<close>, \<open>ExchangeProps\<close>, \<open>ClusterClaims\<close>: the rest of \<^verbatim>\<open>src/DSMKeeper.cpp\<close>: the
    records that servers publish for each other, and the queue pairs that they connect by them. Each
    server goes through the others in order, writes and waits; no interleaving deadlocks, and in the end all
    queue pairs are connected in pairs.
  \<^item> \<open>DsmInit\<close>, \<open>InitClaims\<close>: \<^verbatim>\<open>DSM::DSM\<close> from the memory to the barrier, \<^verbatim>\<open>DSM::getInstance\<close>,
    \<^verbatim>\<open>DSM::Put\<close> and \<^verbatim>\<open>DSM::Get\<close>.

  \<^bold>\<open>Fuel.\<close> Loops whose end is not structural take fuel, and the properties say how
  much is enough: the operations of the tree need at most a number of steps that is linear in the
  number of pages (\<open>tree_pages\<close>), and the properties show that they return then. Running out is
  the error \<open>OutOfFuel\<close>, waiting for a lock or for a page whose versions differ is \<open>Blocked\<close>.
  Connecting \<open>n\<close> servers takes at most \<open>2 * n * n + 1\<close> rounds in which each makes a call of memcached;
  a call that is repeated until it succeeds takes one unit of fuel for each attempt.

  \<^bold>\<open>Concurrency.\<close> The operations of the tree are run one after the other, interleaved
  with the delivery of messages; what makes this view sound for one page is the lock protocol,
  whose interleavings are modelled step by step. Interleavings of whole tree operations of
  several clients are not modelled.

  \<^bold>\<open>Not modelled.\<close> Printing, timers and sleeps; the mapping of huge pages, which is a parameter,
  and core binding; leaving memcached; statistics of the tree and the cache, which only print;
  the vendored skip list; benchmarks and tests. The verbs library, memcached, CityHash64, the time-stamp
  counter and \<^verbatim>\<open>rand_r\<close> are parameters, with their documented behaviour as named predicates
  (\<open>memcached\<close>, \<open>responsive\<close>, \<open>good_env\<close>, \<open>grants\<close>, \<open>makes_handles\<close>), each of which is shown to hold of a
  concrete instance.
\<close>

end
